(* ===== verification/HydraPrelude.thy ===== *)
theory HydraPrelude
  imports Main "HOL-Library.Word" "HOL-Library.AList" "HOL-Library.Sublist"
begin

text \<open>
  What every component of the model shares: the machine integers and byte strings of
  the Rust code, big-endian encoding, UTF-8 validity, the string operations of the
  Rust standard library the sources call (split, trim, strip, case folding, integer
  parsing and printing), the error values, and the collections of rewrite rules the
  component theories add to.

  A \<open>Vec<u8>\<close> or \<open>&[u8]\<close> is a list of bytes. A Rust \<open>String\<close> or \<open>&str\<close> is an
  Isabelle \<open>string\<close> whose characters are the bytes of its UTF-8 encoding, so lengths,
  offsets and separators mean what they mean in the code.
\<close>

unbundle bit_operations_syntax

named_theorems codec_simps \<open>encoders and decoders of the wire formats\<close>
named_theorems str_simps \<open>string operations of the Rust standard library\<close>
named_theorems table_simps \<open>association lists that stand for hash maps\<close>

type_synonym byte = "8 word"
type_synonym u16 = "16 word"
type_synonym u32 = "32 word"
type_synonym u64 = "64 word"
type_synonym u128 = "128 word"

section \<open>Errors\<close>

text \<open>
  \<open>HydraError\<close> of \<open>hydra-protocol/src/error.rs\<close>. The message texts only reach logs;
  the model keeps a short English tag of each message, so that every error branch of
  the code stays a branch of its own. \<open>'a res\<close> is the crate's \<open>Result<T>\<close>.
\<close>

datatype hydra_error =
    ConnectionError string
  | TargetUnreachable string
  | ProtocolError string
  | SessionError string
  | NodeError string
  | IoError string
  | SerializationError string
  | TlsError string
  | AddrParseError string

type_synonym 'a res = "hydra_error + 'a"

definition bind_res :: "'a res \<Rightarrow> ('a \<Rightarrow> 'b res) \<Rightarrow> 'b res" where
  "bind_res r f = (case r of Inl e \<Rightarrow> Inl e | Inr x \<Rightarrow> f x)"

lemma bind_res_simps [simp]:
  "bind_res (Inl e) f = Inl e"
  "bind_res (Inr x) f = f x"
  by (simp_all add: bind_res_def)

lemma bind_res_Inr: "bind_res r f = Inr y \<longleftrightarrow> (\<exists>x. r = Inr x \<and> f x = Inr y)"
  by (cases r) auto

definition is_ok :: "'e + 'a \<Rightarrow> bool" where
  "is_ok r = (case r of Inl _ \<Rightarrow> False | Inr _ \<Rightarrow> True)"

lemma is_ok_simps [simp]: "is_ok (Inr x)" "\<not> is_ok (Inl e)"
  by (simp_all add: is_ok_def)

section \<open>Big-endian integers\<close>

text \<open>\<open>be_bytes n v\<close> is \<open>to_be_bytes\<close> of an integer of \<open>n\<close> bytes, \<open>be_nat\<close> its inverse
  (\<open>from_be_bytes\<close>); both read the value as a natural number.\<close>

fun be_bytes :: "nat \<Rightarrow> nat \<Rightarrow> byte list" where
  "be_bytes 0 v = []"
| "be_bytes (Suc n) v = of_nat (v div 256 ^ n) # be_bytes n v"

fun be_nat :: "byte list \<Rightarrow> nat" where
  "be_nat [] = 0"
| "be_nat (b # bs) = unat b * 256 ^ length bs + be_nat bs"

lemma length_be_bytes [simp]: "length (be_bytes n v) = n"
  by (induction n) auto

lemma unat_byte_less [simp]: "unat (b :: byte) < 256"
  using unsigned_less [of b] by simp

lemma unat_byte_of_nat: "unat (of_nat n :: byte) = n mod 256"
  by (simp add: unat_of_nat)

lemma be_nat_be_bytes [codec_simps]: "be_nat (be_bytes n v) = v mod 256 ^ n"
proof (induction n)
  case 0
  then show ?case by simp
next
  case (Suc n)
  have "v mod (256 ^ n * 256) = 256 ^ n * (v div 256 ^ n mod 256) + v mod 256 ^ n"
    by (rule mod_mult2_eq)
  with Suc show ?case
    by (simp add: unat_byte_of_nat mult.commute)
qed

lemma be_nat_less: "be_nat bs < 256 ^ length bs"
proof (induction bs)
  case (Cons b bs)
  have "unat b * 256 ^ length bs + be_nat bs < (unat b + 1) * 256 ^ length bs"
    using Cons by simp
  also have "\<dots> \<le> 256 * 256 ^ length bs"
    by (rule mult_le_mono1) (use unat_byte_less [of b] in linarith)
  finally show ?case by simp
qed simp

lemma be_bytes_add:
  "be_bytes n (a * 256 ^ n + v) = be_bytes n v"
proof (induction n arbitrary: a v)
  case (Suc n)
  have eq: "a * 256 ^ Suc n + v = (a * 256) * 256 ^ n + v" by simp
  have "(a * 256 ^ Suc n + v) div 256 ^ n = a * 256 + v div 256 ^ n"
    unfolding eq by simp
  moreover have "of_nat (a * 256 + v div 256 ^ n) = (of_nat (v div 256 ^ n) :: byte)"
    by (metis mod_mult_self3 unat_byte_of_nat word_unat_eq_iff)
  ultimately show ?case
    using Suc.IH [of "a * 256" v] by (simp add: eq [symmetric])
qed simp

lemma be_bytes_be_nat [codec_simps]: "be_bytes (length bs) (be_nat bs) = bs"
proof (induction bs)
  case (Cons b bs)
  have "(unat b * 256 ^ length bs + be_nat bs) div 256 ^ length bs = unat b"
    using be_nat_less [of bs] by simp
  then show ?case
    using Cons by (simp add: be_bytes_add)
qed simp

definition u16_be :: "u16 \<Rightarrow> byte list" where
  "u16_be w = be_bytes 2 (unat w)"

definition be_u16 :: "byte list \<Rightarrow> u16" where
  "be_u16 bs = of_nat (be_nat bs)"

definition u32_be :: "u32 \<Rightarrow> byte list" where
  "u32_be w = be_bytes 4 (unat w)"

definition be_u32 :: "byte list \<Rightarrow> u32" where
  "be_u32 bs = of_nat (be_nat bs)"

lemma length_u16_be [simp]: "length (u16_be w) = 2"
  by (simp add: u16_be_def)

lemma length_u32_be [simp]: "length (u32_be w) = 4"
  by (simp add: u32_be_def)

lemma be_u16_u16_be [simp, codec_simps]: "be_u16 (u16_be w) = w"
proof -
  have "unat w < 65536" using unsigned_less [of w] by simp
  then show ?thesis
    by (simp add: be_u16_def u16_be_def be_nat_be_bytes)
qed

lemma be_u32_u32_be [simp, codec_simps]: "be_u32 (u32_be w) = w"
proof -
  have "unat w < 4294967296" using unsigned_less [of w] by simp
  then show ?thesis
    by (simp add: be_u32_def u32_be_def be_nat_be_bytes)
qed

lemma u16_be_be_u16: "length bs = 2 \<Longrightarrow> u16_be (be_u16 bs) = bs"
  using be_nat_less [of bs] be_bytes_be_nat [of bs]
  by (simp add: u16_be_def be_u16_def unat_of_nat)

lemma unat_be_u16: "length bs = 2 \<Longrightarrow> unat (be_u16 bs) = be_nat bs"
  using be_nat_less [of bs] by (simp add: be_u16_def unat_of_nat)

lemma be_u16_take_append [simp]: "be_u16 (take 2 (u16_be w @ bs)) = w"
  by simp

lemma unat_u16_less [simp]: "unat (w :: u16) < 65536"
  using unsigned_less [of w] by simp

lemma unat_u16_of_nat [simp]: "n < 65536 \<Longrightarrow> unat (of_nat n :: u16) = n"
  by (simp add: unat_of_nat)

lemma bit_byte: "bit (y :: byte) n \<Longrightarrow> n < 8"
  using bit_imp_le_length [of y n] by simp

lemma be_u16_pair_eq: "be_u16 [x, y] = push_bit 8 (ucast x) OR ucast y"
proof -
  have "(push_bit 8 (ucast x) :: u16) AND ucast y = 0"
    by (rule bit_word_eqI) (auto simp: bit_simps dest: bit_byte)
  then have "(push_bit 8 (ucast x) :: u16) OR ucast y = push_bit 8 (ucast x) + ucast y"
    by (simp add: disjunctive_add_eq_or)
  also have "... = of_nat (be_nat [x, y])"
    by (simp add: push_bit_eq_mult ac_simps)
  finally show ?thesis by (simp add: be_u16_def)
qed

lemma be_u16_bytes:
  "ucast (drop_bit 8 (be_u16 [x, y])) = x" "ucast (be_u16 [x, y] AND 0xff) = y"
proof -
  show "ucast (drop_bit 8 (be_u16 [x, y])) = x"
    unfolding be_u16_pair_eq by (rule bit_word_eqI) (auto simp: bit_simps dest: bit_byte)
  have "(0xff :: u16) = mask 8" by (simp add: mask_eq_exp_minus_1)
  then show "ucast (be_u16 [x, y] AND 0xff) = y"
    unfolding be_u16_pair_eq
    by (simp only: \<open>(0xff :: u16) = mask 8\<close>)
       (rule bit_word_eqI, auto simp: bit_simps simp del: mask_numeral dest: bit_byte)
qed

lemma be_u16_inject [simp]: "be_u16 [x, y] = be_u16 [x', y'] \<longleftrightarrow> x = x' \<and> y = y'"
  by (metis be_u16_bytes)

section \<open>Blocks of words\<close>

lemma word_le_or: "(x :: 'w::len word) \<le> x OR y"
  by (simp add: word_le_def unsigned_or_eq or_greater_eq)

text \<open>The range under a mask of \<open>k\<close> host bits is the block of the addresses that agree above them.\<close>

lemma drop_bit_mono_word: "(x :: 'w::len word) \<le> y \<Longrightarrow> drop_bit k x \<le> drop_bit k y"
  unfolding word_le_nat_alt unat_drop_bit_eq by (simp add: drop_bit_eq_div div_le_mono)

lemma masked_block:
  fixes v x :: "'w::len word"
  shows "v AND NOT (mask k) \<le> x \<and> x \<le> (v AND NOT (mask k)) OR mask k \<longleftrightarrow> drop_bit k x = drop_bit k v"
proof
  have lo: "drop_bit k (v AND NOT (mask k)) = drop_bit k v"
    and hi: "drop_bit k ((v AND NOT (mask k)) OR mask k) = drop_bit k v"
    by (rule bit_word_eqI, auto simp: bit_simps dest: bit_imp_le_length)+
  assume "v AND NOT (mask k) \<le> x \<and> x \<le> (v AND NOT (mask k)) OR mask k"
  then have "drop_bit k v \<le> drop_bit k x" "drop_bit k x \<le> drop_bit k v"
    using drop_bit_mono_word [of "v AND NOT (mask k)" x k, unfolded lo]
      drop_bit_mono_word [of x "(v AND NOT (mask k)) OR mask k" k, unfolded hi] by blast+
  then show "drop_bit k x = drop_bit k v" by (rule antisym [rotated])
next
  assume e: "drop_bit k x = drop_bit k v"
  have "bit x n = bit v n" if "k \<le> n" for n
    using arg_cong [OF e, of "\<lambda>w. bit w (n - k)"] that by (simp add: bit_drop_bit_eq)
  then have same: "x AND NOT (mask k) = v AND NOT (mask k)"
    by (intro bit_word_eqI) (auto simp: bit_simps not_less)
  have "x \<le> (x AND NOT (mask k)) OR mask k"
  proof -
    have "(x AND NOT (mask k)) OR mask k = x OR mask k" by (rule bit_word_eqI) (auto simp: bit_simps)
    then show ?thesis by (simp add: word_le_or)
  qed
  moreover have "x AND NOT (mask k) \<le> x" by (rule word_and_le2)
  ultimately show "v AND NOT (mask k) \<le> x \<and> x \<le> (v AND NOT (mask k)) OR mask k" by (simp add: same)
qed

text \<open>A test of the high bits is a test of a range.\<close>

lemma masked_range:
  fixes x :: "'w::len word"
  assumes "v AND NOT (mask k) = v"
  shows "x AND NOT (mask k) = v \<longleftrightarrow> v \<le> x \<and> x \<le> v OR mask k"
proof -
  have "x AND NOT (mask k) = v AND NOT (mask k) \<longleftrightarrow> drop_bit k x = drop_bit k v"
  proof
    assume e: "x AND NOT (mask k) = v AND NOT (mask k)"
    have "bit x (k + n) = bit v (k + n)" for n
      using arg_cong [OF e, of "\<lambda>w. bit w (k + n)"] by (auto simp: bit_simps dest: bit_imp_le_length)
    then show "drop_bit k x = drop_bit k v" by (intro bit_word_eqI) (simp add: bit_drop_bit_eq)
  next
    assume e: "drop_bit k x = drop_bit k v"
    have "bit x n = bit v n" if "k \<le> n" for n
      using arg_cong [OF e, of "\<lambda>w. bit w (n - k)"] that by (simp add: bit_drop_bit_eq)
    then show "x AND NOT (mask k) = v AND NOT (mask k)"
      by (intro bit_word_eqI) (auto simp: bit_simps not_less)
  qed
  then show ?thesis using masked_block [of v k x] by (simp add: assms)
qed

end
