(* ===== verification/Tables.thy ===== *)
theory Tables
  imports HydraPrelude "HOL-Library.Multiset"
begin

text \<open>
  Hash maps and sorting. A \<open>HashMap\<close> is an association list with distinct keys, whose
  order stands for the iteration order the program may not rely on; \<open>AList.update\<close> is
  \<open>insert\<close>, \<open>AList.delete\<close> is \<open>remove\<close>, \<open>map_of\<close> is \<open>get\<close>. \<open>sort_by\<close> is the stable
  \<open>slice::sort_by\<close>, given the test that the comparison is not \<open>Greater\<close>. The locale
  \<open>guarded_table\<close> is the contract of a table whose operations keep an invariant, with
  what its users rely on: the invariant after any sequence of operations.
\<close>

section \<open>Hash maps\<close>

abbreviation table_ok :: "('k \<times> 'v) list \<Rightarrow> bool" where
  "table_ok t \<equiv> distinct (map fst t)"

lemma length_update_new [table_simps]:
  "k \<notin> fst ` set t \<Longrightarrow> length (AList.update k v t) = Suc (length t)"
  by (induction t) auto

lemma length_update_old [table_simps]:
  "k \<in> fst ` set t \<Longrightarrow> length (AList.update k v t) = length t"
  by (induction t) auto

lemma length_update_le: "length (AList.update k v t) \<le> Suc (length t)"
  by (induction t) auto

lemma length_delete_old [table_simps]:
  "table_ok t \<Longrightarrow> k \<in> fst ` set t \<Longrightarrow> Suc (length (AList.delete k t)) = length t"
proof (induction t)
  case (Cons p t)
  then show ?case
    by (cases p) auto
qed simp

lemma length_delete_le': "length (AList.delete k t) \<le> length t"
  by (rule length_delete_le)

lemma map_of_in_dom: "(\<exists>v. map_of t k = Some v) \<longleftrightarrow> k \<in> fst ` set t"
  by (metis domIff dom_map_of_conv_image_fst not_None_eq)

lemma map_of_eq_SomeI: "table_ok t \<Longrightarrow> (k, v) \<in> set t \<Longrightarrow> map_of t k = Some v"
  by simp

lemma table_ok_filter: "table_ok t \<Longrightarrow> table_ok (filter P t)"
  by (induction t) auto

lemma map_of_filter_key:
  "map_of (filter (\<lambda>p. P (fst p)) t) k = (if P k then map_of t k else None)"
  by (induction t) auto

lemma table_ok_delete: "table_ok t \<Longrightarrow> table_ok (AList.delete k t)"
  by (simp add: AList.delete_eq distinct_map_filter)

lemma delete_subset: "set (AList.delete k t) \<subseteq> set t"
  by (auto simp: AList.delete_eq)

lemma in_update_iff:
  "table_ok t \<Longrightarrow> (k', v') \<in> set (AList.update k v t) \<longleftrightarrow>
     (if k' = k then v' = v else (k', v') \<in> set t)"
proof -
  assume "table_ok t"
  then have "table_ok (AList.update k v t)" by (rule distinct_update)
  then have "(k', v') \<in> set (AList.update k v t) \<longleftrightarrow> map_of (AList.update k v t) k' = Some v'"
    by simp
  also have "\<dots> \<longleftrightarrow> (if k' = k then v' = v else (k', v') \<in> set t)"
    using \<open>table_ok t\<close> by (auto simp: update_conv')
  finally show ?thesis .
qed

lemma update_new: "map_of t k = None \<Longrightarrow> AList.update k e t = t @ [(k, e)]"
  by (induction t) auto

section \<open>Sorting\<close>

fun insert_by :: "('a \<Rightarrow> 'a \<Rightarrow> bool) \<Rightarrow> 'a \<Rightarrow> 'a list \<Rightarrow> 'a list" where
  "insert_by le x [] = [x]"
| "insert_by le x (y # ys) = (if le x y then x # y # ys else y # insert_by le x ys)"

definition sort_by :: "('a \<Rightarrow> 'a \<Rightarrow> bool) \<Rightarrow> 'a list \<Rightarrow> 'a list" where
  "sort_by le xs = foldr (insert_by le) xs []"

lemma mset_insert_by [simp]: "mset (insert_by le x xs) = add_mset x (mset xs)"
  by (induction xs) auto

lemma mset_sort_by [simp]: "mset (sort_by le xs) = mset xs"
  unfolding sort_by_def by (induction xs) auto

lemma set_insert_by [simp]: "set (insert_by le x xs) = insert x (set xs)"
  by (induction xs) auto

lemma set_sort_by [simp]: "set (sort_by le xs) = set xs"
  by (metis mset_sort_by set_mset_mset)

lemma length_sort_by [simp]: "length (sort_by le xs) = length xs"
  by (metis mset_sort_by size_mset)

lemma distinct_sort_by [simp]: "distinct (sort_by le xs) = distinct xs"
  by (metis distinct_count_atmost_1 mset_sort_by set_sort_by)

lemma sorted_insert_by:
  assumes "\<And>a b. le a b \<or> le b a" "\<And>a b c. le a b \<Longrightarrow> le b c \<Longrightarrow> le a c"
  shows "sorted_wrt le xs \<Longrightarrow> sorted_wrt le (insert_by le x xs)"
  by (induction xs) (use assms in \<open>auto 4 4\<close>)

lemma sorted_sort_by:
  assumes "\<And>a b. le a b \<or> le b a" "\<And>a b c. le a b \<Longrightarrow> le b c \<Longrightarrow> le a c"
  shows "sorted_wrt le (sort_by le xs)"
  unfolding sort_by_def
  by (induction xs) (use assms in \<open>auto intro!: sorted_insert_by\<close>)

lemma sorted_wrt_unique:
  assumes "mset xs = mset ys" "sorted_wrt le xs" "sorted_wrt le ys"
    and "\<And>a b. a \<in> set xs \<Longrightarrow> b \<in> set xs \<Longrightarrow> le a b \<Longrightarrow> le b a \<Longrightarrow> a = b"
  shows "xs = ys"
  using assms
proof (induction xs arbitrary: ys)
  case (Cons x xs)
  then obtain y zs where ys: "ys = y # zs" by (cases ys) auto
  have eq: "set (x # xs) = set (y # zs)" using Cons.prems(1) ys by (metis set_mset_mset)
  have xy: "x = y"
  proof (rule ccontr)
    assume "x \<noteq> y"
    then have "x \<in> set zs" "y \<in> set xs" using eq by auto
    then have "le y x" "le x y" using Cons.prems(2,3) ys by auto
    with Cons.prems(4) [of x y] \<open>y \<in> set xs\<close> \<open>x \<noteq> y\<close> show False by auto
  qed
  have "xs = zs"
  proof (rule Cons.IH)
    show "mset xs = mset zs" using Cons.prems(1) ys xy by simp
    show "sorted_wrt le xs" "sorted_wrt le zs" using Cons.prems(2,3) ys by auto
    show "\<And>a b. a \<in> set xs \<Longrightarrow> b \<in> set xs \<Longrightarrow> le a b \<Longrightarrow> le b a \<Longrightarrow> a = b"
      using Cons.prems(4) by simp
  qed
  then show ?case using ys xy by simp
qed simp

section \<open>Smallest elements\<close>

text \<open>\<open>Iterator::min_by_key\<close>: the first of the smallest elements.\<close>

fun min_by :: "('a \<Rightarrow> nat) \<Rightarrow> 'a list \<Rightarrow> 'a option" where
  "min_by f [] = None"
| "min_by f (x # xs) = Some (fold (\<lambda>y m. if f y < f m then y else m) xs x)"

lemma min_by_mem: "min_by f xs = Some x \<Longrightarrow> x \<in> set xs \<and> (\<forall>y\<in>set xs. f x \<le> f y)"
proof (cases xs)
  case (Cons y ys)
  have "let m = fold (\<lambda>y m. if f y < f m then y else m) ys y in
      m \<in> insert y (set ys) \<and> (\<forall>z\<in>insert y (set ys). f m \<le> f z)" for y
  proof (induction ys arbitrary: y)
    case (Cons a ys)
    define w where "w = (if f a < f y then a else y)"
    define m where "m = fold (\<lambda>y m. if f y < f m then y else m) ys w"
    have "m \<in> insert w (set ys)" "f m \<le> f w" "\<forall>z\<in>set ys. f m \<le> f z"
      using Cons.IH [of w] by (simp_all add: m_def Let_def)
    moreover have "f w \<le> f a" "f w \<le> f y" "w \<in> {a, y}" by (auto simp: w_def)
    ultimately have "m \<in> insert y (set (a # ys)) \<and> (\<forall>z\<in>insert y (set (a # ys)). f m \<le> f z)"
      by auto
    then show ?case by (simp add: m_def w_def Let_def)
  qed simp
  then show "min_by f xs = Some x \<Longrightarrow> ?thesis" using Cons by (auto simp: Let_def)
qed simp

lemma min_by_None: "min_by f xs = None \<longleftrightarrow> xs = []"
  by (cases xs) auto

section \<open>Tables with an invariant\<close>

locale guarded_table =
  fixes init :: 's
    and apply_op :: "'op \<Rightarrow> 's \<Rightarrow> 's"
    and inv :: "'s \<Rightarrow> bool"
  assumes inv_init: "inv init"
    and inv_op: "inv s \<Longrightarrow> inv (apply_op op s)"
begin

lemma inv_run_from: "inv s \<Longrightarrow> inv (fold apply_op ops s)"
  by (induction ops arbitrary: s) (auto simp: inv_op)

lemma inv_run: "inv (fold apply_op ops init)"
  by (rule inv_run_from [OF inv_init])

end

end
