(* ===== verification/RustStr.thy ===== *)
theory RustStr
  imports HydraPrelude
begin

text \<open>
  The operations of Rust's \<open>str\<close> and \<open>[u8]\<close> that the sources call, over the bytes of
  the UTF-8 text: validity (\<open>str::from_utf8\<close>), \<open>trim\<close> with the Unicode white-space
  characters, \<open>split\<close>, \<open>split_once\<close>, \<open>rsplit_once\<close>, \<open>strip_prefix\<close>, ASCII case folding,
  unsigned \<open>parse\<close> and the decimal \<open>Display\<close> of an integer, with the round trips the
  components use.
\<close>

section \<open>Bytes and text\<close>

definition as_bytes :: "string \<Rightarrow> byte list" where
  "as_bytes s = map (\<lambda>c. of_nat (of_char c)) s"

definition of_bytes :: "byte list \<Rightarrow> string" where
  "of_bytes bs = map (\<lambda>b. char_of (unat b)) bs"

lemma of_char_less [simp]: "of_char c < (256 :: nat)"
  using nat_of_char_less_256 [of c] by simp

lemma of_bytes_as_bytes [simp, codec_simps]: "of_bytes (as_bytes s) = s"
  by (simp add: of_bytes_def as_bytes_def o_def unat_byte_of_nat)

lemma as_bytes_of_bytes [simp, codec_simps]: "as_bytes (of_bytes bs) = bs"
  by (simp add: of_bytes_def as_bytes_def o_def map_idI)

lemma length_as_bytes [simp]: "length (as_bytes s) = length s"
  by (simp add: as_bytes_def)

lemma length_of_bytes [simp]: "length (of_bytes bs) = length bs"
  by (simp add: of_bytes_def)

lemma as_bytes_append: "as_bytes (s @ t) = as_bytes s @ as_bytes t"
  by (simp add: as_bytes_def)

lemma as_bytes_inject [simp]: "as_bytes s = as_bytes t \<longleftrightarrow> s = t"
  by (metis of_bytes_as_bytes)

text \<open>
  The length of the well-formed UTF-8 sequence a byte string starts with, 0 when it
  starts with none (the table of well-formed sequences \<open>core::str\<close> checks).
\<close>

definition utf8_cont :: "byte \<Rightarrow> bool" where
  "utf8_cont b \<longleftrightarrow> 128 \<le> b \<and> b \<le> 191"

fun utf8_len :: "byte list \<Rightarrow> nat" where
  "utf8_len [] = 0"
| "utf8_len (a # r) =
    (if a < 128 then 1
     else if 194 \<le> a \<and> a \<le> 223 then
       (case r of b # _ \<Rightarrow> if utf8_cont b then 2 else 0 | _ \<Rightarrow> 0)
     else if 224 \<le> a \<and> a \<le> 239 then
       (case r of b # c # _ \<Rightarrow>
          if utf8_cont b \<and> utf8_cont c \<and> (a = 224 \<longrightarrow> 160 \<le> b) \<and> (a = 237 \<longrightarrow> b \<le> 159)
          then 3 else 0 | _ \<Rightarrow> 0)
     else if 240 \<le> a \<and> a \<le> 244 then
       (case r of b # c # d # _ \<Rightarrow>
          if utf8_cont b \<and> utf8_cont c \<and> utf8_cont d \<and> (a = 240 \<longrightarrow> 144 \<le> b) \<and> (a = 244 \<longrightarrow> b \<le> 143)
          then 4 else 0 | _ \<Rightarrow> 0)
     else 0)"

function utf8_valid :: "byte list \<Rightarrow> bool" where
  "utf8_valid bs =
    (if bs = [] then True
     else if utf8_len bs = 0 then False
     else utf8_valid (drop (utf8_len bs) bs))"
  by pat_completeness auto
termination
proof (relation "measure length")
  fix bs :: "byte list"
  assume "\<not> bs = []" and "utf8_len bs \<noteq> 0"
  then show "(drop (utf8_len bs) bs, bs) \<in> measure length"
    by (cases bs) auto
qed (rule wf_measure)

declare utf8_valid.simps [simp del]

lemma utf8_valid_Nil [simp]: "utf8_valid []"
  by (subst utf8_valid.simps) simp

lemma utf8_valid_ascii [simp]: "a < 128 \<Longrightarrow> utf8_valid (a # r) = utf8_valid r"
  by (subst utf8_valid.simps) simp

definition from_utf8 :: "byte list \<Rightarrow> string option" where
  "from_utf8 bs = (if utf8_valid bs then Some (of_bytes bs) else None)"

text \<open>A value of type \<open>String\<close> or \<open>&str\<close>: its bytes are valid UTF-8.\<close>

definition is_str :: "string \<Rightarrow> bool" where
  "is_str s \<longleftrightarrow> utf8_valid (as_bytes s)"

definition is_ascii :: "string \<Rightarrow> bool" where
  "is_ascii s \<longleftrightarrow> (\<forall>c\<in>set s. of_char c < (128 :: nat))"

lemma is_ascii_is_str: "is_ascii s \<Longrightarrow> is_str s"
proof (induction s)
  case Nil
  then show ?case by (simp add: is_str_def as_bytes_def)
next
  case (Cons c s)
  then have "of_nat (of_char c) < (128 :: byte)"
    by (simp add: is_ascii_def word_less_nat_alt unat_byte_of_nat)
  with Cons show ?case
    by (simp add: is_str_def as_bytes_def is_ascii_def)
qed

lemma from_utf8_as_bytes [simp]: "is_str s \<Longrightarrow> from_utf8 (as_bytes s) = Some s"
  by (simp add: from_utf8_def is_str_def)

lemma from_utf8_SomeD: "from_utf8 bs = Some s \<Longrightarrow> as_bytes s = bs \<and> is_str s"
  by (auto simp: from_utf8_def is_str_def split: if_splits)

section \<open>Splitting and stripping\<close>

fun split_on :: "'a \<Rightarrow> 'a list \<Rightarrow> 'a list list" where
  "split_on c [] = [[]]"
| "split_on c (x # xs) =
    (if x = c then [] # split_on c xs
     else (case split_on c xs of [] \<Rightarrow> [[x]] | p # ps \<Rightarrow> (x # p) # ps))"

lemma split_on_not_Nil [simp]: "split_on c xs \<noteq> []"
  by (induction xs) (auto split: list.splits)

lemma split_on_none: "c \<notin> set xs \<Longrightarrow> split_on c xs = [xs]"
  by (induction xs) auto

lemma split_on_append_sep:
  "c \<notin> set xs \<Longrightarrow> split_on c (xs @ c # ys) = xs # split_on c ys"
  by (induction xs) auto

fun split_once :: "'a \<Rightarrow> 'a list \<Rightarrow> ('a list \<times> 'a list) option" where
  "split_once c [] = None"
| "split_once c (x # xs) =
    (if x = c then Some ([], xs)
     else map_option (\<lambda>(a, b). (x # a, b)) (split_once c xs))"

definition rsplit_once :: "'a \<Rightarrow> 'a list \<Rightarrow> ('a list \<times> 'a list) option" where
  "rsplit_once c xs = map_option (\<lambda>(a, b). (rev b, rev a)) (split_once c (rev xs))"

lemma split_once_None_iff: "split_once c xs = None \<longleftrightarrow> c \<notin> set xs"
  by (induction xs) auto

lemma split_once_Some_iff:
  "split_once c xs = Some (a, b) \<longleftrightarrow> xs = a @ c # b \<and> c \<notin> set a"
proof (induction xs arbitrary: a)
  case (Cons x xs)
  show ?case
  proof (cases "x = c")
    case True
    then show ?thesis by (cases a) auto
  next
    case False
    show ?thesis
    proof (cases a)
      case Nil
      with False show ?thesis by (cases "split_once c xs") auto
    next
      case (Cons y a')
      with False Cons.IH [of a'] show ?thesis
        by (cases "split_once c xs") auto
    qed
  qed
qed simp

lemma split_once_append [str_simps]:
  "c \<notin> set a \<Longrightarrow> split_once c (a @ c # b) = Some (a, b)"
  by (simp add: split_once_Some_iff)

lemma rsplit_once_append [str_simps]:
  "c \<notin> set b \<Longrightarrow> rsplit_once c (a @ c # b) = Some (a, b)"
proof -
  assume "c \<notin> set b"
  then have "split_once c (rev b @ c # rev a) = Some (rev b, rev a)"
    by (simp add: split_once_append)
  then show ?thesis by (simp add: rsplit_once_def)
qed

lemma rsplit_once_Some_iff:
  "rsplit_once c xs = Some (a, b) \<longleftrightarrow> xs = a @ c # b \<and> c \<notin> set b"
proof
  assume "rsplit_once c xs = Some (a, b)"
  then obtain a' b' where "split_once c (rev xs) = Some (a', b')" "a = rev b'" "b = rev a'"
    by (auto simp: rsplit_once_def)
  then have "rev (rev xs) = rev (a' @ c # b')" "c \<notin> set a'"
    by (auto simp: split_once_Some_iff)
  then show "xs = a @ c # b \<and> c \<notin> set b"
    using \<open>a = rev b'\<close> \<open>b = rev a'\<close> by simp
qed (auto simp: rsplit_once_append)

lemma rsplit_once_None_iff: "rsplit_once c xs = None \<longleftrightarrow> c \<notin> set xs"
  by (auto simp: rsplit_once_def split_once_None_iff)

fun strip_prefix :: "'a list \<Rightarrow> 'a list \<Rightarrow> 'a list option" where
  "strip_prefix [] ys = Some ys"
| "strip_prefix (x # xs) [] = None"
| "strip_prefix (x # xs) (y # ys) = (if x = y then strip_prefix xs ys else None)"

lemma strip_prefix_Some_iff: "strip_prefix p ys = Some r \<longleftrightarrow> ys = p @ r"
  by (induction p ys rule: strip_prefix.induct) auto

lemma strip_prefix_append [simp]: "strip_prefix p (p @ r) = Some r"
  by (simp add: strip_prefix_Some_iff)

lemma strip_prefix_None_iff: "strip_prefix p ys = None \<longleftrightarrow> \<not> prefix p ys"
  by (auto simp: prefix_def strip_prefix_Some_iff [symmetric]
      dest: not_None_eq [THEN iffD1] intro: ccontr)

definition strip_suffix :: "'a list \<Rightarrow> 'a list \<Rightarrow> 'a list option" where
  "strip_suffix p ys = map_option rev (strip_prefix (rev p) (rev ys))"

definition contains :: "'a list \<Rightarrow> 'a list \<Rightarrow> bool" where
  "contains needle hay \<longleftrightarrow> list_ex (\<lambda>t. strip_prefix needle t \<noteq> None) (suffixes hay)"

text \<open>\<open>trim_start_matches\<close> and \<open>trim_end_matches\<close> of one character.\<close>

definition trim_start_char :: "'a \<Rightarrow> 'a list \<Rightarrow> 'a list" where
  "trim_start_char c = dropWhile (\<lambda>x. x = c)"

definition trim_end_char :: "'a \<Rightarrow> 'a list \<Rightarrow> 'a list" where
  "trim_end_char c xs = rev (dropWhile (\<lambda>x. x = c) (rev xs))"

definition starts_with :: "'a list \<Rightarrow> 'a list \<Rightarrow> bool" where
  "starts_with s p = prefix p s"

definition ends_with :: "'a list \<Rightarrow> 'a list \<Rightarrow> bool" where
  "ends_with s p = suffix p s"

text \<open>\<open>str::lines\<close>: split at line feeds, a final line feed ends no extra line, and a
  carriage return before the line feed goes with it.\<close>

definition strip_cr :: "string \<Rightarrow> string" where
  "strip_cr l = (case strip_suffix [CHR 0x0D] l of Some t \<Rightarrow> t | None \<Rightarrow> l)"

definition str_lines :: "string \<Rightarrow> string list" where
  "str_lines s =
    (let ps = split_on (CHR 0x0A) s in
     if last ps = [] then map strip_cr (butlast ps)
     else map strip_cr (butlast ps) @ [last ps])"

section \<open>White space and case\<close>

text \<open>The UTF-8 encodings of the characters with the Unicode property White\_Space.\<close>

definition ws_seqs :: "string list" where
  "ws_seqs = map (map char_of)
     ([[9], [10], [11], [12], [13], [32], [194, 133], [194, 160], [225, 154, 128],
       [226, 128, 168], [226, 128, 169], [226, 128, 175], [226, 129, 159], [227, 128, 128]]
      @ map (\<lambda>i. [226, 128, 128 + i]) [0 ..< 11 :: nat])"

fun trim_fuel :: "nat \<Rightarrow> string list \<Rightarrow> string \<Rightarrow> string" where
  "trim_fuel 0 ws s = s"
| "trim_fuel (Suc n) ws s =
    (case find (\<lambda>w. strip_prefix w s \<noteq> None) ws of
       None \<Rightarrow> s
     | Some w \<Rightarrow> trim_fuel n ws (drop (length w) s))"

definition trim_start :: "string \<Rightarrow> string" where
  "trim_start s = trim_fuel (length s) ws_seqs s"

definition trim_end :: "string \<Rightarrow> string" where
  "trim_end s = rev (trim_fuel (length s) (map rev ws_seqs) (rev s))"

definition trim :: "string \<Rightarrow> string" where
  "trim s = trim_end (trim_start s)"

text \<open>Printable ASCII other than space is never part of a white-space character.\<close>

definition graphic :: "char \<Rightarrow> bool" where
  "graphic c \<longleftrightarrow> 33 \<le> (of_char c :: nat) \<and> of_char c \<le> (126 :: nat)"

lemma trim_fuel_id:
  "\<forall>w\<in>set ws. strip_prefix w s = None \<Longrightarrow> trim_fuel n ws s = s"
  by (cases n) (auto dest!: find_Some_iff [THEN iffD1] split: option.splits)

lemma ws_seqs_not_Nil: "\<forall>w\<in>set ws_seqs. w \<noteq> [] \<and> \<not> graphic (hd w) \<and> \<not> graphic (last w)"
  by (auto simp: ws_seqs_def graphic_def)

lemma strip_prefix_hd:
  "w \<noteq> [] \<Longrightarrow> s = [] \<or> hd w \<noteq> hd s \<Longrightarrow> strip_prefix w s = None"
  by (cases w; cases s) auto

lemma trim_id:
  assumes "s = [] \<or> graphic (hd s) \<and> graphic (last s)"
  shows "trim s = s"
proof -
  have "trim_start s = s"
    unfolding trim_start_def using assms ws_seqs_not_Nil
    by (intro trim_fuel_id ballI strip_prefix_hd) auto
  moreover have "trim_end s = s"
  proof -
    have "trim_fuel (length s) (map rev ws_seqs) (rev s) = rev s"
      using assms ws_seqs_not_Nil
      by (intro trim_fuel_id ballI strip_prefix_hd) (auto simp: hd_rev)
    then show ?thesis by (simp add: trim_end_def)
  qed
  ultimately show ?thesis by (simp add: trim_def)
qed

definition to_lower :: "char \<Rightarrow> char" where
  "to_lower c = (if 65 \<le> (of_char c :: nat) \<and> of_char c \<le> (90 :: nat)
                 then char_of ((of_char c :: nat) + 32) else c)"

definition to_upper :: "char \<Rightarrow> char" where
  "to_upper c = (if 97 \<le> (of_char c :: nat) \<and> of_char c \<le> (122 :: nat)
                 then char_of ((of_char c :: nat) - 32) else c)"

definition to_ascii_lowercase :: "string \<Rightarrow> string" where
  "to_ascii_lowercase s = map to_lower s"

definition to_ascii_uppercase :: "string \<Rightarrow> string" where
  "to_ascii_uppercase s = map to_upper s"

definition eq_ignore_ascii_case :: "string \<Rightarrow> string \<Rightarrow> bool" where
  "eq_ignore_ascii_case s t \<longleftrightarrow> to_ascii_lowercase s = to_ascii_lowercase t"

lemma of_char_to_lower:
  "(of_char (to_lower c) :: nat) =
     (if 65 \<le> (of_char c :: nat) \<and> of_char c \<le> (90 :: nat) then of_char c + 32 else of_char c)"
  by (auto simp: to_lower_def)

lemma to_lower_idem [simp]: "to_lower (to_lower c) = to_lower c"
  by (simp add: to_lower_def)

lemma to_ascii_lowercase_idem [simp]:
  "to_ascii_lowercase (to_ascii_lowercase s) = to_ascii_lowercase s"
  by (simp add: to_ascii_lowercase_def)

section \<open>Integers\<close>

definition digit_val :: "char \<Rightarrow> nat option" where
  "digit_val c = (let n = of_char c :: nat in
     if 48 \<le> n \<and> n \<le> 57 then Some (n - 48)
     else if 97 \<le> n \<and> n \<le> 122 then Some (n - 87)
     else if 65 \<le> n \<and> n \<le> 90 then Some (n - 55)
     else None)"

fun digits_val :: "nat \<Rightarrow> nat \<Rightarrow> string \<Rightarrow> nat option" where
  "digits_val r acc [] = Some acc"
| "digits_val r acc (c # cs) =
    (case digit_val c of
       Some d \<Rightarrow> if d < r then digits_val r (acc * r + d) cs else None
     | None \<Rightarrow> None)"

text \<open>
  \<open>from_str_radix\<close> of an unsigned type of \<open>w\<close> bits: an optional \<open>+\<close>, at least one digit,
  no overflow. (The code's checked multiplications fail exactly when the final value
  does not fit, the value only grows.)
\<close>

definition parse_radix :: "nat \<Rightarrow> nat \<Rightarrow> string \<Rightarrow> nat option" where
  "parse_radix r w s =
    (let ds = (case s of c # t \<Rightarrow> if c = CHR ''+'' then t else s | [] \<Rightarrow> s) in
     if ds = [] then None
     else case digits_val r 0 ds of
            Some n \<Rightarrow> if n < 2 ^ w then Some n else None
          | None \<Rightarrow> None)"

abbreviation parse_uint :: "nat \<Rightarrow> string \<Rightarrow> nat option" where
  "parse_uint \<equiv> parse_radix 10"

definition parse_u16 :: "string \<Rightarrow> u16 option" where
  "parse_u16 s = map_option of_nat (parse_uint 16 s)"

text \<open>\<open>Display\<close> of an unsigned integer.\<close>

fun show_nat :: "nat \<Rightarrow> string" where
  "show_nat n = (if n < 10 then [char_of (48 + n)]
                 else show_nat (n div 10) @ [char_of (48 + n mod 10)])"

declare show_nat.simps [simp del]

lemma show_nat_not_Nil [simp]: "show_nat n \<noteq> []"
  by (subst show_nat.simps) simp

lemma digit_val_char_of: "d < 10 \<Longrightarrow> digit_val (char_of (48 + d)) = Some d"
  by (simp add: digit_val_def)

lemma digits_val_append:
  "digits_val r acc (xs @ ys) =
     (case digits_val r acc xs of Some a \<Rightarrow> digits_val r a ys | None \<Rightarrow> None)"
  by (induction xs arbitrary: acc) (auto split: option.splits)

lemma digits_val_show_nat: "digits_val 10 0 (show_nat n) = Some n"
proof (induction n rule: show_nat.induct)
  case (1 n)
  show ?case
  proof (cases "n < 10")
    case True
    then show ?thesis
      by (subst show_nat.simps) (simp add: digit_val_char_of)
  next
    case False
    with 1 have "digits_val 10 0 (show_nat (n div 10)) = Some (n div 10)" by simp
    with False show ?thesis
      by (subst show_nat.simps) (simp add: digits_val_append digit_val_char_of)
  qed
qed

lemma show_nat_digits: "c \<in> set (show_nat n) \<Longrightarrow> 48 \<le> (of_char c :: nat) \<and> of_char c \<le> (57 :: nat)"
proof (induction n rule: show_nat.induct)
  case (1 n)
  then show ?case
    by (subst (asm) (2) show_nat.simps) (auto split: if_splits)
qed

lemma show_nat_notin:
  "(of_char c :: nat) < 48 \<or> 57 < (of_char c :: nat) \<Longrightarrow> c \<notin> set (show_nat n)"
  using show_nat_digits [of c n] by linarith

lemma hd_show_nat_not_plus: "hd (show_nat n) \<noteq> CHR ''+''"
  using show_nat_notin [of "CHR ''+''" n] hd_in_set [OF show_nat_not_Nil [of n]] by force

lemma parse_show_nat [str_simps]: "n < 2 ^ w \<Longrightarrow> parse_uint w (show_nat n) = Some n"
proof -
  assume n: "n < 2 ^ w"
  obtain c t where ct: "show_nat n = c # t"
    using show_nat_not_Nil [of n] by (cases "show_nat n") auto
  then have "c \<noteq> CHR ''+''"
    using hd_show_nat_not_plus [of n] by simp
  moreover have "digits_val 10 0 (c # t) = Some n"
    using digits_val_show_nat [of n] ct by simp
  ultimately show ?thesis
    using n unfolding parse_radix_def ct Let_def
    by (simp del: digits_val.simps)
qed

lemma parse_u16_show [str_simps]: "parse_u16 (show_nat (unat p)) = Some p"
  by (simp add: parse_u16_def parse_show_nat)

lemma parse_radix_bound: "parse_radix r w s = Some n \<Longrightarrow> n < 2 ^ w"
  by (auto simp: parse_radix_def Let_def split: if_splits option.splits list.splits)

section \<open>Lossy decoding and words\<close>

text \<open>\<open>String::from_utf8_lossy\<close>: each maximal prefix of a well-formed sequence that is not
  itself well formed becomes one replacement character.\<close>

fun utf8_bad :: "byte list \<Rightarrow> nat" where
  "utf8_bad [] = 0"
| "utf8_bad (a # r) =
    (if 224 \<le> a \<and> a \<le> 239 then
       (case r of b # _ \<Rightarrow>
          if utf8_cont b \<and> (a = 224 \<longrightarrow> 160 \<le> b) \<and> (a = 237 \<longrightarrow> b \<le> 159) then 2 else 1
        | _ \<Rightarrow> 1)
     else if 240 \<le> a \<and> a \<le> 244 then
       (case r of b # r' \<Rightarrow>
          if utf8_cont b \<and> (a = 240 \<longrightarrow> 144 \<le> b) \<and> (a = 244 \<longrightarrow> b \<le> 143) then
            (case r' of c # _ \<Rightarrow> if utf8_cont c then 3 else 2 | _ \<Rightarrow> 2)
          else 1
        | _ \<Rightarrow> 1)
     else 1)"

lemma utf8_bad_pos: "bs \<noteq> [] \<Longrightarrow> 0 < utf8_bad bs"
  by (cases bs) (auto split: list.split)

definition replacement :: string where
  "replacement = map char_of [239, 191, 189 :: nat]"

function from_utf8_lossy :: "byte list \<Rightarrow> string" where
  "from_utf8_lossy bs =
    (if bs = [] then []
     else if utf8_len bs > 0 then
       of_bytes (take (utf8_len bs) bs) @ from_utf8_lossy (drop (utf8_len bs) bs)
     else replacement @ from_utf8_lossy (drop (utf8_bad bs) bs))"
  by pat_completeness auto
termination
  by (relation "measure length") (use utf8_bad_pos in \<open>auto simp: neq_Nil_conv\<close>)

declare from_utf8_lossy.simps [simp del]

lemma of_bytes_append: "of_bytes (a @ b) = of_bytes a @ of_bytes b"
  by (simp add: of_bytes_def)

lemma from_utf8_lossy_valid: "utf8_valid bs \<Longrightarrow> from_utf8_lossy bs = of_bytes bs"
proof (induction bs rule: from_utf8_lossy.induct)
  case (1 bs)
  show ?case
  proof (cases "bs = []")
    case False
    then have "utf8_len bs > 0" "utf8_valid (drop (utf8_len bs) bs)"
      using 1(3) by (subst (asm) utf8_valid.simps, simp split: if_splits)+
    then show ?thesis using 1(1) False
      by (subst from_utf8_lossy.simps) (simp flip: of_bytes_append)
  qed (simp add: from_utf8_lossy.simps of_bytes_def)
qed

text \<open>\<open>str::split_whitespace\<close>.\<close>

lemma find_ws_nonempty: "find P ws_seqs = Some w \<Longrightarrow> w \<noteq> []"
  using ws_seqs_not_Nil by (auto simp: find_Some_iff)

function split_ws :: "string \<Rightarrow> string \<Rightarrow> string list" where
  "split_ws acc [] = (if acc = [] then [] else [rev acc])"
| "split_ws acc (c # s) =
    (case find (\<lambda>w. strip_prefix w (c # s) \<noteq> None) ws_seqs of
       Some w \<Rightarrow> (if acc = [] then [] else [rev acc]) @ split_ws [] (drop (length w) (c # s))
     | None \<Rightarrow> split_ws (c # acc) s)"
  by pat_completeness auto
termination
  by (relation "measure (\<lambda>(acc, s). length s)") (auto dest!: find_ws_nonempty simp: neq_Nil_conv)

definition split_whitespace :: "string \<Rightarrow> string list" where
  "split_whitespace s = split_ws [] s"

lemma split_ws_graphic:
  "\<forall>c\<in>set w. graphic c \<Longrightarrow> split_ws acc (w @ s) = split_ws (rev w @ acc) s"
proof (induction w arbitrary: acc)
  case (Cons c w)
  have "find (\<lambda>w'. strip_prefix w' (c # w @ s) \<noteq> None) ws_seqs = None"
    unfolding find_None_iff
  proof safe
    fix w' y assume "w' \<in> set ws_seqs" "strip_prefix w' (c # w @ s) = Some y"
    then show False using strip_prefix_hd [of w' "c # w @ s"] ws_seqs_not_Nil Cons.prems by auto
  qed
  then show ?case using Cons by simp
qed simp

lemma split_ws_space: "split_ws acc (CHR '' '' # s) = (if acc = [] then [] else [rev acc]) @ split_ws [] s"
proof -
  have "find (\<lambda>w'. strip_prefix w' (CHR '' '' # s) \<noteq> None) ws_seqs = Some '' ''"
    by (simp add: ws_seqs_def char_of_def bit_0)
  then show ?thesis by simp
qed

end
