(* ===== verification/NetAddr.thy ===== *)
theory NetAddr
  imports RustStr "HOL-Library.Product_Lexorder"
begin

text \<open>
  The addresses of \<open>std::net\<close> as the sources use them: \<open>IpAddr\<close>, \<open>SocketAddr\<close>, their
  octets and segments, the address tests of the standard library, the textual forms
  (\<open>FromStr\<close> and \<open>Display\<close>) and the order of \<open>SocketAddr\<close> (all IPv4 before all IPv6,
  then the address, then the port), given as an instance of \<open>linorder\<close> so that
  comparisons and sorting of the model are those of the library. Flow labels are
  always 0 in the sources and are left out.
\<close>

section \<open>Addresses\<close>

datatype ip_addr = IpV4 u32 | IpV6 u128

datatype sock_addr = SockV4 u32 u16 | SockV6 u128 u16 u32

fun sock_ip :: "sock_addr \<Rightarrow> ip_addr" where
  "sock_ip (SockV4 a p) = IpV4 a"
| "sock_ip (SockV6 a p s) = IpV6 a"

fun sock_port :: "sock_addr \<Rightarrow> u16" where
  "sock_port (SockV4 a p) = p"
| "sock_port (SockV6 a p s) = p"

fun mk_sock :: "ip_addr \<Rightarrow> u16 \<Rightarrow> sock_addr" where
  "mk_sock (IpV4 a) p = SockV4 a p"
| "mk_sock (IpV6 a) p = SockV6 a p 0"

fun is_ipv4 :: "ip_addr \<Rightarrow> bool" where
  "is_ipv4 (IpV4 _) = True"
| "is_ipv4 (IpV6 _) = False"

abbreviation is_ipv6 :: "ip_addr \<Rightarrow> bool" where
  "is_ipv6 a \<equiv> \<not> is_ipv4 a"

abbreviation sock_is_ipv4 :: "sock_addr \<Rightarrow> bool" where
  "sock_is_ipv4 a \<equiv> is_ipv4 (sock_ip a)"

lemma sock_of_mk_sock [simp]: "sock_ip (mk_sock i p) = i" "sock_port (mk_sock i p) = p"
  by (cases i; simp)+

instantiation sock_addr :: linorder
begin

fun sock_key :: "sock_addr \<Rightarrow> nat \<times> nat \<times> nat \<times> nat" where
  "sock_key (SockV4 a p) = (0, unat a, unat p, 0)"
| "sock_key (SockV6 a p s) = (1, unat a, unat p, unat s)"

definition less_eq_sock_addr :: "sock_addr \<Rightarrow> sock_addr \<Rightarrow> bool" where
  "less_eq_sock_addr a b \<longleftrightarrow> sock_key a \<le> sock_key b"

definition less_sock_addr :: "sock_addr \<Rightarrow> sock_addr \<Rightarrow> bool" where
  "less_sock_addr a b \<longleftrightarrow> sock_key a < sock_key b"

lemma sock_key_inject: "sock_key a = sock_key b \<longleftrightarrow> a = b"
  by (cases a; cases b) (auto simp: word_unat_eq_iff)

instance
  by standard
     (auto simp: less_eq_sock_addr_def less_sock_addr_def less_le_not_le sock_key_inject
      intro: antisym dest: sock_key_inject [THEN iffD1, OF antisym])

end

definition v4_octets :: "u32 \<Rightarrow> byte list" where
  "v4_octets a = be_bytes 4 (unat a)"

definition v6_octets :: "u128 \<Rightarrow> byte list" where
  "v6_octets a = be_bytes 16 (unat a)"

definition v4_of_octets :: "byte list \<Rightarrow> u32" where
  "v4_of_octets bs = of_nat (be_nat bs)"

definition v6_of_octets :: "byte list \<Rightarrow> u128" where
  "v6_of_octets bs = of_nat (be_nat bs)"

fun be_words :: "nat \<Rightarrow> nat \<Rightarrow> u16 list" where
  "be_words 0 v = []"
| "be_words (Suc n) v = of_nat (v div 65536 ^ n) # be_words n v"

fun words_nat :: "u16 list \<Rightarrow> nat" where
  "words_nat [] = 0"
| "words_nat (w # ws) = unat w * 65536 ^ length ws + words_nat ws"

definition v6_segments :: "u128 \<Rightarrow> u16 list" where
  "v6_segments a = be_words 8 (unat a)"

definition v6_of_segments :: "u16 list \<Rightarrow> u128" where
  "v6_of_segments ws = of_nat (words_nat ws)"

lemma length_octets [simp]:
  "length (v4_octets a) = 4" "length (v6_octets b) = 16"
  by (simp_all add: v4_octets_def v6_octets_def)

lemma length_be_words [simp]: "length (be_words n v) = n"
  by (induction n) auto

lemma length_segments [simp]: "length (v6_segments b) = 8"
  by (simp add: v6_segments_def)

lemma v4_of_octets_octets [simp, codec_simps]: "v4_of_octets (v4_octets a) = a"
proof -
  have "unat a < 4294967296" using unsigned_less [of a] by simp
  then show ?thesis by (simp add: v4_of_octets_def v4_octets_def be_nat_be_bytes)
qed

lemma v6_of_octets_octets [simp, codec_simps]: "v6_of_octets (v6_octets a) = a"
proof -
  have "unat a < 256 ^ 16" using unsigned_less [of a] by simp
  then show ?thesis by (simp add: v6_of_octets_def v6_octets_def be_nat_be_bytes)
qed

lemma v4_octets_of_octets: "length bs = 4 \<Longrightarrow> v4_octets (v4_of_octets bs) = bs"
  using be_nat_less [of bs] be_bytes_be_nat [of bs]
  by (simp add: v4_octets_def v4_of_octets_def unat_of_nat)

lemma v6_octets_of_octets: "length bs = 16 \<Longrightarrow> v6_octets (v6_of_octets bs) = bs"
  using be_nat_less [of bs] be_bytes_be_nat [of bs]
  by (simp add: v6_octets_def v6_of_octets_def unat_of_nat)

lemma words_nat_be_words: "words_nat (be_words n v) = v mod 65536 ^ n"
proof (induction n)
  case (Suc n)
  have "v mod (65536 ^ n * 65536) = 65536 ^ n * (v div 65536 ^ n mod 65536) + v mod 65536 ^ n"
    by (rule mod_mult2_eq)
  with Suc show ?case by (simp add: unat_of_nat mult.commute)
qed simp

lemma v6_of_segments_segments [simp, codec_simps]: "v6_of_segments (v6_segments a) = a"
proof -
  have "unat a < 65536 ^ 8" using unsigned_less [of a] by simp
  then show ?thesis by (simp add: v6_of_segments_def v6_segments_def words_nat_be_words)
qed

text \<open>The segments of an address given by its octets.\<close>

fun byte_pairs :: "byte list \<Rightarrow> u16 list" where
  "byte_pairs (a # b # r) = be_u16 [a, b] # byte_pairs r"
| "byte_pairs _ = []"

lemma be_words_add: "be_words n (a * 65536 ^ n + v) = be_words n v"
proof (induction n arbitrary: a v)
  case (Suc n)
  have "(a * 65536 ^ Suc n + v) div 65536 ^ n = (a * 65536) + v div 65536 ^ n"
    by (simp add: mult.assoc [symmetric] del: mult.assoc)
  moreover have "of_nat (a * 65536 + v div 65536 ^ n) = (of_nat (v div 65536 ^ n) :: u16)"
    by (simp add: word_unat_eq_iff unat_of_nat flip: of_nat_mult of_nat_add del: of_nat_mult of_nat_add) 
  ultimately show ?case using Suc.IH [of "a * 65536" v] by (simp add: mult.assoc)
qed simp

lemma be_words_byte_pairs:
  "even (length bs) \<Longrightarrow> be_words (length bs div 2) (be_nat bs) = byte_pairs bs"
proof (induction bs rule: byte_pairs.induct)
  case (1 a b r)
  define m where "m = length r div 2"
  have m: "length r = 2 * m" using 1(2) by (simp add: m_def)
  have p: "(256 :: nat) ^ length r = 65536 ^ m" by (simp add: m power_mult)
  have "be_nat (a # b # r) = (unat a * 256 + unat b) * 65536 ^ m + be_nat r"
    by (simp add: p algebra_simps)
  moreover have "be_nat r < 65536 ^ m" using be_nat_less [of r] by (simp add: p)
  moreover have "of_nat (unat a * 256 + unat b) = be_u16 [a, b]" by (simp add: be_u16_def)
  moreover have "length (a # b # r) div 2 = Suc m" by (simp add: m_def)
  moreover have "be_words m (be_nat r) = byte_pairs r" using 1 by (simp add: m_def)
  ultimately show ?case by (simp only: be_words.simps be_words_add byte_pairs.simps) simp
qed auto

lemma v6_segments_of_octets: "length bs = 16 \<Longrightarrow> v6_segments (v6_of_octets bs) = byte_pairs bs"
  using be_words_byte_pairs [of bs] be_nat_less [of bs]
  by (simp add: v6_segments_def v6_of_octets_def unat_of_nat)

section \<open>Tests of the standard library\<close>

definition v4_is_loopback :: "u32 \<Rightarrow> bool" where
  "v4_is_loopback a \<longleftrightarrow> v4_octets a ! 0 = 127"

definition v4_is_unspecified :: "u32 \<Rightarrow> bool" where
  "v4_is_unspecified a \<longleftrightarrow> a = 0"

definition v4_is_private :: "u32 \<Rightarrow> bool" where
  "v4_is_private a \<longleftrightarrow> (let o0 = v4_octets a ! 0; o1 = v4_octets a ! 1 in
     o0 = 10 \<or> (o0 = 172 \<and> 16 \<le> o1 \<and> o1 \<le> 31) \<or> (o0 = 192 \<and> o1 = 168))"

definition v4_is_link_local :: "u32 \<Rightarrow> bool" where
  "v4_is_link_local a \<longleftrightarrow> v4_octets a ! 0 = 169 \<and> v4_octets a ! 1 = 254"

definition v4_is_broadcast :: "u32 \<Rightarrow> bool" where
  "v4_is_broadcast a \<longleftrightarrow> a = 0xFFFFFFFF"

definition v4_is_multicast :: "u32 \<Rightarrow> bool" where
  "v4_is_multicast a \<longleftrightarrow> 224 \<le> v4_octets a ! 0 \<and> v4_octets a ! 0 \<le> 239"

definition v4_is_documentation :: "u32 \<Rightarrow> bool" where
  "v4_is_documentation a \<longleftrightarrow>
     take 3 (v4_octets a) \<in> {[192, 0, 2], [198, 51, 100], [203, 0, 113]}"

definition v6_is_loopback :: "u128 \<Rightarrow> bool" where
  "v6_is_loopback a \<longleftrightarrow> a = 1"

definition v6_is_unspecified :: "u128 \<Rightarrow> bool" where
  "v6_is_unspecified a \<longleftrightarrow> a = 0"

definition v6_is_multicast :: "u128 \<Rightarrow> bool" where
  "v6_is_multicast a \<longleftrightarrow> v6_octets a ! 0 = 0xFF"

definition v6_to_ipv4_mapped :: "u128 \<Rightarrow> u32 option" where
  "v6_to_ipv4_mapped a =
     (if take 12 (v6_octets a) = [0, 0, 0, 0, 0, 0, 0, 0, 0, 0, 0xFF, 0xFF]
      then Some (v4_of_octets (drop 12 (v6_octets a))) else None)"

definition v4_to_ipv6_mapped :: "u32 \<Rightarrow> u128" where
  "v4_to_ipv6_mapped a = v6_of_octets ([0, 0, 0, 0, 0, 0, 0, 0, 0, 0, 0xFF, 0xFF] @ v4_octets a)"

lemma v6_to_ipv4_mapped_mapped [simp]: "v6_to_ipv4_mapped (v4_to_ipv6_mapped a) = Some a"
  by (simp add: v6_to_ipv4_mapped_def v4_to_ipv6_mapped_def v6_octets_of_octets)

fun ip_is_loopback :: "ip_addr \<Rightarrow> bool" where
  "ip_is_loopback (IpV4 a) = v4_is_loopback a"
| "ip_is_loopback (IpV6 a) = v6_is_loopback a"

fun ip_is_unspecified :: "ip_addr \<Rightarrow> bool" where
  "ip_is_unspecified (IpV4 a) = v4_is_unspecified a"
| "ip_is_unspecified (IpV6 a) = v6_is_unspecified a"

fun ip_is_multicast :: "ip_addr \<Rightarrow> bool" where
  "ip_is_multicast (IpV4 a) = v4_is_multicast a"
| "ip_is_multicast (IpV6 a) = v6_is_multicast a"

section \<open>Parsing\<close>

text \<open>
  \<open>core::net::parser\<close>: a parser takes the text still to read and returns a value with
  the rest, or fails and reads nothing. \<open>read_number\<close> takes the radix, an optional
  limit on the number of digits and whether a leading zero is allowed; \<open>hi\<close> is the
  largest value of the result type.
\<close>

fun read_given :: "char \<Rightarrow> string \<Rightarrow> string option" where
  "read_given c [] = None"
| "read_given c (x # xs) = (if x = c then Some xs else None)"

definition is_radix_digit :: "nat \<Rightarrow> char \<Rightarrow> bool" where
  "is_radix_digit r c = (case digit_val c of Some d \<Rightarrow> d < r | None \<Rightarrow> False)"

definition read_number :: "nat \<Rightarrow> nat option \<Rightarrow> bool \<Rightarrow> nat \<Rightarrow> string \<Rightarrow> (nat \<times> string) option" where
  "read_number r max_digits allow_zero hi s =
    (let ds = takeWhile (is_radix_digit r) s; rest = dropWhile (is_radix_digit r) s in
     if ds = [] then None
     else if (case max_digits of Some m \<Rightarrow> length ds > m | None \<Rightarrow> False) then None
     else if \<not> allow_zero \<and> hd ds = CHR ''0'' \<and> length ds > 1 then None
     else case digits_val r 0 ds of
            Some n \<Rightarrow> if n \<le> hi then Some (n, rest) else None
          | None \<Rightarrow> None)"

fun read_octets :: "nat \<Rightarrow> bool \<Rightarrow> string \<Rightarrow> (byte list \<times> string) option" where
  "read_octets 0 sep s = Some ([], s)"
| "read_octets (Suc n) sep s =
    (case (if sep then read_given (CHR ''.'') s else Some s) of
       None \<Rightarrow> None
     | Some s1 \<Rightarrow>
        (case read_number 10 (Some 3) False 255 s1 of
           None \<Rightarrow> None
         | Some (b, s2) \<Rightarrow>
            (case read_octets n True s2 of
               None \<Rightarrow> None
             | Some (bs, s3) \<Rightarrow> Some (of_nat b # bs, s3))))"

definition read_ipv4 :: "string \<Rightarrow> (u32 \<times> string) option" where
  "read_ipv4 s = map_option (\<lambda>(bs, r). (v4_of_octets bs, r)) (read_octets 4 False s)"

text \<open>\<open>read_groups\<close> with \<open>n\<close> slots left, \<open>sep\<close> telling whether a group came before:
  the groups read, whether they end in an embedded IPv4 address, and the rest.\<close>

fun read_groups :: "nat \<Rightarrow> bool \<Rightarrow> string \<Rightarrow> u16 list \<times> bool \<times> string" where
  "read_groups 0 sep s = ([], False, s)"
| "read_groups (Suc n) sep s =
    (case (if sep then read_given (CHR '':'') s else Some s) of
       None \<Rightarrow> ([], False, s)
     | Some s1 \<Rightarrow>
        (case (if n > 0 then read_ipv4 s1 else None) of
           Some (a, s2) \<Rightarrow>
             ([be_u16 (take 2 (v4_octets a)), be_u16 (drop 2 (v4_octets a))], True, s2)
         | None \<Rightarrow>
            (case read_number 16 (Some 4) True 65535 s1 of
               None \<Rightarrow> ([], False, s)
             | Some (g, s2) \<Rightarrow>
                 (case read_groups n True s2 of
                    (gs, v4, s3) \<Rightarrow> (of_nat g # gs, v4, s3)))))"

definition read_ipv6 :: "string \<Rightarrow> (u128 \<times> string) option" where
  "read_ipv6 s =
    (case read_groups 8 False s of
       (head, head_v4, s1) \<Rightarrow>
         if length head = 8 then Some (v6_of_segments head, s1)
         else if head_v4 then None
         else (case Option.bind (read_given (CHR '':'') s1) (read_given (CHR '':'')) of
                 None \<Rightarrow> None
               | Some s2 \<Rightarrow>
                  (case read_groups (8 - (length head + 1)) False s2 of
                     (tail, _, s3) \<Rightarrow>
                       Some (v6_of_segments
                              (head @ replicate (8 - length head - length tail) 0 @ tail), s3))))"

definition full :: "('a \<times> string) option \<Rightarrow> 'a option" where
  "full r = (case r of Some (x, []) \<Rightarrow> Some x | _ \<Rightarrow> None)"

definition parse_ipv4 :: "string \<Rightarrow> u32 option" where
  "parse_ipv4 s = (if length s > 15 then None else full (read_ipv4 s))"

definition parse_ipv6 :: "string \<Rightarrow> u128 option" where
  "parse_ipv6 s = full (read_ipv6 s)"

definition parse_ip :: "string \<Rightarrow> ip_addr option" where
  "parse_ip s =
    full (case read_ipv4 s of
            Some (a, r) \<Rightarrow> Some (IpV4 a, r)
          | None \<Rightarrow> map_option (\<lambda>(a, r). (IpV6 a, r)) (read_ipv6 s))"

definition read_port :: "string \<Rightarrow> (u16 \<times> string) option" where
  "read_port s =
    (case read_given (CHR '':'') s of
       None \<Rightarrow> None
     | Some s1 \<Rightarrow> map_option (\<lambda>(p, r). (of_nat p, r)) (read_number 10 None True 65535 s1))"

definition read_scope :: "string \<Rightarrow> (u32 \<times> string) option" where
  "read_scope s =
    (case read_given (CHR ''%'') s of
       None \<Rightarrow> None
     | Some s1 \<Rightarrow>
         map_option (\<lambda>(p, r). (of_nat p, r)) (read_number 10 None True 4294967295 s1))"

definition read_sock_v4 :: "string \<Rightarrow> (sock_addr \<times> string) option" where
  "read_sock_v4 s =
    (case read_ipv4 s of
       None \<Rightarrow> None
     | Some (a, s1) \<Rightarrow> map_option (\<lambda>(p, r). (SockV4 a p, r)) (read_port s1))"

definition read_sock_v6 :: "string \<Rightarrow> (sock_addr \<times> string) option" where
  "read_sock_v6 s =
    (case Option.bind (read_given (CHR ''['') s) read_ipv6 of
       None \<Rightarrow> None
     | Some (a, s1) \<Rightarrow>
        (case (case read_scope s1 of Some q \<Rightarrow> q | None \<Rightarrow> (0, s1)) of
           (sc, s2) \<Rightarrow>
             (case Option.bind (read_given (CHR '']'') s2) read_port of
                None \<Rightarrow> None
              | Some (p, s3) \<Rightarrow> Some (SockV6 a p sc, s3))))"

definition parse_sock_addr :: "string \<Rightarrow> sock_addr option" where
  "parse_sock_addr s =
    full (case read_sock_v4 s of Some q \<Rightarrow> Some q | None \<Rightarrow> read_sock_v6 s)"

section \<open>Display\<close>

definition join :: "string \<Rightarrow> string list \<Rightarrow> string" where
  "join sep ps = concat (case ps of [] \<Rightarrow> [] | p # qs \<Rightarrow> p # map (\<lambda>q. sep @ q) qs)"

definition show_ipv4 :: "u32 \<Rightarrow> string" where
  "show_ipv4 a = join ''.'' (map (\<lambda>b. show_nat (unat b)) (v4_octets a))"

definition hex_digit :: "nat \<Rightarrow> char" where
  "hex_digit d = (if d < 10 then char_of (48 + d) else char_of (87 + d))"

fun show_hex :: "nat \<Rightarrow> string" where
  "show_hex n = (if n < 16 then [hex_digit n] else show_hex (n div 16) @ [hex_digit (n mod 16)])"

declare show_hex.simps [simp del]

text \<open>The longest run of zero segments, the first of several of the same length, as the
  standard library looks for it: start and length.\<close>

fun zero_run :: "u16 list \<Rightarrow> nat \<Rightarrow> nat \<times> nat \<Rightarrow> nat \<times> nat \<Rightarrow> nat \<times> nat" where
  "zero_run [] i cur best = best"
| "zero_run (w # ws) i (cs, cl) (bs, bl) =
    (if w = 0 then
       (let cs' = (if cl = 0 then i else cs); cl' = cl + 1 in
        zero_run ws (i + 1) (cs', cl') (if cl' > bl then (cs', cl') else (bs, bl)))
     else zero_run ws (i + 1) (0, 0) (bs, bl))"

definition show_groups :: "u16 list \<Rightarrow> string" where
  "show_groups gs = join '':'' (map (\<lambda>g. show_hex (unat g)) gs)"

definition show_ipv6 :: "u128 \<Rightarrow> string" where
  "show_ipv6 a =
    (case v6_to_ipv4_mapped a of
       Some v4 \<Rightarrow> ''::ffff:'' @ show_ipv4 v4
     | None \<Rightarrow>
        (let segs = v6_segments a; (z, l) = zero_run segs 0 (0, 0) (0, 0) in
         if l > 1 then show_groups (take z segs) @ ''::'' @ show_groups (drop (z + l) segs)
         else show_groups segs))"

fun show_ip :: "ip_addr \<Rightarrow> string" where
  "show_ip (IpV4 a) = show_ipv4 a"
| "show_ip (IpV6 a) = show_ipv6 a"

fun show_sock :: "sock_addr \<Rightarrow> string" where
  "show_sock (SockV4 a p) = show_ipv4 a @ '':'' @ show_nat (unat p)"
| "show_sock (SockV6 a p sc) =
    ''['' @ show_ipv6 a @ (if sc = 0 then [] else ''%'' @ show_nat (unat sc)) @ '']:'' @ show_nat (unat p)"

section \<open>The IPv4 forms are read back\<close>

lemma is_radix_digit_show:
  "c \<in> set (show_nat n) \<Longrightarrow> is_radix_digit 10 c"
  using show_nat_digits [of c n] by (auto simp: is_radix_digit_def digit_val_def)

lemma takeWhile_show_nat:
  assumes "\<And>c t. r = c # t \<Longrightarrow> \<not> is_radix_digit 10 c"
  shows "takeWhile (is_radix_digit 10) (show_nat n @ r) = show_nat n"
    "dropWhile (is_radix_digit 10) (show_nat n @ r) = r"
  using is_radix_digit_show [of _ n] assms
  by (cases r; simp add: takeWhile_append dropWhile_append)+

lemma show_nat_length_le: "n < 1000 \<Longrightarrow> length (show_nat n) \<le> 3"
  by (subst show_nat.simps, simp, subst show_nat.simps, simp, subst show_nat.simps) auto

lemma show_nat_no_lead: "length (show_nat n) > 1 \<Longrightarrow> hd (show_nat n) \<noteq> CHR ''0''"
proof (induction n rule: show_nat.induct)
  case (1 n)
  have c: "char_of (48 + m) \<noteq> CHR ''0''" if "0 < m" "m < 10" for m :: nat
  proof
    assume "char_of (48 + m) = CHR ''0''"
    then have "of_char (char_of (48 + m) :: char) = (of_char (CHR ''0'') :: nat)" by simp
    with that show False by simp
  qed
  show ?case
  proof (cases "n < 10")
    case True
    with 1 show ?thesis by (simp add: show_nat.simps)
  next
    case False
    show ?thesis
    proof (cases "n div 10 < 10")
      case True
      then have "show_nat (n div 10) = [char_of (48 + n div 10)]" by (simp add: show_nat.simps)
      with False c [of "n div 10"] True show ?thesis
        by (subst show_nat.simps) (simp add: div_greater_zero_iff)
    next
      case b: False
      then have "length (show_nat (n div 10)) > 1"
        by (subst show_nat.simps) simp
      with 1 False show ?thesis
        by (subst show_nat.simps) (simp add: hd_append)
    qed
  qed
qed

lemma read_number_show:
  assumes "n \<le> hi" "\<And>c t. r = c # t \<Longrightarrow> \<not> is_radix_digit 10 c"
    "case m of Some k \<Rightarrow> length (show_nat n) \<le> k | None \<Rightarrow> True"
  shows "read_number 10 m z hi (show_nat n @ r) = Some (n, r)"
  using assms show_nat_no_lead [of n]
  by (auto simp: read_number_def takeWhile_show_nat digits_val_show_nat Let_def split: option.splits)

lemma read_octets_show:
  assumes "\<And>c t. r = c # t \<Longrightarrow> \<not> is_radix_digit 10 c"
  shows "read_octets (length bs) True (concat (map (\<lambda>b. ''.'' @ show_nat (unat b)) bs) @ r)
    = Some (bs, r)"
proof (induction bs)
  case (Cons b bs)
  have dot: "\<not> is_radix_digit 10 (CHR ''.'')" by (simp add: is_radix_digit_def digit_val_def)
  have "\<not> is_radix_digit 10 c" if "concat (map (\<lambda>b. ''.'' @ show_nat (unat b)) bs) @ r = c # t" for c t
    using that assms dot by (cases bs) auto
  then have "read_number 10 (Some 3) False 255
      (show_nat (unat b) @ concat (map (\<lambda>b. ''.'' @ show_nat (unat b)) bs) @ r)
      = Some (unat b, concat (map (\<lambda>b. ''.'' @ show_nat (unat b)) bs) @ r)"
    using unat_byte_less [of b] show_nat_length_le [of "unat b"]
    by (intro read_number_show) (simp_all add: less_Suc_eq_le [symmetric] del: unat_byte_less)
  with Cons show ?case by simp
qed simp

lemma read_ipv4_show:
  assumes "\<And>c t. r = c # t \<Longrightarrow> \<not> is_radix_digit 10 c"
  shows "read_ipv4 (show_ipv4 a @ r) = Some (a, r)"
proof -
  obtain b bs where o: "v4_octets a = b # bs" "length bs = 3"
    using length_octets(1) [of a] by (cases "v4_octets a") auto
  have "read_octets 4 True (''.'' @ show_ipv4 a @ r) = Some (v4_octets a, r)"
    using read_octets_show [of r "v4_octets a"] assms
    by (simp add: show_ipv4_def join_def o comp_def)
  then have "read_octets 4 False (show_ipv4 a @ r) = Some (v4_octets a, r)"
    by (simp add: numeral_eq_Suc)
  then show ?thesis by (simp add: read_ipv4_def)
qed

lemma parse_sock_addr_show_v4 [str_simps]:
  "parse_sock_addr (show_sock (SockV4 a p)) = Some (SockV4 a p)"
proof -
  have "\<not> is_radix_digit 10 (CHR '':'')" by (simp add: is_radix_digit_def digit_val_def)
  then have "read_ipv4 (show_ipv4 a @ '':'' @ show_nat (unat p)) = Some (a, '':'' @ show_nat (unat p))"
    by (intro read_ipv4_show) auto
  moreover have "read_number 10 None True 65535 (show_nat (unat p) @ []) = Some (unat p, [])"
    using unat_u16_less [of p] by (intro read_number_show) (simp_all add: less_Suc_eq_le [symmetric] del: unat_u16_less)
  ultimately show ?thesis
    by (simp add: parse_sock_addr_def read_sock_v4_def read_port_def full_def)
qed

lemma read_ipv4_show_end: "read_ipv4 (show_ipv4 a) = Some (a, [])"
  using read_ipv4_show [of "[]" a] by simp

lemma parse_ip_show_v4 [str_simps]: "parse_ip (show_ipv4 a) = Some (IpV4 a)"
  by (simp add: parse_ip_def read_ipv4_show_end full_def)

section \<open>Blocks of IPv4 addresses\<close>

lemma be_bytes_4:
  "be_bytes 4 v = [of_nat (v div 16777216), of_nat (v div 65536), of_nat (v div 256), of_nat v]"
proof -
  have "(4::nat) = Suc (Suc (Suc (Suc 0)))" by simp
  then show ?thesis by (simp only: be_bytes.simps) simp
qed

lemma octet_nat:
  "unat (v4_octets a ! 0) = unat a div 16777216" "unat (v4_octets a ! 1) = unat a div 65536 mod 256"
proof -
  have "unat a < 4294967296" using unsigned_less [of a] by simp
  then show "unat (v4_octets a ! 0) = unat a div 16777216"
    "unat (v4_octets a ! 1) = unat a div 65536 mod 256"
    by (simp_all add: v4_octets_def be_bytes_4 unat_byte_of_nat)
qed

lemma octet_range:
  "k \<le> v4_octets a ! Suc 0 \<longleftrightarrow> unat k \<le> unat a div 65536 mod 256"
  "v4_octets a ! Suc 0 \<le> k \<longleftrightarrow> unat a div 65536 mod 256 \<le> unat k"
  "v4_octets a ! Suc 0 = k \<longleftrightarrow> unat a div 65536 mod 256 = unat k"
  "v4_octets a ! 0 = k \<longleftrightarrow> unat a div 16777216 = unat k"
  using octet_nat [of a] by (simp_all add: word_le_nat_alt word_unat_eq_iff)

lemma div_eq_range: "0 < q \<Longrightarrow> (n :: nat) div q = k \<longleftrightarrow> k * q \<le> n \<and> n < k * q + q"
  by (metis add.commute div_less_iff_less_mult div_nat_eqI less_Suc_eq_le
      less_eq_div_iff_mult_less_eq mult_Suc nat_le_linear order_refl mult.commute)

lemma block8: "(n :: nat) div 16777216 = k \<longleftrightarrow> k * 16777216 \<le> n \<and> n \<le> k * 16777216 + 16777215"
  by (subst div_eq_range) auto

lemma block_range:
  assumes "j < 256"
  shows "(n :: nat) div 16777216 = k \<and> i \<le> n div 65536 mod 256 \<and> n div 65536 mod 256 \<le> j \<longleftrightarrow>
     k * 16777216 + i * 65536 \<le> n \<and> n \<le> k * 16777216 + j * 65536 + 65535"
proof -
  define m where "m = n div 65536"
  have m: "n div 16777216 = m div 256" by (simp add: m_def div_mult2_eq [symmetric])
  have dm: "m = 256 * (m div 256) + m mod 256" "m mod 256 < 256" by simp_all
  have "m div 256 = k \<and> i \<le> m mod 256 \<and> m mod 256 \<le> j \<longleftrightarrow> 256 * k + i \<le> m \<and> m \<le> 256 * k + j"
  proof
    assume r: "256 * k + i \<le> m \<and> m \<le> 256 * k + j"
    then have "m div 256 = k" using assms by (intro div_nat_eqI) auto
    with r dm show "m div 256 = k \<and> i \<le> m mod 256 \<and> m mod 256 \<le> j" by linarith
  qed (use dm in linarith)
  also have "256 * k + i \<le> m \<longleftrightarrow> (256 * k + i) * 65536 \<le> n"
    by (simp add: m_def less_eq_div_iff_mult_less_eq)
  also have "m \<le> 256 * k + j \<longleftrightarrow> n < (256 * k + j + 1) * 65536"
    unfolding m_def by (subst div_less_iff_less_mult [symmetric]) auto
  finally show ?thesis unfolding m m_def [symmetric] by (auto simp: algebra_simps)
qed

lemma block16:
  "(n :: nat) div 16777216 = k \<and> n div 65536 mod 256 = j \<longleftrightarrow>
     j < 256 \<and> k * 16777216 + j * 65536 \<le> n \<and> n \<le> k * 16777216 + j * 65536 + 65535"
  using block_range [of j n k j] by (cases "j < 256") auto

lemma octet2_nat: "v4_octets a ! 2 = k \<longleftrightarrow> unat a div 256 mod 256 = unat k"
proof -
  have "unat a < 4294967296" using unsigned_less [of a] by simp
  then have "unat (v4_octets a ! 2) = unat a div 256 mod 256"
    by (simp add: v4_octets_def be_bytes_4 unat_byte_of_nat)
  then show ?thesis by (simp add: word_unat_eq_iff)
qed

lemma block24:
  "(n :: nat) div 16777216 = k \<and> n div 65536 mod 256 = j \<and> n div 256 mod 256 = i \<longleftrightarrow>
     j < 256 \<and> i < 256 \<and> k * 16777216 + j * 65536 + i * 256 \<le> n \<and>
     n \<le> k * 16777216 + j * 65536 + i * 256 + 255"
proof -
  have "n div 65536 = n div 256 div 256" "n div 16777216 = n div 256 div 65536"
    by (simp_all add: div_mult2_eq [symmetric])
  moreover define m where "m = n div 256"
  moreover have "m div 65536 = k \<and> m div 256 mod 256 = j \<and> m mod 256 = i \<longleftrightarrow>
      j < 256 \<and> i < 256 \<and> m = k * 65536 + j * 256 + i"
  proof
    assume "m div 65536 = k \<and> m div 256 mod 256 = j \<and> m mod 256 = i"
    moreover have "m = 256 * (m div 256) + m mod 256" by simp
    moreover have "m div 256 = 256 * (m div 256 div 256) + m div 256 mod 256" by simp
    moreover have "m div 256 div 256 = m div 65536" by (simp add: div_mult2_eq [symmetric])
    ultimately show "j < 256 \<and> i < 256 \<and> m = k * 65536 + j * 256 + i" by auto
  next
    assume "j < 256 \<and> i < 256 \<and> m = k * 65536 + j * 256 + i"
    then have *: "m = (k * 256 + j) * 256 + i" "i < 256" "j < 256" by simp_all
    then have "m div 256 = k * 256 + j" "m mod 256 = i"
      unfolding *(1) by (simp_all only: mod_mult_self3 mod_less div_mult_self3 div_less)
    moreover have "m div 65536 = m div 256 div 256" by (simp add: div_mult2_eq [symmetric])
    ultimately show "m div 65536 = k \<and> m div 256 mod 256 = j \<and> m mod 256 = i"
      using * by simp
  qed
  moreover have "m = k * 65536 + j * 256 + i \<longleftrightarrow>
      k * 16777216 + j * 65536 + i * 256 \<le> n \<and> n \<le> k * 16777216 + j * 65536 + i * 256 + 255"
    unfolding m_def by (subst div_eq_range) auto
  ultimately show ?thesis by simp
qed

end
