(* ===== verification/Scheduler.thy ===== *)
theory Scheduler
  imports Complex_Main Tables NetAddr
begin

text \<open>
  The node scheduler, \<open>hydra-core/src/scheduler.rs\<close>, and the node record with its score
  of \<open>hydra-protocol/src/session.rs\<close>. An \<open>f64\<close> kept in a node is a finite value, a real
  here (rounding is not modelled); an \<open>f64\<close> that comes from outside may also be an
  infinity or not a number. The lock around the table makes every operation atomic.
\<close>

datatype f64 = Finite real | NotFinite

datatype node_status = Online | Offline | Degraded

record node_info =
  address :: sock_addr
  bandwidth :: real
  latency :: real
  loss_rate :: real
  load :: real
  status :: node_status

type_synonym scheduler = "(sock_addr \<times> node_info) list"

definition clamp01 :: "real \<Rightarrow> real" where
  "clamp01 x = (if x < 0 then 0 else if x > 1 then 1 else x)"

definition calculate_score :: "node_info \<Rightarrow> real" where
  "calculate_score n =
    (let bw_u = 1 - exp (- bandwidth n / 100);
         lat_u = 1 / (1 + latency n / 200);
         loss_u = clamp01 (1 - loss_rate n);
         load_u = clamp01 (1 - load n)
     in 4/10 * bw_u + 3/10 * lat_u + 2/10 * loss_u + 1/10 * load_u)"

definition sanitize :: "f64 \<Rightarrow> real \<Rightarrow> real \<Rightarrow> real \<Rightarrow> real" where
  "sanitize new mn mx old =
    (case new of Finite x \<Rightarrow> if x \<ge> mn \<and> x \<le> mx then x else old | NotFinite \<Rightarrow> old)"

section \<open>Operations\<close>

definition sched_new :: scheduler where
  "sched_new = []"

definition add_node :: "node_info \<Rightarrow> scheduler \<Rightarrow> scheduler" where
  "add_node node nodes = AList.update (address node) node nodes"

definition remove_node :: "sock_addr \<Rightarrow> scheduler \<Rightarrow> scheduler" where
  "remove_node addr nodes = AList.delete addr nodes"

definition node_values :: "scheduler \<Rightarrow> node_info list" where
  "node_values nodes = map snd nodes"

text \<open>The comparison \<open>get_best_node\<close> maximises: \<open>True\<close> when \<open>a\<close> is not greater than \<open>b\<close>.
  \<open>max_by\<close> keeps the later of two equal elements.\<close>

definition best_le :: "node_info \<Rightarrow> node_info \<Rightarrow> bool" where
  "best_le a b = (let sa = calculate_score a; sb = calculate_score b in
     sa < sb \<or> (sa = sb \<and> address b \<le> address a))"

fun max_by :: "('a \<Rightarrow> 'a \<Rightarrow> bool) \<Rightarrow> 'a list \<Rightarrow> 'a option" where
  "max_by le [] = None"
| "max_by le (x # xs) = Some (fold (\<lambda>y m. if le m y then y else m) xs x)"

definition get_best_node :: "scheduler \<Rightarrow> node_info option" where
  "get_best_node nodes = max_by best_le (filter (\<lambda>n. status n = Online) (node_values nodes))"

fun rank :: "node_status \<Rightarrow> nat" where
  "rank Online = 0"
| "rank Degraded = 1"
| "rank Offline = 2"

definition priority_le :: "node_info \<Rightarrow> node_info \<Rightarrow> bool" where
  "priority_le a b =
    (rank (status a) < rank (status b) \<or>
     (rank (status a) = rank (status b) \<and>
       (calculate_score b < calculate_score a \<or>
        (calculate_score b = calculate_score a \<and> address a \<le> address b))))"

definition get_nodes_by_priority :: "scheduler \<Rightarrow> node_info list" where
  "get_nodes_by_priority nodes = sort_by priority_le (node_values nodes)"

definition update_node_stats ::
  "sock_addr \<Rightarrow> f64 \<Rightarrow> f64 \<Rightarrow> f64 \<Rightarrow> f64 \<Rightarrow> scheduler \<Rightarrow> scheduler" where
  "update_node_stats addr bw lat loss ld nodes =
    (case map_of nodes addr of
       None \<Rightarrow> nodes
     | Some node \<Rightarrow> AList.update addr
         (node \<lparr> bandwidth := sanitize bw 0 1000000 (bandwidth node),
                 latency := sanitize lat 0 1000000 (latency node),
                 loss_rate := sanitize loss 0 1 (loss_rate node),
                 load := sanitize ld 0 1 (load node) \<rparr>) nodes)"

definition update_node_status :: "sock_addr \<Rightarrow> node_status \<Rightarrow> scheduler \<Rightarrow> scheduler" where
  "update_node_status addr st nodes =
    (case map_of nodes addr of
       None \<Rightarrow> nodes
     | Some node \<Rightarrow> AList.update addr (node \<lparr> status := st \<rparr>) nodes)"

definition mark_node_offline :: "sock_addr \<Rightarrow> scheduler \<Rightarrow> scheduler" where
  "mark_node_offline addr nodes = update_node_status addr Offline nodes"

definition get_online_nodes :: "scheduler \<Rightarrow> node_info list" where
  "get_online_nodes nodes = filter (\<lambda>n. status n = Online) (node_values nodes)"

definition get_all_nodes :: "scheduler \<Rightarrow> node_info list" where
  "get_all_nodes nodes = node_values nodes"

section \<open>The table invariant\<close>

definition metrics_ok :: "node_info \<Rightarrow> bool" where
  "metrics_ok n \<longleftrightarrow> 0 \<le> bandwidth n \<and> 0 \<le> latency n \<and> 0 \<le> loss_rate n \<and> loss_rate n \<le> 1 \<and>
     0 \<le> load n \<and> load n \<le> 1"

text \<open>One entry per address, filed under its own address, with metrics in range.\<close>

definition sched_inv :: "scheduler \<Rightarrow> bool" where
  "sched_inv s \<longleftrightarrow> table_ok s \<and> (\<forall>(a, n) \<in> set s. address n = a \<and> metrics_ok n)"

datatype sched_op =
    AddNode node_info
  | RemoveNode sock_addr
  | UpdateStats sock_addr f64 f64 f64 f64
  | UpdateStatus sock_addr node_status
  | MarkOffline sock_addr

text \<open>A node that is added comes with metrics in range; the others take any value.\<close>

fun sched_step :: "sched_op \<Rightarrow> scheduler \<Rightarrow> scheduler" where
  "sched_step (AddNode n) s = (if metrics_ok n then add_node n s else s)"
| "sched_step (RemoveNode a) s = remove_node a s"
| "sched_step (UpdateStats a bw lat loss ld) s = update_node_stats a bw lat loss ld s"
| "sched_step (UpdateStatus a st) s = update_node_status a st s"
| "sched_step (MarkOffline a) s = mark_node_offline a s"

lemma in_update:
  "p \<in> set (AList.update k v t) \<Longrightarrow> p = (k, v) \<or> p \<in> set t"
  by (induction t) (auto split: if_splits)

lemma sched_inv_update:
  "sched_inv s \<Longrightarrow> address n = a \<Longrightarrow> metrics_ok n \<Longrightarrow> sched_inv (AList.update a n s)"
  unfolding sched_inv_def by (fastforce dest: in_update intro: distinct_update)

lemma sanitize_range: "mn \<le> old \<Longrightarrow> mn \<le> sanitize x mn mx old"
  "old \<le> mx \<Longrightarrow> sanitize x mn mx old \<le> mx"
  by (cases x; auto simp: sanitize_def)+

lemma sanitize_nonneg: "0 \<le> old \<Longrightarrow> 0 \<le> sanitize x 0 mx old"
  by (rule sanitize_range)

lemma sched_inv_get: "sched_inv s \<Longrightarrow> map_of s a = Some n \<Longrightarrow> address n = a \<and> metrics_ok n"
  by (auto simp: sched_inv_def dest: map_of_SomeD)

lemma sched_inv_modify:
  assumes "sched_inv s" "\<And>n. address (f n) = address n" "\<And>n. metrics_ok n \<Longrightarrow> metrics_ok (f n)"
  shows "sched_inv (case map_of s a of None \<Rightarrow> s | Some n \<Rightarrow> AList.update a (f n) s)"
proof (cases "map_of s a")
  case (Some n)
  then show ?thesis
    using assms sched_inv_get [OF assms(1) Some] by (simp add: sched_inv_update)
qed (use assms in simp)

lemma sched_inv_step: "sched_inv s \<Longrightarrow> sched_inv (sched_step op s)"
proof (induction op)
  case (AddNode n)
  then show ?case by (simp add: add_node_def sched_inv_update)
next
  case (RemoveNode a)
  then show ?case
    by (auto simp: sched_inv_def remove_node_def AList.delete_eq distinct_map_filter)
next
  case (UpdateStats a bw lat loss ld)
  then show ?case
    unfolding sched_step.simps update_node_stats_def
    by (rule sched_inv_modify) (auto simp: metrics_ok_def intro: sanitize_range)
next
  case (UpdateStatus a st)
  then show ?case
    unfolding sched_step.simps update_node_status_def
    by (rule sched_inv_modify) (auto simp: metrics_ok_def)
next
  case (MarkOffline a)
  then show ?case
    unfolding sched_step.simps mark_node_offline_def update_node_status_def
    by (rule sched_inv_modify) (auto simp: metrics_ok_def)
qed

interpretation sched: guarded_table sched_new sched_step sched_inv
  by unfold_locales (simp add: sched_inv_def sched_new_def, rule sched_inv_step)

section \<open>Order and score\<close>

lemma priority_total: "priority_le a b \<or> priority_le b a"
  by (auto simp: priority_le_def)

lemma priority_trans: "priority_le a b \<Longrightarrow> priority_le b c \<Longrightarrow> priority_le a c"
  by (auto simp: priority_le_def)

lemma priority_antisym: "priority_le a b \<Longrightarrow> priority_le b a \<Longrightarrow> address a = address b"
  by (auto simp: priority_le_def)

lemma best_priority:
  "status a = Online \<Longrightarrow> status b = Online \<Longrightarrow> best_le a b \<longleftrightarrow> priority_le b a"
  by (auto simp: best_le_def priority_le_def Let_def)

lemma fold_max_cong:
  assumes "\<forall>a\<in>insert x (set xs). \<forall>b\<in>insert x (set xs). le a b \<longleftrightarrow> le' b a"
    and tot: "\<And>a b. le' a b \<or> le' b a" and tr: "\<And>a b c. le' a b \<Longrightarrow> le' b c \<Longrightarrow> le' a c"
  shows "let m = fold (\<lambda>y m. if le m y then y else m) xs x in
    m \<in> insert x (set xs) \<and> (\<forall>y\<in>insert x (set xs). le' m y)"
  using assms(1)
proof (induction xs arbitrary: x)
  case Nil
  then show ?case using tot by auto
next
  case (Cons z xs)
  define w where "w = (if le x z then z else x)"
  have w: "le' w x" "le' w z" "w \<in> {x, z}"
    using Cons.prems tot [of x z] tot [of x x] tot [of z z] by (auto simp: w_def)
  define m where "m = fold (\<lambda>y m. if le m y then y else m) xs w"
  have "\<forall>a\<in>insert w (set xs). \<forall>b\<in>insert w (set xs). le a b \<longleftrightarrow> le' b a"
    using Cons.prems w(3) by auto
  from Cons.IH [OF this] have m: "m \<in> insert w (set xs)" "\<forall>y\<in>insert w (set xs). le' m y"
    by (simp_all add: m_def Let_def)
  then have "le' m w" by simp
  then have "le' m x" "le' m z" using tr w(1,2) by blast+
  with m w(3) show ?case by (auto simp: Let_def m_def [symmetric] w_def [symmetric])
qed

lemma inv_inj_address:
  "sched_inv s \<Longrightarrow> a \<in> set (node_values s) \<Longrightarrow> b \<in> set (node_values s) \<Longrightarrow>
   address a = address b \<Longrightarrow> a = b"
  unfolding sched_inv_def node_values_def
  by (fastforce dest: eq_key_imp_eq_value)

lemma score_range_of_parts:
  assumes "0 \<le> bw" "bw \<le> 1" "0 \<le> lat" "lat \<le> 1" "0 \<le> los" "los \<le> 1" "0 \<le> ld" "ld \<le> (1::real)"
  shows "0 \<le> 4/10 * bw + 3/10 * lat + 2/10 * los + 1/10 * ld"
    "4/10 * bw + 3/10 * lat + 2/10 * los + 1/10 * ld \<le> 1"
  using assms by linarith+

lemma clamp01_range: "0 \<le> clamp01 x" "clamp01 x \<le> 1"
  by (auto simp: clamp01_def)

lemma clamp01_mono: "x \<le> y \<Longrightarrow> clamp01 x \<le> clamp01 y"
  by (auto simp: clamp01_def)

definition demo_node :: "u16 \<Rightarrow> real \<Rightarrow> node_info" where
  "demo_node p l = \<lparr> address = SockV4 0x0A000001 p, bandwidth = 50, latency = l, loss_rate = 0,
     load = 1/2, status = Online \<rparr>"

section \<open>Properties\<close>

text \<open>
  whatever sequence of additions, removals, measurements and status changes the
  scheduler goes through, it holds one entry per address, filed under its own address, and
  every metric stays in its range: an infinite, undefined or out-of-range measurement never
  gets in.
\<close>

theorem scheduler_invariant:
  "sched_inv (fold sched_step ops sched_new)"
  by (rule sched.inv_run)

text \<open>
  the score is a number in the unit interval, and a node that is at least as good in
  bandwidth, latency, loss and load never scores lower.
\<close>

theorem score_bounds_mono:
  assumes "metrics_ok a" "metrics_ok b"
  shows "0 \<le> calculate_score a \<and> calculate_score a \<le> 1 \<and>
    (bandwidth a \<le> bandwidth b \<and> latency b \<le> latency a \<and> loss_rate b \<le> loss_rate a \<and>
     load b \<le> load a \<longrightarrow> calculate_score a \<le> calculate_score b)"
proof -
  have bw: "0 \<le> 1 - exp (- bandwidth a / 100)" "1 - exp (- bandwidth a / 100) \<le> 1"
    using assms by (auto simp: metrics_ok_def)
  have lat: "0 \<le> 1 / (1 + latency a / 200)" "1 / (1 + latency a / 200) \<le> 1"
    using assms by (auto simp: metrics_ok_def)
  have mono: "calculate_score a \<le> calculate_score b"
    if "bandwidth a \<le> bandwidth b" "latency b \<le> latency a" "loss_rate b \<le> loss_rate a" "load b \<le> load a"
  proof -
    have "1 - exp (- bandwidth a / 100) \<le> 1 - exp (- bandwidth b / 100)" using that by simp
    moreover have "1 / (1 + latency a / 200) \<le> 1 / (1 + latency b / 200)"
      using that assms by (intro frac_le) (auto simp: metrics_ok_def)
    moreover have "clamp01 (1 - loss_rate a) \<le> clamp01 (1 - loss_rate b)"
      "clamp01 (1 - load a) \<le> clamp01 (1 - load b)"
      using that by (auto intro: clamp01_mono)
    ultimately show ?thesis
      unfolding calculate_score_def Let_def by (intro add_mono mult_left_mono) simp_all
  qed
  show ?thesis
    using score_range_of_parts [OF bw lat clamp01_range clamp01_range] mono
    by (simp add: calculate_score_def Let_def)
qed

theorem score_bounds_mono_witness:
  "calculate_score (demo_node 1 300) \<le> calculate_score (demo_node 2 20) \<and>
   calculate_score (demo_node 1 300) \<le> 1"
  using score_bounds_mono [of "demo_node 1 300" "demo_node 2 20"]
  by (simp add: metrics_ok_def demo_node_def)

text \<open>
  the two views of the scheduler agree and neither depends on the order of the hash
  map. The priority list holds every node once, is sorted (online before degraded before
  offline, then by falling score, then by address), is the same for every iteration order
  of the same table, and its head, when online, is exactly \<open>get_best_node\<close>.
\<close>

theorem priority_list_correct:
  assumes "sched_inv s" "mset s' = mset s"
  shows "mset (get_nodes_by_priority s) = mset (get_all_nodes s) \<and>
    sorted_wrt priority_le (get_nodes_by_priority s) \<and>
    get_nodes_by_priority s' = get_nodes_by_priority s \<and>
    get_best_node s =
      (case get_nodes_by_priority s of
         n # _ \<Rightarrow> if status n = Online then Some n else None
       | [] \<Rightarrow> None)"
proof -
  let ?p = "get_nodes_by_priority s" and ?on = "filter (\<lambda>n. status n = Online) (node_values s)"
  have sorted: "sorted_wrt priority_le (sort_by priority_le xs)" for xs
    by (rule sorted_sort_by) (use priority_total priority_trans in blast)+
  have set: "set ?p = set (node_values s)" by (simp add: get_nodes_by_priority_def)
  have same: "get_nodes_by_priority s' = ?p"
  proof (rule sorted_wrt_unique [where le = priority_le])
    have "mset (map snd s') = mset (map snd s)" using assms(2) by simp
    then show "mset (get_nodes_by_priority s') = mset ?p"
      by (simp add: get_nodes_by_priority_def node_values_def)
    then have "set (get_nodes_by_priority s') = set (node_values s)"
      using set by (metis set_mset_mset)
    then show "\<And>a b. a \<in> set (get_nodes_by_priority s') \<Longrightarrow> b \<in> set (get_nodes_by_priority s') \<Longrightarrow>
        priority_le a b \<Longrightarrow> priority_le b a \<Longrightarrow> a = b"
      using inv_inj_address [OF assms(1)] priority_antisym by metis
  qed (simp_all add: get_nodes_by_priority_def sorted)
  have best: "get_best_node s = (case ?p of n # _ \<Rightarrow> if status n = Online then Some n else None | [] \<Rightarrow> None)"
  proof (cases ?p)
    case Nil
    then have "node_values s = []" using set by simp
    then show ?thesis using Nil by (simp add: get_best_node_def)
  next
    case (Cons n r)
    have n: "n \<in> set (node_values s)" and le: "\<And>m. m \<in> set (node_values s) \<Longrightarrow> priority_le n m"
      using set sorted [of "node_values s"] Cons priority_total [of n n]
      unfolding get_nodes_by_priority_def by auto
    show ?thesis
    proof (cases ?on)
      case Nil
      then have "status n \<noteq> Online" using n by (auto simp: filter_empty_conv)
      then show ?thesis using Cons Nil by (simp add: get_best_node_def)
    next
      case on: (Cons x xs)
      define m where "m = fold (\<lambda>y m. if best_le m y then y else m) xs x"
      have onset: "insert x (set xs) = {k \<in> set (node_values s). status k = Online}"
        using arg_cong [OF on, of set] by auto
      have "\<forall>a\<in>insert x (set xs). \<forall>b\<in>insert x (set xs). best_le a b \<longleftrightarrow> priority_le b a"
        unfolding onset by (auto simp: best_priority)
      then have "m \<in> insert x (set xs) \<and> (\<forall>y\<in>insert x (set xs). priority_le m y)"
        unfolding m_def
        by (rule fold_max_cong [unfolded Let_def]) (rule priority_total, rule priority_trans)
      then have m: "m \<in> insert x (set xs)" "\<forall>y\<in>insert x (set xs). priority_le m y" by blast+
      then have mv: "m \<in> set (node_values s)" "status m = Online" using onset by auto
      have "rank (status n) \<le> rank (status m)" using le [OF mv(1)] by (auto simp: priority_le_def)
      then have st: "status n = Online" using mv by (cases "status n") auto
      then have "priority_le m n" using m n onset by blast
      then have "m = n"
        using le [OF mv(1)] priority_antisym inv_inj_address [OF assms(1) mv(1) n] by blast
      then show ?thesis using Cons st on by (simp add: get_best_node_def m_def)
    qed
  qed
  show ?thesis
    using same best sorted by (simp add: get_nodes_by_priority_def get_all_nodes_def)
qed

theorem priority_list_correct_witness:
  "mset (get_nodes_by_priority (add_node (demo_node 2 20) (add_node (demo_node 1 300) sched_new)))
     = {# demo_node 1 300, demo_node 2 20 #}"
proof -
  let ?s = "add_node (demo_node 2 20) (add_node (demo_node 1 300) sched_new)"
  have "sched_inv ?s"
    by (simp add: sched_inv_def add_node_def sched_new_def demo_node_def metrics_ok_def)
  from priority_list_correct [OF this refl] show ?thesis
    by (simp add: get_all_nodes_def node_values_def add_node_def sched_new_def demo_node_def)
qed

end
