(* ===== verification/FetchHttp.thy ===== *)
theory FetchHttp
  imports NetAddr
begin

text \<open>
  The HTTP client of the downloader (\<open>hydra-fetch/src/http.rs\<close>): requests, the head of a response
  and the three ways a body is framed. A stream is what its reads return, one segment after the
  other; it ends there, or breaks. The version of the crate is an argument.
\<close>

section \<open>Requests\<close>

definition eol :: string where "eol = [CHR 0x0D, CHR 0x0A]"

definition range_line :: "nat \<Rightarrow> nat option \<Rightarrow> string" where
  "range_line start stop =
    ''Range: bytes='' @ show_nat start @ ''-'' @ (case stop of Some e \<Rightarrow> show_nat e | None \<Rightarrow> '''') @ eol"

definition build_request ::
  "string \<Rightarrow> string \<Rightarrow> string \<Rightarrow> string \<Rightarrow> (nat \<times> nat option) option \<Rightarrow> string option \<Rightarrow> string" where
  "build_request ver meth host path rng if_range =
    meth @ '' '' @ path @ '' HTTP/1.1'' @ eol @ ''Host: '' @ host @ eol @
    ''User-Agent: hydra-fetch/'' @ ver @ eol @ ''Accept: */*'' @ eol @
    (case rng of
       Some (s, e) \<Rightarrow> range_line s e @ (case if_range of Some v \<Rightarrow> ''If-Range: '' @ v @ eol | None \<Rightarrow> '''')
     | None \<Rightarrow> '''') @
    ''Connection: keep-alive'' @ eol @ eol"

section \<open>Streams\<close>

record source =
  segs :: "byte list list"
  broken :: bool

fun take_seg :: "nat \<Rightarrow> byte list list \<Rightarrow> byte list \<times> byte list list" where
  "take_seg k [] = ([], [])"
| "take_seg k ([] # r) = take_seg k r"
| "take_seg k ((b # s) # r) = (take k (b # s), drop k (b # s) # r)"

definition src_read :: "nat \<Rightarrow> source \<Rightarrow> (string + byte list) \<times> source" where
  "src_read k s =
    (case take_seg k (segs s) of
       (bs, r) \<Rightarrow> (if bs = [] \<and> broken s \<and> 0 < k then Inl ''read'' else Inr bs, s \<lparr> segs := r \<rparr>))"

definition src_bytes :: "source \<Rightarrow> byte list" where "src_bytes s = concat (segs s)"

lemma take_seg_bytes:
  "take_seg k ss = (bs, r) \<Longrightarrow> concat ss = bs @ concat r \<and> length bs \<le> k \<and> (0 < k \<longrightarrow> bs = [] \<longrightarrow> concat ss = [])"
proof (induction k ss rule: take_seg.induct)
  case (2 k ra)
  then show ?case by (metis append_Nil concat.simps(2) take_seg.simps(2))
qed auto

lemma src_read_bytes:
  assumes "src_read k s = (res, s')" "0 < k"
  shows "broken s' = broken s \<and>
    (case res of
       Inr bs \<Rightarrow> src_bytes s = bs @ src_bytes s' \<and> length bs \<le> k \<and>
         (bs = [] \<longrightarrow> src_bytes s = [] \<and> \<not> broken s)
     | Inl _ \<Rightarrow> src_bytes s = [] \<and> src_bytes s' = [] \<and> broken s)"
proof (cases "take_seg k (segs s)")
  case (Pair bs r)
  have t: "src_bytes s = bs @ concat r" "length bs \<le> k" "bs = [] \<Longrightarrow> src_bytes s = []"
    using take_seg_bytes [OF Pair] assms(2) unfolding src_bytes_def by metis+
  have s': "s' = s \<lparr> segs := r \<rparr>" "src_bytes s' = concat r"
    using assms(1) Pair by (auto simp: src_read_def src_bytes_def)
  show ?thesis
  proof (cases "bs = [] \<and> broken s")
    case True
    then have "res = Inl ''read''" using assms Pair by (simp add: src_read_def)
    then show ?thesis using True t s' by simp
  next
    case False
    then have "res = Inr bs" using assms Pair by (auto simp: src_read_def)
    then show ?thesis using False t s' by simp
  qed
qed

section \<open>The head of a response\<close>

datatype body_kind = Length nat | Chunked | ToEof

record response_head =
  resp_status :: nat
  resp_headers :: "(string \<times> string) list"
  resp_kind :: body_kind

text \<open>\<open>split("\r\n")\<close>.\<close>

function split_eol :: "string \<Rightarrow> string list" where
  "split_eol [] = [[]]"
| "split_eol (c # s) =
    (case strip_prefix eol (c # s) of
       Some r \<Rightarrow> [] # split_eol r
     | None \<Rightarrow> (case split_eol s of [] \<Rightarrow> [[c]] | p # ps \<Rightarrow> (c # p) # ps))"
  by pat_completeness auto
termination
  by (relation "measure length") (auto simp: eol_def strip_prefix_Some_iff split: if_splits)

definition add_header :: "string \<Rightarrow> (string \<times> string) list \<Rightarrow> (string \<times> string) list" where
  "add_header line hs =
    (if line = [] then hs
     else (case split_once CHR '':'' line of
        Some (k, v) \<Rightarrow>
          (let name = to_ascii_lowercase (trim k) in if map_of hs name = None then hs @ [(name, trim v)] else hs)
      | None \<Rightarrow> hs))"

definition status_parts :: "string \<Rightarrow> string \<times> string" where
  "status_parts line =
    (case split_once CHR '' '' line of
       None \<Rightarrow> (line, '''')
     | Some (version, rest) \<Rightarrow> (version, case split_once CHR '' '' rest of Some (st, _) \<Rightarrow> st | None \<Rightarrow> rest))"

definition header :: "(string \<times> string) list \<Rightarrow> string \<Rightarrow> string option" where
  "header hs name = map_of hs (to_ascii_lowercase name)"

definition body_kind_of :: "(string \<times> string) list \<Rightarrow> string + body_kind" where
  "body_kind_of hs =
    (case map_of hs ''transfer-encoding'' of
       Some te \<Rightarrow> Inr (if contains ''chunked'' (to_ascii_lowercase te) then Chunked else ToEof)
     | None \<Rightarrow>
         (case map_of hs ''content-length'' of
            Some cl \<Rightarrow> (case parse_uint 64 (trim cl) of Some n \<Rightarrow> Inr (Length n) | None \<Rightarrow> Inl ''Content-Length'')
          | None \<Rightarrow> Inr ToEof))"

definition parse_response_head :: "byte list \<Rightarrow> string + response_head" where
  "parse_response_head head =
    (case from_utf8 head of
       None \<Rightarrow> Inl ''utf-8''
     | Some text \<Rightarrow>
         (case split_eol text of
            [] \<Rightarrow> Inl ''empty''
          | status_line # lines \<Rightarrow>
              (case status_parts status_line of
                 (version, st) \<Rightarrow>
                   if \<not> starts_with version ''HTTP/1.'' then Inl ''version''
                   else (case parse_uint 16 st of
                      None \<Rightarrow> Inl ''status''
                    | Some status \<Rightarrow>
                        (let hs = fold add_header lines [] in
                         case body_kind_of hs of
                           Inl e \<Rightarrow> Inl e
                         | Inr k \<Rightarrow> Inr \<lparr> resp_status = status, resp_headers = hs, resp_kind = k \<rparr>)))))"

definition HEAD_END :: "byte list" where "HEAD_END = [13, 10, 13, 10]"

fun find_head_end :: "byte list \<Rightarrow> nat option" where
  "find_head_end [] = None"
| "find_head_end (b # r) = (if take 4 (b # r) = HEAD_END then Some 0 else map_option Suc (find_head_end r))"

definition MAX_HEAD :: nat where "MAX_HEAD = 64 * 1024"

lemma src_read_shorter:
  "src_read k s = (Inr (b # bs), s') \<Longrightarrow> length (src_bytes s') < length (src_bytes s)"
  by (cases "take_seg k (segs s)") (auto simp: src_read_def src_bytes_def dest!: take_seg_bytes split: if_splits)

function read_response_head :: "byte list \<Rightarrow> source \<Rightarrow> (string + response_head \<times> byte list) \<times> source" where
  "read_response_head buf s =
    (case find_head_end buf of
       Some pos \<Rightarrow>
         (case parse_response_head (take pos buf) of
            Inl e \<Rightarrow> (Inl e, s)
          | Inr h \<Rightarrow> (Inr (h, drop (pos + 4) buf), s))
     | None \<Rightarrow>
         if length buf > MAX_HEAD then (Inl ''head too long'', s)
         else (case src_read 4096 s of
            (Inl e, s') \<Rightarrow> (Inl e, s')
          | (Inr [], s') \<Rightarrow> (Inl ''closed in head'', s')
          | (Inr (b # bs), s') \<Rightarrow> read_response_head (buf @ b # bs) s'))"
  by pat_completeness auto
termination
  by (relation "measure (\<lambda>(buf, s). length (src_bytes s))") (auto dest: src_read_shorter [OF sym])

declare read_response_head.simps [simp del]

section \<open>The body\<close>

record body_reader =
  br_source :: source
  br_prefix :: "byte list"
  br_kind :: body_kind
  br_remaining :: nat
  br_chunk_remaining :: nat
  br_chunk_done :: bool
  br_dead :: bool

definition body_new :: "source \<Rightarrow> body_kind \<Rightarrow> byte list \<Rightarrow> body_reader" where
  "body_new s k p = \<lparr> br_source = s, br_prefix = p, br_kind = k,
     br_remaining = (case k of Length n \<Rightarrow> n - length p | _ \<Rightarrow> 0),
     br_chunk_remaining = 0, br_chunk_done = False, br_dead = False \<rparr>"

definition raw_read :: "nat \<Rightarrow> nat option \<Rightarrow> body_reader \<Rightarrow> (string + byte list) \<times> body_reader" where
  "raw_read k cap r =
    (let want = (case cap of Some c \<Rightarrow> min k c | None \<Rightarrow> k) in
     if br_prefix r \<noteq> []
     then (Inr (take want (br_prefix r)), r \<lparr> br_prefix := drop want (br_prefix r) \<rparr>)
     else (case src_read want (br_source r) of (res, s) \<Rightarrow> (res, r \<lparr> br_source := s \<rparr>)))"

definition body_bytes :: "body_reader \<Rightarrow> byte list" where
  "body_bytes r = br_prefix r @ src_bytes (br_source r)"

text \<open>One read gives the next bytes, at most as many as asked; none only at the end.\<close>

definition same_state :: "body_reader \<Rightarrow> body_reader \<Rightarrow> bool" where
  "same_state r r' \<longleftrightarrow> br_kind r' = br_kind r \<and> br_remaining r' = br_remaining r \<and>
     br_chunk_remaining r' = br_chunk_remaining r \<and> br_chunk_done r' = br_chunk_done r \<and> br_dead r' = br_dead r"

lemma raw_read_bytes:
  assumes "raw_read k cap r = (res, r')" "0 < k" "cap \<noteq> Some 0"
  shows "same_state r r' \<and> broken (br_source r') = broken (br_source r) \<and>
    (case res of
       Inr bs \<Rightarrow> body_bytes r = bs @ body_bytes r' \<and> length bs \<le> (case cap of Some c \<Rightarrow> min k c | None \<Rightarrow> k) \<and>
         (bs = [] \<longrightarrow> body_bytes r = [] \<and> \<not> broken (br_source r))
     | Inl _ \<Rightarrow> body_bytes r = [] \<and> body_bytes r' = [] \<and> broken (br_source r))"
proof -
  define want where "want = (case cap of Some c \<Rightarrow> min k c | None \<Rightarrow> k)"
  have want: "0 < want" using assms(2,3) by (auto simp: want_def split: option.splits)
  show ?thesis
  proof (cases "br_prefix r = []")
    case True
    obtain res' s where s: "src_read want (br_source r) = (res', s)" by fastforce
    have "res = res'" "r' = r \<lparr> br_source := s \<rparr>"
      using assms(1) True s by (simp_all add: raw_read_def want_def [symmetric])
    then show ?thesis using src_read_bytes [OF s want] True
      by (cases res') (auto simp: want_def [symmetric] body_bytes_def same_state_def)
  next
    case False
    then have "res = Inr (take want (br_prefix r))" "r' = r \<lparr> br_prefix := drop want (br_prefix r) \<rparr>"
      using assms(1) by (simp_all add: raw_read_def want_def [symmetric])
    then show ?thesis using want False
      by (simp add: want_def [symmetric] body_bytes_def same_state_def)
  qed
qed

lemma raw_read_shorter:
  "raw_read k cap r = (Inr (b # bs), r') \<Longrightarrow> length (body_bytes r') < length (body_bytes r)"
proof -
  assume a: "raw_read k cap r = (Inr (b # bs), r')"
  show ?thesis
  proof (cases "br_prefix r = []")
    case True
    then show ?thesis using a
      by (auto simp: raw_read_def Let_def body_bytes_def dest: src_read_shorter split: prod.splits)
  next
    case False
    have "length (drop n p) < length p" if "take n p = b # bs" for n and p :: "byte list"
      using that by (cases p; cases n) auto
    then show ?thesis using a False by (auto simp: raw_read_def Let_def body_bytes_def)
  qed
qed

definition MAX_LINE :: nat where "MAX_LINE = 8 * 1024"

function read_line :: "byte list \<Rightarrow> body_reader \<Rightarrow> (string + string) \<times> body_reader" where
  "read_line line r =
    (case raw_read 1 None r of
       (Inl e, r') \<Rightarrow> (Inl e, r')
     | (Inr [], r') \<Rightarrow> (Inl ''closed in line'', r')
     | (Inr (b # bs), r') \<Rightarrow>
         if b = 10 then (Inr (from_utf8_lossy line), r')
         else (let line' = (if b \<noteq> 13 then line @ [b] else line)
               in if length line' > MAX_LINE then (Inl ''line too long'', r') else read_line line' r'))"
  by pat_completeness auto
termination
  by (relation "measure (\<lambda>(line, r). length (body_bytes r))") (auto dest: raw_read_shorter [OF sym])

declare read_line.simps [simp del]

text \<open>\<open>read_chunked\<close>: the size line when none is open, then data, then the end of line of the chunk.\<close>

definition chunk_size_of :: "string \<Rightarrow> nat option" where
  "chunk_size_of line = parse_radix 16 64 (trim (hd (split_on CHR '';'' line)))"

definition chunk_data :: "nat \<Rightarrow> body_reader \<Rightarrow> (string + byte list) \<times> body_reader" where
  "chunk_data k r =
    (case raw_read (min k (br_chunk_remaining r)) None r of
       (Inl e, r) \<Rightarrow> (Inl e, r)
     | (Inr bs, r) \<Rightarrow>
         if bs = [] then (Inl ''closed in chunk'', r)
         else (let r = r \<lparr> br_chunk_remaining := br_chunk_remaining r - length bs \<rparr> in
               if br_chunk_remaining r = 0
               then (case read_line [] r of
                  (Inl e, r) \<Rightarrow> (Inl e, r)
                | (Inr l, r) \<Rightarrow> (if l \<noteq> eol \<and> l \<noteq> [] then Inl ''chunk end'' else Inr bs, r))
               else (Inr bs, r)))"

definition read_chunked :: "nat \<Rightarrow> body_reader \<Rightarrow> (string + byte list) \<times> body_reader" where
  "read_chunked k r =
    (if br_chunk_done r then (Inr [], r)
     else if br_chunk_remaining r = 0 then
       (case read_line [] r of
          (Inl e, r) \<Rightarrow> (Inl e, r)
        | (Inr line, r) \<Rightarrow>
            (case chunk_size_of line of
               None \<Rightarrow> (Inl ''chunk size'', r)
             | Some sz \<Rightarrow>
                 if sz = 0 then
                   (case read_line [] r of
                      (Inl e, r) \<Rightarrow> (Inl e, r)
                    | (Inr _, r) \<Rightarrow> (Inr [], r \<lparr> br_chunk_done := True \<rparr>))
                 else chunk_data k (r \<lparr> br_chunk_remaining := sz \<rparr>)))
     else chunk_data k r)"

definition body_read :: "nat \<Rightarrow> body_reader \<Rightarrow> (string + byte list) \<times> body_reader" where
  "body_read k r =
    (case br_kind r of
       Length _ \<Rightarrow>
         (let from_prefix = br_prefix r \<noteq> [] in
          if \<not> from_prefix \<and> br_remaining r = 0 then (Inr [], r)
          else (case raw_read k (if from_prefix then None else Some (br_remaining r)) r of
             (Inl e, r) \<Rightarrow> (Inl e, r)
           | (Inr bs, r) \<Rightarrow>
               if bs = [] then (Inl ''closed in body'', r)
               else (Inr bs, if from_prefix then r else r \<lparr> br_remaining := br_remaining r - length bs \<rparr>)))
     | Chunked \<Rightarrow> read_chunked k r
     | ToEof \<Rightarrow>
         (case raw_read k None r of
            (Inl e, r) \<Rightarrow> (Inl e, r)
          | (Inr bs, r) \<Rightarrow> (Inr bs, if bs = [] then r \<lparr> br_dead := True \<rparr> else r)))"

lemma read_line_shorter:
  "read_line line r = (res, r') \<Longrightarrow> length (body_bytes r') \<le> length (body_bytes r)"
proof (induction line r arbitrary: res r' rule: read_line.induct)
  case (1 line r)
  obtain x r1 where x: "raw_read 1 None r = (x, r1)" by fastforce
  have less: "length (body_bytes r1) \<le> length (body_bytes r)"
    using raw_read_bytes [OF x] by (auto split: sum.splits)
  show ?case
  proof (cases "\<exists>b bs. x = Inr (b # bs) \<and> b \<noteq> 10 \<and> \<not> length (if b \<noteq> 13 then line @ [b] else line) > MAX_LINE")
    case False
    then show ?thesis using 1(2) less
      by (subst (asm) (1) read_line.simps) (auto simp: x simp del: One_nat_def split: sum.splits list.splits if_splits)
  next
    case True
    then obtain b bs where b: "x = Inr (b # bs)" "b \<noteq> 10" "\<not> length (if b \<noteq> 13 then line @ [b] else line) > MAX_LINE"
      by blast
    have "read_line (if b \<noteq> 13 then line @ [b] else line) r1 = (res, r')"
      using 1(2) b by (subst (asm) read_line.simps) (simp add: x del: One_nat_def)
    from 1(1) [OF x [symmetric] b(1) refl b(2) refl b(3) this] less show ?thesis by simp
  qed
qed

lemma chunk_data_shorter: "chunk_data k r = (Inr bs, r') \<Longrightarrow> length (body_bytes r') < length (body_bytes r)"
proof -
  assume a: "chunk_data k r = (Inr bs, r')"
  obtain x r1 where x: "raw_read (min k (br_chunk_remaining r)) None r = (x, r1)" by fastforce
  from a obtain b bs1 where b: "x = Inr (b # bs1)"
    by (cases x) (auto simp: chunk_data_def x neq_Nil_conv split: if_splits)
  define r2 where "r2 = r1 \<lparr> br_chunk_remaining := br_chunk_remaining r1 - length (b # bs1) \<rparr>"
  have "length (body_bytes r2) < length (body_bytes r)"
    using raw_read_shorter [OF x [unfolded b]] by (simp add: r2_def body_bytes_def)
  moreover have "r' = r2 \<or> (\<exists>y. read_line [] r2 = (y, r'))"
    using a by (auto simp: chunk_data_def x b r2_def Let_def split: if_splits prod.splits sum.splits)
  ultimately show ?thesis using read_line_shorter by fastforce
qed

text \<open>A read that gives bytes has consumed some: reading to the end terminates.\<close>

lemma body_read_shorter:
  "body_read k r = (Inr (b # bs), r') \<Longrightarrow> length (body_bytes r') < length (body_bytes r)"
proof (cases "br_kind r")
  case (Length n)
  assume "body_read k r = (Inr (b # bs), r')"
  then obtain cap r1 where "raw_read k cap r = (Inr (b # bs), r1)" "body_bytes r' = body_bytes r1"
    by (auto simp: body_read_def Length Let_def body_bytes_def split: if_splits prod.splits sum.splits)
  then show ?thesis using raw_read_shorter by metis
next
  case Chunked
  assume a: "body_read k r = (Inr (b # bs), r')"
  then have "read_chunked k r = (Inr (b # bs), r')" by (simp add: body_read_def Chunked)
  then have "chunk_data k r = (Inr (b # bs), r') \<or>
      (\<exists>x r1 n. read_line [] r = (x, r1) \<and> chunk_data k (r1 \<lparr> br_chunk_remaining := n \<rparr>) = (Inr (b # bs), r'))"
    by (auto simp: read_chunked_def split: if_splits prod.splits sum.splits option.splits)
  then show ?thesis using chunk_data_shorter read_line_shorter by (fastforce simp: body_bytes_def)
next
  case ToEof
  assume "body_read k r = (Inr (b # bs), r')"
  then have "raw_read k None r = (Inr (b # bs), r')"
    by (auto simp: body_read_def ToEof split: if_splits prod.splits sum.splits)
  then show ?thesis using raw_read_shorter by blast
qed

text \<open>\<open>read\<close> until it gives nothing, each time with a buffer of \<open>k\<close> bytes.\<close>

function read_all :: "nat \<Rightarrow> body_reader \<Rightarrow> (string + byte list) \<times> body_reader" where
  "read_all k r =
    (case body_read k r of
       (Inl e, r') \<Rightarrow> (Inl e, r')
     | (Inr [], r') \<Rightarrow> (Inr [], r')
     | (Inr (b # bs), r') \<Rightarrow>
         (case read_all k r' of (Inl e, r'') \<Rightarrow> (Inl e, r'') | (Inr rest, r'') \<Rightarrow> (Inr (b # bs @ rest), r'')))"
  by pat_completeness auto
termination
  by (relation "measure (\<lambda>(k, r). length (body_bytes r))") (auto dest: body_read_shorter [OF sym])

declare read_all.simps [simp del]

text \<open>\<open>read_exact_body\<close>: the buffer is filled or the read fails.\<close>

function read_exact_body :: "nat \<Rightarrow> body_reader \<Rightarrow> (string + byte list) \<times> body_reader" where
  "read_exact_body n r =
    (if n = 0 then (Inr [], r)
     else (case body_read n r of
        (Inl e, r') \<Rightarrow> (Inl e, r')
      | (Inr [], r') \<Rightarrow> (Inl ''body ended early'', r')
      | (Inr (b # bs), r') \<Rightarrow>
          (case read_exact_body (n - length (b # bs)) r' of
             (Inl e, r'') \<Rightarrow> (Inl e, r'')
           | (Inr rest, r'') \<Rightarrow> (Inr (b # bs @ rest), r''))))"
  by pat_completeness auto
termination
  by (relation "measure (\<lambda>(n, r). length (body_bytes r))") (auto dest: body_read_shorter [OF sym])

declare read_exact_body.simps [simp del]

section \<open>Framed by a length\<close>

text \<open>The bytes the reader still owes.\<close>

definition owed :: "body_reader \<Rightarrow> nat" where "owed r = length (br_prefix r) + br_remaining r"

lemma body_read_length:
  assumes "br_kind r = Length n" "0 < k" "body_read k r = (res, r')"
  shows "br_kind r' = Length n \<and>
    (case res of
       Inr bs \<Rightarrow> body_bytes r = bs @ body_bytes r' \<and> length bs \<le> k \<and> owed r = length bs + owed r' \<and> (bs = [] \<longrightarrow> owed r = 0)
     | Inl _ \<Rightarrow> length (body_bytes r) < owed r)"
proof (cases "br_prefix r = []")
  case True
  show ?thesis
  proof (cases "br_remaining r = 0")
    case False
    obtain x r1 where x: "raw_read k (Some (br_remaining r)) r = (x, r1)" by fastforce
    have p: "br_prefix r1 = []" using x True by (auto simp: raw_read_def Let_def split: prod.splits)
    have spec: "same_state r r1 \<and> (case x of
       Inr bs \<Rightarrow> body_bytes r = bs @ body_bytes r1 \<and> length bs \<le> min k (br_remaining r) \<and> (bs = [] \<longrightarrow> body_bytes r = [])
     | Inl _ \<Rightarrow> body_bytes r = [])"
      using raw_read_bytes [OF x assms(2)] False by (auto split: sum.splits)
    show ?thesis
    proof (cases x)
      case (Inl e)
      then show ?thesis using spec assms(1,3) False True
        by (auto simp: body_read_def x Let_def owed_def same_state_def)
    next
      case (Inr bs)
      then show ?thesis using spec assms(1,3) False True p
        by (cases "bs = []") (auto simp: body_read_def x Let_def owed_def same_state_def body_bytes_def)
    qed
  qed (use assms True in \<open>auto simp: body_read_def owed_def\<close>)
next
  case False
  then have "body_read k r = (Inr (take k (br_prefix r)), r \<lparr> br_prefix := drop k (br_prefix r) \<rparr>)"
    using assms(1,2) by (simp add: body_read_def raw_read_def)
  then have "res = Inr (take k (br_prefix r))" "r' = r \<lparr> br_prefix := drop k (br_prefix r) \<rparr>"
    using assms(3) by simp_all
  then show ?thesis using assms(1,2) False by (simp add: owed_def body_bytes_def)
qed

lemma read_all_length:
  assumes "br_kind r = Length n" "0 < k"
  shows "case read_all k r of
      (Inr data, r') \<Rightarrow> owed r \<le> length (body_bytes r) \<and> data = take (owed r) (body_bytes r) \<and>
        body_bytes r' = drop (owed r) (body_bytes r)
    | (Inl _, _) \<Rightarrow> length (body_bytes r) < owed r"
  using assms
proof (induction k r rule: read_all.induct)
  case (1 k r)
  obtain x r1 where x: "body_read k r = (x, r1)" by fastforce
  note spec = body_read_length [OF 1(2,3) x]
  show ?case
  proof (cases "\<exists>b bs. x = Inr (b # bs)")
    case False
    then show ?thesis using spec
      by (cases x; (cases "projr x")?) (auto simp: read_all.simps [of k r] x owed_def)
  next
    case True
    then obtain b bs where b: "x = Inr (b # bs)" by blast
    have s: "br_kind r1 = Length n" "body_bytes r = (b # bs) @ body_bytes r1" "owed r = length (b # bs) + owed r1"
      using spec by (simp_all add: b)
    obtain y r2 where y: "read_all k r1 = (y, r2)" by fastforce
    have ih: "case y of Inr data \<Rightarrow> owed r1 \<le> length (body_bytes r1) \<and> data = take (owed r1) (body_bytes r1) \<and>
        body_bytes r2 = drop (owed r1) (body_bytes r1) | Inl _ \<Rightarrow> length (body_bytes r1) < owed r1"
      using 1(1) [OF x [symmetric] b refl s(1) 1(3)] y by (cases y) auto
    have r: "read_all k r = (case y of Inl e \<Rightarrow> (Inl e, r2) | Inr rest \<Rightarrow> (Inr (b # bs @ rest), r2))"
      by (subst read_all.simps) (simp add: x b y)
    show ?thesis using ih s(2,3) by (cases y) (simp_all add: r)
  qed
qed

lemma owed_new: "owed (body_new s (Length n) p) = max n (length p)"
  by (simp add: owed_def body_new_def)

section \<open>Framed by chunks\<close>

definition chunk_of :: "byte list \<Rightarrow> byte list" where
  "chunk_of c = as_bytes (show_hex (length c)) @ [13, 10] @ c @ [13, 10]"

definition chunk_enc :: "byte list list \<Rightarrow> byte list" where
  "chunk_enc cs = concat (map chunk_of cs) @ [48, 13, 10, 13, 10]"

definition chunk_ok :: "byte list \<Rightarrow> bool" where "chunk_ok c \<longleftrightarrow> c \<noteq> [] \<and> length c < 2 ^ 64"

lemma hex_digit_val: "d < 16 \<Longrightarrow> digit_val (hex_digit d) = Some d \<and> graphic (hex_digit d) \<and> (of_char (hex_digit d) :: nat) < 128"
proof -
  assume "d < 16"
  then have "d \<in> {0, 1, 2, 3, 4, 5, 6, 7, 8, 9, 10, 11, 12, 13, 14, 15}"
    by (simp only: insert_iff empty_iff) presburger
  then show ?thesis by (elim insertE) (simp_all add: hex_digit_def digit_val_def graphic_def Let_def)
qed

lemma show_hex_digits: "c \<in> set (show_hex n) \<Longrightarrow> \<exists>d < 16. c = hex_digit d"
proof (induction n rule: show_hex.induct)
  case (1 n)
  then show ?case
    by (cases "n < 16") (auto simp: show_hex.simps [of n] intro: exI [of _ "n mod 16"])
qed

lemma no_digit [simp]: "digit_val CHR '';'' = None" "digit_val CHR ''+'' = None"
  by (simp_all add: digit_val_def)

lemma show_hex_digit_val: "c \<in> set (show_hex n) \<Longrightarrow> digit_val c \<noteq> None \<and> graphic c \<and> (of_char c :: nat) < 128"
  using show_hex_digits hex_digit_val by fastforce

lemma show_hex_not_Nil [simp]: "show_hex n \<noteq> []"
  by (subst show_hex.simps) simp

lemma digits_val_show_hex: "digits_val 16 0 (show_hex n) = Some n"
proof (induction n rule: show_hex.induct)
  case (1 n)
  then show ?case
    by (cases "n < 16") (simp_all add: show_hex.simps [of n] digits_val_append hex_digit_val)
qed

lemma length_show_hex: "n < 16 ^ m \<Longrightarrow> 0 < m \<Longrightarrow> length (show_hex n) \<le> m"
proof (induction n arbitrary: m rule: show_hex.induct)
  case (1 n)
  show ?case
  proof (cases "n < 16")
    case False
    then obtain m' where m: "m = Suc m'" "0 < m'" using 1(2,3) by (cases m; cases "m - 1") auto
    then have "n div 16 < 16 ^ m'" using 1(2) by (simp add: less_mult_imp_div_less mult.commute)
    then show ?thesis using 1(1) [OF False _ m(2)] False m by (simp add: show_hex.simps [of n])
  qed (use 1 in \<open>simp add: show_hex.simps [of n]\<close>)
qed

lemma chunk_size_of_hex: "n < 2 ^ 64 \<Longrightarrow> chunk_size_of (show_hex n) = Some n"
proof -
  assume n: "n < 2 ^ 64"
  have "graphic (hd (show_hex n))" "graphic (last (show_hex n))"
    using show_hex_digit_val [of "hd (show_hex n)" n] show_hex_digit_val [of "last (show_hex n)" n] by simp_all
  then have t: "trim (show_hex n) = show_hex n" by (intro trim_id) simp
  have "CHR '';'' \<notin> set (show_hex n)" using show_hex_digit_val [of "CHR '';''" n] by auto
  then have s: "split_on CHR '';'' (show_hex n) = [show_hex n]" by (rule split_on_none)
  have "hd (show_hex n) \<noteq> CHR ''+''"
    using show_hex_digit_val [OF hd_in_set [OF show_hex_not_Nil], of n] by auto
  then have "(case show_hex n of c # t \<Rightarrow> if c = CHR ''+'' then t else show_hex n | [] \<Rightarrow> show_hex n) = show_hex n"
    by (cases "show_hex n") auto
  then show ?thesis using n by (simp add: chunk_size_of_def s t parse_radix_def digits_val_show_hex)
qed
text \<open>A line of the stream: bytes without end of line, then an end of line.\<close>

lemma read_line_append:
  assumes "body_bytes r = l @ 13 # 10 # rest" "10 \<notin> set l" "13 \<notin> set l" "length (acc @ l) \<le> MAX_LINE"
  shows "\<exists>r'. read_line acc r = (Inr (from_utf8_lossy (acc @ l)), r') \<and> body_bytes r' = rest \<and> same_state r r'"
  using assms
proof (induction l arbitrary: acc r)
  case Nil
  have step: "\<exists>r1. raw_read 1 None q = (Inr [b], r1) \<and> body_bytes r1 = bs \<and> same_state q r1" if "body_bytes q = b # bs" for q b bs
  proof -
    obtain x r1 where x: "raw_read 1 None q = (x, r1)" by fastforce
    then show ?thesis using raw_read_bytes [OF x] that by (cases x; cases "projr x") auto
  qed
  obtain r1 where r1: "raw_read 1 None r = (Inr [13], r1)" "body_bytes r1 = 10 # rest" "same_state r r1"
    using step [of r 13 "10 # rest"] Nil by auto
  obtain r2 where r2: "raw_read 1 None r1 = (Inr [10], r2)" "body_bytes r2 = rest" "same_state r1 r2"
    using step [of r1 10 rest] r1(2) by auto
  have "read_line acc r1 = (Inr (from_utf8_lossy acc), r2)"
    by (subst read_line.simps) (simp add: r2(1) del: One_nat_def)
  then have "read_line acc r = (Inr (from_utf8_lossy acc), r2)"
    using Nil(4) by (subst read_line.simps) (simp add: r1(1) del: One_nat_def)
  then show ?case using r1(3) r2(2,3) by (auto simp: same_state_def)
next
  case (Cons b l)
  obtain x r1 where x: "raw_read 1 None r = (x, r1)" by fastforce
  then have r1: "x = Inr [b]" "body_bytes r1 = l @ 13 # 10 # rest" "same_state r r1"
    using raw_read_bytes [OF x] Cons.prems(1) by (cases x; cases "projr x"; auto)+
  obtain r' where r': "read_line (acc @ [b]) r1 = (Inr (from_utf8_lossy ((acc @ [b]) @ l)), r')" "body_bytes r' = rest" "same_state r1 r'"
    using Cons.IH [OF r1(2), of "acc @ [b]"] Cons.prems by auto
  have "read_line acc r = read_line (acc @ [b]) r1"
    using Cons.prems by (subst read_line.simps) (simp add: x r1(1) del: One_nat_def)
  then show ?case using r' r1(3) by (auto simp: same_state_def)
qed

lemma as_bytes_hex: "10 \<notin> set (as_bytes (show_hex n)) \<and> 13 \<notin> set (as_bytes (show_hex n)) \<and> utf8_valid (as_bytes (show_hex n))"
proof -
  have "is_ascii (show_hex n)" using show_hex_digit_val by (auto simp: is_ascii_def list_all_iff)
  then have "utf8_valid (as_bytes (show_hex n))" using is_ascii_is_str by (auto simp: is_str_def)
  moreover have "(of_nat (of_char c) :: byte) \<noteq> of_nat k" if "c \<in> set (show_hex n)" "k < 33" for c k
  proof -
    have "33 \<le> (of_char c :: nat)" using show_hex_digit_val [OF that(1)] by (simp add: graphic_def)
    moreover have "unat (of_nat (of_char c) :: byte) = of_char c" by (simp add: unat_byte_of_nat)
    moreover have "unat (of_nat k :: byte) = k" using that(2) by (simp add: unat_of_nat)
    ultimately show ?thesis using that(2) by (metis leD)
  qed
  from this [of _ 10] this [of _ 13] have "10 \<notin> set (as_bytes (show_hex n)) \<and> 13 \<notin> set (as_bytes (show_hex n))"
    by (auto simp: as_bytes_def)
  ultimately show ?thesis by simp
qed

text \<open>The reader still owes \<open>data\<close>, in chunks, and then leaves \<open>rest\<close> in the stream.\<close>

definition owes :: "body_reader \<Rightarrow> byte list \<Rightarrow> byte list \<Rightarrow> bool" where
  "owes r data rest \<longleftrightarrow> br_kind r = Chunked \<and> \<not> br_chunk_done r \<and>
    (\<exists>c cs. list_all chunk_ok cs \<and> length c = br_chunk_remaining r \<and> data = c @ concat cs \<and>
       body_bytes r = (if c = [] then [] else c @ [13, 10]) @ chunk_enc cs @ rest)"

lemma chunk_data_owes:
  assumes "br_kind r = Chunked" "\<not> br_chunk_done r" "c \<noteq> []" "length c = br_chunk_remaining r" "list_all chunk_ok cs"
    and "body_bytes r = c @ [13, 10] @ chunk_enc cs @ rest" "0 < k"
  shows "\<exists>bs data r'. chunk_data k r = (Inr bs, r') \<and> bs \<noteq> [] \<and> c @ concat cs = bs @ data \<and> owes r' data rest"
proof -
  obtain x r1 where x: "raw_read (min k (br_chunk_remaining r)) None r = (x, r1)" by fastforce
  have k: "0 < min k (br_chunk_remaining r)" using assms(3,4,7) by (cases c) auto
  obtain bs where bs: "x = Inr bs" "bs \<noteq> []" "body_bytes r = bs @ body_bytes r1" "length bs \<le> length c" "same_state r r1"
    using raw_read_bytes [OF x k] assms(3,4,6) by (cases x) auto
  obtain c' where c': "c = bs @ c'" "body_bytes r1 = c' @ [13, 10] @ chunk_enc cs @ rest"
  proof
    have e: "bs @ body_bytes r1 = c @ [13, 10] @ chunk_enc cs @ rest" using bs(3) assms(6) by simp
    have "take (length bs) (bs @ body_bytes r1) = take (length bs) c" unfolding e using bs(4) by simp
    then show "c = bs @ drop (length bs) c" by (metis append_eq_conv_conj append_take_drop_id)
    have "drop (length bs) (bs @ body_bytes r1) = drop (length bs) c @ [13, 10] @ chunk_enc cs @ rest"
      unfolding e using bs(4) by simp
    then show "body_bytes r1 = drop (length bs) c @ [13, 10] @ chunk_enc cs @ rest" by simp
  qed
  define r2 where "r2 = r1 \<lparr> br_chunk_remaining := br_chunk_remaining r1 - length bs \<rparr>"
  have r2: "br_chunk_remaining r2 = length c'" "br_kind r2 = Chunked" "\<not> br_chunk_done r2" "body_bytes r2 = body_bytes r1"
    using bs(5) assms(1,2,4) c'(1) by (simp_all add: r2_def same_state_def body_bytes_def)
  have step: "chunk_data k r = (if br_chunk_remaining r2 = 0
      then (case read_line [] r2 of
         (Inl e, r) \<Rightarrow> (Inl e, r)
       | (Inr l, r) \<Rightarrow> (if l \<noteq> eol \<and> l \<noteq> [] then Inl ''chunk end'' else Inr bs, r))
      else (Inr bs, r2))"
    unfolding chunk_data_def x bs(1) r2_def Let_def using bs(2) by simp
  show ?thesis
  proof (cases "c' = []")
    case True
    obtain r3 where r3: "read_line [] r2 = (Inr (from_utf8_lossy []), r3)" "body_bytes r3 = chunk_enc cs @ rest" "same_state r2 r3"
      using read_line_append [of r2 "[]" "chunk_enc cs @ rest" "[]"] r2(4) c'(2) True by (auto simp: MAX_LINE_def)
    have "chunk_data k r = (Inr bs, r3)"
      using r2(1) r3(1) True by (simp add: step from_utf8_lossy.simps)
    moreover have "owes r3 (concat cs) rest"
      using r2 r3(2,3) True assms(5) by (auto simp: owes_def same_state_def)
    ultimately show ?thesis using bs(2) c'(1) True by auto
  next
    case False
    have "chunk_data k r = (Inr bs, r2)"
      using r2(1) False by (simp add: step)
    moreover have "owes r2 (c' @ concat cs) rest"
      using r2 c'(2) False assms(5) by (auto simp: owes_def)
    ultimately show ?thesis using bs(2) c'(1) by (metis append.assoc)
  qed
qed

lemma read_chunked_owes:
  assumes "owes r data rest" "0 < k"
  shows "(data = [] \<and> (\<exists>r'. read_chunked k r = (Inr [], r') \<and> body_bytes r' = rest)) \<or>
    (\<exists>bs data' r'. read_chunked k r = (Inr bs, r') \<and> bs \<noteq> [] \<and> data = bs @ data' \<and> owes r' data' rest)"
proof -
  obtain c cs where o: "br_kind r = Chunked" "\<not> br_chunk_done r" "list_all chunk_ok cs"
      "length c = br_chunk_remaining r" "data = c @ concat cs"
      "body_bytes r = (if c = [] then [] else c @ [13, 10]) @ chunk_enc cs @ rest"
    using assms(1) by (auto simp: owes_def)
  show ?thesis
  proof (cases "c = []")
    case False
    then have "read_chunked k r = chunk_data k r" using o(2,4) by (auto simp: read_chunked_def)
    then show ?thesis using chunk_data_owes [OF o(1,2) False o(4,3) _ assms(2)] o(5,6) False by auto
  next
    case c: True
    show ?thesis
    proof (cases cs)
      case Nil
      have "body_bytes r = [48] @ 13 # 10 # 13 # 10 # rest" using o(6) c Nil by (simp add: chunk_enc_def)
      then obtain r1 where r1: "read_line [] r = (Inr (from_utf8_lossy [48]), r1)" "body_bytes r1 = [] @ 13 # 10 # rest" "same_state r r1"
        using read_line_append [of r "[48]" "13 # 10 # rest" "[]"] by (auto simp: MAX_LINE_def)
      obtain r2 where r2: "read_line [] r1 = (Inr (from_utf8_lossy []), r2)" "body_bytes r2 = rest"
        using read_line_append [OF r1(2), of "[]"] by (auto simp: MAX_LINE_def)
      have "from_utf8_lossy [48] = show_hex 0" by code_simp
      then have "chunk_size_of (from_utf8_lossy [48]) = Some 0" by (simp add: chunk_size_of_hex)
      then have "read_chunked k r = (Inr [], r2 \<lparr> br_chunk_done := True \<rparr>)"
        using o(2,4) c r1(1) r2(1) by (simp add: read_chunked_def)
      then show ?thesis using o(5) c Nil r2(2) by (auto simp: body_bytes_def)
    next
      case (Cons d ds)
      have d: "d \<noteq> []" "length d < 2 ^ 64" using o(3) Cons by (auto simp: chunk_ok_def)
      have "length (show_hex (length d)) \<le> 16" using length_show_hex [of "length d" 16] d(2) by simp
      moreover have "body_bytes r = as_bytes (show_hex (length d)) @ 13 # 10 # d @ [13, 10] @ chunk_enc ds @ rest"
        using o(6) c Cons by (simp add: chunk_enc_def chunk_of_def)
      ultimately obtain r1 where r1: "read_line [] r = (Inr (from_utf8_lossy (as_bytes (show_hex (length d)))), r1)"
          "body_bytes r1 = d @ [13, 10] @ chunk_enc ds @ rest" "same_state r r1"
        using read_line_append [of r "as_bytes (show_hex (length d))" _ "[]"] as_bytes_hex [of "length d"]
        by (auto simp: MAX_LINE_def)
      have "chunk_size_of (from_utf8_lossy (as_bytes (show_hex (length d)))) = Some (length d)"
        using as_bytes_hex [of "length d"] d(2) by (simp add: from_utf8_lossy_valid chunk_size_of_hex)
      then have rc: "read_chunked k r = chunk_data k (r1 \<lparr> br_chunk_remaining := length d \<rparr>)"
        using o(2,4) c d(1) r1(1) by (simp add: read_chunked_def)
      have "\<exists>bs data r'. chunk_data k (r1 \<lparr> br_chunk_remaining := length d \<rparr>) = (Inr bs, r') \<and> bs \<noteq> [] \<and>
          d @ concat ds = bs @ data \<and> owes r' data rest"
        by (rule chunk_data_owes) (use o(1-3) r1(2,3) d(1) Cons assms(2) in \<open>auto simp: same_state_def body_bytes_def\<close>)
      then show ?thesis using o(5) c Cons by (auto simp: rc)
    qed
  qed
qed

lemma read_all_chunked:
  "owes r data rest \<Longrightarrow> 0 < k \<Longrightarrow> \<exists>r'. read_all k r = (Inr data, r') \<and> body_bytes r' = rest"
proof (induction k r arbitrary: data rule: read_all.induct)
  case (1 k r)
  have k: "body_read k r = read_chunked k r" using 1(2) by (simp add: body_read_def owes_def)
  consider (over) r' where "data = []" "read_chunked k r = (Inr [], r')" "body_bytes r' = rest"
    | (more) b bs data' r' where "read_chunked k r = (Inr (b # bs), r')" "data = (b # bs) @ data'" "owes r' data' rest"
    using read_chunked_owes [OF 1(2,3)] by (metis neq_Nil_conv)
  then show ?case
  proof cases
    case over
    then show ?thesis by (simp add: read_all.simps [of k r] k)
  next
    case more
    obtain r'' where "read_all k r' = (Inr data', r'')" "body_bytes r'' = rest"
      using 1(1) [OF more(1) [folded k, symmetric] refl refl more(3) 1(3)] by blast
    then show ?thesis using more(2) by (simp add: read_all.simps [of k r] k more(1))
  qed
qed

text \<open>
  C38: a chunked body is read back exactly. However the bytes of a chunked body, of any non-empty
  chunks, are cut into what came with the head and what each read of the stream returns, and
  whatever the size of the buffer, reading to the end gives the data, and leaves in the stream
  what follows the body, so that the connection can be used again.
\<close>

theorem chunked_body_roundtrip:
  assumes "list_all chunk_ok cs" "0 < k" "p @ src_bytes s = chunk_enc cs @ rest"
  shows "\<exists>r'. read_all k (body_new s Chunked p) = (Inr (concat cs), r') \<and> body_bytes r' = rest"
proof (rule read_all_chunked [OF _ assms(2)])
  show "owes (body_new s Chunked p) (concat cs) rest"
    unfolding owes_def using assms(1,3) by (intro conjI exI [of _ "[]"] exI [of _ cs]) (simp_all add: body_new_def body_bytes_def)
qed

theorem chunked_body_roundtrip_witness:
  "\<exists>r'. read_all 2 (body_new \<lparr> segs = [[108, 111, 13], [], [10, 49, 13, 10, 33, 13, 10, 48], [13, 10, 13, 10, 7]], broken = True \<rparr>
     Chunked [53, 13, 10, 104, 101, 108]) = (Inr [104, 101, 108, 108, 111, 33], r') \<and> body_bytes r' = [7]"
proof -
  have hex: "show_hex (Suc (Suc (Suc (Suc (Suc 0))))) = ''5''" "show_hex (Suc 0) = ''1''" by code_simp+
  have "\<exists>r'. read_all 2 (body_new \<lparr> segs = [[108, 111, 13], [], [10, 49, 13, 10, 33, 13, 10, 48], [13, 10, 13, 10, 7]], broken = True \<rparr>
     Chunked [53, 13, 10, 104, 101, 108]) = (Inr (concat [[104, 101, 108, 108, 111], [33]]), r') \<and> body_bytes r' = [7]"
    by (rule chunked_body_roundtrip)
      (simp_all add: chunk_ok_def src_bytes_def chunk_enc_def chunk_of_def as_bytes_def hex)
  then show ?thesis by simp
qed
section \<open>A response that comes in one piece\<close>

lemma plain_trim: "trim s = s" if "list_all graphic s"
  using that by (intro trim_id) (cases s, auto simp: list_all_iff)

lemma add_header_plain:
  assumes "list_all graphic k" "list_all graphic v" "k \<noteq> []" "CHR '':'' \<notin> set k" "to_ascii_lowercase k = k"
  shows "add_header (k @ CHR '':'' # v) hs = (if map_of hs k = None then hs @ [(k, v)] else hs)"
  using assms by (auto simp: add_header_def split_once_append plain_trim Let_def)

lemma take_seg_all: "s \<noteq> [] \<Longrightarrow> length s \<le> k \<Longrightarrow> take_seg k (s # r) = (s, [] # r)"
  by (cases s) auto

lemma head_read:
  assumes "buf \<noteq> []" "length buf \<le> 4096" "find_head_end buf = Some n" "parse_response_head (take n buf) = Inr h"
  shows "read_response_head [] \<lparr> segs = [buf], broken = x \<rparr> = (Inr (h, drop (n + 4) buf), \<lparr> segs = [[]], broken = x \<rparr>)"
proof -
  have "src_read 4096 \<lparr> segs = [buf], broken = x \<rparr> = (Inr buf, \<lparr> segs = [[]], broken = x \<rparr>)"
    using assms(1,2) by (simp add: src_read_def take_seg_all)
  moreover have "read_response_head buf s = (Inr (h, drop (n + 4) buf), s)" for s
    by (subst read_response_head.simps) (simp add: assms(3,4))
  ultimately show ?thesis using assms(1)
    by (subst read_response_head.simps) (auto simp: neq_Nil_conv)
qed

end
