(* ===== verification/FetchState.thy ===== *)
theory FetchState
  imports NetAddr
begin

text \<open>
  The state of a resumable download (\<open>hydra-fetch/src/state.rs\<close>) and the plan of its blocks
  (\<open>download.rs\<close>). The file is cut into blocks of one size, the last may be shorter; the state
  says which are done. Lengths are natural numbers: the code computes with 64 bits, which is the
  same while the length and one block together stay below \<open>2^64\<close>. The JSON text of the state is a
  crate's; saving it is atomic (a temporary file and a rename), so the file holds one of the states
  that were saved.
\<close>

record fetch_state =
  fs_url :: string
  fs_total :: nat
  fs_chunk :: nat
  fs_etag :: "string option"
  fs_last_modified :: "string option"
  fs_done :: "bool list"

definition chunk_count :: "nat \<Rightarrow> nat \<Rightarrow> nat" where
  "chunk_count len chunk_size = (let c = max chunk_size 1 in (len + c - 1) div c)"

definition fetch_new :: "string \<Rightarrow> nat \<Rightarrow> nat \<Rightarrow> string option \<Rightarrow> string option \<Rightarrow> fetch_state" where
  "fetch_new url len chunk_size etag lm = \<lparr> fs_url = url, fs_total = len, fs_chunk = chunk_size,
     fs_etag = etag, fs_last_modified = lm, fs_done = replicate (chunk_count len chunk_size) False \<rparr>"

definition resumable :: "string \<Rightarrow> nat \<Rightarrow> nat \<Rightarrow> fetch_state \<Rightarrow> bool" where
  "resumable url len chunk_size st =
    (if fs_url st \<noteq> url \<or> fs_total st \<noteq> len \<or> fs_chunk st \<noteq> chunk_size then False
     else if fs_etag st = None \<and> fs_last_modified st = None then False
     else length (fs_done st) = chunk_count len chunk_size)"

record chunk_job =
  job_index :: nat
  job_start :: nat
  job_end :: nat

definition job_of :: "nat \<Rightarrow> nat \<Rightarrow> nat \<Rightarrow> chunk_job" where
  "job_of chunk_size len i = \<lparr> job_index = i, job_start = i * chunk_size, job_end = min ((i + 1) * chunk_size) len \<rparr>"

definition chunk_jobs :: "nat \<Rightarrow> nat \<Rightarrow> bool list \<Rightarrow> chunk_job list" where
  "chunk_jobs chunk_size len done_bits =
    map (\<lambda>(i, _). job_of chunk_size len i) (filter (\<lambda>(_, d). \<not> d) (enumerate 0 done_bits))"

definition remaining_bytes :: "fetch_state \<Rightarrow> nat" where
  "remaining_bytes st =
    sum_list (map (\<lambda>(i, _). min ((i + 1) * fs_chunk st) (fs_total st) - i * fs_chunk st)
                  (filter (\<lambda>(_, d). \<not> d) (enumerate 0 (fs_done st))))"

text \<open>The paths: the state lies beside the output, the part file replaces the extension.\<close>

definition path_for :: "string \<Rightarrow> string" where "path_for output = output @ ''.hydra-fetch.json''"

definition file_name_split :: "string \<Rightarrow> string \<times> string" where
  "file_name_split p = (case rsplit_once CHR ''/'' p of Some (d, n) \<Rightarrow> (d @ ''/'', n) | None \<Rightarrow> ('''', p))"

definition part_path :: "string \<Rightarrow> string" where
  "part_path p =
    (case file_name_split p of
       (d, n) \<Rightarrow> d @ (case rsplit_once CHR ''.'' n of Some (stem, _) \<Rightarrow> if stem = [] then n else stem | None \<Rightarrow> n) @ ''.part'')"

text \<open>The validator of the server must be the one of the state: the entity tag first, then the date.\<close>

definition validator_match :: "fetch_state \<Rightarrow> string option \<Rightarrow> string option \<Rightarrow> bool" where
  "validator_match st etag lm =
    (case (fs_etag st, etag) of
       (Some a, Some b) \<Rightarrow> a = b
     | _ \<Rightarrow> (case (fs_last_modified st, lm) of (Some a, Some b) \<Rightarrow> a = b | _ \<Rightarrow> False))"

definition restore :: "string \<Rightarrow> nat \<Rightarrow> nat \<Rightarrow> string option \<Rightarrow> string option \<Rightarrow> fetch_state option \<Rightarrow> fetch_state" where
  "restore url len chunk_size etag lm loaded =
    (case loaded of
       Some s \<Rightarrow> if resumable url len chunk_size s \<and> validator_match s etag lm then s
                 else fetch_new url len chunk_size etag lm
     | None \<Rightarrow> fetch_new url len chunk_size etag lm)"

section \<open>The blocks cover the file once\<close>

lemma chunk_count_bounds:
  assumes "0 < c"
  shows "len \<le> chunk_count len c * c" "i < chunk_count len c \<Longrightarrow> i * c < len"
proof -
  have e: "chunk_count len c = (len + c - 1) div c" using assms by (simp add: chunk_count_def max_absorb1)
  have d: "(len + c - 1) div c * c + (len + c - 1) mod c = len + c - 1" by simp
  have m: "(len + c - 1) mod c < c" using assms by simp
  show "len \<le> chunk_count len c * c" unfolding e using d m by linarith
  assume "i < chunk_count len c"
  then have "Suc i \<le> (len + c - 1) div c" by (simp add: e)
  then have "Suc i * c \<le> (len + c - 1) div c * c" by (rule mult_le_mono1)
  also have "\<dots> \<le> len + c - 1" using d by linarith
  finally have "i * c + c \<le> len + c - 1" by simp
  then show "i * c < len" using assms by linarith
qed

lemma chunk_jobs_iff:
  "j \<in> set (chunk_jobs c len bits) \<longleftrightarrow> (\<exists>i < length bits. \<not> bits ! i \<and> j = job_of c len i)"
  by (auto simp: chunk_jobs_def in_set_enumerate_eq image_iff)

lemma restore_length: "length (fs_done (restore url len c etag lm ld)) = chunk_count len c"
  by (auto simp: restore_def fetch_new_def resumable_def split: option.split)

text \<open>
  Every byte of the file lies in one block
  and in no other, the blocks lie within the file and are not empty, and the jobs of a state are
  the blocks not yet done, each once.
\<close>

definition in_block :: "nat \<Rightarrow> nat \<Rightarrow> nat \<Rightarrow> nat \<Rightarrow> bool" where
  "in_block c len i b \<longleftrightarrow> job_start (job_of c len i) \<le> b \<and> b < job_end (job_of c len i)"

lemma in_block_iff: "0 < c \<Longrightarrow> b < len \<Longrightarrow> in_block c len i b \<longleftrightarrow> i = b div c"
proof -
  assume c: "0 < c" "b < len"
  have "i * c \<le> b \<and> b < Suc i * c \<longleftrightarrow> i = b div c"
    using c(1) by (metis div_nat_eqI dividend_less_div_times div_times_less_eq_dividend mult.commute mult_Suc)
  then show ?thesis using c(2) by (auto simp: in_block_def job_of_def)
qed

lemma block_nonempty: "0 < c \<Longrightarrow> i < chunk_count len c \<Longrightarrow> job_start (job_of c len i) < job_end (job_of c len i) \<and> job_end (job_of c len i) \<le> len"
  using chunk_count_bounds(2) [of c i len] by (auto simp: job_of_def)

lemma distinct_chunk_jobs: "distinct (map job_index (chunk_jobs c len bits))"
proof -
  have "map job_index (chunk_jobs c len bits) = map fst (filter (\<lambda>(_, d). \<not> d) (enumerate 0 bits))"
    by (auto simp: chunk_jobs_def job_of_def)
  moreover have "distinct (map fst (filter P (enumerate 0 bits)))" for P
    by (rule distinct_map_filter) simp
  ultimately show ?thesis by simp
qed

end
