(* ===== verification/FetchEngine.thy ===== *)
theory FetchEngine
  imports Scheduler FetchHttp FetchState
begin

text \<open>
  The tunnels and block transfers of the downloader (\<open>hydra-fetch/src/engine.rs\<close>) and the probe of
  the target (\<open>probe.rs\<close>). What the network does is an argument: per point of time whether a node
  can be reached, what it answers for a target, whether the TLS connection to the target comes up
  and a request can be sent, and the stream the target answers a request with. \<open>TcpTransport\<close> has
  the model of the calls to a node. A file is the list of its bytes.
\<close>

section \<open>Tunnels\<close>

record tunnel_net =
  mix :: "nat \<Rightarrow> nat"
  probes :: "nat \<Rightarrow> scheduler \<Rightarrow> scheduler"
  chan :: "nat \<Rightarrow> sock_addr \<Rightarrow> unit res"
  ask_target :: "nat \<Rightarrow> sock_addr \<Rightarrow> string \<Rightarrow> unit res"

text \<open>\<open>probes\<close> is what the recovery probe did to the scheduler meanwhile. The node at rank \<open>i\<close> of \<open>n\<close> has weight \<open>n - i\<close>.\<close>

fun pick_from :: "nat \<Rightarrow> node_info list \<Rightarrow> sock_addr option" where
  "pick_from p [] = None"
| "pick_from p (n # ns) = (if p < length (n # ns) then Some (address n) else pick_from (p - length (n # ns)) ns)"

definition pick_weighted :: "nat \<Rightarrow> node_info list \<Rightarrow> sock_addr option" where
  "pick_weighted nanos nodes =
    (if nodes = [] then None
     else (case pick_from (nanos mod sum_list [1 ..< Suc (length nodes)]) nodes of
        Some a \<Rightarrow> Some a
      | None \<Rightarrow> Some (address (hd nodes))))"

fun open_loop ::
  "tunnel_net \<Rightarrow> string \<Rightarrow> node_info list \<Rightarrow> nat \<Rightarrow> nat \<Rightarrow> hydra_error \<Rightarrow> scheduler \<Rightarrow> (string + sock_addr) \<times> nat \<times> scheduler" where
  "open_loop net tgt cands 0 t last_err s = (Inl ''no tunnel'', t, s)"
| "open_loop net tgt cands (Suc n) t last_err s =
    (case pick_weighted (mix net t) cands of
       None \<Rightarrow> (Inl ''no tunnel'', t, s)
     | Some node \<Rightarrow>
         (case chan net t node of
            Inl e \<Rightarrow> open_loop net tgt cands n (t + 1) e (mark_node_offline node s)
          | Inr _ \<Rightarrow>
              (case ask_target net t node tgt of
                 Inr _ \<Rightarrow> (Inr node, t + 1, s)
               | Inl (TargetUnreachable m) \<Rightarrow> (Inl ''target unreachable'', t + 1, s)
               | Inl (ProtocolError m) \<Rightarrow> (Inl ''local protocol error'', t + 1, s)
               | Inl e \<Rightarrow> open_loop net tgt cands n (t + 1) e (mark_node_offline node s))))"

definition open_tunnel ::
  "tunnel_net \<Rightarrow> string \<Rightarrow> u16 \<Rightarrow> nat \<Rightarrow> scheduler \<Rightarrow> (string + sock_addr) \<times> nat \<times> scheduler" where
  "open_tunnel net host port t s =
    (let s = probes net t s; cands = get_nodes_by_priority s in
     open_loop net (host @ '':'' @ show_nat (unat port)) cands (max 1 (length cands)) t
       (ConnectionError ''no node'') s)"

section \<open>The probe\<close>

definition has_ctl :: "string \<Rightarrow> bool" where
  "has_ctl s \<longleftrightarrow> CHR 0x0D \<in> set s \<or> CHR 0x0A \<in> set s \<or> CHR 0x00 \<in> set s"

definition parse_https_url :: "string \<Rightarrow> string + string \<times> u16 \<times> string" where
  "parse_https_url url =
    (case strip_prefix ''https://'' url of
       None \<Rightarrow> Inl ''only https''
     | Some rest \<Rightarrow>
         (let (hostport, path) = (case split_once CHR ''/'' rest of Some (h, p) \<Rightarrow> (h, CHR ''/'' # p) | None \<Rightarrow> (rest, ''/'')) in
          case (case rsplit_once CHR '':'' hostport of
                  Some (h, p) \<Rightarrow> (case parse_u16 p of Some n \<Rightarrow> Inr (h, n) | None \<Rightarrow> Inl ''port'')
                | None \<Rightarrow> Inr (hostport, 443)) of
            Inl e \<Rightarrow> Inl e
          | Inr (host, port) \<Rightarrow>
              if host = [] then Inl ''no host''
              else if has_ctl path \<or> has_ctl host then Inl ''control character''
              else Inr (host, port, path)))"

record probe_result =
  pr_host :: string
  pr_port :: u16
  pr_path :: string
  pr_len :: "nat option"
  pr_ranges :: bool
  pr_etag :: "string option"
  pr_last_modified :: "string option"

record fetch_env =
  tun :: tunnel_net
  tls_up :: "nat \<Rightarrow> bool"
  sends :: "nat \<Rightarrow> bool"
  answers :: "nat \<Rightarrow> string \<Rightarrow> source"
  seeks :: "nat \<Rightarrow> bool"
  disk_room :: "nat \<Rightarrow> nat option"
  version :: string

text \<open>A request on a stream and the head of its answer; what the stream still held comes first.\<close>

definition issue :: "fetch_env \<Rightarrow> nat \<Rightarrow> string \<Rightarrow> source \<Rightarrow> (string + response_head \<times> byte list) \<times> source" where
  "issue e t req left =
    (if \<not> sends e t then (Inl ''write'', left)
     else (let a = answers e t req in
           read_response_head [] \<lparr> segs = segs left @ segs a, broken = broken a \<rparr>))"

definition no_bytes :: source where "no_bytes = \<lparr> segs = [], broken = False \<rparr>"

definition next_location :: "string \<Rightarrow> u16 \<Rightarrow> string \<Rightarrow> string \<Rightarrow> string + string" where
  "next_location host port path loc =
    (if has_ctl loc then Inl ''control character''
     else if starts_with loc ''https://'' then Inr loc
     else if starts_with loc ''http://'' then Inl ''plain http''
     else (case strip_prefix ''//'' loc of
        Some rest \<Rightarrow> Inr (''https://'' @ rest)
      | None \<Rightarrow>
          if starts_with loc ''/'' then Inr (''https://'' @ host @ '':'' @ show_nat (unat port) @ loc)
          else Inr (''https://'' @ host @ '':'' @ show_nat (unat port) @
                    (case rsplit_once CHR ''/'' path of Some (d, _) \<Rightarrow> d | None \<Rightarrow> '''') @ ''/'' @ loc)))"

text \<open>What a probed target said: its head, its length and whether it serves ranges.\<close>

definition ask_size :: "fetch_env \<Rightarrow> nat \<Rightarrow> string \<Rightarrow> string \<Rightarrow> string + response_head \<times> nat option \<times> bool" where
  "ask_size e t host path =
    (case issue e t (build_request (version e) ''HEAD'' host path None None) no_bytes of
       (Inl er, _) \<Rightarrow> Inl ''probe''
     | (Inr (h, _), s) \<Rightarrow>
         if resp_status h = 405 \<or> resp_status h = 501 then
           (case issue e (t + 1) (build_request (version e) ''GET'' host path (Some (0, Some 0)) None) s of
              (Inl er, _) \<Rightarrow> Inl er
            | (Inr (h2, _), _) \<Rightarrow>
                if resp_status h2 = 206 then
                  Inr (h2, Option.bind (header (resp_headers h2) ''content-range'')
                              (\<lambda>v. parse_uint 64 (last (split_on CHR ''/'' v))), True)
                else if resp_status h2 = 200 then
                  Inr (h2, Option.bind (header (resp_headers h2) ''content-length'') (parse_uint 64), False)
                else Inl ''range probe'')
         else Inr (h, Option.bind (header (resp_headers h) ''content-length'') (parse_uint 64),
                   (case header (resp_headers h) ''accept-ranges'' of
                      Some v \<Rightarrow> contains ''bytes'' (to_ascii_lowercase v) | None \<Rightarrow> False)))"

definition clean_validator :: "string option \<Rightarrow> string option" where
  "clean_validator v = (case v of Some s \<Rightarrow> if CHR 0x0D \<in> set s \<or> CHR 0x0A \<in> set s then None else Some s | None \<Rightarrow> None)"

fun probe_loop :: "fetch_env \<Rightarrow> nat \<Rightarrow> string \<Rightarrow> nat \<Rightarrow> scheduler \<Rightarrow> (string + probe_result) \<times> nat \<times> scheduler" where
  "probe_loop e 0 current t s = (Inl ''too many redirects'', t, s)"
| "probe_loop e (Suc n) current t s =
    (case parse_https_url current of
       Inl er \<Rightarrow> (Inl er, t, s)
     | Inr (host, port, path) \<Rightarrow>
         (case open_tunnel (tun e) host port t s of
            (Inl er, t, s) \<Rightarrow> (Inl er, t, s)
          | (Inr _, t, s) \<Rightarrow>
              if \<not> tls_up e t then (Inl ''tls'', t + 1, s)
              else (case ask_size e t host path of
                 Inl er \<Rightarrow> (Inl er, t + 2, s)
               | Inr (h, len, ranges) \<Rightarrow>
                   if resp_status h = 200 \<or> resp_status h = 206 then
                     (Inr \<lparr> pr_host = host, pr_port = port, pr_path = path, pr_len = len, pr_ranges = ranges,
                            pr_etag = clean_validator (header (resp_headers h) ''etag''),
                            pr_last_modified = clean_validator (header (resp_headers h) ''last-modified'') \<rparr>, t + 2, s)
                   else if resp_status h \<in> {301, 302, 303, 307, 308} then
                     (case header (resp_headers h) ''location'' of
                        None \<Rightarrow> (Inl ''no location'', t + 2, s)
                      | Some loc \<Rightarrow>
                          (case next_location host port path loc of
                             Inl er \<Rightarrow> (Inl er, t + 2, s)
                           | Inr next_url \<Rightarrow> probe_loop e n next_url (t + 2) s))
                   else (Inl ''probe status'', t + 2, s))))"

definition probe :: "fetch_env \<Rightarrow> string \<Rightarrow> nat \<Rightarrow> scheduler \<Rightarrow> (string + probe_result) \<times> nat \<times> scheduler" where
  "probe e url t s = probe_loop e 6 url t s"

section \<open>One block\<close>

datatype chunk_error = ContentChanged | RangeIgnored | Retryable string | Fatal string

definition write_at :: "nat \<Rightarrow> byte list \<Rightarrow> byte list \<Rightarrow> byte list" where
  "write_at off bs f = take off f @ replicate (off - length f) 0 @ bs @ drop (off + length bs) f"

definition BUF :: nat where "BUF = 256 * 1024"

text \<open>The body into the file; the disk may take only the first bytes of a write. The file is tokio's,
  which queues a write and reports its failure to the next one: \<open>bad\<close> is a failure that nobody
  has been told yet. A seek keeps it. The code never flushes, so the failure of the last write of a
  block stays unseen, and the first write of the worker's next block gets it.\<close>

function copy_body ::
  "nat \<Rightarrow> nat \<Rightarrow> nat option \<Rightarrow> bool \<Rightarrow> body_reader \<Rightarrow> byte list \<Rightarrow>
    chunk_error option \<times> body_reader \<times> byte list \<times> bool" where
  "copy_body left off room bad r f =
    (if left = 0 then (None, r, f, bad)
     else (case body_read (min BUF left) r of
        (Inl e, r') \<Rightarrow> (Some (Retryable ''body''), r', f, bad)
      | (Inr [], r') \<Rightarrow> (Some (Retryable ''body ended''), r', f, bad)
      | (Inr (b # bs), r') \<Rightarrow>
          if bad then (Some (Retryable ''file''), r', f, False)
          else (case room of
             Some n \<Rightarrow>
               if n < length (b # bs) then
                 copy_body (left - length (b # bs)) (off + length (b # bs)) (Some 0) True r'
                      (write_at off (take n (b # bs)) f)
               else copy_body (left - length (b # bs)) (off + length (b # bs)) (Some (n - length (b # bs))) False r'
                      (write_at off (b # bs) f)
           | None \<Rightarrow> copy_body (left - length (b # bs)) (off + length (b # bs)) None False r' (write_at off (b # bs) f))))"
  by pat_completeness auto
termination
  by (relation "measure (\<lambda>(left, off, room, bad, r, f). length (body_bytes r))") (auto dest: body_read_shorter [OF sym])

declare copy_body.simps [simp del]

text \<open>The request, the head, the dispatch on the status and the body of one attempt.\<close>

definition transfer ::
  "fetch_env \<Rightarrow> string \<Rightarrow> string \<Rightarrow> string option \<Rightarrow> nat \<Rightarrow> source \<Rightarrow> nat \<Rightarrow> nat \<Rightarrow> bool \<Rightarrow> byte list \<Rightarrow>
   chunk_error option \<times> source \<times> byte list \<times> bool" where
  "transfer e host path if_range t left start stop bad f =
    (case issue e t (build_request (version e) ''GET'' host path (Some (start, Some (stop - 1))) if_range) left of
       (Inl er, s) \<Rightarrow> (Some (Retryable er), s, f, bad)
     | (Inr (h, p), s) \<Rightarrow>
         (let st = resp_status h in
          if st = 200 then (Some RangeIgnored, s, f, bad)
          else if st = 416 then (Some ContentChanged, s, f, bad)
          else if st = 408 \<or> st = 429 \<or> 500 \<le> st \<and> st \<le> 599 then (Some (Retryable ''status''), s, f, bad)
          else if st \<noteq> 206 then (Some (Fatal ''status''), s, f, bad)
          else (case resp_kind h of
             Length n \<Rightarrow>
               if n \<noteq> stop - start then (Some ContentChanged, s, f, bad)
               else if \<not> seeks e t then (Some (Retryable ''seek''), s, f, bad)
               else (case copy_body n start (disk_room e t) bad (body_new s (Length n) p) f of
                  (r, rd, f', bad') \<Rightarrow> (r, br_source rd, f', bad'))
           | _ \<Rightarrow> (Some (Retryable ''no length''), s, f, bad))))"

text \<open>The tunnel of a worker is the stream to the target, or none; any error drops it.\<close>

definition fetch_chunk ::
  "fetch_env \<Rightarrow> string \<Rightarrow> u16 \<Rightarrow> string \<Rightarrow> string option \<Rightarrow> nat \<Rightarrow> source option \<Rightarrow> nat \<Rightarrow> nat \<Rightarrow> bool \<Rightarrow> byte list \<Rightarrow> scheduler \<Rightarrow>
   chunk_error option \<times> source option \<times> byte list \<times> bool \<times> nat \<times> scheduler" where
  "fetch_chunk e host port path if_range t tunnel start stop bad f s =
    (case (case tunnel of
             Some left \<Rightarrow> (Inr left, t, s)
           | None \<Rightarrow>
               (case open_tunnel (tun e) host port t s of
                  (Inl er, t, s) \<Rightarrow> (Inl er, t, s)
                | (Inr _, t, s) \<Rightarrow> if tls_up e t then (Inr no_bytes, t, s) else (Inl ''tls'', t, s))) of
       (Inl er, t, s) \<Rightarrow> (Some (Retryable er), None, f, bad, t + 1, s)
     | (Inr left, t, s) \<Rightarrow>
         (case transfer e host path if_range t left start stop bad f of
            (None, src, f', bad') \<Rightarrow> (None, Some src, f', bad', t + 1, s)
          | (Some er, _, f', bad') \<Rightarrow> (Some er, None, f', bad', t + 1, s)))"

definition mark_done :: "nat \<Rightarrow> nat \<Rightarrow> fetch_state \<times> nat \<Rightarrow> fetch_state \<times> nat" where
  "mark_done i n sf =
    (case sf of (st, fetched) \<Rightarrow>
      (if i < length (fs_done st) then st \<lparr> fs_done := (fs_done st)[i := True] \<rparr> else st, fetched + n))"

section \<open>What an attempt does to the file\<close>

definition slice :: "nat \<Rightarrow> nat \<Rightarrow> byte list \<Rightarrow> byte list" where
  "slice start stop xs = take (stop - start) (drop start xs)"

lemma write_at_nth:
  assumes "off + length bs \<le> length f"
  shows "length (write_at off bs f) = length f"
    and "i < length f \<Longrightarrow> write_at off bs f ! i = (if off \<le> i \<and> i < off + length bs then bs ! (i - off) else f ! i)"
  using assms by (auto simp: write_at_def nth_append min_def)

lemma write_at_Nil: "off \<le> length f \<Longrightarrow> write_at off [] f = f"
  by (simp add: write_at_def)

lemma write_at_twice:
  assumes "off + length a + length b \<le> length f"
  shows "write_at (off + length a) b (write_at off a f) = write_at off (a @ b) f"
proof (rule nth_equalityI)
  have l: "length (write_at off a f) = length f" using assms by (intro write_at_nth) simp
  show "length (write_at (off + length a) b (write_at off a f)) = length (write_at off (a @ b) f)"
    using assms by (simp add: write_at_nth l)
  fix i assume "i < length (write_at (off + length a) b (write_at off a f))"
  then have i: "i < length f" using assms by (simp add: write_at_nth l)
  show "write_at (off + length a) b (write_at off a f) ! i = write_at off (a @ b) f ! i"
    using assms i by (simp add: write_at_nth l nth_append) auto
qed

text \<open>Behind a failed write the file is left alone, and only a block that is complete ends well.\<close>

lemma copy_body_bad:
  assumes "copy_body left off room True r f = (res, r', f', bad')"
  shows "f' = f \<and> (res = None \<longrightarrow> left = 0 \<and> r' = r \<and> bad')"
  using assms by (subst (asm) copy_body.simps) (auto split: if_splits prod.splits sum.splits list.splits)

text \<open>The file receives a part of the body, all of it when there is no error, seen or unseen.\<close>

lemma copy_body_writes:
  assumes "copy_body left off room bad r f = (res, r', f', bad')" "br_kind r = Length n" "off + left \<le> length f"
  shows "\<exists>bs. prefix bs (take left (body_bytes r)) \<and> f' = write_at off bs f \<and>
    (res = None \<longrightarrow> (\<exists>cs. length cs = left \<and> body_bytes r = cs @ body_bytes r' \<and> (\<not> bad' \<longrightarrow> bs = cs)))"
  using assms
proof (induction left off room bad r f arbitrary: res r' f' bad' rule: copy_body.induct)
  case (1 left off room bad r f)
  show ?case
  proof (cases "left = 0")
    case True
    then show ?thesis using 1(4,6) by (auto simp: copy_body.simps [of 0] write_at_Nil)
  next
    case False
    obtain x r1 where x: "body_read (min BUF left) r = (x, r1)" by fastforce
    have k: "0 < min BUF left" using False by (simp add: BUF_def)
    note spec = body_read_length [OF 1(5) k x]
    show ?thesis
    proof (cases "bad \<or> \<not> (\<exists>b bs. x = Inr (b # bs))")
      case no_bytes: True
      then have "f' = f \<and> res \<noteq> None" using 1(4) False
        by (subst (asm) copy_body.simps) (auto simp: x split: sum.splits list.splits if_splits)
      then show ?thesis using 1(6) by (intro exI [of _ "[]"]) (auto simp: write_at_Nil)
    next
      case go: False
      then obtain b bs where b: "x = Inr (b # bs)" by blast
      have nb: "\<not> bad" using go by simp
      have s: "br_kind r1 = Length n" "body_bytes r = (b # bs) @ body_bytes r1" "length (b # bs) \<le> left"
        using spec by (simp_all add: b)
      have fits: "off + length (b # bs) \<le> length f" using 1(6) s(3) by simp
      have first: "take left (body_bytes r) = (b # bs) @ take (left - length (b # bs)) (body_bytes r1)"
        unfolding s(2) using s(3) by (simp only: take_append take_all)
      let ?f = "write_at off (b # bs) f"
      have go_on: ?thesis if c: "copy_body (left - length (b # bs)) (off + length (b # bs)) room' False r1 ?f = (res, r', f', bad')"
        and ih: "\<And>res r' f' bad'. copy_body (left - length (b # bs)) (off + length (b # bs)) room' False r1 ?f = (res, r', f', bad') \<Longrightarrow>
          off + length (b # bs) + (left - length (b # bs)) \<le> length ?f \<Longrightarrow>
          \<exists>bs'. prefix bs' (take (left - length (b # bs)) (body_bytes r1)) \<and> f' = write_at (off + length (b # bs)) bs' ?f \<and>
            (res = None \<longrightarrow> (\<exists>cs. length cs = left - length (b # bs) \<and> body_bytes r1 = cs @ body_bytes r' \<and> (\<not> bad' \<longrightarrow> bs' = cs)))"
        for room'
      proof -
        have "length ?f = length f" using fits by (rule write_at_nth)
        then obtain bs' where bs': "prefix bs' (take (left - length (b # bs)) (body_bytes r1))"
            "f' = write_at (off + length (b # bs)) bs' ?f"
            "res = None \<longrightarrow> (\<exists>cs. length cs = left - length (b # bs) \<and> body_bytes r1 = cs @ body_bytes r' \<and> (\<not> bad' \<longrightarrow> bs' = cs))"
          using ih [OF c] 1(6) s(3) by auto
        have "length bs' \<le> left - length (b # bs)" using bs'(1) by (auto dest: prefix_length_le)
        then have f': "f' = write_at off ((b # bs) @ bs') f"
          unfolding bs'(2) using 1(6) s(3) by (intro write_at_twice) simp
        have p: "prefix ((b # bs) @ bs') (take left (body_bytes r))"
          using bs'(1) unfolding first by simp
        have "\<exists>cs. length cs = left \<and> body_bytes r = cs @ body_bytes r' \<and> (\<not> bad' \<longrightarrow> (b # bs) @ bs' = cs)"
          if none: "res = None"
        proof -
          obtain cs where cs: "length cs = left - length (b # bs)" "body_bytes r1 = cs @ body_bytes r'" "\<not> bad' \<longrightarrow> bs' = cs"
            using bs'(3) none by blast
          then show ?thesis using s(2,3) by (intro exI [of _ "(b # bs) @ cs"]) auto
        qed
        then show ?thesis using p f' by blast
      qed
      show ?thesis
      proof (cases room)
        case None
        have "copy_body (left - length (b # bs)) (off + length (b # bs)) None False r1 ?f = (res, r', f', bad')"
          using 1(4) False nb by (subst (asm) copy_body.simps) (simp add: x b None)
        then show ?thesis using go_on [where room' = None] 1(1) [OF False x [symmetric] b refl nb None _ s(1)] by blast
      next
        case (Some m)
        show ?thesis
        proof (cases "m < length (b # bs)")
          case True
          have "copy_body (left - length (b # bs)) (off + length (b # bs)) (Some 0) True r1
              (write_at off (take m (b # bs)) f) = (res, r', f', bad')"
            using 1(4) False nb True by (subst (asm) copy_body.simps) (simp add: x b Some)
          from copy_body_bad [OF this] have f': "f' = write_at off (take m (b # bs)) f"
            and done_: "res = None \<longrightarrow> length (b # bs) = left \<and> r' = r1 \<and> bad'" using s(3) by auto
          have "prefix (take m (b # bs)) (take left (body_bytes r))"
            unfolding first by (metis prefix_prefix take_is_prefix)
          moreover have "res = None \<longrightarrow> (\<exists>cs. length cs = left \<and> body_bytes r = cs @ body_bytes r' \<and>
              (\<not> bad' \<longrightarrow> take m (b # bs) = cs))"
            using done_ s(2) by blast
          ultimately show ?thesis using f' by blast
        next
          case room_left: False
          have "copy_body (left - length (b # bs)) (off + length (b # bs)) (Some (m - length (b # bs))) False r1 ?f = (res, r', f', bad')"
            using 1(4) False nb room_left by (subst (asm) copy_body.simps) (simp add: x b Some)
          then show ?thesis using go_on [where room' = "Some (m - length (b # bs))"]
              1(3) [OF False x [symmetric] b refl nb Some room_left _ s(1)] by blast
        qed
      qed
    qed
  qed
qed

text \<open>Without a limit of the disk nothing fails unseen.\<close>

lemma copy_body_unlimited:
  assumes "copy_body left off None False r f = (res, r', f', bad')"
  shows "\<not> bad'"
proof -
  have "room = None \<Longrightarrow> \<not> bad \<Longrightarrow> copy_body left off room bad r f = (res, r', f', bad') \<Longrightarrow> \<not> bad'" for room bad
  proof (induction left off room bad r f arbitrary: res r' f' bad' rule: copy_body.induct)
    case (1 left off room bad r f)
    obtain x r1 where x: "body_read (min BUF left) r = (x, r1)" by fastforce
    show ?case
    proof (cases "left \<noteq> 0 \<and> (\<exists>b bs. x = Inr (b # bs))")
      case True
      then obtain b bs where b: "left \<noteq> 0" "x = Inr (b # bs)" by blast
      have "copy_body (left - length (b # bs)) (off + length (b # bs)) None False r1 (write_at off (b # bs) f) = (res, r', f', bad')"
        using 1(4-6) b by (subst (asm) copy_body.simps) (simp add: x)
      then show ?thesis using 1(1) [OF b(1) x [symmetric] b(2) refl 1(5,4)] by blast
    next
      case False
      then show ?thesis using 1(5,6) by (subst (asm) copy_body.simps) (auto simp: x split: sum.splits list.splits if_splits)
    qed
  qed
  then show ?thesis using assms by blast
qed

section \<open>A block of an honest target\<close>

text \<open>
  The target answers a request for a range of the content, when it answers with that range at all,
  with its bytes, of which the connection may lose the end.
\<close>

definition range_request :: "fetch_env \<Rightarrow> string \<Rightarrow> string \<Rightarrow> string option \<Rightarrow> nat \<Rightarrow> nat \<Rightarrow> string" where
  "range_request e host path if_range start stop =
    build_request (version e) ''GET'' host path (Some (start, Some (stop - 1))) if_range"

definition gives_range :: "source \<Rightarrow> nat \<Rightarrow> byte list \<Rightarrow> bool" where
  "gives_range a n bs =
    (case read_response_head [] a of
       (Inl _, _) \<Rightarrow> True
     | (Inr (h, p), s) \<Rightarrow> if resp_status h = 206 \<and> resp_kind h = Length n then prefix (p @ src_bytes s) bs else True)"

definition serves :: "fetch_env \<Rightarrow> string \<Rightarrow> string \<Rightarrow> string option \<Rightarrow> byte list \<Rightarrow> bool" where
  "serves e host path if_range content \<longleftrightarrow>
    (\<forall>t start stop. start < stop \<longrightarrow> stop \<le> length content \<longrightarrow>
       gives_range (answers e t (range_request e host path if_range start stop)) (stop - start) (slice start stop content))"

definition clean :: "source option \<Rightarrow> bool" where
  "clean tn = (case tn of Some left \<Rightarrow> src_bytes left = [] | None \<Rightarrow> True)"

lemma take_seg_skip: "concat a = [] \<Longrightarrow> take_seg k (a @ b) = take_seg k b"
  by (induction a) auto

lemma read_response_head_skip:
  assumes "concat a = []"
  shows "read_response_head [] \<lparr> segs = a @ b, broken = x \<rparr> = read_response_head [] \<lparr> segs = b, broken = x \<rparr>"
proof -
  have "src_read 4096 \<lparr> segs = a @ b, broken = x \<rparr> = src_read 4096 \<lparr> segs = b, broken = x \<rparr>"
    by (simp add: src_read_def take_seg_skip [OF assms] split: prod.split)
  then show ?thesis by (simp add: read_response_head.simps [of "[]"])
qed

lemma issue_clean:
  assumes "src_bytes left = []"
  shows "issue e t req left = (if sends e t then read_response_head [] (answers e t req) else (Inl ''write'', left))"
  using read_response_head_skip [of "segs left" "segs (answers e t req)" "broken (answers e t req)"] assms
  by (cases "answers e t req") (simp add: issue_def Let_def src_bytes_def)

lemma length_slice: "stop \<le> length xs \<Longrightarrow> length (slice start stop xs) = stop - start"
  by (simp add: slice_def)

lemma transfer_honest:
  assumes "serves e host path if_range content" "src_bytes left = []" "start < stop" "stop \<le> length content"
    and "length f = length content" "transfer e host path if_range t left start stop bad f = (res, left', f', bad')"
  shows "\<exists>bs. prefix bs (slice start stop content) \<and> f' = write_at start bs f \<and>
    (res = None \<longrightarrow> src_bytes left' = [] \<and> (\<not> bad' \<longrightarrow> bs = slice start stop content))"
proof -
  have same: ?thesis if "f' = f" "res \<noteq> None"
    using that assms(3-5) by (intro exI [of _ "[]"]) (auto simp: write_at_Nil)
  obtain x s where i: "issue e t (range_request e host path if_range start stop) left = (x, s)" by fastforce
  show ?thesis
  proof (cases "\<exists>h p. x = Inr (h, p) \<and> resp_status h = 206 \<and> resp_kind h = Length (stop - start) \<and> seeks e t")
    case False
    have "f' = f \<and> res \<noteq> None"
      using assms(6) False i
      by (auto simp: transfer_def range_request_def Let_def split: sum.splits prod.splits if_splits body_kind.splits)
    then show ?thesis using same by blast
  next
    case True
    then obtain h p where h: "x = Inr (h, p)" "resp_status h = 206" "resp_kind h = Length (stop - start)" "seeks e t"
      by blast
    have rd: "read_response_head [] (answers e t (range_request e host path if_range start stop)) = (Inr (h, p), s)"
      using i h(1) by (auto simp: issue_clean [OF assms(2)] split: if_splits)
    have pre: "prefix (p @ src_bytes s) (slice start stop content)"
    proof -
      have "gives_range (answers e t (range_request e host path if_range start stop)) (stop - start) (slice start stop content)"
        using assms(1,3,4) unfolding serves_def by blast
      then show ?thesis unfolding gives_range_def rd by (simp add: h)
    qed
    obtain r rd' f1 bad1 where c: "copy_body (stop - start) start (disk_room e t) bad (body_new s (Length (stop - start)) p) f =
        (r, rd', f1, bad1)"
      using prod_cases4 by blast
    have out: "res = r" "left' = br_source rd'" "f' = f1" "bad' = bad1"
      using assms(6) i h c by (auto simp: transfer_def range_request_def Let_def)
    have bb: "body_bytes (body_new s (Length (stop - start)) p) = p @ src_bytes s" by (simp add: body_new_def body_bytes_def)
    have kind: "br_kind (body_new s (Length (stop - start)) p) = Length (stop - start)" by (simp add: body_new_def)
    have fits: "start + (stop - start) \<le> length f" using assms(3-5) by simp
    obtain bs where bs: "prefix bs (take (stop - start) (p @ src_bytes s))" "f1 = write_at start bs f"
        "r = None \<longrightarrow> (\<exists>cs. length cs = stop - start \<and> p @ src_bytes s = cs @ body_bytes rd' \<and> (\<not> bad1 \<longrightarrow> bs = cs))"
      using copy_body_writes [OF c kind fits] unfolding bb by blast
    have len: "length (slice start stop content) = stop - start" using assms(4) by (rule length_slice)
    have le: "length (p @ src_bytes s) \<le> stop - start" using prefix_length_le [OF pre] len by simp
    have pbs: "prefix bs (slice start stop content)"
      using bs(1) le pre by (simp add: prefix_order.trans)
    have "src_bytes left' = [] \<and> (\<not> bad' \<longrightarrow> bs = slice start stop content)" if none: "res = None"
    proof -
      obtain cs where cs: "length cs = stop - start" "p @ src_bytes s = cs @ body_bytes rd'" "\<not> bad1 \<longrightarrow> bs = cs"
        using bs(3) none out(1) by blast
      then have "body_bytes rd' = []" using le by (metis append_Nil2 append_eq_append_conv le_antisym length_append le_add1)
      moreover have "bs = slice start stop content" if ok: "\<not> bad'"
        using pbs cs(1,3) ok out(4) len by (metis append_Nil2 append_eq_append_conv prefix_def)
      ultimately show ?thesis by (simp add: out(2) body_bytes_def)
    qed
    then show ?thesis using pbs bs(2) out by blast
  qed
qed

lemma fetch_chunk_honest:
  assumes "serves e host path if_range content" "clean tn" "start < stop" "stop \<le> length content" "length f = length content"
    and "fetch_chunk e host port path if_range t tn start stop bad f s = (res, tn', f', bad', t', s')"
  shows "clean tn' \<and> (\<exists>bs. prefix bs (slice start stop content) \<and> f' = write_at start bs f \<and>
    (res = None \<and> \<not> bad' \<longrightarrow> bs = slice start stop content))"
proof -
  have none: "write_at start [] f = f" using assms(3-5) by (simp add: write_at_Nil)
  consider (no) "res \<noteq> None" "tn' = None" "f' = f"
    | (tried) left t1 r l' where "src_bytes left = []" "transfer e host path if_range t1 left start stop bad f = (r, l', f', bad')"
        "res = r" "tn' = (if r = None then Some l' else None)"
  proof (cases tn)
    case (Some left)
    then show ?thesis using assms(2,6) that(2) [of left t]
      by (auto simp: fetch_chunk_def clean_def split: prod.splits option.splits)
  next
    case None
    then show ?thesis using assms(6) that(1) that(2) [of no_bytes "fst (snd (open_tunnel (tun e) host port t s))"]
      by (auto simp: fetch_chunk_def no_bytes_def src_bytes_def split: prod.splits option.splits sum.splits if_splits)
  qed
  then show ?thesis
  proof cases
    case no
    then have "clean tn'" by (simp add: clean_def)
    moreover have "f' = write_at start [] f" using none no(3) by simp
    moreover have "prefix [] (slice start stop content)" by simp
    ultimately show ?thesis using no(1) by blast
  next
    case tried
    obtain bs where bs: "prefix bs (slice start stop content)" "f' = write_at start bs f"
        "r = None \<longrightarrow> src_bytes l' = [] \<and> (\<not> bad' \<longrightarrow> bs = slice start stop content)"
      using transfer_honest [OF assms(1) tried(1) assms(3-5) tried(2)] by blast
    have "clean tn'" using bs(3) tried(4) by (simp add: clean_def)
    then show ?thesis using bs tried(3) by blast
  qed
qed

text \<open>When the disk takes everything, no attempt leaves a failure behind.\<close>

lemma fetch_chunk_unlimited:
  assumes "\<And>t. disk_room e t = None" "fetch_chunk e host port path if_range t tn start stop False f s = (res, tn', f', bad', t', s')"
  shows "\<not> bad'"
proof -
  have tr: "\<not> b" if "transfer e host path if_range t left start stop False f = (r, l, g, b)" for t left r l g b
  proof -
    obtain x q where i: "issue e t (range_request e host path if_range start stop) left = (x, q)" by fastforce
    show ?thesis
      using that i copy_body_unlimited [of _ start _ f] assms(1)
      by (fastforce simp: transfer_def range_request_def Let_def split: sum.splits prod.splits if_splits body_kind.splits)
  qed
  show ?thesis using assms(2) tr
    by (fastforce simp: fetch_chunk_def split: prod.splits option.splits sum.splits if_splits)
qed

text \<open>A block whose only write fails: the attempt reports success, and nothing is in the file.\<close>

lemma failed_last_write_unseen:
  assumes "body_read (min BUF left) r = (Inr bs, r')" "bs \<noteq> []" "length bs = left" "off \<le> length f"
  shows "copy_body left off (Some 0) False r f = (None, r', f, True)"
proof -
  obtain x xs where bs: "bs = x # xs" using assms(2) by (cases bs) auto
  have l: "left = Suc (length xs)" using assms(3) bs by simp
  show ?thesis
    using assms(1,4) by (subst copy_body.simps) (simp add: l bs write_at_Nil copy_body.simps [of 0])
qed

section \<open>One request, one head\<close>

text \<open>Cutting at \<^emph>\<open>any\<close> end of line: CR LF, and also a lone CR or LF, as lenient servers do.\<close>

fun cut_lines :: "string \<Rightarrow> string list" where
  "cut_lines [] = [[]]"
| "cut_lines (c # s) =
    (if c = CHR 0x0D then
       (case s of d # r \<Rightarrow> if d = CHR 0x0A then [] # cut_lines r else [] # cut_lines s | [] \<Rightarrow> [[], []])
     else if c = CHR 0x0A then [] # cut_lines s
     else (case cut_lines s of l # ls \<Rightarrow> (c # l) # ls | [] \<Rightarrow> [[c]]))"

lemma cut_lines_append: "CHR 0x0D \<notin> set a \<Longrightarrow> CHR 0x0A \<notin> set a \<Longrightarrow> cut_lines (a @ eol @ b) = a # cut_lines b"
  by (induction a) (auto simp: eol_def)

lemma cut_lines_none: "CHR 0x0D \<notin> set a \<Longrightarrow> CHR 0x0A \<notin> set a \<Longrightarrow> cut_lines a = [a]"
  by (induction a) auto

lemma show_nat_printed [simp]:
  "CHR 0x0D \<notin> set (show_nat n)" "CHR 0x0A \<notin> set (show_nat n)" "CHR 0x00 \<notin> set (show_nat n)"
  using show_nat_digits [of _ n] by fastforce+

lemma parse_https_url_clean:
  "parse_https_url url = Inr (host, prt, path) \<Longrightarrow> \<not> has_ctl host \<and> \<not> has_ctl path \<and> host \<noteq> []"
  by (auto simp: parse_https_url_def Let_def split: option.splits sum.splits if_splits prod.splits)

lemma clean_validator_no_eol: "clean_validator v = Some s \<Longrightarrow> CHR 0x0D \<notin> set s \<and> CHR 0x0A \<notin> set s"
  by (auto simp: clean_validator_def split: option.splits if_splits)

definition validator_lines :: "string option \<Rightarrow> string list" where
  "validator_lines v = (case v of Some s \<Rightarrow> [''If-Range: '' @ s] | None \<Rightarrow> [])"

text \<open>A request for a range whose parts carry no end of line.\<close>

lemma range_request_lines:
  assumes "\<not> has_ctl host" "\<not> has_ctl path" "\<not> has_ctl ver"
    and "\<And>s. v = Some s \<Longrightarrow> CHR 0x0D \<notin> set s \<and> CHR 0x0A \<notin> set s"
  shows "cut_lines (build_request ver ''GET'' host path (Some (start, Some stop)) v) =
    [''GET '' @ path @ '' HTTP/1.1'', ''Host: '' @ host, ''User-Agent: hydra-fetch/'' @ ver, ''Accept: */*'',
     ''Range: bytes='' @ show_nat start @ ''-'' @ show_nat stop] @
    validator_lines v @ [''Connection: keep-alive'', [], []]"
proof -
  let ?tail = "''Connection: keep-alive'' @ eol @ [] @ eol @ []"
  let ?v = "case v of Some s \<Rightarrow> (''If-Range: '' @ s) @ eol @ ?tail | None \<Rightarrow> ?tail"
  have b: "build_request ver ''GET'' host path (Some (start, Some stop)) v =
      (''GET '' @ path @ '' HTTP/1.1'') @ eol @ (''Host: '' @ host) @ eol @ (''User-Agent: hydra-fetch/'' @ ver) @ eol @
      ''Accept: */*'' @ eol @ (''Range: bytes='' @ show_nat start @ ''-'' @ show_nat stop) @ eol @ ?v"
    by (simp add: build_request_def range_line_def split: option.split)
  have k: "cut_lines ?tail = [''Connection: keep-alive'', [], []]"
    by (subst cut_lines_append, simp, simp, subst cut_lines_append, simp, simp, simp)
  have e: "cut_lines ?v = validator_lines v @ [''Connection: keep-alive'', [], []]"
  proof (cases v)
    case (Some s)
    have "cut_lines ((''If-Range: '' @ s) @ eol @ ?tail) = (''If-Range: '' @ s) # cut_lines ?tail"
      using assms(4) [OF Some] by (intro cut_lines_append) simp_all
    then show ?thesis unfolding Some option.case validator_lines_def k by simp
  next
    case None
    then show ?thesis unfolding None option.case validator_lines_def k by simp
  qed
  have step: "cut_lines (l @ eol @ r) = l # cut_lines r"
    if "l \<in> {''GET '' @ path @ '' HTTP/1.1'', ''Host: '' @ host, ''User-Agent: hydra-fetch/'' @ ver, ''Accept: */*'',
      ''Range: bytes='' @ show_nat start @ ''-'' @ show_nat stop}" for l r
    using that assms(1-3) by (intro cut_lines_append) (auto simp: has_ctl_def)
  show ?thesis
    unfolding b
    by (subst step, simp, subst step, simp, subst step, simp, subst step, simp, subst step, simp, subst e, simp)
qed

text \<open>A NUL in a request comes from the validator.\<close>

lemma range_request_nul:
  assumes "\<not> has_ctl host" "\<not> has_ctl path" "\<not> has_ctl ver"
    and "CHR 0x00 \<in> set (build_request ver ''GET'' host path (Some (start, Some stop)) v)"
  shows "\<exists>s. v = Some s \<and> CHR 0x00 \<in> set s"
  using assms
  by (auto simp: build_request_def range_line_def has_ctl_def eol_def split: option.splits)

end
