(* ===== verification/FetchRun.thy ===== *)
theory FetchRun
  imports FetchEngine
begin

text \<open>
  The downloader (\<open>hydra-fetch/src/download.rs\<close>): the probe, the workers of a round over the shared
  queue of blocks, the rounds, the resumption, the single stream, and putting the file in place.
  The workers interleave at their attempts: \<open>pick\<close> says which of the running workers moves next. An
  attempt writes only into its own block, so it is one step.
  The code sets no time limit on what it reads: an attempt, the probe or the single stream whose
  target neither answers nor closes waits forever (\<open>stalls\<close>), with what arrived before in the file.
  A download that waits forever has the result \<open>None\<close>, beside the files as they stand then.
  Files are tokio's: a failed write is reported to the next write of the same worker only
  (\<open>copy_body\<close>). A block that is marked done while such a failure is unreported is recorded in the
  ghost field \<open>lost\<close>, which no operation reads and only the statements mention. What hashing
  the part file gives is an argument (\<open>hash_read\<close>), as its last writes may still be queued.
\<close>

definition MAX_ATTEMPTS :: nat where "MAX_ATTEMPTS = 3"
definition MAX_ROUNDS :: nat where "MAX_ROUNDS = 3"

record dl_env =
  net :: fetch_env
  file_opens :: "nat \<Rightarrow> bool"
  saves :: "nat \<Rightarrow> bool"
  prealloc_ok :: bool
  stream_file_ok :: bool
  rename_ok :: bool
  removes :: bool
  hash_read :: "byte list \<Rightarrow> string option"
  stalls :: "nat \<Rightarrow> bool"
  probe_stalls :: bool
  stream_stalls :: bool
  pick :: "nat \<Rightarrow> nat \<Rightarrow> nat"

text \<open>Where a download comes from: host, port, path and the validator of its ranges.\<close>

record origin =
  og_host :: string
  og_port :: u16
  og_path :: string
  og_if_range :: "string option"

section \<open>The workers of a round\<close>

text \<open>A worker holds its tunnel and the unreported failure of its file; \<open>Stuck\<close> waits forever.\<close>

datatype worker = Starting | Idle "source option" bool | Busy chunk_job nat "source option" bool | Stopped | Stuck

record round_state =
  cursor :: nat
  workers :: "worker list"
  bits :: fetch_state
  fetched :: nat
  part :: "byte list"
  saved :: "fetch_state option"
  changed :: bool
  ignored :: bool
  fatal :: "string option"
  now :: nat
  nodes :: scheduler
  lost :: bool

definition set_worker :: "nat \<Rightarrow> worker \<Rightarrow> round_state \<Rightarrow> round_state" where
  "set_worker i w rs = rs \<lparr> workers := (workers rs)[i := w] \<rparr>"

definition complete_job :: "dl_env \<Rightarrow> chunk_job \<Rightarrow> round_state \<Rightarrow> round_state" where
  "complete_job e j rs =
    (case mark_done (job_index j) (job_end j - job_start j) (bits rs, fetched rs) of
       (st, n) \<Rightarrow> rs \<lparr> bits := st, fetched := n, saved := (if saves e (now rs) then Some st else saved rs) \<rparr>)"

text \<open>What the outcome of an attempt does to the shared state, and what the worker does next.\<close>

definition note_result :: "dl_env \<Rightarrow> chunk_job \<Rightarrow> chunk_error option \<Rightarrow> round_state \<Rightarrow> round_state" where
  "note_result e j res rs =
    (case res of
       None \<Rightarrow> complete_job e j rs
     | Some RangeIgnored \<Rightarrow> rs \<lparr> ignored := True, changed := True \<rparr>
     | Some ContentChanged \<Rightarrow> rs \<lparr> changed := True \<rparr>
     | Some (Fatal m) \<Rightarrow> rs \<lparr> fatal := Some m, changed := True \<rparr>
     | Some (Retryable m) \<Rightarrow> rs)"

definition next_worker :: "chunk_job \<Rightarrow> nat \<Rightarrow> source option \<Rightarrow> bool \<Rightarrow> chunk_error option \<Rightarrow> worker" where
  "next_worker j n tn bad res =
    (case res of
       None \<Rightarrow> Idle tn bad
     | Some (Retryable m) \<Rightarrow> if n + 1 \<ge> MAX_ATTEMPTS then Idle tn bad else Busy j (n + 1) tn bad
     | Some _ \<Rightarrow> Stopped)"

definition attempt ::
  "dl_env \<Rightarrow> origin \<Rightarrow> nat \<Rightarrow> chunk_job \<Rightarrow> nat \<Rightarrow> source option \<Rightarrow> bool \<Rightarrow> round_state \<Rightarrow> round_state" where
  "attempt e og i j n tn bad rs =
    (case fetch_chunk (net e) (og_host og) (og_port og) (og_path og) (og_if_range og) (now rs) tn
            (job_start j) (job_end j) bad (part rs) (nodes rs) of
       (res, tn', f, bad', t, s) \<Rightarrow>
         (let rs' = rs \<lparr> part := f, now := t, nodes := s \<rparr> in
          if stalls e (now rs) then set_worker i Stuck rs'
          else set_worker i (next_worker j n tn' bad' res)
                 (note_result e j res (rs' \<lparr> lost := lost rs' \<or> (res = None \<and> bad') \<rparr>))))"

definition worker_step :: "dl_env \<Rightarrow> origin \<Rightarrow> chunk_job list \<Rightarrow> nat \<Rightarrow> round_state \<Rightarrow> round_state" where
  "worker_step e og jobs i rs =
    (case workers rs ! i of
       Stopped \<Rightarrow> rs
     | Stuck \<Rightarrow> rs
     | Starting \<Rightarrow>
         if file_opens e i then set_worker i (Idle None False) rs
         else set_worker i Stopped (rs \<lparr> changed := True \<rparr>)
     | Idle tn bad \<Rightarrow>
         if changed rs then set_worker i Stopped rs
         else (let idx = cursor rs; rs = rs \<lparr> cursor := idx + 1 \<rparr> in
               if idx \<ge> length jobs then set_worker i Stopped rs else set_worker i (Busy (jobs ! idx) 0 tn bad) rs)
     | Busy j n tn bad \<Rightarrow> attempt e og i j n tn bad rs)"

text \<open>The workers that can move; the round returns when all have stopped.\<close>

definition running :: "round_state \<Rightarrow> nat list" where
  "running rs = filter (\<lambda>i. workers rs ! i \<noteq> Stopped \<and> workers rs ! i \<noteq> Stuck) [0 ..< length (workers rs)]"

definition round_returns :: "round_state \<Rightarrow> bool" where
  "round_returns rs = list_all (\<lambda>w. w = Stopped) (workers rs)"

fun run_round :: "dl_env \<Rightarrow> origin \<Rightarrow> chunk_job list \<Rightarrow> (nat \<Rightarrow> nat) \<Rightarrow> nat \<Rightarrow> nat \<Rightarrow> round_state \<Rightarrow> round_state" where
  "run_round e og jobs order 0 k rs = rs"
| "run_round e og jobs order (Suc n) k rs =
    (let live = running rs in
     if live = [] then rs
     else run_round e og jobs order n (k + 1) (worker_step e og jobs (live ! (order k mod length live)) rs))"

text \<open>The steps a round can take at most: each block is attempted three times.\<close>

fun weight :: "worker \<Rightarrow> nat" where
  "weight Stopped = 0"
| "weight Stuck = 0"
| "weight Starting = 2"
| "weight (Idle _ _) = 1"
| "weight (Busy _ n _ _) = 1 + (MAX_ATTEMPTS - n)"

definition round_measure :: "chunk_job list \<Rightarrow> round_state \<Rightarrow> nat" where
  "round_measure jobs rs = sum_list (map weight (workers rs)) + (MAX_ATTEMPTS + 1) * (length jobs - cursor rs)"

section \<open>The rounds\<close>

datatype outcome = Complete | RangeFallback

definition worker_count :: "nat \<Rightarrow> nat \<Rightarrow> nat \<Rightarrow> nat" where
  "worker_count asked node_count job_count =
    min (if asked = 0 then max 1 (min 16 (node_count * 4)) else max 1 (min 16 asked)) (max 1 job_count)"

text \<open>What survives a round, and a crash: the part file and the saved state.\<close>

record dl_state =
  d_part :: "byte list option"
  d_saved :: "fetch_state option"
  d_out :: "byte list option"
  d_now :: nat
  d_nodes :: scheduler
  d_lost :: bool

definition round_start :: "nat \<Rightarrow> fetch_state \<Rightarrow> nat \<Rightarrow> byte list \<Rightarrow> dl_state \<Rightarrow> round_state" where
  "round_start w st n f d = \<lparr> cursor = 0, workers = replicate w Starting, bits = st, fetched = n, part = f,
     saved = d_saved d, changed = False, ignored = False, fatal = None, now = d_now d, nodes = d_nodes d, lost = d_lost d \<rparr>"

definition after_round :: "round_state \<Rightarrow> dl_state \<Rightarrow> dl_state" where
  "after_round rs d = d \<lparr> d_part := Some (part rs), d_saved := saved rs, d_now := now rs, d_nodes := nodes rs, d_lost := lost rs \<rparr>"

definition remove_state :: "dl_env \<Rightarrow> dl_state \<Rightarrow> dl_state" where
  "remove_state e d = (if removes e then d \<lparr> d_saved := None \<rparr> else d)"

definition finish :: "chunk_job list \<Rightarrow> dl_state \<Rightarrow> (string + outcome) option \<times> dl_state" where
  "finish jobs d = (Some (if jobs \<noteq> [] then Inl ''blocks failed'' else Inr Complete), d)"

fun download_rounds ::
  "dl_env \<Rightarrow> origin \<Rightarrow> nat \<Rightarrow> nat \<Rightarrow> nat \<Rightarrow> nat \<Rightarrow> chunk_job list \<Rightarrow> fetch_state \<Rightarrow> nat \<Rightarrow> byte list \<Rightarrow> dl_state \<Rightarrow>
   (string + outcome) option \<times> dl_state" where
  "download_rounds e og c len w 0 jobs st n f d = finish jobs d"
| "download_rounds e og c len w (Suc r) jobs st n f d =
    (if jobs = [] then finish jobs d
     else (let start = round_start w st n f d;
               rs = run_round e og jobs (pick e r) (round_measure jobs start) 0 start;
               d' = after_round rs d in
           if \<not> round_returns rs then (None, d')
           else if ignored rs then finish jobs d'
           else (case fatal rs of
              Some m \<Rightarrow> (Some (Inl m), d')
            | None \<Rightarrow>
                if changed rs then (Some (Inl ''content changed''), remove_state e d')
                else download_rounds e og c len w r (chunk_jobs c len (fs_done (bits rs))) (bits rs) (fetched rs) (part rs) d')))"

definition set_len :: "nat \<Rightarrow> byte list option \<Rightarrow> byte list" where
  "set_len len f = (let bs = (case f of Some bs \<Rightarrow> bs | None \<Rightarrow> []) in take len bs @ replicate (len - length bs) 0)"

record fetch_config =
  cf_nodes :: "sock_addr list"
  cf_workers :: nat
  cf_chunk :: nat
  cf_url :: string
  cf_sha :: "string option"

definition origin_of :: "probe_result \<Rightarrow> origin" where
  "origin_of pr = \<lparr> og_host = pr_host pr, og_port = pr_port pr, og_path = pr_path pr,
     og_if_range = (case pr_etag pr of Some v \<Rightarrow> Some v | None \<Rightarrow> pr_last_modified pr) \<rparr>"

definition parallel_download ::
  "dl_env \<Rightarrow> fetch_config \<Rightarrow> probe_result \<Rightarrow> nat \<Rightarrow> dl_state \<Rightarrow> (string + outcome) option \<times> dl_state" where
  "parallel_download e cf pr len d =
    (let c = max (cf_chunk cf) 1;
         st = restore (cf_url cf) len c (pr_etag pr) (pr_last_modified pr) (d_saved d) in
     if \<not> prealloc_ok e then (Some (Inl ''file''), d)
     else (let f = set_len len (d_part d);
               jobs = chunk_jobs c len (fs_done st) in
           download_rounds e (origin_of pr) c len (worker_count (cf_workers cf) (length (cf_nodes cf)) (length jobs))
             MAX_ROUNDS jobs st 0 f (d \<lparr> d_part := Some f \<rparr>)))"

section \<open>The single stream\<close>

text \<open>The body into the file, with the number of bytes the code counts, and a failure left unreported.\<close>

function drain :: "nat option \<Rightarrow> bool \<Rightarrow> body_reader \<Rightarrow> byte list \<Rightarrow> string option \<times> byte list \<times> nat \<times> bool" where
  "drain room bad r f =
    (case body_read BUF r of
       (Inl e, r') \<Rightarrow> (Some ''read'', f, 0, bad)
     | (Inr [], r') \<Rightarrow> (None, f, 0, bad)
     | (Inr (b # bs), r') \<Rightarrow>
         if bad then (Some ''write'', f, 0, False)
         else (case (case room of
              Some n \<Rightarrow>
                if n < length (b # bs) then drain (Some 0) True r' (f @ take n (b # bs))
                else drain (Some (n - length (b # bs))) False r' (f @ b # bs)
            | None \<Rightarrow> drain None False r' (f @ b # bs)) of
            (e, f', tot, bad') \<Rightarrow> (e, f', length (b # bs) + tot, bad')))"
  by pat_completeness auto
termination
  by (relation "measure (\<lambda>(room, bad, r, f). length (body_bytes r))") (auto dest: body_read_shorter [OF sym])

declare drain.simps [simp del]

definition single_stream :: "dl_env \<Rightarrow> probe_result \<Rightarrow> dl_state \<Rightarrow> (string + unit) \<times> dl_state" where
  "single_stream e pr d =
    (case open_tunnel (tun (net e)) (pr_host pr) (pr_port pr) (d_now d) (d_nodes d) of
       (Inl er, t, s) \<Rightarrow> (Inl er, d \<lparr> d_now := t, d_nodes := s \<rparr>)
     | (Inr _, t, s) \<Rightarrow>
         (let d = d \<lparr> d_now := t + 1, d_nodes := s \<rparr> in
          if \<not> tls_up (net e) t then (Inl ''tls'', d)
          else (case issue (net e) t (build_request (version (net e)) ''GET'' (pr_host pr) (pr_path pr) None None) no_bytes of
             (Inl er, _) \<Rightarrow> (Inl er, d)
           | (Inr (h, p), src) \<Rightarrow>
               if resp_status h \<noteq> 200 \<and> resp_status h \<noteq> 206 then (Inl ''status'', d)
               else if \<not> stream_file_ok e then (Inl ''file'', d)
               else (case drain (disk_room (net e) t) False (body_new src (resp_kind h) p) [] of
                  (Some er, f, tot, bad) \<Rightarrow> (Inl er, d \<lparr> d_part := Some f \<rparr>)
                | (None, f, tot, bad) \<Rightarrow>
                    (let d = d \<lparr> d_part := Some f, d_lost := d_lost d \<or> bad \<rparr> in
                     case pr_len pr of
                       Some n \<Rightarrow> if tot \<noteq> n then (Inl ''length'', d) else (Inr (), d)
                     | None \<Rightarrow> (Inr (), d))))))"

section \<open>A download\<close>

definition put_in_place :: "dl_env \<Rightarrow> fetch_config \<Rightarrow> dl_state \<Rightarrow> (string + unit) \<times> dl_state" where
  "put_in_place e cf d =
    (case (case cf_sha cf of
             None \<Rightarrow> Inr ()
           | Some expect \<Rightarrow>
               (case Option.bind (d_part d) (hash_read e) of
                  None \<Rightarrow> Inl ''sha-256''
                | Some actual \<Rightarrow> if eq_ignore_ascii_case actual expect then Inr () else Inl ''sha-256 mismatch'')) of
       Inl er \<Rightarrow> (Inl er, d)
     | Inr _ \<Rightarrow>
         if \<not> rename_ok e \<or> d_part d = None then (Inl ''rename'', d)
         else (Inr (), remove_state e (d \<lparr> d_out := d_part d, d_part := None \<rparr>)))"

definition start_node_info :: "nat \<Rightarrow> sock_addr \<Rightarrow> node_info" where
  "start_node_info idx a = \<lparr> address = a, bandwidth = max (100 - real idx * 10) 10, latency = 10,
     loss_rate = 1 / 100, load = 1 / 2, status = Online \<rparr>"

definition start_nodes :: "fetch_config \<Rightarrow> scheduler" where
  "start_nodes cf = fold (\<lambda>(i, a). add_node (start_node_info i a)) (enumerate 0 (cf_nodes cf)) sched_new"

text \<open>The single stream starts the file anew, so what it has written when it stalls is a part of it.\<close>

definition run_stream :: "dl_env \<Rightarrow> probe_result \<Rightarrow> dl_state \<Rightarrow> (string + unit) option \<times> dl_state" where
  "run_stream e pr d =
    (case single_stream e pr d of (r, d') \<Rightarrow> (if stream_stalls e then None else Some r, d'))"

definition fetch_file :: "dl_env \<Rightarrow> fetch_config \<Rightarrow> dl_state \<Rightarrow> (string + unit) option \<times> dl_state" where
  "fetch_file e cf d =
    (if cf_nodes cf = [] then (Some (Inl ''no nodes''), d)
     else if probe_stalls e then (None, d)
     else
       (case probe (net e) (cf_url cf) (d_now d) (start_nodes cf) of
          (Inl er, t, s) \<Rightarrow> (Some (Inl er), d \<lparr> d_now := t, d_nodes := s \<rparr>)
        | (Inr pr, t, s) \<Rightarrow>
            (let d = d \<lparr> d_now := t, d_nodes := s \<rparr> in
             case pr_len pr of
               None \<Rightarrow> (Some (Inl ''no length''), d)
             | Some len \<Rightarrow>
                 (case (if pr_ranges pr \<and> 0 < len
                        then (case parallel_download e cf pr len d of
                           (None, d) \<Rightarrow> (None, d)
                         | (Some (Inl er), d) \<Rightarrow> (Some (Inl er), d)
                         | (Some (Inr Complete), d) \<Rightarrow> (Some (Inr ()), d)
                         | (Some (Inr RangeFallback), d) \<Rightarrow> run_stream e pr (remove_state e d))
                        else run_stream e pr (remove_state e d)) of
                    (None, d) \<Rightarrow> (None, d)
                  | (Some (Inl er), d) \<Rightarrow> (Some (Inl er), d)
                  | (Some (Inr _), d) \<Rightarrow> (case put_in_place e cf d of (r, d) \<Rightarrow> (Some r, d))))))"

section \<open>A round ends\<close>

fun worker_ok :: "worker \<Rightarrow> bool" where
  "worker_ok (Busy _ n _ _) = (n < MAX_ATTEMPTS)"
| "worker_ok _ = True"

lemma weight_zero: "weight w = 0 \<longleftrightarrow> w = Stopped \<or> w = Stuck"
  by (cases w) simp_all

lemma workers_complete [simp]: "workers (complete_job e j rs) = workers rs" "cursor (complete_job e j rs) = cursor rs"
  by (simp_all add: complete_job_def split: prod.split)

lemma set_worker_measure:
  assumes "i < length (workers rs)" "weight w < weight (workers rs ! i)"
  shows "round_measure jobs (set_worker i w rs) < round_measure jobs rs"
proof -
  have "weight (workers rs ! i) \<le> sum_list (map weight (workers rs))"
    using assms(1) by (intro member_le_sum_list) auto
  then show ?thesis using assms
    by (simp add: round_measure_def set_worker_def map_update sum_list_update)
qed

lemma note_result_workers [simp]:
  "workers (note_result e j res rs) = workers rs" "cursor (note_result e j res rs) = cursor rs"
  by (simp_all add: note_result_def split: option.split chunk_error.split)

lemma next_worker_shape:
  "next_worker j n tn bad res = Stopped \<or> next_worker j n tn bad res = Idle tn bad \<or>
   next_worker j n tn bad res = Busy j (n + 1) tn bad \<and> n + 1 < MAX_ATTEMPTS"
  by (auto simp: next_worker_def split: option.split chunk_error.split)

lemma attempt_shape:
  "\<exists>rs' w. attempt e og i j n tn bad rs = set_worker i w rs' \<and> workers rs' = workers rs \<and> cursor rs' = cursor rs \<and>
     (w = Stopped \<or> w = Stuck \<and> stalls e (now rs) \<or> (\<exists>tn' b. w = Idle tn' b) \<or>
      (\<exists>tn' b. w = Busy j (n + 1) tn' b \<and> n + 1 < MAX_ATTEMPTS))"
proof -
  obtain res tn' f b t s where c: "fetch_chunk (net e) (og_host og) (og_port og) (og_path og) (og_if_range og) (now rs) tn
      (job_start j) (job_end j) bad (part rs) (nodes rs) = (res, tn', f, b, t, s)"
    using prod_cases6 by blast
  let ?rs = "rs \<lparr> part := f, now := t, nodes := s \<rparr>"
  show ?thesis
  proof (cases "stalls e (now rs)")
    case True
    then show ?thesis by (intro exI [of _ ?rs] exI [of _ Stuck]) (simp add: attempt_def c)
  next
    case False
    then show ?thesis
      using next_worker_shape [of j n tn' b res]
      by (intro exI [of _ "note_result e j res (?rs \<lparr> lost := lost ?rs \<or> (res = None \<and> b) \<rparr>)"]
            exI [of _ "next_worker j n tn' b res"]) (auto simp: attempt_def c)
  qed
qed

lemma worker_step_measure:
  assumes "i < length (workers rs)" "workers rs ! i \<noteq> Stopped" "workers rs ! i \<noteq> Stuck" "list_all worker_ok (workers rs)"
  shows "round_measure jobs (worker_step e og jobs i rs) < round_measure jobs rs"
proof (cases "workers rs ! i")
  case Starting
  have "round_measure jobs (rs \<lparr> changed := True \<rparr>) = round_measure jobs rs" by (simp add: round_measure_def)
  then show ?thesis using set_worker_measure [OF assms(1)] set_worker_measure [of i "rs \<lparr> changed := True \<rparr>" Stopped jobs] assms(1)
    by (auto simp: worker_step_def Starting)
next
  case (Idle tn bad)
  show ?thesis
  proof (cases "\<not> changed rs \<and> cursor rs < length jobs")
    case True
    let ?rs = "rs \<lparr> cursor := cursor rs + 1 \<rparr>"
    have "weight (workers rs ! i) \<le> sum_list (map weight (workers rs))"
      using assms(1) by (intro member_le_sum_list) auto
    then have w: "1 \<le> sum_list (map weight (workers rs))" by (simp add: Idle)
    have "worker_step e og jobs i rs = set_worker i (Busy (jobs ! cursor rs) 0 tn bad) ?rs"
      using True by (simp add: worker_step_def Idle Let_def)
    moreover have "length jobs - cursor rs = Suc (length jobs - Suc (cursor rs))" using True by linarith
    ultimately show ?thesis using assms(1) w
      by (simp add: round_measure_def set_worker_def map_update sum_list_update Idle MAX_ATTEMPTS_def)
  next
    case False
    define rs' where "rs' = (if changed rs then rs else rs \<lparr> cursor := cursor rs + 1 \<rparr>)"
    have "worker_step e og jobs i rs = set_worker i Stopped rs'"
      using False by (auto simp: worker_step_def Idle Let_def rs'_def)
    moreover have "round_measure jobs rs' = round_measure jobs rs"
      using False by (auto simp: rs'_def round_measure_def)
    ultimately show ?thesis using set_worker_measure [of i rs' Stopped jobs] assms(1)
      by (simp add: rs'_def Idle)
  qed
next
  case (Busy j n tn bad)
  have n: "n < MAX_ATTEMPTS" using assms(1,4) Busy by (auto simp: list_all_length)
  obtain rs' w where a: "attempt e og i j n tn bad rs = set_worker i w rs'" "workers rs' = workers rs" "cursor rs' = cursor rs"
      "w = Stopped \<or> w = Stuck \<and> stalls e (now rs) \<or> (\<exists>tn' b. w = Idle tn' b) \<or>
        (\<exists>tn' b. w = Busy j (n + 1) tn' b \<and> n + 1 < MAX_ATTEMPTS)"
    using attempt_shape by blast
  have "round_measure jobs rs' = round_measure jobs rs" using a(2,3) by (simp add: round_measure_def)
  moreover have "weight w < weight (workers rs' ! i)" using a(2,4) n by (auto simp: Busy)
  ultimately show ?thesis using set_worker_measure [of i rs' w jobs] assms(1) a(1,2) by (simp add: worker_step_def Busy)
qed (use assms in simp_all)

lemma worker_step_ok:
  assumes "list_all worker_ok (workers rs)"
  shows "list_all worker_ok (workers (worker_step e og jobs i rs)) \<and> length (workers (worker_step e og jobs i rs)) = length (workers rs)"
proof -
  have upd: "list_all worker_ok ((workers rs)[i := w])" if "worker_ok w" for w
    using assms that by (auto simp: list_all_iff dest: set_update_subset_insert [THEN subsetD])
  show ?thesis
  proof (cases "workers rs ! i")
    case (Busy j n tn bad)
    obtain rs' w where "attempt e og i j n tn bad rs = set_worker i w rs'" "workers rs' = workers rs"
        "w = Stopped \<or> w = Stuck \<and> stalls e (now rs) \<or> (\<exists>tn' b. w = Idle tn' b) \<or>
        (\<exists>tn' b. w = Busy j (n + 1) tn' b \<and> n + 1 < MAX_ATTEMPTS)"
      using attempt_shape by blast
    then show ?thesis using upd by (auto simp: worker_step_def Busy set_worker_def)
  qed (use upd assms in \<open>auto simp: worker_step_def set_worker_def Let_def MAX_ATTEMPTS_def\<close>)
qed

lemma running_live:
  "i \<in> set (running rs) \<longleftrightarrow> i < length (workers rs) \<and> workers rs ! i \<noteq> Stopped \<and> workers rs ! i \<noteq> Stuck"
  by (auto simp: running_def)

lemma run_round_stops:
  assumes "list_all worker_ok (workers rs)" "round_measure jobs rs \<le> n"
  shows "\<forall>w \<in> set (workers (run_round e og jobs ord n k rs)). w = Stopped \<or> w = Stuck"
  using assms
proof (induction n arbitrary: k rs)
  case 0
  have "w = Stopped \<or> w = Stuck" if "w \<in> set (workers rs)" for w
    using member_le_sum_list [of "weight w" "map weight (workers rs)"] 0(2) that by (simp add: round_measure_def weight_zero)
  then show ?case by simp
next
  case (Suc n)
  show ?case
  proof (cases "running rs = []")
    case True
    then have "\<forall>i < length (workers rs). workers rs ! i = Stopped \<or> workers rs ! i = Stuck"
      by (auto simp: running_def filter_empty_conv)
    then show ?thesis using True by (auto simp: in_set_conv_nth)
  next
    case False
    let ?i = "running rs ! (ord k mod length (running rs))"
    have "?i \<in> set (running rs)" using False by simp
    then have i: "?i < length (workers rs)" "workers rs ! ?i \<noteq> Stopped" "workers rs ! ?i \<noteq> Stuck"
      by (simp_all add: running_live)
    have "round_measure jobs (worker_step e og jobs ?i rs) \<le> n"
      using worker_step_measure [OF i Suc.prems(1), of jobs e og] Suc.prems(2) by simp
    from Suc.IH [OF conjunct1 [OF worker_step_ok [OF Suc.prems(1)]] this] False show ?thesis
      by (simp add: Let_def)
  qed
qed

text \<open>Only an attempt that stalls makes a worker stuck.\<close>

lemma worker_step_stuck:
  assumes "\<And>t. \<not> stalls e t" "Stuck \<notin> set (workers rs)" "i < length (workers rs)"
  shows "Stuck \<notin> set (workers (worker_step e og jobs i rs))"
proof -
  have upd: "Stuck \<notin> set ((workers rs)[i := w])" if "w \<noteq> Stuck" for w
    using assms(2) that by (auto dest: set_update_subset_insert [THEN subsetD])
  show ?thesis
  proof (cases "workers rs ! i")
    case (Busy j n tn bad)
    obtain rs' w where "attempt e og i j n tn bad rs = set_worker i w rs'" "workers rs' = workers rs"
        "w = Stopped \<or> w = Stuck \<and> stalls e (now rs) \<or> (\<exists>tn' b. w = Idle tn' b) \<or>
        (\<exists>tn' b. w = Busy j (n + 1) tn' b \<and> n + 1 < MAX_ATTEMPTS)"
      using attempt_shape by blast
    then show ?thesis using upd [of w] assms(1) by (auto simp: worker_step_def Busy set_worker_def)
  qed (use upd assms in \<open>auto simp: worker_step_def set_worker_def Let_def\<close>)
qed

lemma run_round_stuck:
  assumes "\<And>t. \<not> stalls e t"
  shows "Stuck \<notin> set (workers rs) \<Longrightarrow> Stuck \<notin> set (workers (run_round e og jobs ord n k rs))"
proof (induction n arbitrary: k rs)
  case (Suc n)
  show ?case
  proof (cases "running rs = []")
    case False
    then have "running rs ! (ord k mod length (running rs)) \<in> set (running rs)" by simp
    then show ?thesis using Suc.IH worker_step_stuck [OF assms Suc.prems] False by (simp add: Let_def running_live)
  qed (use Suc in simp)
qed simp

text \<open>
  C39: a round of the downloader runs out, and returns unless an attempt stalls. Whatever the network
  and the disk do, and however the workers interleave, after at most three attempts for each block,
  and one step for each block and two for each worker beside them, every worker has stopped or
  waits forever for a target that neither answers nor closes; the code sets no time limit, so then
  the round never returns. When no attempt stalls, it returns.
\<close>

theorem round_ends:
  "list_all (\<lambda>x. x = Stopped \<or> x = Stuck)
      (workers (run_round e og jobs ord (2 * w + 4 * length jobs) k (round_start w st n f d))) \<and>
   (round_returns (run_round e og jobs ord (2 * w + 4 * length jobs) k (round_start w st n f d)) \<or> (\<exists>t. stalls e t))"
proof -
  let ?rs = "run_round e og jobs ord (2 * w + 4 * length jobs) k (round_start w st n f d)"
  have a: "\<forall>x \<in> set (workers ?rs). x = Stopped \<or> x = Stuck"
    by (rule run_round_stops) (simp_all add: round_start_def round_measure_def MAX_ATTEMPTS_def list_all_iff sum_list_replicate)
  have "round_returns ?rs" if no: "\<And>t. \<not> stalls e t"
    using run_round_stuck [where e = e, OF no, of "round_start w st n f d"] a
    by (auto simp: round_returns_def list_all_iff round_start_def)
  with a show ?thesis unfolding list_all_iff by blast
qed

section \<open>The file a download puts in place\<close>

text \<open>What the state says is done is in the file.\<close>

definition agrees :: "byte list \<Rightarrow> nat \<Rightarrow> bool list \<Rightarrow> byte list \<Rightarrow> bool" where
  "agrees content c done_bits f \<longleftrightarrow> length f = length content \<and> length done_bits = chunk_count (length content) c \<and>
     (\<forall>b < length content. done_bits ! (b div c) \<longrightarrow> f ! b = content ! b)"

definition saved_ok :: "byte list \<Rightarrow> nat \<Rightarrow> string \<Rightarrow> probe_result \<Rightarrow> fetch_state option \<Rightarrow> byte list \<Rightarrow> bool" where
  "saved_ok content c url pr sv f =
    (case sv of
       None \<Rightarrow> True
     | Some st \<Rightarrow> resumable url (length content) c st \<and> validator_match st (pr_etag pr) (pr_last_modified pr) \<longrightarrow>
                  agrees content c (fs_done st) f)"

lemma write_slice_nth:
  assumes "prefix bs (slice start stop content)" "stop \<le> length content" "length f = length content" "b < length content"
    and "start < stop"
  shows "length (write_at start bs f) = length content"
    and "write_at start bs f ! b = f ! b \<or> write_at start bs f ! b = content ! b"
    and "bs = slice start stop content \<Longrightarrow> start \<le> b \<Longrightarrow> b < stop \<Longrightarrow> write_at start bs f ! b = content ! b"
proof -
  have l: "length bs \<le> stop - start" using prefix_length_le [OF assms(1)] assms(2) by (simp add: length_slice)
  have fits: "start + length bs \<le> length f" using l assms(2,3,5) by simp
  show "length (write_at start bs f) = length content" using fits assms(3) by (simp add: write_at_nth)
  have nth: "write_at start bs f ! b = (if start \<le> b \<and> b < start + length bs then bs ! (b - start) else f ! b)"
    using fits assms(3,4) by (simp add: write_at_nth)
  have elem: "bs ! i = content ! (start + i)" if "i < length bs" for i
  proof -
    have "bs ! i = slice start stop content ! i" using assms(1) that by (auto simp: prefix_def nth_append)
    then show ?thesis using that l assms(2) by (simp add: slice_def)
  qed
  then show "write_at start bs f ! b = f ! b \<or> write_at start bs f ! b = content ! b"
    using elem [of "b - start"] by (auto simp: nth)
  assume "bs = slice start stop content" "start \<le> b" "b < stop"
  then show "write_at start bs f ! b = content ! b"
    using nth assms(2) by (simp add: length_slice) (simp add: slice_def)
qed

lemma agrees_write:
  assumes "agrees content c bm f" "prefix bs (slice start stop content)" "start < stop" "stop \<le> length content"
  shows "agrees content c bm (write_at start bs f)"
proof -
  have f: "length f = length content" "length bm = chunk_count (length content) c"
      "\<And>b. b < length content \<Longrightarrow> bm ! (b div c) \<Longrightarrow> f ! b = content ! b"
    using assms(1) by (simp_all add: agrees_def)
  have "length (write_at start bs f) = length content"
    using prefix_length_le [OF assms(2)] assms(3,4) f(1) by (subst write_at_nth) (simp_all add: length_slice)
  moreover have "write_at start bs f ! b = content ! b" if "b < length content" "bm ! (b div c)" for b
    using write_slice_nth(2) [OF assms(2,4) f(1) that(1) assms(3)] f(3) [OF that] by auto
  ultimately show ?thesis using f(2) by (simp add: agrees_def)
qed

lemma agrees_complete:
  assumes "agrees content c bm f" "0 < c" "j = job_of c (length content) i" "i < chunk_count (length content) c"
  shows "agrees content c (bm[i := True]) (write_at (job_start j) (slice (job_start j) (job_end j) content) f)"
proof -
  have j: "job_start j < job_end j" "job_end j \<le> length content"
    using block_nonempty [OF assms(2,4)] by (simp_all add: assms(3))
  have old: "agrees content c bm (write_at (job_start j) (slice (job_start j) (job_end j) content) f)"
    by (rule agrees_write [OF assms(1) _ j]) simp
  have "write_at (job_start j) (slice (job_start j) (job_end j) content) f ! b = content ! b"
    if "b < length content" "b div c = i" for b
  proof -
    have "job_start j \<le> b \<and> b < job_end j"
      using in_block_iff [OF assms(2) that(1), of i] that(2) by (simp add: in_block_def assms(3))
    then show ?thesis using write_slice_nth(3) [OF _ j(2) _ that(1) j(1) refl] assms(1) by (simp add: agrees_def)
  qed
  note this_block = this
  let ?f = "write_at (job_start j) (slice (job_start j) (job_end j) content) f"
  have "?f ! b = content ! b" if "b < length content" "bm[i := True] ! (b div c)" for b
    using this_block [OF that(1)] old that by (cases "b div c = i") (simp_all add: agrees_def)
  then show ?thesis using old by (simp add: agrees_def)
qed

fun worker_clean :: "chunk_job list \<Rightarrow> worker \<Rightarrow> bool" where
  "worker_clean jobs (Idle tn _) = clean tn"
| "worker_clean jobs (Busy j n tn _) = (clean tn \<and> j \<in> set jobs)"
| "worker_clean jobs _ = True"

definition round_good :: "byte list \<Rightarrow> nat \<Rightarrow> string \<Rightarrow> probe_result \<Rightarrow> chunk_job list \<Rightarrow> round_state \<Rightarrow> bool" where
  "round_good content c url pr jobs rs \<longleftrightarrow> agrees content c (fs_done (bits rs)) (part rs) \<and>
     saved_ok content c url pr (saved rs) (part rs) \<and> list_all (worker_clean jobs) (workers rs)"

definition valid_jobs :: "byte list \<Rightarrow> nat \<Rightarrow> chunk_job list \<Rightarrow> bool" where
  "valid_jobs content c jobs \<longleftrightarrow>
     (\<forall>j \<in> set jobs. \<exists>i < chunk_count (length content) c. j = job_of c (length content) i)"

lemma set_worker_good:
  "round_good content c url pr jobs rs \<Longrightarrow> worker_clean jobs w \<Longrightarrow> round_good content c url pr jobs (set_worker i w rs)"
  by (auto simp: round_good_def set_worker_def list_all_iff dest: set_update_subset_insert [THEN subsetD])

lemma saved_write:
  assumes "saved_ok content c url pr sv f" "prefix bs (slice start stop content)" "start < stop" "stop \<le> length content"
  shows "saved_ok content c url pr sv (write_at start bs f)"
  using assms(1) agrees_write [OF _ assms(2-4)] by (auto simp: saved_ok_def split: option.splits)

text \<open>A loss stays on record.\<close>

lemma lost_keeps [simp]: "lost (set_worker i w rs) = lost rs" "lost (note_result e j res rs) = lost rs"
  by (simp_all add: set_worker_def note_result_def complete_job_def split: option.split chunk_error.split prod.split)

lemma worker_step_lost: "lost rs \<Longrightarrow> lost (worker_step e og jobs i rs)"
  by (simp add: worker_step_def attempt_def Let_def split: worker.split prod.split)

lemma run_round_lost: "lost rs \<Longrightarrow> lost (run_round e og jobs ord n k rs)"
  by (induction n arbitrary: k rs) (simp_all add: Let_def worker_step_lost)

lemma attempt_good:
  assumes "round_good content c url pr jobs rs" "valid_jobs content c jobs" "0 < c" "clean tn" "j \<in> set jobs"
    and "serves (net e) (og_host og) (og_path og) (og_if_range og) content"
    and "\<not> lost (attempt e og i j n tn bad rs)"
  shows "round_good content c url pr jobs (attempt e og i j n tn bad rs)"
proof -
  obtain k where k: "k < chunk_count (length content) c" "j = job_of c (length content) k"
    using assms(2,5) by (auto simp: valid_jobs_def)
  have j: "job_start j < job_end j" "job_end j \<le> length content"
    using block_nonempty [OF assms(3) k(1)] by (simp_all add: k(2))
  have g: "agrees content c (fs_done (bits rs)) (part rs)" "saved_ok content c url pr (saved rs) (part rs)"
      "list_all (worker_clean jobs) (workers rs)"
    using assms(1) by (simp_all add: round_good_def)
  have len: "length (part rs) = length content" using g(1) by (simp add: agrees_def)
  obtain res tn' f bad' t s where fc: "fetch_chunk (net e) (og_host og) (og_port og) (og_path og) (og_if_range og) (now rs) tn
      (job_start j) (job_end j) bad (part rs) (nodes rs) = (res, tn', f, bad', t, s)"
    using prod_cases6 by blast
  obtain bs where bs: "clean tn'" "prefix bs (slice (job_start j) (job_end j) content)" "f = write_at (job_start j) bs (part rs)"
      "res = None \<and> \<not> bad' \<longrightarrow> bs = slice (job_start j) (job_end j) content"
    using fetch_chunk_honest [OF assms(6) assms(4) j len fc] by blast
  let ?old = "rs \<lparr> part := f, now := t, nodes := s \<rparr>"
  let ?new = "?old \<lparr> lost := lost ?old \<or> (res = None \<and> bad') \<rparr>"
  have r0: "round_good content c url pr jobs ?old"
    using agrees_write [OF g(1) bs(2) j] saved_write [OF g(2) bs(2) j] g(3) bs(3) by (simp add: round_good_def)
  show ?thesis
  proof (cases "stalls e (now rs)")
    case True
    then show ?thesis using set_worker_good [OF r0] by (simp add: attempt_def fc Let_def)
  next
    case False
    have r1: "round_good content c url pr jobs ?new" using r0 by (simp add: round_good_def)
    have r2: "round_good content c url pr jobs (note_result e j res ?new)"
    proof (cases res)
      case None
      have nb: "\<not> bad'" using assms(7) False None by (simp add: attempt_def fc Let_def)
      have i: "job_index j = k" by (simp add: k(2) job_of_def)
      have "length (fs_done (bits rs)) = chunk_count (length content) c" using g(1) by (simp add: agrees_def)
      then have st: "mark_done (job_index j) x (bits rs, fetched rs) =
          (bits rs \<lparr> fs_done := (fs_done (bits rs))[k := True] \<rparr>, fetched rs + x)" for x
        using k(1) by (simp add: mark_done_def i)
      have "agrees content c ((fs_done (bits rs))[k := True]) f"
        using agrees_complete [OF g(1) assms(3) k(2,1)] bs(3,4) None nb by simp
      then show ?thesis using r1
        by (simp add: None note_result_def complete_job_def st round_good_def saved_ok_def)
    next
      case (Some er)
      then show ?thesis using r1 by (cases er) (simp_all add: note_result_def round_good_def)
    qed
    have "worker_clean jobs (next_worker j n tn' bad' res)"
      using next_worker_shape [of j n tn' bad' res] bs(1) assms(5) by auto
    then show ?thesis using set_worker_good [OF r2] False by (simp add: attempt_def fc Let_def)
  qed
qed

lemma worker_step_good:
  assumes "round_good content c url pr jobs rs" "valid_jobs content c jobs" "0 < c" "i < length (workers rs)"
    and "serves (net e) (og_host og) (og_path og) (og_if_range og) content"
    and "\<not> lost (worker_step e og jobs i rs)"
  shows "round_good content c url pr jobs (worker_step e og jobs i rs)"
proof -
  have w: "worker_clean jobs (workers rs ! i)" using assms(1,4) by (auto simp: round_good_def list_all_length)
  have upd: "round_good content c url pr jobs (rs \<lparr> changed := x \<rparr>)" "round_good content c url pr jobs (rs \<lparr> cursor := y \<rparr>)" for x y
    using assms(1) by (simp_all add: round_good_def)
  show ?thesis
  proof (cases "workers rs ! i")
    case (Busy j n tn bad)
    then show ?thesis using attempt_good [OF assms(1-3) _ _ assms(5)] w assms(6) by (simp add: worker_step_def)
  next
    case (Idle tn bad)
    then show ?thesis using set_worker_good [OF assms(1)] set_worker_good [OF upd(2)] w
      by (simp add: worker_step_def Let_def)
  qed (use set_worker_good [OF assms(1)] set_worker_good [OF upd(1)] assms(1) in \<open>simp_all add: worker_step_def clean_def\<close>)
qed

lemma run_round_good:
  assumes "valid_jobs content c jobs" "0 < c" "serves (net e) (og_host og) (og_path og) (og_if_range og) content"
  shows "round_good content c url pr jobs rs \<Longrightarrow> \<not> lost (run_round e og jobs ord n k rs) \<Longrightarrow>
    round_good content c url pr jobs (run_round e og jobs ord n k rs)"
proof (induction n arbitrary: k rs)
  case (Suc n)
  show ?case
  proof (cases "running rs = []")
    case False
    let ?i = "running rs ! (ord k mod length (running rs))"
    have "?i \<in> set (running rs)" using False by simp
    then have i: "?i < length (workers rs)" by (simp add: running_live)
    have nl: "\<not> lost (run_round e og jobs ord n (k + 1) (worker_step e og jobs ?i rs))"
      using Suc.prems(2) False by (simp add: Let_def)
    then have "\<not> lost (worker_step e og jobs ?i rs)" using run_round_lost by blast
    then show ?thesis using Suc.IH [OF worker_step_good [OF Suc.prems(1) assms(1,2) i assms(3)]] nl False
      by (simp add: Let_def)
  qed (use Suc in simp)
qed simp

text \<open>When the disk takes everything, nothing is lost.\<close>

fun worker_told :: "worker \<Rightarrow> bool" where
  "worker_told (Idle _ bad) = (\<not> bad)"
| "worker_told (Busy _ _ _ bad) = (\<not> bad)"
| "worker_told _ = True"

lemma worker_step_told:
  assumes "\<And>t. disk_room (net e) t = None" "list_all worker_told (workers rs)" "\<not> lost rs" "i < length (workers rs)"
  shows "list_all worker_told (workers (worker_step e og jobs i rs)) \<and> \<not> lost (worker_step e og jobs i rs)"
proof -
  have upd: "list_all worker_told ((workers rs)[i := w])" if "worker_told w" for w
    using assms(2) that by (auto simp: list_all_iff dest: set_update_subset_insert [THEN subsetD])
  have w: "worker_told (workers rs ! i)" using assms(2,4) by (simp add: list_all_length)
  show ?thesis
  proof (cases "workers rs ! i")
    case (Busy j n tn bad)
    obtain res tn' f bad' t s where fc: "fetch_chunk (net e) (og_host og) (og_port og) (og_path og) (og_if_range og) (now rs) tn
        (job_start j) (job_end j) bad (part rs) (nodes rs) = (res, tn', f, bad', t, s)"
      using prod_cases6 by blast
    have "bad = False" using w Busy by simp
    then have nb: "\<not> bad'" using fetch_chunk_unlimited [OF assms(1)] fc by blast
    then have "worker_told (next_worker j n tn' bad' res)"
      using next_worker_shape [of j n tn' bad' res] by auto
    then show ?thesis using upd assms(3) nb
      by (simp add: worker_step_def Busy attempt_def fc Let_def) (simp add: set_worker_def)
  qed (use upd w assms(2,3) in \<open>simp_all add: worker_step_def set_worker_def Let_def\<close>)
qed

lemma run_round_told:
  assumes "\<And>t. disk_room (net e) t = None"
  shows "list_all worker_told (workers rs) \<Longrightarrow> \<not> lost rs \<Longrightarrow> \<not> lost (run_round e og jobs ord n k rs)"
proof (induction n arbitrary: k rs)
  case (Suc n)
  show ?case
  proof (cases "running rs = []")
    case False
    then have "running rs ! (ord k mod length (running rs)) \<in> set (running rs)" by simp
    then show ?thesis using Suc.IH worker_step_told [OF assms Suc.prems] False by (simp add: Let_def running_live)
  qed (use Suc in simp)
qed simp

lemma all_done:
  assumes "agrees content c bm f" "0 < c" "chunk_jobs c (length content) bm = []"
  shows "f = content"
proof (rule nth_equalityI)
  show "length f = length content" using assms(1) by (simp add: agrees_def)
  fix b assume "b < length f"
  then have b: "b < length content" using assms(1) by (simp add: agrees_def)
  have "b div c < chunk_count (length content) c"
    using b chunk_count_bounds(1) [OF assms(2), of "length content"]
    by (metis div_less_iff_less_mult assms(2) less_le_trans)
  then have "b div c < length bm" using assms(1) by (simp add: agrees_def)
  moreover have "\<not> (\<exists>i < length bm. \<not> bm ! i)"
    using chunk_jobs_iff [of _ c "length content" bm] assms(3) by auto
  ultimately show "f ! b = content ! b" using assms(1) b by (auto simp: agrees_def)
qed

lemma chunk_jobs_valid:
  "length bm = chunk_count (length content) c \<Longrightarrow> valid_jobs content c (chunk_jobs c (length content) bm)"
  by (auto simp: valid_jobs_def chunk_jobs_iff)

text \<open>How a download may stand: the part file of the full length, and a saved state that is true of it.\<close>

definition stands :: "byte list \<Rightarrow> nat \<Rightarrow> string \<Rightarrow> probe_result \<Rightarrow> dl_state \<Rightarrow> bool" where
  "stands content c url pr d \<longleftrightarrow>
     saved_ok content c url pr (d_saved d) (case d_part d of Some f \<Rightarrow> f | None \<Rightarrow> [])"

lemma download_rounds_lost: "d_lost d \<Longrightarrow> d_lost (snd (download_rounds e og c len w r jobs st n f d))"
proof (induction r arbitrary: jobs st n f d)
  case (Suc r)
  have "lost (run_round e og jobs (pick e r) m 0 (round_start w st n f d))" for m
    using Suc.prems by (intro run_round_lost) (simp add: round_start_def)
  then show ?case using Suc by (auto simp: finish_def Let_def after_round_def remove_state_def split: option.split)
qed (simp add: finish_def)

lemma download_rounds_good:
  assumes "0 < c" "serves (net e) (og_host og) (og_path og) (og_if_range og) content"
    and "agrees content c (fs_done st) f" "d_part d = Some f" "stands content c url pr d"
    and "jobs = chunk_jobs c (length content) (fs_done st)"
    and "download_rounds e og c (length content) w r jobs st n f d = (res, d')" "\<not> d_lost d'"
  shows "stands content c url pr d' \<and>
    (\<forall>o'. res = Some (Inr o') \<longrightarrow> o' = Complete \<and> d_part d' = Some content)"
  using assms(3-8)
proof (induction r arbitrary: jobs st n f d)
  case 0
  then show ?case using all_done [OF 0(1) assms(1)] by (auto simp: finish_def split: if_splits)
next
  case (Suc r)
  show ?case
  proof (cases "jobs = []")
    case True
    then show ?thesis using Suc.prems all_done [OF Suc.prems(1) assms(1)] by (auto simp: finish_def)
  next
    case False
    define rs where "rs = run_round e og jobs (pick e r) (round_measure jobs (round_start w st n f d)) 0 (round_start w st n f d)"
    have step: "(res, d') = (if \<not> round_returns rs then (None, after_round rs d)
        else if ignored rs then finish jobs (after_round rs d)
        else (case fatal rs of
           Some m \<Rightarrow> (Some (Inl m), after_round rs d)
         | None \<Rightarrow>
             if changed rs then (Some (Inl ''content changed''), remove_state e (after_round rs d))
             else download_rounds e og c (length content) w r (chunk_jobs c (length content) (fs_done (bits rs)))
                    (bits rs) (fetched rs) (part rs) (after_round rs d)))"
      using Suc.prems(5) unfolding download_rounds.simps(2) Let_def if_not_P [OF False] rs_def [symmetric] by (rule sym)
    have nl: "\<not> lost rs"
    proof
      assume l: "lost rs"
      then have a: "d_lost (after_round rs d)" "d_lost (remove_state e (after_round rs d))"
        by (simp_all add: after_round_def remove_state_def)
      then have "d_lost d'"
        using step download_rounds_lost [OF a(1)]
        by (auto simp: finish_def split: if_splits option.splits dest!: arg_cong [where f = snd])
      then show False using Suc.prems(6) by simp
    qed
    have v: "valid_jobs content c jobs"
      using chunk_jobs_valid Suc.prems(1,4) by (simp add: agrees_def)
    have "round_good content c url pr jobs (round_start w st n f d)"
      using Suc.prems(1-3) by (auto simp: round_good_def round_start_def stands_def list_all_iff)
    then have g: "round_good content c url pr jobs rs"
      using run_round_good [OF v assms(1,2)] nl unfolding rs_def by blast
    have s: "stands content c url pr (after_round rs d)" "d_part (after_round rs d) = Some (part rs)"
      using g by (simp_all add: stands_def after_round_def round_good_def)
    have s': "stands content c url pr (remove_state e (after_round rs d))"
      using s(1) by (simp add: stands_def remove_state_def saved_ok_def)
    show ?thesis
    proof (cases "\<not> round_returns rs \<or> ignored rs \<or> fatal rs \<noteq> None \<or> changed rs")
      case True
      then show ?thesis using step s s' False by (auto simp: finish_def split: if_splits option.splits)
    next
      case more: False
      then have "download_rounds e og c (length content) w r (chunk_jobs c (length content) (fs_done (bits rs)))
          (bits rs) (fetched rs) (part rs) (after_round rs d) = (res, d')"
        using step by simp
      moreover have "agrees content c (fs_done (bits rs)) (part rs)" using g by (simp add: round_good_def)
      ultimately show ?thesis using Suc.IH [OF _ s(2,1) refl] Suc.prems(6) by blast
    qed
  qed
qed

lemma download_rounds_told:
  assumes "\<And>t. disk_room (net e) t = None"
  shows "\<not> d_lost d \<Longrightarrow> \<not> d_lost (snd (download_rounds e og c len w r jobs st n f d))"
proof (induction r arbitrary: jobs st n f d)
  case (Suc r)
  have "\<not> lost (run_round e og jobs (pick e r) m 0 (round_start w st n f d))" for m
    using Suc.prems by (intro run_round_told assms) (simp_all add: round_start_def list_all_iff)
  then show ?case using Suc by (auto simp: finish_def Let_def after_round_def remove_state_def split: option.split)
qed (simp add: finish_def)

text \<open>The fallback that the code prepares for a target that ignores ranges is never taken: the
  round ends with blocks left, which is an error.\<close>

lemma range_fallback_never_taken: "fst (parallel_download e cf pr len d) \<noteq> Some (Inr RangeFallback)"
proof -
  have "fst (finish jobs d) \<noteq> Some (Inr RangeFallback)" for jobs d by (simp add: finish_def)
  then have "fst (download_rounds e og c len w r jobs st n f d) \<noteq> Some (Inr RangeFallback)" for og c w r jobs st n f d
    by (induction r arbitrary: jobs st n f d) (auto simp: Let_def split: option.split)
  then show ?thesis by (simp add: parallel_download_def Let_def)
qed

text \<open>A state that says all is done beside a part file that is gone: the download is complete with zeros.\<close>

lemma lost_part_file_gives_zeros:
  assumes "prealloc_ok e" "d_part d = None" "d_saved d = Some st" "resumable (cf_url cf) len (max (cf_chunk cf) 1) st"
    and "validator_match st (pr_etag pr) (pr_last_modified pr)" "list_all id (fs_done st)"
  shows "parallel_download e cf pr len d = (Some (Inr Complete), d \<lparr> d_part := Some (replicate len 0) \<rparr>)"
proof -
  have st: "restore (cf_url cf) len (max (cf_chunk cf) 1) (pr_etag pr) (pr_last_modified pr) (d_saved d) = st"
    using assms(3-5) by (simp add: restore_def)
  have "j \<notin> set (chunk_jobs c len (fs_done st))" for c j
    using assms(6) by (auto simp: chunk_jobs_iff list_all_length)
  then have "chunk_jobs c len (fs_done st) = []" for c
    by (metis list.set_intros(1) neq_Nil_conv)
  moreover have "download_rounds e og c len w r [] st n f d = (Some (Inr Complete), d)" for og c w r n f d
    by (cases r) (simp_all add: finish_def)
  ultimately show ?thesis
    using assms(1,2) unfolding parallel_download_def Let_def st by (simp add: set_len_def)
qed

text \<open>Two outputs of one stem share their part file.\<close>

lemma part_path_collides: "part_path ''d/a.iso'' = part_path ''d/a.zip''"
  by code_simp


lemma set_len_id: "length f = len \<Longrightarrow> set_len len (Some f) = f"
  by (simp add: set_len_def)

lemma length_set_len [simp]: "length (set_len len f) = len"
  by (simp add: set_len_def Let_def split: option.split)

lemma agrees_new:
  "length f = length content \<Longrightarrow> 0 < c \<Longrightarrow> agrees content c (fs_done (fetch_new url (length content) c etag lm)) f"
proof -
  assume f: "length f = length content" and c: "0 < c"
  have "b div c < chunk_count (length content) c" if "b < length content" for b
    using that chunk_count_bounds(1) [OF c, of "length content"] by (metis c div_less_iff_less_mult less_le_trans)
  then show ?thesis using f by (simp add: agrees_def fetch_new_def)
qed

text \<open>The state a download resumes from is true of the part file.\<close>

lemma restore_agrees:
  assumes "stands content c url pr d" "0 < c"
  shows "agrees content c (fs_done (restore url (length content) c (pr_etag pr) (pr_last_modified pr) (d_saved d)))
      (set_len (length content) (d_part d)) \<and>
    stands content c url pr (d \<lparr> d_part := Some (set_len (length content) (d_part d)) \<rparr>)"
proof (cases "\<exists>st. d_saved d = Some st \<and> resumable url (length content) c st \<and> validator_match st (pr_etag pr) (pr_last_modified pr)")
  case True
  then obtain st where st: "d_saved d = Some st" "resumable url (length content) c st"
      "validator_match st (pr_etag pr) (pr_last_modified pr)" by blast
  then have a: "agrees content c (fs_done st) (case d_part d of Some f \<Rightarrow> f | None \<Rightarrow> [])"
    using assms(1) by (simp add: stands_def saved_ok_def)
  then have "set_len (length content) (d_part d) = (case d_part d of Some f \<Rightarrow> f | None \<Rightarrow> [])"
    by (cases "d_part d") (auto simp: agrees_def set_len_def)
  then show ?thesis using a st by (simp add: restore_def stands_def saved_ok_def)
next
  case False
  then have "restore url (length content) c (pr_etag pr) (pr_last_modified pr) (d_saved d) =
      fetch_new url (length content) c (pr_etag pr) (pr_last_modified pr)"
    by (auto simp: restore_def split: option.split)
  moreover have "saved_ok content c url pr (d_saved d) f" for f
    using False by (auto simp: saved_ok_def split: option.split)
  ultimately show ?thesis using agrees_new [OF _ assms(2)] by (simp add: stands_def)
qed

lemma parallel_download_good:
  assumes "serves (net e) (pr_host pr) (pr_path pr) (og_if_range (origin_of pr)) content"
    and "stands content (max (cf_chunk cf) 1) (cf_url cf) pr d"
    and "parallel_download e cf pr (length content) d = (res, d')" "\<not> d_lost d'"
  shows "stands content (max (cf_chunk cf) 1) (cf_url cf) pr d' \<and>
    (\<forall>o'. res = Some (Inr o') \<longrightarrow> o' = Complete \<and> d_part d' = Some content)"
proof (cases "prealloc_ok e")
  case True
  let ?c = "max (cf_chunk cf) 1"
  have c: "0 < ?c" by simp
  note r = restore_agrees [OF assms(2) c]
  show ?thesis
    by (rule download_rounds_good [OF c _ conjunct1 [OF r] _ conjunct2 [OF r] refl _ assms(4)])
      (use assms(1,3) True in \<open>simp_all add: parallel_download_def Let_def origin_of_def\<close>)
qed (use assms in \<open>auto simp: parallel_download_def Let_def\<close>)

lemma parallel_keeps_output: "parallel_download e cf pr len d = (res, d') \<Longrightarrow> d_out d' = d_out d"
proof -
  have "d_out (snd (download_rounds e og c len w r jobs st n f d)) = d_out d" for og c w r jobs st n f d
    by (induction r arbitrary: jobs st n f d)
      (auto simp: finish_def Let_def after_round_def remove_state_def split: option.split)
  then have "d_out (snd (parallel_download e cf pr len d)) = d_out d"
    by (simp add: parallel_download_def Let_def)
  then show "parallel_download e cf pr len d = (res, d') \<Longrightarrow> d_out d' = d_out d" by simp
qed

lemma parallel_told:
  assumes "\<And>t. disk_room (net e) t = None" "\<not> d_lost d" "parallel_download e cf pr len d = (res, d')"
  shows "\<not> d_lost d'"
  using download_rounds_told [OF assms(1)] assms(2,3)
  by (auto simp: parallel_download_def Let_def split: if_splits dest!: arg_cong [where f = snd])

lemma put_in_place_cases:
  assumes "put_in_place e cf d = (r, d')"
  shows "d_lost d' = d_lost d \<and>
    (case r of
       Inl _ \<Rightarrow> d' = d
     | Inr _ \<Rightarrow> \<exists>f. d_part d = Some f \<and> d_out d' = Some f \<and>
         (case cf_sha cf of None \<Rightarrow> True | Some h \<Rightarrow> \<exists>a. hash_read e f = Some a \<and> eq_ignore_ascii_case a h))"
  using assms by (auto simp: put_in_place_def remove_state_def split: option.splits if_splits sum.splits)

text \<open>
  The probe finds the length of the content and ranges, the target serves the content, and what an
  earlier run left is true of it.
\<close>

definition honest :: "dl_env \<Rightarrow> fetch_config \<Rightarrow> dl_state \<Rightarrow> byte list \<Rightarrow> bool" where
  "honest e cf d content \<longleftrightarrow> content \<noteq> [] \<and> \<not> d_lost d \<and>
    (case fst (probe (net e) (cf_url cf) (d_now d) (start_nodes cf)) of
       Inl _ \<Rightarrow> True
     | Inr pr \<Rightarrow> pr_len pr = Some (length content) \<and> pr_ranges pr \<and>
         serves (net e) (pr_host pr) (pr_path pr) (og_if_range (origin_of pr)) content \<and>
         stands content (max (cf_chunk cf) 1) (cf_url cf) pr d)"

definition resumes :: "dl_env \<Rightarrow> fetch_config \<Rightarrow> dl_state \<Rightarrow> byte list \<Rightarrow> dl_state \<Rightarrow> bool" where
  "resumes e cf d content d' =
    (case fst (probe (net e) (cf_url cf) (d_now d) (start_nodes cf)) of
       Inl _ \<Rightarrow> True
     | Inr pr \<Rightarrow> stands content (max (cf_chunk cf) 1) (cf_url cf) pr d')"

text \<open>
  C11: what the downloader puts in place is the content. When the target serves ranges of the
  content, then whatever nodes and connections do, however the workers interleave, and
  from whatever an earlier run left behind, a download that succeeds has put a file in place whose
  hash, if one was given, was found to be the expected one, and the file is exactly the content unless
  the disk failed the last write of a block, which the code cannot see. A download that fails, or
  waits forever, leaves the output as it was, and, with the same exception, a part file and a
  state from which the next run can go on. The exception needs a disk that refuses a write.
\<close>

theorem download_correct:
  assumes "honest e cf d content" "fetch_file e cf d = (res, d')"
  shows "(case res of
      Some (Inr _) \<Rightarrow> \<exists>f. d_out d' = Some f \<and> (\<not> d_lost d' \<longrightarrow> f = content) \<and>
        (case cf_sha cf of None \<Rightarrow> True | Some h \<Rightarrow> \<exists>a. hash_read e f = Some a \<and> eq_ignore_ascii_case a h)
    | _ \<Rightarrow> d_out d' = d_out d \<and> (\<not> d_lost d' \<longrightarrow> resumes e cf d content d')) \<and>
   (d_lost d' \<longrightarrow> (\<exists>t n. disk_room (net e) t = Some n))"
proof -
  obtain x t s where p: "probe (net e) (cf_url cf) (d_now d) (start_nodes cf) = (x, t, s)"
    using prod_cases3 by blast
  show ?thesis
  proof (cases "cf_nodes cf = [] \<or> probe_stalls e \<or> \<not> is_ok x")
    case True
    then have "d_out d' = d_out d" "\<not> d_lost d'" "resumes e cf d content d'" "res = None \<or> (\<exists>er. res = Some (Inl er))"
      using assms p by (auto simp: fetch_file_def resumes_def honest_def stands_def split: sum.splits if_splits)
    then show ?thesis by (auto split: option.split sum.split)
  next
    case False
    then obtain pr where x: "x = Inr pr" by (cases x) auto
    define d0 where "d0 = d \<lparr> d_now := t, d_nodes := s \<rparr>"
    have h: "pr_len pr = Some (length content)" "pr_ranges pr" "0 < length content"
        "serves (net e) (pr_host pr) (pr_path pr) (og_if_range (origin_of pr)) content"
        "stands content (max (cf_chunk cf) 1) (cf_url cf) pr d0" "\<not> d_lost d0"
      using assms(1) by (simp_all add: honest_def p x d0_def stands_def)
    obtain r d1 where r: "parallel_download e cf pr (length content) d0 = (r, d1)" by fastforce
    have told: "d_lost d1 \<longrightarrow> (\<exists>t n. disk_room (net e) t = Some n)"
      using parallel_told [OF _ h(6) r] by (metis not_None_eq)
    have out: "d_out d1 = d_out d" using parallel_keeps_output [OF r] by (simp add: d0_def)
    have rf: "r \<noteq> Some (Inr RangeFallback)" using range_fallback_never_taken r by (metis fst_conv)
    have f: "(res, d') = (case r of None \<Rightarrow> (None, d1) | Some (Inl er) \<Rightarrow> (Some (Inl er), d1)
        | Some (Inr _) \<Rightarrow> (case put_in_place e cf d1 of (q, d) \<Rightarrow> (Some q, d)))"
    proof (cases "r = Some (Inr Complete)")
      case True
      then show ?thesis using False h(1-3) r assms(2)
        by (simp add: fetch_file_def p x d0_def [symmetric])
    next
      case nc: False
      then have "r = None \<or> (\<exists>er. r = Some (Inl er))"
        using rf by (cases r) (auto split: sum.splits, metis outcome.exhaust sum.exhaust)
      then show ?thesis using False h(1-3) r assms(2)
        by (auto simp: fetch_file_def p x d0_def [symmetric])
    qed
    show ?thesis
    proof (cases "\<exists>o'. r = Some (Inr o')")
      case False
      then have "d' = d1" "res = None \<or> (\<exists>er. res = Some (Inl er))" using f by (auto split: option.splits sum.splits)
      moreover have "\<not> d_lost d1 \<longrightarrow> resumes e cf d content d1"
        using parallel_download_good [OF h(4,5) r] by (simp add: resumes_def p x)
      ultimately show ?thesis using out told by (auto split: option.split sum.split)
    next
      case True
      then obtain o' where o': "r = Some (Inr o')" by blast
      obtain q d2 where q: "put_in_place e cf d1 = (q, d2)" by fastforce
      have res: "res = Some q" "d' = d2" using f by (simp_all add: o' q)
      note pc = put_in_place_cases [OF q]
      have g: "\<not> d_lost d1 \<longrightarrow> d_part d1 = Some content \<and> resumes e cf d content d1"
        using parallel_download_good [OF h(4,5) r] o' by (simp add: resumes_def p x)
      show ?thesis
      proof (cases q)
        case (Inl er)
        then show ?thesis using pc g out told res by simp
      next
        case (Inr u)
        then obtain ff where ff: "d_part d1 = Some ff" "d_out d2 = Some ff" "d_lost d2 = d_lost d1"
            "case cf_sha cf of None \<Rightarrow> True | Some h \<Rightarrow> \<exists>a. hash_read e ff = Some a \<and> eq_ignore_ascii_case a h"
          using pc by auto
        then show ?thesis using g told res Inr by auto
      qed
    qed
  qed
qed

text \<open>A target of one byte, through one node.\<close>

lemma demo_graphic: "list_all graphic ''content-length''" "list_all graphic ''accept-ranges''" "list_all graphic ''bytes''" "list_all graphic ''etag''"  "list_all graphic ''x''" "list_all graphic ''1''" by code_simp+

lemma demo_lower: "to_ascii_lowercase ''content-length'' = ''content-length''" "to_ascii_lowercase ''accept-ranges'' = ''accept-ranges''" "to_ascii_lowercase ''etag'' = ''etag''"
  by code_simp+

lemma demo_headers: "add_header ''content-length:1'' hs = (if map_of hs ''content-length'' = None then hs @ [(''content-length'', ''1'')] else hs)"
    "add_header ''accept-ranges:bytes'' hs = (if map_of hs ''accept-ranges'' = None then hs @ [(''accept-ranges'', ''bytes'')] else hs)"
    "add_header ''etag:x'' hs = (if map_of hs ''etag'' = None then hs @ [(''etag'', ''x'')] else hs)"
  using add_header_plain [OF demo_graphic(1,6) _ _ demo_lower(1), of hs] add_header_plain [OF demo_graphic(2,3) _ _ demo_lower(2), of hs] add_header_plain [OF demo_graphic(4,5) _ _ demo_lower(3), of hs]
  by simp_all

lemma demo_show: "show_nat 1 = ''1''" "show_nat 200 = ''200''" "show_nat 206 = ''206''" by code_simp+

lemma demo_len: "parse_uint 64 ''1'' = Some 1"
  by (rule parse_show_nat [of 1 64, unfolded demo_show]) simp

lemma demo_kind: "body_kind_of ((''content-length'', ''1'') # hs) = Inr (Length 1)" if "map_of hs ''transfer-encoding'' = None"
  using that by (simp add: body_kind_of_def plain_trim [OF demo_graphic(6)] demo_len [unfolded One_nat_def])

lemma demo_status_line: "status_parts ''HTTP/1.1 200 OK'' = (''HTTP/1.1'', ''200'')" by code_simp

lemma demo_version: "starts_with ''HTTP/1.1'' ''HTTP/1.''"  by code_simp+

lemma demo_status: "parse_uint 16 ''200'' = Some 200" "parse_uint 16 ''206'' = Some 206"
  by (rule parse_show_nat [of 200 16, unfolded demo_show] parse_show_nat [of 206 16, unfolded demo_show], simp)+

definition demo_text1 :: string where
  "demo_text1 = ''HTTP/1.1 200 OK'' @ eol @ ''content-length:1'' @ eol @ ''accept-ranges:bytes'' @ eol @ ''etag:x''"

definition demo_text2 :: string where
  "demo_text2 = ''HTTP/1.1 206 OK'' @ eol @ ''content-length:1''"

lemma demo_head_end: "find_head_end (as_bytes (demo_text1 @ eol @ eol)) = Some (length demo_text1)" "find_head_end (as_bytes (demo_text2 @ eol @ eol @ ''A'')) = Some (length demo_text2)"
  by code_simp+

lemma demo_ascii: "is_ascii demo_text1" "is_ascii demo_text2" by code_simp+

lemma demo_lines: "split_eol demo_text1 = [''HTTP/1.1 200 OK'', ''content-length:1'', ''accept-ranges:bytes'', ''etag:x'']"
  "split_eol demo_text2 = [''HTTP/1.1 206 OK'', ''content-length:1'']"
  by code_simp+

lemma demo_status_line2: "status_parts ''HTTP/1.1 206 OK'' = (''HTTP/1.1'', ''206'')" by code_simp

lemma demo_utf8: "from_utf8 (as_bytes demo_text1) = Some demo_text1" "from_utf8 (as_bytes demo_text2) = Some demo_text2"
  by (simp_all add: demo_ascii is_ascii_is_str)

lemma demo_parsed: "parse_response_head (as_bytes demo_text1) = Inr \<lparr> resp_status = 200,
   resp_headers = [(''content-length'', ''1''), (''accept-ranges'', ''bytes''), (''etag'', ''x'')], resp_kind = Length 1 \<rparr>"
  "parse_response_head (as_bytes demo_text2) = Inr \<lparr> resp_status = 206, resp_headers = [(''content-length'', ''1'')], resp_kind = Length 1 \<rparr>"
  by (simp_all add: parse_response_head_def demo_utf8 demo_lines demo_status_line demo_status_line2 demo_version demo_status demo_headers demo_kind Let_def)

lemma demo_size: "length (as_bytes (demo_text1 @ eol @ eol)) \<le> 4096" "as_bytes (demo_text1 @ eol @ eol) \<noteq> []" 
  "length (as_bytes (demo_text2 @ eol @ eol @ ''A'')) \<le> 4096" "as_bytes (demo_text2 @ eol @ eol @ ''A'') \<noteq> []"
  by (simp_all add: demo_text1_def demo_text2_def eol_def as_bytes_def)

lemma demo_cut: "take (length demo_text1) (as_bytes (demo_text1 @ eol @ eol)) = as_bytes demo_text1" "drop (length demo_text1 + 4) (as_bytes (demo_text1 @ eol @ eol)) = []"
  "take (length demo_text2) (as_bytes (demo_text2 @ eol @ eol @ ''A'')) = as_bytes demo_text2" "drop (length demo_text2 + 4) (as_bytes (demo_text2 @ eol @ eol @ ''A'')) = [65]"
  by (simp_all add: as_bytes_append eol_def as_bytes_def)

lemma demo_read1: "read_response_head [] \<lparr> segs = [as_bytes (demo_text1 @ eol @ eol)], broken = x \<rparr> = (Inr (\<lparr> resp_status = 200,
   resp_headers = [(''content-length'', ''1''), (''accept-ranges'', ''bytes''), (''etag'', ''x'')], resp_kind = Length 1 \<rparr>, []), \<lparr> segs = [[]], broken = x \<rparr>)"
  using head_read [OF demo_size(2,1) demo_head_end(1), of _ x] by (simp add: demo_cut demo_parsed)

lemma demo_read2: "read_response_head [] \<lparr> segs = [as_bytes (demo_text2 @ eol @ eol @ ''A'')], broken = x \<rparr> = (Inr (\<lparr> resp_status = 206,
   resp_headers = [(''content-length'', ''1'')], resp_kind = Length 1 \<rparr>, [65]), \<lparr> segs = [[]], broken = x \<rparr>)"
  using head_read [OF demo_size(4,3) demo_head_end(2), of _ x] by (simp add: demo_cut demo_parsed)

definition demo_fetch :: fetch_env where
  "demo_fetch = \<lparr> tun = \<lparr> mix = \<lambda>_. 5, probes = \<lambda>_ s. s, chan = \<lambda>_ _. Inr (), ask_target = \<lambda>_ _ _. Inr () \<rparr>,
     tls_up = \<lambda>_. True, sends = \<lambda>_. True,
     answers = \<lambda>_ req. \<lparr> segs = [as_bytes (if starts_with req ''HEAD'' then demo_text1 @ eol @ eol else demo_text2 @ eol @ eol @ ''A'')],
                          broken = False \<rparr>,
     seeks = \<lambda>_. True, disk_room = \<lambda>_. None, version = ''1'' \<rparr>"

definition demo_dl :: dl_env where
  "demo_dl = \<lparr> net = demo_fetch, file_opens = \<lambda>_. True, saves = \<lambda>_. True, prealloc_ok = True, stream_file_ok = True,
     rename_ok = True, removes = True, hash_read = \<lambda>_. None, stalls = \<lambda>_. False, probe_stalls = False, stream_stalls = False, pick = \<lambda>_ k. k \<rparr>"

definition demo_cf :: fetch_config where
  "demo_cf = \<lparr> cf_nodes = [SockV4 1 443], cf_workers = 1, cf_chunk = 4, cf_url = ''https://h/f'', cf_sha = None \<rparr>"

definition demo_d :: dl_state where
  "demo_d = \<lparr> d_part = None, d_saved = None, d_out = None, d_now = 0, d_nodes = [], d_lost = False \<rparr>"

lemma demo_open:
  "open_tunnel (tun demo_fetch) host prt 0 (start_nodes demo_cf) = (Inr (SockV4 1 443), 1, start_nodes demo_cf)"
  by (simp add: open_tunnel_def demo_fetch_def demo_cf_def start_nodes_def add_node_def sched_new_def
      get_nodes_by_priority_def node_values_def sort_by_def pick_weighted_def start_node_info_def)

lemma demo_url: "parse_https_url ''https://h/f'' = Inr (''h'', 443, ''/f'')"
  by code_simp

lemma demo_ranges: "contains ''bytes'' (to_ascii_lowercase ''bytes'')" "to_ascii_lowercase ''last-modified'' = ''last-modified''"
  by code_simp+

lemma demo_ask:
  "ask_size demo_fetch t ''h'' ''/f'' = Inr (\<lparr> resp_status = 200,
     resp_headers = [(''content-length'', ''1''), (''accept-ranges'', ''bytes''), (''etag'', ''x'')], resp_kind = Length 1 \<rparr>, Some 1, True)"
  by (simp add: ask_size_def issue_def demo_fetch_def no_bytes_def starts_with_def build_request_def demo_read1
      header_def demo_lower demo_len [unfolded One_nat_def] demo_ranges Let_def)

lemma demo_probe:
  "probe demo_fetch ''https://h/f'' 0 (start_nodes demo_cf) =
     (Inr \<lparr> pr_host = ''h'', pr_port = 443, pr_path = ''/f'', pr_len = Some 1, pr_ranges = True, pr_etag = Some ''x'',
            pr_last_modified = None \<rparr>, 3, start_nodes demo_cf)"
proof -
  have "probe_loop demo_fetch (Suc 5) ''https://h/f'' 0 (start_nodes demo_cf) =
     (Inr \<lparr> pr_host = ''h'', pr_port = 443, pr_path = ''/f'', pr_len = Some 1, pr_ranges = True, pr_etag = Some ''x'',
            pr_last_modified = None \<rparr>, 3, start_nodes demo_cf)"
    unfolding probe_loop.simps(2) demo_url
    by (simp add: demo_open demo_ask header_def demo_lower demo_ranges clean_validator_def) (simp add: demo_fetch_def)
  then show ?thesis by (simp add: probe_def)
qed

lemma demo_honest: "honest demo_dl demo_cf demo_d [65]"
proof -
  have a: "answers demo_fetch t (range_request demo_fetch host path ir start stop) =
      \<lparr> segs = [as_bytes (demo_text2 @ eol @ eol @ ''A'')], broken = False \<rparr>" for t host path ir start stop
    by (simp add: demo_fetch_def range_request_def build_request_def starts_with_def)
  have "serves demo_fetch ''h'' ''/f'' ir [65]" for ir
    unfolding serves_def
  proof (intro allI impI)
    fix t start stop :: nat assume "start < stop" "stop \<le> length [65 :: byte]"
    then have "start = 0" "stop = 1" by simp_all
    then show "gives_range (answers demo_fetch t (range_request demo_fetch ''h'' ''/f'' ir start stop)) (stop - start)
        (slice start stop [65])"
      by (simp add: a gives_range_def demo_read2 src_bytes_def slice_def)
  qed
  moreover have "net demo_dl = demo_fetch" "cf_url demo_cf = ''https://h/f''" "d_now demo_d = 0" "d_saved demo_d = None" "\<not> d_lost demo_d"
    by (simp_all add: demo_dl_def demo_cf_def demo_d_def)
  ultimately show ?thesis by (simp add: honest_def demo_probe stands_def saved_ok_def)
qed

theorem download_correct_witness:
  "honest demo_dl demo_cf demo_d [65] \<and>
   (case fetch_file demo_dl demo_cf demo_d of
      (Some (Inr _), d') \<Rightarrow> d_out d' = Some [65]
    | (_, d') \<Rightarrow> d_out d' = None \<and> resumes demo_dl demo_cf demo_d [65] d')"
proof -
  obtain res d' where f: "fetch_file demo_dl demo_cf demo_d = (res, d')" by fastforce
  note c = download_correct [OF demo_honest f]
  have "\<not> d_lost d'" using c by (simp add: demo_dl_def demo_fetch_def)
  moreover have "d_out demo_d = None" by (simp add: demo_d_def)
  ultimately show ?thesis
    using c demo_honest unfolding f prod.case by (cases res) (auto split: sum.splits)
qed

text \<open>The requests of a download: the host, the path and the validator are what the probe found.\<close>

lemma probe_clean:
  assumes "probe e url t s = (Inr pr, t', s')"
  shows "\<not> has_ctl (pr_host pr) \<and> \<not> has_ctl (pr_path pr) \<and>
    (\<forall>v. og_if_range (origin_of pr) = Some v \<longrightarrow> CHR 0x0D \<notin> set v \<and> CHR 0x0A \<notin> set v)"
proof -
  have "probe_loop e n current t s = (Inr pr, t', s') \<Longrightarrow>
    (\<exists>u. parse_https_url u = Inr (pr_host pr, pr_port pr, pr_path pr)) \<and>
    (\<exists>v. pr_etag pr = clean_validator v) \<and> (\<exists>v. pr_last_modified pr = clean_validator v)" for n current t s
  proof (induction n arbitrary: current t s)
    case (Suc n)
    obtain x where x: "parse_https_url current = x" by blast
    show ?case
      using Suc.prems x
      by (auto simp: Let_def split: sum.splits prod.splits if_splits option.splits dest: Suc.IH)
  qed simp
  then have "\<exists>u. parse_https_url u = Inr (pr_host pr, pr_port pr, pr_path pr)"
    "\<exists>v. pr_etag pr = clean_validator v" "\<exists>v. pr_last_modified pr = clean_validator v"
    using assms unfolding probe_def by blast+
  then show ?thesis using parse_https_url_clean clean_validator_no_eol
    by (fastforce simp: origin_of_def split: option.splits)
qed

text \<open>
  C40: a request of the downloader is one head. Whatever the URL and the redirects the targets send,
  and whatever validators they name, the request for a block of what the probe found, cut at every
  end of line, a lone CR or LF included, is the request line, the five or six header lines the
  code writes and the two empty ones: nothing a target sends adds a line. A NUL can only be inside
  the validator.
\<close>

theorem request_is_one_head:
  assumes "probe e url t s = (Inr pr, t', s')" "\<not> has_ctl (version e)"
  shows "cut_lines (range_request e (pr_host pr) (pr_path pr) (og_if_range (origin_of pr)) start stop) =
      [''GET '' @ pr_path pr @ '' HTTP/1.1'', ''Host: '' @ pr_host pr, ''User-Agent: hydra-fetch/'' @ version e,
       ''Accept: */*'', ''Range: bytes='' @ show_nat start @ ''-'' @ show_nat (stop - 1)] @
      validator_lines (og_if_range (origin_of pr)) @ [''Connection: keep-alive'', [], []] \<and>
    (CHR 0x00 \<in> set (range_request e (pr_host pr) (pr_path pr) (og_if_range (origin_of pr)) start stop) \<longrightarrow>
      (\<exists>v. og_if_range (origin_of pr) = Some v \<and> CHR 0x00 \<in> set v))"
  using probe_clean [OF assms(1)] assms(2) range_request_lines range_request_nul
  by (simp add: range_request_def) blast

theorem request_is_one_head_witness:
  "\<exists>pr t s. probe demo_fetch ''https://h/f'' 0 (start_nodes demo_cf) = (Inr pr, t, s) \<and>
    length (cut_lines (range_request demo_fetch (pr_host pr) (pr_path pr) (og_if_range (origin_of pr)) 0 1)) = 9"
proof -
  have v: "\<not> has_ctl (version demo_fetch)" by (simp add: demo_fetch_def has_ctl_def)
  show ?thesis using demo_probe request_is_one_head [OF demo_probe v, of 0 1]
    by (auto simp: origin_of_def validator_lines_def)
qed

end
