(* ===== verification/NodeMetrics.thy ===== *)
theory NodeMetrics
  imports RustStr Complex_Main
begin

text \<open>
  \<open>hydra-node/src/metrics.rs\<close>: the counters of the node process and the text they are
  rendered to. A counter is an atomic \<open>u64\<close>, so an increment wraps; seconds are exact reals.
  The sum of a histogram is printed from its milliseconds, which is what the shortest decimal
  of the quotient by 1000 is as long as the sum has at most fifteen digits.
\<close>

section \<open>Histograms\<close>

definition HISTOGRAM_BUCKETS_SECS :: "real list" where
  "HISTOGRAM_BUCKETS_SECS = [0.01, 0.025, 0.05, 0.1, 0.25, 0.5, 1, 2.5, 5, 10, 30]"

definition bucket_labels :: "string list" where
  "bucket_labels = [''0.01'', ''0.025'', ''0.05'', ''0.1'', ''0.25'', ''0.5'', ''1'', ''2.5'', ''5'', ''10'', ''30'']"

record histogram =
  buckets :: "u64 list"
  h_count :: u64
  sum_ms :: u64

definition histogram_new :: histogram where
  "histogram_new = \<lparr> buckets = replicate 11 0, h_count = 0, sum_ms = 0 \<rparr>"

text \<open>\<open>as u64\<close> of a float saturates.\<close>

definition f64_to_u64 :: "real \<Rightarrow> u64" where
  "f64_to_u64 x = (if x < 0 then 0 else if x \<ge> 2 ^ 64 then - 1 else of_int \<lfloor>x\<rfloor>)"

fun bump_first :: "('a \<Rightarrow> bool) \<Rightarrow> 'a list \<Rightarrow> u64 list \<Rightarrow> u64 list" where
  "bump_first P (b # bs) (n # ns) = (if P b then (n + 1) # ns else n # bump_first P bs ns)"
| "bump_first P _ ns = ns"

definition observe :: "real \<Rightarrow> histogram \<Rightarrow> histogram" where
  "observe secs h =
    h \<lparr> buckets := bump_first (\<lambda>b. secs \<le> b) HISTOGRAM_BUCKETS_SECS (buckets h),
       h_count := h_count h + 1,
       sum_ms := sum_ms h + f64_to_u64 (secs * 1000) \<rparr>"

fun cumulate :: "u64 \<Rightarrow> u64 list \<Rightarrow> u64 list" where
  "cumulate c [] = []"
| "cumulate c (n # ns) = (c + n) # cumulate (c + n) ns"

definition nl :: string where "nl = [CHR 0x0A]"
definition dq :: string where "dq = [CHR 0x22]"
definition quoted :: "string \<Rightarrow> string" where "quoted s = dq @ s @ dq"

definition unlines :: "string list \<Rightarrow> string" where
  "unlines ls = concat (map (\<lambda>l. l @ nl) ls)"

definition show_u64 :: "u64 \<Rightarrow> string" where
  "show_u64 w = show_nat (unat w)"

text \<open>The decimal of a number of milliseconds in seconds, without trailing zeros.\<close>

definition pad3 :: "nat \<Rightarrow> string" where
  "pad3 n = replicate (3 - length (show_nat n)) (CHR ''0'') @ show_nat n"

definition show_secs :: "u64 \<Rightarrow> string" where
  "show_secs ms =
    (let s = unat ms div 1000; f = trim_end_char (CHR ''0'') (pad3 (unat ms mod 1000)) in
     if f = [] then show_nat s else show_nat s @ ''.'' @ f)"

definition histogram_render :: "string \<Rightarrow> string \<Rightarrow> histogram \<Rightarrow> string" where
  "histogram_render name help h =
    unlines ([''# HELP '' @ name @ '' '' @ help, ''# TYPE '' @ name @ '' histogram''] @
      map (\<lambda>(l, c). name @ ''_bucket{le='' @ quoted l @ ''} '' @ show_u64 c)
        (zip bucket_labels (cumulate 0 (buckets h))) @
      [name @ ''_bucket{le='' @ quoted ''+Inf'' @ ''} '' @ show_u64 (h_count h),
       name @ ''_sum '' @ show_secs (sum_ms h),
       name @ ''_count '' @ show_u64 (h_count h)])"

section \<open>The counters of the process\<close>

record rejected =
  per_ip :: u64
  capacity :: u64
  tls :: u64
  auth :: u64

record metrics =
  conn_total :: u64
  conn_active :: u64
  conn_rejected :: u64
  target_ok :: u64
  target_fail :: u64
  udp_relay_total :: u64
  bytes_in :: u64
  bytes_out :: u64
  rejected :: rejected
  udp_sessions_active :: u64
  udp_datagrams_fwd :: u64
  udp_datagrams_drop :: u64
  hs_tls :: histogram
  hs_noise :: histogram
  hs_dns :: histogram
  hs_target :: histogram

definition metrics_new :: metrics where
  "metrics_new =
    \<lparr> conn_total = 0, conn_active = 0, conn_rejected = 0, target_ok = 0, target_fail = 0,
      udp_relay_total = 0, bytes_in = 0, bytes_out = 0,
      rejected = \<lparr> per_ip = 0, capacity = 0, tls = 0, auth = 0 \<rparr>,
      udp_sessions_active = 0, udp_datagrams_fwd = 0, udp_datagrams_drop = 0,
      hs_tls = histogram_new, hs_noise = histogram_new, hs_dns = histogram_new,
      hs_target = histogram_new \<rparr>"

text \<open>The guards that count a connection and a UDP session while they live.\<close>

definition active_enter :: "metrics \<Rightarrow> metrics" where
  "active_enter m = m \<lparr> conn_active := conn_active m + 1 \<rparr>"

definition active_drop :: "metrics \<Rightarrow> metrics" where
  "active_drop m = m \<lparr> conn_active := conn_active m - 1 \<rparr>"

definition udp_session_enter :: "metrics \<Rightarrow> metrics" where
  "udp_session_enter m = m \<lparr> udp_sessions_active := udp_sessions_active m + 1 \<rparr>"

definition udp_session_drop :: "metrics \<Rightarrow> metrics" where
  "udp_session_drop m = m \<lparr> udp_sessions_active := udp_sessions_active m - 1 \<rparr>"

section \<open>Rendering\<close>

definition CARGO_PKG_VERSION :: string where "CARGO_PKG_VERSION = ''0.2.9''"

text \<open>A group of samples of one metric: its help line, its type line, its samples.\<close>

definition sample_group :: "string \<Rightarrow> string \<Rightarrow> string \<Rightarrow> (string \<times> string) list \<Rightarrow> string list" where
  "sample_group name help kind ss =
    [''# HELP '' @ name @ '' '' @ help, ''# TYPE '' @ name @ '' '' @ kind] @
    map (\<lambda>(l, v). name @ l @ '' '' @ v) ss"

definition label :: "string \<Rightarrow> string \<Rightarrow> string" where
  "label k v = ''{'' @ k @ ''='' @ quoted v @ ''}''"

definition render :: "nat \<Rightarrow> metrics \<Rightarrow> string" where
  "render uptime_secs m =
    unlines (
      sample_group ''hydra_up'' ''Node process is up.'' ''gauge'' [([], ''1'')] @
      sample_group ''hydra_uptime_seconds'' ''Process uptime in seconds.'' ''gauge'' [([], show_nat uptime_secs)] @
      sample_group ''hydra_build_info'' ''Build metadata.'' ''gauge'' [(label ''version'' CARGO_PKG_VERSION, ''1'')] @
      sample_group ''hydra_connections_total'' ''TCP connections accepted.'' ''counter'' [([], show_u64 (conn_total m))] @
      sample_group ''hydra_connections_active'' ''Connections currently being served.'' ''gauge'' [([], show_u64 (conn_active m))] @
      sample_group ''hydra_connections_rejected_total'' ''Connections refused (any reason).'' ''counter''
        [([], show_u64 (conn_rejected m))] @
      sample_group ''hydra_connections_rejected_reason_total'' ''Refusals by reason.'' ''counter''
        [(label ''reason'' ''per_ip'', show_u64 (per_ip (rejected m))),
         (label ''reason'' ''capacity'', show_u64 (capacity (rejected m))),
         (label ''reason'' ''tls'', show_u64 (tls (rejected m))),
         (label ''reason'' ''auth'', show_u64 (auth (rejected m)))] @
      sample_group ''hydra_target_connect_ok_total'' ''Target connections established.'' ''counter'' [([], show_u64 (target_ok m))] @
      sample_group ''hydra_target_connect_fail_total'' ''Target connection failures (DNS/SSRF/timeout).'' ''counter''
        [([], show_u64 (target_fail m))] @
      sample_group ''hydra_udp_relay_connections_total'' ''UDP relay connections entered.'' ''counter''
        [([], show_u64 (udp_relay_total m))] @
      sample_group ''hydra_udp_sessions_active'' ''Active UDP relay sessions.'' ''gauge'' [([], show_u64 (udp_sessions_active m))] @
      sample_group ''hydra_udp_datagrams_total'' ''UDP datagrams forwarded/dropped.'' ''counter''
        [(label ''result'' ''fwd'', show_u64 (udp_datagrams_fwd m)),
         (label ''result'' ''drop'', show_u64 (udp_datagrams_drop m))] @
      sample_group ''hydra_bytes_total'' ''Relayed bytes (client<->target, both directions aggregated per side).'' ''counter''
        [(label ''dir'' ''in'', show_u64 (bytes_in m)), (label ''dir'' ''out'', show_u64 (bytes_out m))]) @
    histogram_render ''hydra_handshake_tls_seconds'' ''TLS handshake duration.'' (hs_tls m) @
    histogram_render ''hydra_handshake_noise_seconds'' ''Noise-PSK handshake duration.'' (hs_noise m) @
    histogram_render ''hydra_handshake_dns_seconds'' ''Target DNS resolution duration.'' (hs_dns m) @
    histogram_render ''hydra_handshake_target_seconds'' ''Target TCP connect duration.'' (hs_target m)"

section \<open>What the buckets hold\<close>

definition counts :: "real list \<Rightarrow> real list \<Rightarrow> nat list" where
  "counts bs xs = map (\<lambda>b. length (filter (\<lambda>x. x \<le> b) xs)) bs"

fun bump_from :: "('a \<Rightarrow> bool) \<Rightarrow> 'a list \<Rightarrow> u64 list \<Rightarrow> u64 list" where
  "bump_from P (b # bs) (n # ns) = (if P b then n + 1 else n) # bump_from P bs ns"
| "bump_from P _ ns = ns"

lemma cumulate_Suc: "length ns = length bs \<Longrightarrow> \<forall>b\<in>set bs. P b \<Longrightarrow>
    cumulate (c + 1) ns = bump_from P bs (cumulate c ns)"
proof (induction ns arbitrary: c bs)
  case (Cons n ns)
  then obtain b bs' where "bs = b # bs'" by (cases bs) auto
  with Cons.IH [of bs' "c + n"] Cons.prems show ?case by (simp add: ac_simps)
qed simp

lemma cumulate_bump:
  assumes "length ns = length bs" "\<And>x y. x \<le> y \<Longrightarrow> P x \<Longrightarrow> P y" "sorted bs"
  shows "cumulate c (bump_first P bs ns) = bump_from P bs (cumulate c (ns :: u64 list))"
  using assms
proof (induction P bs ns arbitrary: c rule: bump_first.induct)
  case (1 P b bs n ns)
  show ?case
  proof (cases "P b")
    case True
    have "\<forall>b\<in>set bs. P b" using 1 True by auto
    then show ?thesis using cumulate_Suc [of ns bs P "c + n"] 1 True by (simp add: ac_simps)
  next
    case False
    with 1 show ?thesis by simp
  qed
qed auto

lemma length_cumulate [simp]: "length (cumulate c ns) = length ns"
  by (induction ns arbitrary: c) auto

lemma bump_from_counts:
  "bump_from (\<lambda>b. x \<le> b) bs (map of_nat (counts bs xs)) = map of_nat (counts bs (xs @ [x]))"
  by (induction bs) (auto simp: counts_def ac_simps)

lemma length_bump_first [simp]: "length (bump_first P bs ns) = length ns"
  by (induction P bs ns rule: bump_first.induct) auto

lemma sorted_buckets: "sorted HISTOGRAM_BUCKETS_SECS"
  by (simp add: HISTOGRAM_BUCKETS_SECS_def)

lemma observe_all:
  "length (buckets (fold observe xs histogram_new)) = 11 \<and>
   cumulate 0 (buckets (fold observe xs histogram_new)) = map of_nat (counts HISTOGRAM_BUCKETS_SECS xs) \<and>
   h_count (fold observe xs histogram_new) = of_nat (length xs)"
proof (induction xs rule: rev_induct)
  case Nil
  show ?case by (simp add: histogram_new_def counts_def HISTOGRAM_BUCKETS_SECS_def numeral_eq_Suc)
next
  case (snoc x xs)
  have "length HISTOGRAM_BUCKETS_SECS = 11" by (simp add: HISTOGRAM_BUCKETS_SECS_def)
  with snoc show ?case
    by (simp add: observe_def cumulate_bump [OF _ _ sorted_buckets] bump_from_counts)
qed

section \<open>Properties\<close>

lemma show_u64_of_nat: "n < 2 ^ 64 \<Longrightarrow> show_u64 (of_nat n) = show_nat n"
  by (simp add: show_u64_def unat_of_nat)

lemma length_counts_le: "c \<in> set (counts bs xs) \<Longrightarrow> c \<le> length xs"
  by (auto simp: counts_def intro: le_trans [OF length_filter_le])

text \<open>
  a histogram reports what was observed. After any sequence of fewer than 2^64
  observations the line of every bucket shows how many of them were at most its bound, so the
  lines are cumulative and never decrease, and the last bucket and the count show how many
  observations there were.
\<close>

theorem histogram_reports_observations:
  assumes "length xs < 2 ^ 64"
  shows "histogram_render name help (fold observe xs histogram_new) =
    unlines ([''# HELP '' @ name @ '' '' @ help, ''# TYPE '' @ name @ '' histogram''] @
      map (\<lambda>(l, b). name @ ''_bucket{le='' @ quoted l @ ''} '' @ show_nat (length (filter (\<lambda>x. x \<le> b) xs)))
        (zip bucket_labels HISTOGRAM_BUCKETS_SECS) @
      [name @ ''_bucket{le='' @ quoted ''+Inf'' @ ''} '' @ show_nat (length xs),
       name @ ''_sum '' @ show_secs (sum_ms (fold observe xs histogram_new)),
       name @ ''_count '' @ show_nat (length xs)])"
proof -
  have c: "length (filter (\<lambda>x. x \<le> b) xs) < 2 ^ 64" for b
    by (rule le_less_trans [OF length_filter_le assms])
  have "zip bucket_labels (map (of_nat :: nat \<Rightarrow> u64) (counts HISTOGRAM_BUCKETS_SECS xs)) =
      map (\<lambda>(l, b). (l, of_nat (length (filter (\<lambda>x. x \<le> b) xs))))
        (zip bucket_labels HISTOGRAM_BUCKETS_SECS)"
    by (simp add: counts_def zip_map2)
  then show ?thesis
    using observe_all [of xs] assms c
    by (simp add: histogram_render_def show_u64_of_nat comp_def case_prod_unfold)
qed

theorem histogram_reports_observations_witness:
  "histogram_render ''t'' ''h'' (fold observe [2, 40] histogram_new) =
    unlines ([''# HELP '' @ ''t'' @ '' '' @ ''h'', ''# TYPE '' @ ''t'' @ '' histogram''] @
      map (\<lambda>(l, b). ''t'' @ ''_bucket{le='' @ quoted l @ ''} '' @ show_nat (length (filter (\<lambda>x. x \<le> b) [2, 40])))
        (zip bucket_labels HISTOGRAM_BUCKETS_SECS) @
      [''t'' @ ''_bucket{le='' @ quoted ''+Inf'' @ ''} '' @ show_nat (length [2 :: real, 40]),
       ''t'' @ ''_sum '' @ show_secs (sum_ms (fold observe [2, 40] histogram_new)),
       ''t'' @ ''_count '' @ show_nat (length [2 :: real, 40])])"
  by (rule histogram_reports_observations) simp

end
