(* ===== verification/ProxyInput.thy ===== *)
theory ProxyInput
  imports NetAddr
begin

text \<open>
  The connection of a local application to the proxy, as \<open>hydra-core/src/proxy.rs\<close> reads it:
  segments with the time each arrives (milliseconds), what ends the stream, the bytes the
  proxy has written, and the bytes that were read ahead (\<open>pending\<close>). Every read waits at
  most a given time, as the \<open>tokio::time::timeout\<close> around it does.
\<close>

definition INITIAL_READ_TIMEOUT :: nat where "INITIAL_READ_TIMEOUT = 30 * 1000"

datatype stream_end = Eof | Reset

record client =
  clock :: nat
  inbox :: "(nat \<times> byte list) list"
  tail :: "(nat \<times> stream_end) option"
  writable :: bool
  outbox :: "byte list"
  pending :: "byte list"

text \<open>All bytes that are still to be consumed.\<close>

definition unread :: "client \<Rightarrow> byte list" where
  "unread c = pending c @ concat (map snd (inbox c))"

text \<open>One \<open>read\<close> into a buffer of \<open>n\<close> bytes until the time \<open>dl\<close>: bytes of one segment, no
  bytes at the end of the stream.\<close>

datatype 'a timed = Got 'a | Failed | TimedOut

definition read_by :: "nat \<Rightarrow> nat \<Rightarrow> client \<Rightarrow> byte list timed \<times> client" where
  "read_by dl n c =
    (case inbox c of
       (t, b) # r \<Rightarrow>
         (if t \<le> dl then
            (Got (take n b), c \<lparr> clock := max (clock c) t,
               inbox := (if n < length b then (t, drop n b) # r else r) \<rparr>)
          else (TimedOut, c \<lparr> clock := max (clock c) dl \<rparr>))
     | [] \<Rightarrow>
         (case tail c of
            Some (t, e) \<Rightarrow>
              (if t \<le> dl then
                 ((case e of Eof \<Rightarrow> Got [] | Reset \<Rightarrow> Failed), c \<lparr> clock := max (clock c) t \<rparr>)
               else (TimedOut, c \<lparr> clock := max (clock c) dl \<rparr>))
          | None \<Rightarrow> (TimedOut, c \<lparr> clock := max (clock c) dl \<rparr>)))"

text \<open>\<open>AsyncReadExt::read_exact\<close> under one time limit: it repeats the read until the buffer
  is full and fails at the end of the stream.\<close>

lemma read_by_Got: "read_by dl n c = (Got b, c') \<Longrightarrow> b = [] \<or> (0 < length b \<and> length b \<le> n)"
  by (auto simp: read_by_def split: list.splits prod.splits if_splits option.splits stream_end.splits)

function read_exact_by :: "nat \<Rightarrow> nat \<Rightarrow> client \<Rightarrow> byte list timed \<times> client" where
  "read_exact_by dl n c =
    (if n = 0 then (Got [], c)
     else case fst (read_by dl n c) of
       Got b \<Rightarrow>
         (if b = [] then (Failed, snd (read_by dl n c))
          else (case read_exact_by dl (n - length b) (snd (read_by dl n c)) of
                  (Got b', c'') \<Rightarrow> (Got (b @ b'), c'')
                | (x, c'') \<Rightarrow> (x, c'')))
     | x \<Rightarrow> (x, snd (read_by dl n c)))"
  by pat_completeness auto
termination
  by (relation "measure (\<lambda>(dl, n, c). n)") auto

declare read_exact_by.simps [simp del]

text \<open>\<open>read_exact_socks\<close>: first the bytes read ahead, then the stream, the rest within
  thirty seconds.\<close>

definition read_exact_socks :: "nat \<Rightarrow> client \<Rightarrow> byte list timed \<times> client" where
  "read_exact_socks n c =
    (let k = min (length (pending c)) n;
         c' = c \<lparr> pending := drop k (pending c) \<rparr>
     in if k < n then
          (case read_exact_by (clock c + INITIAL_READ_TIMEOUT) (n - k) c' of
             (Got b, c'') \<Rightarrow> (Got (take k (pending c) @ b), c'')
           | (x, c'') \<Rightarrow> (x, c''))
        else (Got (take n (pending c)), c'))"

text \<open>Writing to the application.\<close>

definition send_client :: "byte list \<Rightarrow> client \<Rightarrow> unit res \<times> client" where
  "send_client bs c =
    (if writable c then (Inr (), c \<lparr> outbox := outbox c @ bs \<rparr>) else (Inl (IoError ''write''), c))"

section \<open>Steps that may fail\<close>

definition and_then ::
  "('c \<Rightarrow> 'a res \<times> 'c) \<Rightarrow> ('a \<Rightarrow> 'c \<Rightarrow> 'b res \<times> 'c) \<Rightarrow> 'c \<Rightarrow> 'b res \<times> 'c" where
  "and_then m f c = (case m c of (Inl e, c') \<Rightarrow> (Inl e, c') | (Inr x, c') \<Rightarrow> f x c')"

definition give :: "'a res \<Rightarrow> 'c \<Rightarrow> 'a res \<times> 'c" where "give r c = (r, c)"

lemma and_then_Inr: "and_then m f c = (Inr y, c'') \<longleftrightarrow> (\<exists>x c'. m c = (Inr x, c') \<and> f x c' = (Inr y, c''))"
  by (auto simp: and_then_def split: prod.splits sum.splits)

text \<open>\<open>let _ = stream.write_all(..).await; return Err(..)\<close>.\<close>

definition refuse :: "byte list \<Rightarrow> hydra_error \<Rightarrow> client \<Rightarrow> 'a res \<times> client" where
  "refuse reply e c = (Inl e, snd (send_client reply c))"

lemma refuse_not_Inr [simp]: "refuse reply e c \<noteq> (Inr x, c')"
  by (simp add: refuse_def)

lemma give_Inr [simp]: "give (Inr x) c = (Inr y, c') \<longleftrightarrow> x = y \<and> c = c'"
  "give (Inl e) c \<noteq> (Inr y, c')"
  by (auto simp: give_def)

section \<open>What a read consumes\<close>

lemma read_by_keeps:
  "read_by dl n c = (x, c') \<Longrightarrow> outbox c' = outbox c \<and> writable c' = writable c \<and>
    pending c' = pending c \<and> clock c \<le> clock c' \<and> clock c' \<le> max (clock c) dl \<and> tail c' = tail c"
  by (auto simp: read_by_def split: list.splits prod.splits if_splits option.splits stream_end.splits)

lemma read_by_unread:
  "read_by dl n c = (Got b, c') \<Longrightarrow>
    concat (map snd (inbox c)) = b @ concat (map snd (inbox c')) \<and> length b \<le> n"
  by (auto simp: read_by_def split: list.splits prod.splits if_splits option.splits stream_end.splits)

lemma read_exact_by_keeps:
  "read_exact_by dl n c = (x, c') \<Longrightarrow> outbox c' = outbox c \<and> writable c' = writable c \<and>
    pending c' = pending c \<and> clock c \<le> clock c' \<and> clock c' \<le> max (clock c) dl \<and> tail c' = tail c"
proof (induction dl n c arbitrary: x c' rule: read_exact_by.induct)
  case (1 dl n c)
  obtain y d where r: "read_by dl n c = (y, d)" by fastforce
  note k = read_by_keeps [OF r]
  show ?case
  proof (cases "n \<noteq> 0 \<and> (\<exists>b. y = Got b \<and> b \<noteq> [])")
    case True
    then obtain b where b: "n \<noteq> 0" "y = Got b" "b \<noteq> []" by blast
    obtain z e where z: "read_exact_by dl (n - length b) d = (z, e)" by fastforce
    have "outbox e = outbox d \<and> writable e = writable d \<and> pending e = pending d \<and>
        clock d \<le> clock e \<and> clock e \<le> max (clock d) dl \<and> tail e = tail d"
      using 1(1) [of b z e] r b z by simp
    moreover have "c' = e" using 1(2) r b z
      by (subst (asm) read_exact_by.simps) (auto split: timed.splits)
    ultimately show ?thesis using k by auto
  next
    case False
    then have "c' = (if n = 0 then c else d)" using 1(2) r
      by (subst (asm) read_exact_by.simps) (auto split: timed.splits if_splits)
    then show ?thesis using k by (auto split: if_splits)
  qed
qed

lemma read_exact_by_unread:
  "read_exact_by dl n c = (Got b, c') \<Longrightarrow>
    concat (map snd (inbox c)) = b @ concat (map snd (inbox c')) \<and> length b = n"
proof (induction dl n c arbitrary: b c' rule: read_exact_by.induct)
  case (1 dl n c)
  show ?case
  proof (cases "n = 0")
    case True
    then show ?thesis using 1(2) by (simp add: read_exact_by.simps)
  next
    case False
    obtain y d where r: "read_by dl n c = (y, d)" by fastforce
    then obtain b1 where b1: "y = Got b1" "b1 \<noteq> []"
      using 1(2) False by (subst (asm) read_exact_by.simps) (auto split: timed.splits if_splits)
    obtain z e where z: "read_exact_by dl (n - length b1) d = (z, e)" by fastforce
    then obtain b2 where b2: "z = Got b2" "b = b1 @ b2" "c' = e"
      using 1(2) False r b1 by (subst (asm) read_exact_by.simps) (auto split: timed.splits)
    show ?thesis
      using 1(1) [of b1 b2 e] False r b1 z b2 read_by_unread [of dl n c b1 d] by auto
  qed
qed

lemma read_exact_socks_keeps:
  "read_exact_socks n c = (x, c') \<Longrightarrow> outbox c' = outbox c \<and> writable c' = writable c \<and>
    clock c \<le> clock c' \<and> clock c' \<le> clock c + INITIAL_READ_TIMEOUT \<and> tail c' = tail c"
  by (auto simp: read_exact_socks_def Let_def split: if_splits prod.splits timed.splits
      dest!: read_exact_by_keeps)

lemma read_exact_by_both:
  "read_exact_by dl n c = (Got b, c') \<Longrightarrow> pending c' = pending c \<and>
    concat (map snd (inbox c)) = b @ concat (map snd (inbox c')) \<and> length b = n"
  using read_exact_by_keeps [of dl n c "Got b" c'] read_exact_by_unread [of dl n c b c'] by blast

lemma read_exact_socks_unread:
  "read_exact_socks n c = (Got b, c') \<Longrightarrow> unread c = b @ unread c' \<and> length b = n"
  by (auto simp: read_exact_socks_def Let_def unread_def split: if_splits prod.splits timed.splits
      dest!: read_exact_by_both)

text \<open>Segments that are not empty and arrive within the time limit of a read that starts
  now. Reading keeps it, because every read starts its limit anew.\<close>

definition timely :: "client \<Rightarrow> bool" where
  "timely c \<longleftrightarrow> (\<forall>(t, b)\<in>set (inbox c). t \<le> clock c + INITIAL_READ_TIMEOUT \<and> b \<noteq> [])"

lemma read_exact_by_timely:
  assumes "\<forall>(t, b)\<in>set (inbox c). t \<le> dl \<and> b \<noteq> []" "n \<le> length (concat (map snd (inbox c)))"
  shows "\<exists>c'. read_exact_by dl n c = (Got (take n (concat (map snd (inbox c)))), c') \<and>
    (\<forall>(t, b)\<in>set (inbox c'). t \<le> dl \<and> b \<noteq> [])"
  using assms
proof (induction dl n c rule: read_exact_by.induct)
  case (1 dl n c)
  show ?case
  proof (cases "n = 0")
    case True
    then show ?thesis using 1(2) by (simp add: read_exact_by.simps)
  next
    case False
    then obtain t b r where i: "inbox c = (t, b) # r" using 1(3) by (cases "inbox c") auto
    define d where "d = c \<lparr> clock := max (clock c) t, inbox := (if n < length b then (t, drop n b) # r else r) \<rparr>"
    have r: "read_by dl n c = (Got (take n b), d)" and b: "b \<noteq> []"
      using 1(2) i by (auto simp: read_by_def d_def)
    have d: "\<forall>(t, b)\<in>set (inbox d). t \<le> dl \<and> b \<noteq> []" using 1(2) i by (auto simp: d_def)
    have len: "n - length (take n b) \<le> length (concat (map snd (inbox d)))"
      using 1(3) i by (auto simp: d_def)
    have "take n b \<noteq> []" using False b by simp
    from 1(1) [OF False, of "take n b"] this r d len obtain e where
      "read_exact_by dl (n - length (take n b)) d =
        (Got (take (n - length (take n b)) (concat (map snd (inbox d)))), e)"
      "\<forall>(t, b)\<in>set (inbox e). t \<le> dl \<and> b \<noteq> []" by auto
    moreover have "take n b @ take (n - length (take n b)) (concat (map snd (inbox d))) =
        take n (concat (map snd (inbox c)))"
      using i by (simp add: d_def)
    ultimately show ?thesis using r False \<open>take n b \<noteq> []\<close>
      by (subst read_exact_by.simps) simp
  qed
qed

lemma read_exact_socks_timely:
  assumes "timely c" "n \<le> length (unread c)"
  shows "\<exists>c'. read_exact_socks n c = (Got (take n (unread c)), c') \<and> timely c' \<and>
    unread c' = drop n (unread c) \<and> writable c' = writable c \<and> outbox c' = outbox c"
proof -
  let ?k = "min (length (pending c)) n"
  let ?c = "c \<lparr> pending := drop ?k (pending c) \<rparr>"
  have "\<exists>c'. read_exact_socks n c = (Got (take n (unread c)), c') \<and> timely c'"
  proof (cases "?k < n")
    case True
    have pre: "\<forall>(t, b)\<in>set (inbox ?c). t \<le> clock c + INITIAL_READ_TIMEOUT \<and> b \<noteq> []"
      "n - ?k \<le> length (concat (map snd (inbox ?c)))"
      using assms True by (auto simp: timely_def unread_def)
    from read_exact_by_timely [OF pre] obtain e where e: "read_exact_by (clock c + INITIAL_READ_TIMEOUT) (n - ?k) ?c =
        (Got (take (n - ?k) (concat (map snd (inbox c)))), e)"
      "\<forall>(t, b)\<in>set (inbox e). t \<le> clock c + INITIAL_READ_TIMEOUT \<and> b \<noteq> []"
      by auto
    moreover have "clock c \<le> clock e" using read_exact_by_keeps [OF e(1)] by simp
    ultimately show ?thesis using True
      by (auto simp: read_exact_socks_def Let_def timely_def unread_def)
  next
    case False
    then show ?thesis using assms(1)
      by (auto simp: read_exact_socks_def Let_def timely_def unread_def)
  qed
  then obtain c' where c': "read_exact_socks n c = (Got (take n (unread c)), c')" "timely c'" by blast
  have "take n (unread c) @ drop n (unread c) = take n (unread c) @ unread c'"
    using read_exact_socks_unread [OF c'(1)] by simp
  then have "unread c' = drop n (unread c)" by (simp only: same_append_eq)
  with c' read_exact_socks_keeps [OF c'(1)] show ?thesis by auto
qed

end
