(* ===== verification/NodeHttp.thy ===== *)
theory NodeHttp
  imports NodeMetrics ProxyInput
begin

text \<open>
  The two places where a node speaks HTTP: the health endpoint (\<open>hydra-node/src/health.rs\<close>)
  and the page shown to probers (\<open>hydra-node/src/fallback.rs\<close>). The text of the page is an
  argument. The date of the page is computed by hand in the source; it is compared with the
  calendar.
\<close>

section \<open>Health endpoint\<close>

definition crlf :: string where "crlf = [CHR 0x0D, CHR 0x0A]"

definition parse_health_addr :: "string \<Rightarrow> string + sock_addr" where
  "parse_health_addr v =
    (case parse_sock_addr (trim v) of
       Some a \<Rightarrow> Inr a
     | None \<Rightarrow> Inl ''HYDRA_HEALTH_ADDR'')"

definition health_addr_from_env :: "string option \<Rightarrow> string + sock_addr option" where
  "health_addr_from_env var =
    (case var of
       Some v \<Rightarrow>
         if trim v \<noteq> [] then (case parse_health_addr v of Inl e \<Rightarrow> Inl e | Inr a \<Rightarrow> Inr (Some a))
         else Inr None
     | None \<Rightarrow> Inr None)"

definition simple_response :: "u16 \<Rightarrow> string \<Rightarrow> string \<Rightarrow> string \<Rightarrow> string" where
  "simple_response status reason content_type body =
    ''HTTP/1.1 '' @ show_nat (unat status) @ '' '' @ reason @ crlf @
    ''Content-Type: '' @ content_type @ crlf @
    ''Content-Length: '' @ show_nat (length body) @ crlf @
    ''Connection: close'' @ crlf @ crlf @ body"

definition health_body :: "nat \<Rightarrow> string" where
  "health_body uptime_secs =
    ''{'' @ quoted ''status'' @ '':'' @ quoted ''ok'' @ '','' @ quoted ''mode'' @ '':'' @ quoted ''tcp'' @ '','' @
    quoted ''uptime_secs'' @ '':'' @ show_nat uptime_secs @ '','' @
    quoted ''version'' @ '':'' @ quoted CARGO_PKG_VERSION @ ''}''"

definition build_response :: "string \<Rightarrow> string \<Rightarrow> nat \<Rightarrow> string" where
  "build_response meth path uptime_secs =
    (if path = ''/health'' then
       (if \<not> eq_ignore_ascii_case meth ''GET''
        then simple_response 405 ''Method Not Allowed'' ''text/plain'' (''method not allowed'' @ nl)
        else simple_response 200 ''OK'' ''application/json'' (health_body uptime_secs))
     else simple_response 404 ''Not Found'' ''text/plain'' (''not found'' @ nl))"

definition metrics_response :: "string \<Rightarrow> nat \<Rightarrow> metrics \<Rightarrow> string" where
  "metrics_response meth uptime_secs m =
    (if \<not> eq_ignore_ascii_case meth ''GET''
     then simple_response 405 ''Method Not Allowed'' ''text/plain'' (''method not allowed'' @ nl)
     else simple_response 200 ''OK'' ''text/plain; version=0.0.4'' (render uptime_secs m))"

text \<open>The endpoint refuses an address that is not a loopback address unless
  \<open>HYDRA_HEALTH_PUBLIC\<close> is 1, and serves at most 32 connections at a time.\<close>

definition HEALTH_MAX_CONCURRENT :: nat where "HEALTH_MAX_CONCURRENT = 32"

definition health_spawn :: "string option \<Rightarrow> (sock_addr \<Rightarrow> bool) \<Rightarrow> sock_addr \<Rightarrow> string + sock_addr" where
  "health_spawn public bind addr =
    (if \<not> ip_is_loopback (sock_ip addr) \<and> public \<noteq> Some ''1'' then Inl ''health address not loopback''
     else if bind addr then Inr addr else Inl ''bind'')"

definition health_accept :: "nat \<Rightarrow> (bool \<times> nat)" where
  "health_accept serving =
    (if serving < HEALTH_MAX_CONCURRENT then (True, serving + 1) else (False, serving))"

definition nth_or_empty :: "nat \<Rightarrow> string list \<Rightarrow> string" where
  "nth_or_empty i xs = (if i < length xs then xs ! i else [])"

definition health_reply :: "byte list \<Rightarrow> nat \<Rightarrow> metrics \<Rightarrow> string" where
  "health_reply buf uptime m =
    (let req = from_utf8_lossy buf;
         request_line = nth_or_empty 0 (str_lines req);
         parts = split_whitespace request_line;
         meth = nth_or_empty 0 parts;
         path = hd (split_on (CHR ''?'') (nth_or_empty 1 parts)) in
     if path = ''/metrics'' then metrics_response meth uptime m
     else build_response meth path uptime)"

definition serve_one :: "nat \<Rightarrow> metrics \<Rightarrow> client \<Rightarrow> client" where
  "serve_one started m c =
    (case read_by (clock c + 5000) 1024 c of
       (Got buf, c1) \<Rightarrow>
         if buf \<noteq> [] then
           snd (send_client (as_bytes (health_reply buf ((clock c1 - started) div 1000) m)) c1)
         else c1
     | (_, c1) \<Rightarrow> c1)"

section \<open>The date of the page\<close>

definition DAYS :: "string list" where
  "DAYS = [''Sun'', ''Mon'', ''Tue'', ''Wed'', ''Thu'', ''Fri'', ''Sat'']"

definition MONTHS :: "string list" where
  "MONTHS = [''Jan'', ''Feb'', ''Mar'', ''Apr'', ''May'', ''Jun'', ''Jul'', ''Aug'', ''Sep'', ''Oct'', ''Nov'', ''Dec'']"

text \<open>The year, the month and the day from the number of days since 1970-01-01.\<close>

definition civil_from_days :: "nat \<Rightarrow> int \<times> int \<times> int" where
  "civil_from_days days =
    (let z = int days + 719468;
         era = z div 146097;
         doe = z mod 146097;
         yoe = (doe - doe div 1460 + doe div 36524 - doe div 146096) div 365;
         y = yoe + era * 400;
         doy = doe - (365 * yoe + yoe div 4 - yoe div 100);
         mp = (5 * doy + 2) div 153;
         d = doy - (153 * mp + 2) div 5 + 1;
         mth = (if mp < 10 then mp + 3 else mp - 9);
         y = (if mth \<le> 2 then y + 1 else y)
     in (y, mth, d))"

definition weekday :: "nat \<Rightarrow> nat" where
  "weekday days = (days mod 7 + 4) mod 7"

definition pad2 :: "nat \<Rightarrow> string" where
  "pad2 n = replicate (2 - length (show_nat n)) (CHR ''0'') @ show_nat n"

definition http_date :: "nat \<Rightarrow> string" where
  "http_date secs =
    (let days = secs div 86400;
         rem = secs mod 86400;
         h = rem div 3600; m = rem mod 3600 div 60; s = rem mod 60
     in case civil_from_days days of (y, mth, d) \<Rightarrow>
       (DAYS ! weekday days) @ '', '' @ pad2 (nat d) @ '' '' @ (MONTHS ! nat (mth - 1)) @ '' '' @
       show_nat (nat y) @ '' '' @ pad2 h @ '':'' @ pad2 m @ '':'' @ pad2 s @ '' GMT'')"

definition fallback_response :: "string \<Rightarrow> nat \<Rightarrow> string" where
  "fallback_response html secs =
    ''HTTP/1.1 200 OK'' @ crlf @
    ''Date: '' @ http_date secs @ crlf @
    ''Content-Type: text/html; charset=utf-8'' @ crlf @
    ''Content-Length: '' @ show_nat (length html) @ crlf @
    ''Connection: close'' @ crlf @ crlf @ html"

definition http_serve_fallback :: "bool \<Rightarrow> string \<Rightarrow> nat \<Rightarrow> byte list \<Rightarrow> unit res \<times> byte list" where
  "http_serve_fallback ok html secs out =
    (if ok then (Inr (), out @ as_bytes (fallback_response html secs)) else (Inl (IoError ''write''), out))"

section \<open>The calendar\<close>

definition leap :: "int \<Rightarrow> bool" where
  "leap y \<longleftrightarrow> 4 dvd y \<and> (\<not> 100 dvd y \<or> 400 dvd y)"

definition month_len :: "int \<Rightarrow> int \<Rightarrow> int" where
  "month_len y m = (if m = 2 then (if leap y then 29 else 28)
     else if m \<in> {4, 6, 9, 11} then 30 else 31)"

definition year_len :: "int \<Rightarrow> int" where
  "year_len y = (if leap y then 366 else 365)"

text \<open>Days from 1970-01-01 to a date.\<close>

definition day_number :: "int \<Rightarrow> int \<Rightarrow> int \<Rightarrow> int" where
  "day_number y m d =
    (\<Sum>i\<in>{1970..<y}. year_len i) + (\<Sum>i\<leftarrow>[1..m - 1]. month_len y i) + (d - 1)"

text \<open>Days from 0000-03-01 to March 1 of a year.\<close>

definition march :: "int \<Rightarrow> int" where
  "march y = 365 * y + y div 4 - y div 100 + y div 400"

lemma div_step:
  fixes y k :: int
  assumes "0 < k"
  shows "(y + 1) div k = y div k + (if k dvd y + 1 then 1 else 0)"
proof (cases "k dvd y + 1")
  case True
  then obtain q where q: "y + 1 = k * q" by auto
  have "y = k * (q - 1) + (k - 1)" using q by (simp add: algebra_simps)
  then have "y div k = q - 1"
    by (rule int_div_pos_eq) (use assms in simp_all)
  then show ?thesis using True q assms by simp
next
  case False
  have e: "y = k * (y div k) + y mod k" by simp
  have "y mod k + 1 \<noteq> k"
  proof
    assume "y mod k + 1 = k"
    with e have "y + 1 = k * (y div k) + k" by linarith
    then have "k dvd y + 1" by (metis dvd_add_right_iff dvd_refl dvd_triv_left)
    then show False using False by simp
  qed
  then have "y mod k + 1 < k" using assms pos_mod_bound [of k y] by linarith
  moreover have "y + 1 = k * (y div k) + (y mod k + 1)" using e by linarith
  moreover have "0 \<le> y mod k + 1" using assms pos_mod_sign [of k y] by linarith
  ultimately have "(y + 1) div k = y div k" by (intro int_div_pos_eq)
  then show ?thesis using False by simp
qed

lemma march_step: "march (y + 1) = march y + year_len (y + 1)"
proof -
  define a b c where "a = (4 dvd y + 1)" and "b = (100 dvd y + 1)" and "c = (400 dvd y + 1)"
  have "c \<longrightarrow> b" unfolding c_def b_def by (rule impI, rule dvd_trans [of _ 400]) simp_all
  moreover have "b \<longrightarrow> a" unfolding b_def a_def by (rule impI, rule dvd_trans [of _ 100]) simp_all
  moreover have "march (y + 1) = march y + 365 + (if a then 1 else 0) - (if b then 1 else 0) + (if c then 1 else 0)"
  proof -
    have "(y + 1) div 4 = y div 4 + (if a then 1 else 0)"
      "(y + 1) div 100 = y div 100 + (if b then 1 else 0)"
      "(y + 1) div 400 = y div 400 + (if c then 1 else 0)"
      unfolding a_def b_def c_def by (rule div_step, simp)+
    moreover have "365 * (y + 1) + (p + a') - (q + b') + (r + c') = 365 * y + p - q + r + 365 + a' - b' + c'"
      for p q r a' b' c' :: int by (simp add: algebra_simps)
    ultimately show ?thesis unfolding march_def by (simp only:)
  qed
  moreover have "leap (y + 1) = (a \<and> (\<not> b \<or> c))"
    unfolding leap_def a_def b_def c_def ..
  ultimately show ?thesis by (cases a; cases b; cases c) (simp_all only: year_len_def simp_thms if_True if_False)
qed

lemma march_mono: "a \<le> b \<Longrightarrow> march a \<le> march b"
proof (induction b rule: int_ge_induct)
  case (step i)
  then show ?case using march_step [of i] by (simp add: year_len_def split: if_splits)
qed simp

lemma march_year_sum: "1970 \<le> y \<Longrightarrow> (\<Sum>i\<in>{1970..<y}. year_len i) = march (y - 1) - march 1969"
proof (induction y rule: int_ge_induct)
  case (step i)
  have "{1970..<i + 1} = insert i {1970..<i}" using step by auto
  then show ?case using step march_step [of "i - 1"] by simp
qed simp


section \<open>The date is right\<close>

lemma months_before:
  assumes "1 \<le> m" "m \<le> 12"
  shows "(\<Sum>i\<leftarrow>[1..m - 1]. month_len y i) =
    (if m \<le> 2 then (m - 1) * 31 else (153 * (m - 3) + 2) div 5 + year_len y - 306)"
proof -
  have "m \<in> {1, 2, 3, 4, 5, 6, 7, 8, 9, 10, 11, 12}" using assms by simp presburger
  then show ?thesis
    by (elim insertE emptyE) (simp_all add: month_len_def year_len_def upto_rec1)
qed

lemma day_number_march:
  assumes "1970 \<le> y" "1 \<le> m" "m \<le> 12"
  shows "day_number y m d =
    (if m \<le> 2 then march (y - 1) + (m - 1) * 31 + 306
     else march y + (153 * (m - 3) + 2) div 5) + (d - 1) - 719468"
proof -
  have "march 1969 = 719162" by (simp add: march_def)
  moreover have "march y = march (y - 1) + year_len y" using march_step [of "y - 1"] by simp
  ultimately show ?thesis
    using assms by (simp add: day_number_def march_year_sum months_before)
qed

text \<open>The year of an era: the day of the era falls into its year.\<close>

lemma year_of_era:
  fixes doe :: int
  assumes "0 \<le> doe" "doe < 146097"
    and yoe: "yoe = (doe - doe div 1460 + doe div 36524 - doe div 146096) div 365"
    and doy: "doy = doe - (365 * yoe + yoe div 4 - yoe div 100)"
  shows "0 \<le> yoe \<and> yoe \<le> 399 \<and> 0 \<le> doy \<and> doy \<le> 365 \<and>
    (doy = 365 \<longrightarrow> 4 dvd yoe + 1 \<and> (\<not> 100 dvd yoe + 1 \<or> yoe = 399))"
proof (cases "doe = 146096")
  case True
  then show ?thesis using yoe doy by simp
next
  case False
  define c r where "c = doe div 36524" and "r = doe mod 36524"
  define q s where "q = r div 1461" and "s = r mod 1461"
  define t where "t = (if s < 365 then 0 else if s < 730 then 1 else if s < 1095 then 2 else 3 :: int)"
  have doe: "doe = 36524 * c + (1461 * q + s)" by (simp add: c_def r_def q_def s_def)
  have b: "0 \<le> c" "c \<le> 3" "0 \<le> q" "q \<le> 24" "0 \<le> s" "s \<le> 1460" "0 \<le> r" "r < 36524"
    using assms(1,2) False by (simp_all add: c_def q_def s_def r_def)
  have rq: "r = 1461 * q + s" by (simp add: q_def s_def)
  define e where "e = (if 24 * c + q + s \<ge> 1460 then 1 else 0 :: int)"
  have d1: "doe div 1460 = 25 * c + q + e"
    by (rule int_div_pos_eq [where r = "24 * c + q + s - 1460 * e"]) (use b doe in \<open>simp_all add: e_def\<close>)
  have d2: "doe div 36524 = c" by (simp add: c_def)
  have d3: "doe div 146096 = 0" using assms(1,2) False by (simp add: zdiv_eq_0_iff)
  have y: "yoe = 100 * c + 4 * q + t"
    unfolding yoe d1 d2 d3
    by (rule int_div_pos_eq [where r = "s - e - 365 * t"]) (use b doe in \<open>auto simp: e_def t_def\<close>)
  have t: "0 \<le> t" "t \<le> 3" by (auto simp: t_def)
  have y4: "yoe div 4 = 25 * c + q"
    unfolding y by (rule int_div_pos_eq [where r = t]) (use t in simp_all)
  have y100: "yoe div 100 = c"
    unfolding y by (rule int_div_pos_eq [where r = "4 * q + t"]) (use t b in simp_all)
  have d: "doy = s - 365 * t" unfolding doy y4 y100 by (simp add: y doe)
  have "0 \<le> doy \<and> doy \<le> 365 \<and> (doy = 365 \<longrightarrow> s = 1460)" unfolding d using b by (auto simp: t_def)
  moreover have "s = 1460 \<Longrightarrow> 4 dvd yoe + 1 \<and> \<not> 100 dvd yoe + 1"
  proof -
    assume s: "s = 1460"
    then have "t = 3" "q \<le> 23" using b rq by (simp_all add: t_def)
    then have "yoe + 1 = 4 * (25 * c + q + 1)" "yoe + 1 = 100 * c + 4 * (q + 1)" by (simp_all add: y)
    moreover have "\<not> 100 dvd 100 * c + 4 * (q + 1)"
    proof
      assume "100 dvd 100 * c + 4 * (q + 1)"
      then have "100 dvd 4 * (q + 1)" by (simp add: dvd_add_right_iff)
      then show False using b \<open>q \<le> 23\<close> zdvd_imp_le [of 100 "4 * (q + 1)"] by simp
    qed
    ultimately show ?thesis by (metis dvd_triv_left)
  qed
  ultimately show ?thesis using y t b by auto
qed


lemma march_era: "0 \<le> a \<Longrightarrow> a \<le> 399 \<Longrightarrow>
    march (a + era * 400) = 146097 * era + (365 * a + a div 4 - a div 100)"
proof -
  assume a: "0 \<le> a" "a \<le> 399"
  have "(a + era * 400) div 4 = a div 4 + 100 * era" "(a + era * 400) div 100 = a div 100 + 4 * era"
    using div_mult_self1 [of 4 a "100 * era"] div_mult_self1 [of 100 a "4 * era"] by (simp_all add: ac_simps)
  moreover have "(a + era * 400) div 400 = era" using a by (intro int_div_pos_eq [where r = a]) simp_all
  ultimately show ?thesis by (simp add: march_def)
qed

text \<open>The month of a day of the year that starts in March.\<close>

lemma month_of_year:
  fixes doy :: int
  assumes "0 \<le> doy" "doy \<le> 365" and mp: "mp = (5 * doy + 2) div 153"
    and d: "d = doy - (153 * mp + 2) div 5 + 1"
    and mth: "mth = (if mp < 10 then mp + 3 else mp - 9)"
  shows "1 \<le> mth \<and> mth \<le> 12 \<and> 1 \<le> d \<and>
    d \<le> (if mth = 2 then (if doy = 365 then 29 else 28) else if mth \<in> {4, 6, 9, 11} then 30 else 31) \<and>
    doy = (if mth \<le> 2 then (mth - 1) * 31 + 306 else (153 * (mth - 3) + 2) div 5) + (d - 1)"
proof -
  have b: "153 * mp \<le> 5 * doy + 2" "5 * doy + 2 < 153 * mp + 153"
    using pos_mod_bound [of 153 "5 * doy + 2"] pos_mod_sign [of 153 "5 * doy + 2"]
      mult_div_mod_eq [of 153 "5 * doy + 2"] unfolding mp by linarith+
  then have "0 \<le> mp" "mp \<le> 11" using assms(1,2) by linarith+
  then have "mp \<in> {0, 1, 2, 3, 4, 5, 6, 7, 8, 9, 10, 11}" by simp presburger
  then show ?thesis
    by (elim insertE emptyE) (use b assms(1,2) d mth in simp_all)
qed

section \<open>Properties\<close>

text \<open>
  the date on the page is the date. For every number of days since 1970 the hand-written
  arithmetic gives a month from 1 to 12 and a day that exists in that month of that year of the
  Gregorian calendar, and the days from 1970-01-01 to it are the number it started from.
\<close>

theorem civil_from_days_correct:
  "case civil_from_days days of (y, m, d) \<Rightarrow>
     1970 \<le> y \<and> 1 \<le> m \<and> m \<le> 12 \<and> 1 \<le> d \<and> d \<le> month_len y m \<and>
     day_number y m d = int days"
proof -
  define z era doe where "z = int days + 719468" and "era = z div 146097" and "doe = z mod 146097"
  define yoe where "yoe = (doe - doe div 1460 + doe div 36524 - doe div 146096) div 365"
  define doy where "doy = doe - (365 * yoe + yoe div 4 - yoe div 100)"
  define mp where "mp = (5 * doy + 2) div 153"
  define d where "d = doy - (153 * mp + 2) div 5 + 1"
  define m where "m = (if mp < 10 then mp + 3 else mp - 9)"
  define Y where "Y = yoe + era * 400"
  define y where "y = (if m \<le> 2 then Y + 1 else Y)"
  have c: "civil_from_days days = (y, m, d)"
    by (simp only: civil_from_days_def Let_def z_def era_def doe_def yoe_def doy_def mp_def d_def m_def Y_def y_def)
  have doe: "0 \<le> doe" "doe < 146097" by (simp_all add: doe_def)
  note yr = year_of_era [OF doe yoe_def doy_def]
  then have doy: "0 \<le> doy" "doy \<le> 365" by blast+
  note mo = month_of_year [OF doy mp_def d_def m_def]
  have z: "z = march Y + doy"
    using march_era [of yoe era] yr mult_div_mod_eq [of 146097 z]
    by (simp add: Y_def doy_def era_def doe_def)
  have leap: "doy = 365 \<longrightarrow> leap (Y + 1)"
  proof
    assume l: "doy = 365"
    have e: "Y + 1 = (yoe + 1) + 400 * era" by (simp add: Y_def)
    have "4 dvd 400 * era" "100 dvd 400 * era" by simp_all
    then have "4 dvd Y + 1 \<longleftrightarrow> 4 dvd yoe + 1" "100 dvd Y + 1 \<longleftrightarrow> 100 dvd yoe + 1"
      unfolding e by (simp_all only: dvd_add_left_iff)
    moreover have "yoe = 399 \<Longrightarrow> 400 dvd Y + 1" unfolding e by simp
    ultimately show "leap (Y + 1)" using yr l unfolding leap_def by blast
  qed
  have Y: "1968 < Y \<and> (m > 2 \<longrightarrow> 1969 < Y)"
  proof -
    have m: "march 1968 = 718797" "march 1969 = 719162" by (simp_all add: march_def)
    have "719468 \<le> z" by (simp add: z_def)
    moreover have "m > 2 \<longrightarrow> doy < 306"
    proof
      assume m2: "m > 2"
      have b: "153 * mp \<le> 5 * doy + 2" "5 * doy + 2 < 153 * mp + 153"
        using pos_mod_bound [of 153 "5 * doy + 2"] pos_mod_sign [of 153 "5 * doy + 2"]
          mult_div_mod_eq [of 153 "5 * doy + 2"] unfolding mp_def by linarith+
      with m2 doy have "mp < 10" by (simp add: m_def split: if_splits)
      with b show "doy < 306" by linarith
    qed
    ultimately show ?thesis using z m doy march_mono [of Y 1968] march_mono [of Y 1969] by force
  qed
  have y: "1970 \<le> y" using Y by (auto simp: y_def)
  have "d \<le> month_len y m"
    using mo leap by (auto simp: month_len_def y_def split: if_splits)
  moreover have "day_number y m d = int days"
    using y mo z day_number_march [of y m d] by (auto simp: y_def z_def)
  ultimately show ?thesis unfolding c using y mo by simp
qed

end
