(* ===== verification/Auth.thy ===== *)
theory Auth
  imports RustStr
begin

text \<open>
  \<open>hydra-protocol/src/auth.rs\<close>: hexadecimal text and the owner proof of a P2P peer id.
  HMAC-SHA256 is the function of the \<open>ring\<close> crate, an argument here: it takes the key
  and the message and returns the tag.
\<close>

fun collect_res :: "('e + 'a) list \<Rightarrow> 'e + 'a list" where
  "collect_res [] = Inr []"
| "collect_res (Inl e # rs) = Inl e"
| "collect_res (Inr x # rs) = map_sum id (\<lambda>xs. x # xs) (collect_res rs)"

definition is_ascii_hexdigit :: "char \<Rightarrow> bool" where
  "is_ascii_hexdigit c = (let n = of_char c :: nat in
     48 \<le> n \<and> n \<le> 57 \<or> 97 \<le> n \<and> n \<le> 102 \<or> 65 \<le> n \<and> n \<le> 70)"

section \<open>Hexadecimal text\<close>

definition hex_decode :: "string \<Rightarrow> string + byte list" where
  "hex_decode hex =
    (if \<not> is_ascii hex then Inl ''hex not ascii''
     else if length hex mod 2 \<noteq> 0 then Inl ''hex odd length''
     else if \<not> list_all is_ascii_hexdigit hex then Inl ''hex bad character''
     else collect_res (map (\<lambda>i. case parse_radix 16 8 (take 2 (drop (2 * i) hex)) of
                                  Some n \<Rightarrow> Inr (of_nat n) | None \<Rightarrow> Inl ''hex byte'')
                           [0 ..< length hex div 2]))"

definition hex_char :: "nat \<Rightarrow> char" where
  "hex_char d = (if d < 10 then char_of (48 + d) else char_of (87 + d))"

definition hex_encode :: "byte list \<Rightarrow> string" where
  "hex_encode bs = concat (map (\<lambda>b. [hex_char (unat b div 16), hex_char (unat b mod 16)]) bs)"

section \<open>Owner proofs\<close>

definition P2P_OWNER_PROOF_LABEL :: "byte list" where
  "P2P_OWNER_PROOF_LABEL = as_bytes ''hydra-p2p-owner''"

definition p2p_owner_proof :: "(byte list \<Rightarrow> byte list \<Rightarrow> byte list) \<Rightarrow> byte list \<Rightarrow> string \<Rightarrow> string" where
  "p2p_owner_proof hmac psk peer_id = hex_encode (hmac psk (P2P_OWNER_PROOF_LABEL @ as_bytes peer_id))"

definition verify_p2p_owner_proof ::
  "(byte list \<Rightarrow> byte list \<Rightarrow> byte list) \<Rightarrow> byte list \<Rightarrow> string \<Rightarrow> string \<Rightarrow> bool" where
  "verify_p2p_owner_proof hmac psk peer_id proof_hex =
    (let expected = p2p_owner_proof hmac psk peer_id
     in as_bytes expected = as_bytes (to_ascii_lowercase (trim proof_hex)))"

section \<open>Facts about hexadecimal text\<close>

lemma collect_res_Inr: "collect_res (map Inr xs) = Inr xs"
  by (induction xs) auto

lemma of_char_hex_char: "d < 16 \<Longrightarrow> (of_char (hex_char d) :: nat) = (if d < 10 then 48 + d else 87 + d)"
  by (simp add: hex_char_def)

lemma digit_val_hex_char [simp]: "d < 16 \<Longrightarrow> digit_val (hex_char d) = Some d"
  by (auto simp: digit_val_def of_char_hex_char Let_def)

lemma hex_char_props:
  "d < 16 \<Longrightarrow> is_ascii_hexdigit (hex_char d) \<and> (of_char (hex_char d) :: nat) < 128 \<and>
     to_lower (hex_char d) = hex_char d \<and> graphic (hex_char d) \<and> hex_char d \<noteq> CHR ''+''"
proof -
  assume d: "d < 16"
  have "(of_char (hex_char d) :: nat) \<noteq> of_char (CHR ''+'')"
    using d by (simp add: of_char_hex_char)
  then have "hex_char d \<noteq> CHR ''+''" by metis
  with d show ?thesis
    by (auto simp: is_ascii_hexdigit_def of_char_hex_char to_lower_def graphic_def Let_def)
qed

lemma hex_encode_Cons:
  "hex_encode (b # bs) = hex_char (unat b div 16) # hex_char (unat b mod 16) # hex_encode bs"
  by (simp add: hex_encode_def)

lemma hex_encode_Nil [simp]: "hex_encode [] = []"
  by (simp add: hex_encode_def)

lemma byte_nibbles: "unat (b :: byte) div 16 < 16" "unat (b :: byte) mod 16 < 16"
  using unat_byte_less [of b] by (auto simp del: unat_byte_less)

lemma length_hex_encode [simp]: "length (hex_encode bs) = 2 * length bs"
  by (induction bs) (auto simp: hex_encode_Cons)

lemma hex_encode_chars: "c \<in> set (hex_encode bs) \<Longrightarrow> \<exists>d < 16. c = hex_char d"
  by (induction bs) (auto simp: hex_encode_Cons intro: byte_nibbles)

lemma parse_hex_pair:
  assumes "a < 16" "b < 16"
  shows "parse_radix 16 8 [hex_char a, hex_char b] = Some (16 * a + b)"
  using assms hex_char_props [of a] by (simp add: parse_radix_def Let_def mult.commute)

lemma take2_hex_encode:
  "i < length bs \<Longrightarrow> take 2 (drop (2 * i) (hex_encode bs)) =
     [hex_char (unat (bs ! i) div 16), hex_char (unat (bs ! i) mod 16)]"
proof (induction bs arbitrary: i)
  case (Cons b bs)
  then show ?case by (cases i) (auto simp: hex_encode_Cons numeral_2_eq_2)
qed simp

lemma hex_decode_encode: "hex_decode (hex_encode bs) = Inr bs"
proof -
  have c: "is_ascii (hex_encode bs)" "list_all is_ascii_hexdigit (hex_encode bs)"
    by (auto simp: is_ascii_def list_all_iff dest!: hex_encode_chars hex_char_props)
  have "parse_radix 16 8 (take 2 (drop (2 * i) (hex_encode bs))) = Some (unat (bs ! i))"
    if "i < length bs" for i
    using that by (simp add: take2_hex_encode parse_hex_pair byte_nibbles)
  then have "map (\<lambda>i. case parse_radix 16 8 (take 2 (drop (2 * i) (hex_encode bs))) of
        Some n \<Rightarrow> Inr (of_nat n) | None \<Rightarrow> Inl ''hex byte'') [0 ..< length bs]
      = map Inr (map (\<lambda>i. bs ! i) [0 ..< length bs])"
    by simp
  also have "map (\<lambda>i. bs ! i) [0 ..< length bs] = bs" by (rule map_nth)
  finally show ?thesis
    using c by (simp add: hex_decode_def collect_res_Inr del: map_map)
qed

lemma lower_hex_encode [simp]: "to_ascii_lowercase (hex_encode bs) = hex_encode bs"
  unfolding to_ascii_lowercase_def
  by (rule map_idI) (auto dest!: hex_encode_chars hex_char_props)

lemma trim_lower_hex:
  assumes "to_ascii_lowercase s = hex_encode bs"
  shows "trim s = s"
proof (rule trim_id)
  have g: "graphic c" if "c \<in> set s" for c
  proof -
    have "to_lower c \<in> set (hex_encode bs)"
      using that assms [symmetric] by (simp add: to_ascii_lowercase_def)
    then obtain d where "d < 16" "to_lower c = hex_char d" using hex_encode_chars by blast
    with hex_char_props [of d] have "graphic (to_lower c)" by simp
    then show ?thesis
      by (auto simp: graphic_def of_char_to_lower split: if_splits)
  qed
  show "s = [] \<or> graphic (hd s) \<and> graphic (last s)"
    using g by (cases "s = []") auto
qed

lemma hex_encode_inject: "hex_encode a = hex_encode b \<longleftrightarrow> a = b"
  by (metis hex_decode_encode sum.inject(2))

text \<open>Decoding accepts both cases of the letters and forgets which.\<close>

lemma hexdigit_lower:
  assumes "is_ascii_hexdigit c"
  shows "\<exists>d < 16. to_lower c = hex_char d \<and> digit_val c = Some d \<and> c \<noteq> CHR ''+''"
proof -
  let ?n = "of_char c :: nat"
  define d where "d = (if ?n \<le> 57 then ?n - 48 else if ?n \<le> 70 then ?n - 55 else ?n - 87)"
  have n: "48 \<le> ?n \<and> ?n \<le> 57 \<or> 97 \<le> ?n \<and> ?n \<le> 102 \<or> 65 \<le> ?n \<and> ?n \<le> 70"
    using assms by (simp add: is_ascii_hexdigit_def Let_def)
  then have d: "d < 16" by (auto simp: d_def)
  have "(of_char (to_lower c) :: nat) = of_char (hex_char d)"
    using n d by (auto simp: of_char_to_lower of_char_hex_char d_def)
  then have "to_lower c = hex_char d" by simp
  moreover have "digit_val c = Some d"
    using n by (auto simp: digit_val_def Let_def d_def)
  moreover have "?n \<noteq> of_char (CHR ''+'')" using n by auto
  then have "c \<noteq> CHR ''+''" by metis
  ultimately show ?thesis using d by blast
qed

lemma hex_char_lower_inv:
  assumes "to_lower c = hex_char d" "d < 16"
  shows "is_ascii_hexdigit c"
proof -
  have "(of_char (to_lower c) :: nat) = (if d < 10 then 48 + d else 87 + d)"
    using assms by (simp add: of_char_hex_char)
  then show ?thesis
    using assms(2) by (auto simp: of_char_to_lower is_ascii_hexdigit_def Let_def split: if_splits)
qed

definition hex_pairs :: "string \<Rightarrow> nat \<Rightarrow> string + byte list" where
  "hex_pairs s n = collect_res (map (\<lambda>i. case parse_radix 16 8 (take 2 (drop (2 * i) s)) of
     Some n \<Rightarrow> Inr (of_nat n) | None \<Rightarrow> Inl ''hex byte'') [0 ..< n])"

lemma hex_pairs_step:
  assumes "parse_radix 16 8 [a, b] = Some n"
  shows "hex_pairs (a # b # s) (Suc k) = map_sum id (\<lambda>xs. of_nat n # xs) (hex_pairs s k)"
proof -
  have "map f [0 ..< Suc k] = f 0 # map (\<lambda>i. f (Suc i)) [0 ..< k]" for f :: "nat \<Rightarrow> string + byte"
    by (simp add: upt_conv_Cons map_Suc_upt [symmetric] comp_def del: upt_Suc)
  then show ?thesis using assms
    unfolding hex_pairs_def by (simp only:) (simp add: numeral_2_eq_2)
qed

lemma hex_pairs_lower:
  "list_all is_ascii_hexdigit s \<Longrightarrow> length s = 2 * k \<Longrightarrow>
   \<exists>bs. hex_pairs s k = Inr bs \<and> to_ascii_lowercase s = hex_encode bs"
proof (induction k arbitrary: s)
  case 0
  then show ?case by (simp add: hex_pairs_def to_ascii_lowercase_def)
next
  case (Suc k)
  then obtain a b t where s: "s = a # b # t" "length t = 2 * k"
    by (auto simp: length_Suc_conv)
  from Suc.prems s hexdigit_lower [of a] hexdigit_lower [of b]
  obtain x y where x: "x < 16" "to_lower a = hex_char x" "digit_val a = Some x" "a \<noteq> CHR ''+''"
    and y: "y < 16" "to_lower b = hex_char y" "digit_val b = Some y" by auto
  from x y have p: "parse_radix 16 8 [a, b] = Some (16 * x + y)"
    by (simp add: parse_radix_def Let_def mult.commute)
  from Suc.IH [of t] Suc.prems s obtain bs where
    "hex_pairs t k = Inr bs" "to_ascii_lowercase t = hex_encode bs" by auto
  moreover have "unat (of_nat (16 * x + y) :: byte) = 16 * x + y"
    unfolding unat_of_nat using x y by simp
  ultimately show ?case
    using x y s
    by (simp add: hex_pairs_step [OF p] hex_encode_Cons to_ascii_lowercase_def del: of_nat_add of_nat_mult)
qed

lemma hex_decode_pairs:
  "hex_decode s =
    (if \<not> is_ascii s then Inl ''hex not ascii''
     else if length s mod 2 \<noteq> 0 then Inl ''hex odd length''
     else if \<not> list_all is_ascii_hexdigit s then Inl ''hex bad character''
     else hex_pairs s (length s div 2))"
  by (simp add: hex_decode_def hex_pairs_def)

section \<open>Properties\<close>

text \<open>
  what hexadecimal text stands for. \<open>hex_decode\<close> succeeds exactly on texts which,
  with the letters in lower case, are the \<open>hex_encode\<close> of the bytes it returns; so the
  encoder is inverted, both cases are accepted, and no sign, no odd length and no other
  character gets through.
\<close>

theorem hex_decode_iff:
  "hex_decode s = Inr bs \<longleftrightarrow> to_ascii_lowercase s = hex_encode bs"
proof
  assume "hex_decode s = Inr bs"
  then have "list_all is_ascii_hexdigit s" "length s mod 2 = 0" "hex_pairs s (length s div 2) = Inr bs"
    by (auto simp: hex_decode_pairs split: if_splits)
  with hex_pairs_lower [of s "length s div 2"] show "to_ascii_lowercase s = hex_encode bs"
    by fastforce
next
  assume l: "to_ascii_lowercase s = hex_encode bs"
  have "is_ascii_hexdigit c" if "c \<in> set s" for c
  proof -
    have "to_lower c \<in> set (hex_encode bs)"
      using that l [symmetric] by (simp add: to_ascii_lowercase_def)
    then show ?thesis using hex_encode_chars hex_char_lower_inv by blast
  qed
  then have h: "list_all is_ascii_hexdigit s" "is_ascii s"
    by (force simp: list_all_iff is_ascii_def is_ascii_hexdigit_def Let_def)+
  have "length s = 2 * length bs"
    using arg_cong [OF l, of length] by (simp add: to_ascii_lowercase_def)
  moreover from this hex_pairs_lower [OF h(1), of "length bs"] l
  have "hex_pairs s (length bs) = Inr bs" by (auto simp: hex_encode_inject)
  ultimately show "hex_decode s = Inr bs"
    using h by (simp add: hex_decode_pairs)
qed

lemma verify_iff_decode:
  "verify_p2p_owner_proof hmac psk pid p =
     (hex_decode (trim p) = Inr (hmac psk (P2P_OWNER_PROOF_LABEL @ as_bytes pid)))"
  by (auto simp: verify_p2p_owner_proof_def p2p_owner_proof_def Let_def hex_decode_iff)

text \<open>
  the owner proof. For every key and peer id the proof a client derives is
  accepted, also with its letters in upper case; and the only proofs accepted are
  those that decode to the HMAC of the label followed by the peer id.
\<close>

theorem owner_proof_correct:
  "verify_p2p_owner_proof hmac psk pid (p2p_owner_proof hmac psk pid) \<and>
   verify_p2p_owner_proof hmac psk pid (to_ascii_uppercase (p2p_owner_proof hmac psk pid)) \<and>
   (verify_p2p_owner_proof hmac psk pid proof =
      (hex_decode (trim proof) = Inr (hmac psk (P2P_OWNER_PROOF_LABEL @ as_bytes pid))))"
proof -
  let ?t = "hmac psk (P2P_OWNER_PROOF_LABEL @ as_bytes pid)"
  note iff = verify_iff_decode [of hmac psk pid]
  have up: "to_lower (to_upper c) = c" if "to_lower c = c" for c
  proof -
    have "(of_char (to_lower (to_upper c)) :: nat) = of_char c"
      using arg_cong [OF that, of "of_char :: char \<Rightarrow> nat"]
      by (auto simp: of_char_to_lower to_upper_def split: if_splits)
    then show ?thesis by simp
  qed
  have "to_lower c = c" if "c \<in> set (hex_encode ?t)" for c
    using that hex_encode_chars hex_char_props by metis
  then have "to_ascii_lowercase (to_ascii_uppercase (hex_encode ?t)) = hex_encode ?t"
    unfolding to_ascii_lowercase_def to_ascii_uppercase_def map_map
    by (intro map_idI) (simp add: up)
  then show ?thesis
    by (simp add: iff p2p_owner_proof_def hex_decode_iff trim_lower_hex)
qed

end
