(* ===== verification/NodeConfig.thy ===== *)
theory NodeConfig
  imports NodeHttp Auth
begin

text \<open>
  Starting a node (\<open>hydra-node/src/config.rs\<close>, the options of \<open>server.rs\<close> and the wiring of
  \<open>main.rs\<close>): command line, environment, configuration file and defaults, in this order. The
  environment is a map of variables. The disk is asked through \<open>disk_view\<close>: whether a path
  exists, and what reading it gives (\<open>None\<close> for any I/O error). The parser of TOML files is the
  crate \<open>toml\<close>, an argument. The logging set-up has no model but for the clean-up of old files.
\<close>

section \<open>The layers\<close>

record node_file_config =
  file_listen_addr :: "string option"
  file_auth_key_file :: "string option"
  file_max_connections :: "u32 option"
  file_cert_file :: "string option"
  file_key_file :: "string option"
  file_cert_domains :: "string list option"
  file_health_addr :: "string option"
  file_log_level :: "string option"
  file_fallback_page :: "bool option"

definition empty_file :: node_file_config where
  "empty_file = \<lparr> file_listen_addr = None, file_auth_key_file = None, file_max_connections = None,
     file_cert_file = None, file_key_file = None, file_cert_domains = None, file_health_addr = None,
     file_log_level = None, file_fallback_page = None \<rparr>"

type_synonym env_vars = "string \<Rightarrow> string option"

record disk_view =
  path_exists :: "string \<Rightarrow> bool"
  read_file :: "string \<Rightarrow> byte list option"

record node_options =
  opt_max_connections :: u32
  opt_cert_file :: string
  opt_key_file :: string
  opt_cert_domains :: "string list"
  opt_p2p_signal :: bool
  opt_fallback_page :: bool
  opt_idle_timeout :: "nat option"
  opt_max_conn_age :: "nat option"

definition default_options :: node_options where
  "default_options = \<lparr> opt_max_connections = 1000, opt_cert_file = ''hydra-node-cert.der'',
     opt_key_file = ''hydra-node-key.der'', opt_cert_domains = [''hydra.node'', ''localhost''],
     opt_p2p_signal = False, opt_fallback_page = False, opt_idle_timeout = None, opt_max_conn_age = None \<rparr>"

text \<open>The comma-separated list of names.\<close>

definition domain_list :: "string list \<Rightarrow> string list" where
  "domain_list vs = filter (\<lambda>s. s \<noteq> []) (map trim vs)"

text \<open>\<open>from_env\<close> ends the process (\<open>Inl\<close>) on a bad age or a bad page switch. Seconds become milliseconds.\<close>

definition age_from_env :: "string option \<Rightarrow> nat option \<Rightarrow> string + nat option" where
  "age_from_env var d =
    (case var of
       None \<Rightarrow> Inr d
     | Some v \<Rightarrow> (case parse_uint 64 (trim v) of
         Some n \<Rightarrow> Inr (if n = 0 then None else Some (1000 * max 60 (min n 604800)))
       | None \<Rightarrow> Inl ''HYDRA_MAX_CONN_AGE_SECS''))"

definition page_from_env :: "string option \<Rightarrow> bool \<Rightarrow> string + bool" where
  "page_from_env var d =
    (case map_option trim var of
       None \<Rightarrow> Inr d
     | Some t \<Rightarrow> if t = [] then Inr d else if t = ''1'' then Inr True else if t = ''0'' then Inr False
                 else Inl ''HYDRA_FALLBACK_PAGE'')"

definition options_from_env :: "env_vars \<Rightarrow> string + node_options" where
  "options_from_env env =
    (let d = default_options;
         cert = (case env ''HYDRA_CERT_FILE'' of Some v \<Rightarrow> v | None \<Rightarrow> opt_cert_file d);
         key = (case env ''HYDRA_KEY_FILE'' of Some v \<Rightarrow> v | None \<Rightarrow> opt_key_file d);
         domains = (case env ''HYDRA_CERT_DOMAINS'' of
                      Some v \<Rightarrow> (let ds = domain_list (split_on CHR '','' v)
                                 in if ds \<noteq> [] then ds else opt_cert_domains d)
                    | None \<Rightarrow> opt_cert_domains d);
         conns = (case Option.bind (env ''HYDRA_MAX_CONNECTIONS'') (parse_uint 32) of
                    Some n \<Rightarrow> of_nat n | None \<Rightarrow> opt_max_connections d);
         signal = (case env ''HYDRA_P2P_SIGNAL'' of Some v \<Rightarrow> trim v = ''1'' | None \<Rightarrow> opt_p2p_signal d)
     in case age_from_env (env ''HYDRA_MAX_CONN_AGE_SECS'') (opt_max_conn_age d) of
          Inl e \<Rightarrow> Inl e
        | Inr age \<Rightarrow>
            (case page_from_env (env ''HYDRA_FALLBACK_PAGE'') (opt_fallback_page d) of
               Inl e \<Rightarrow> Inl e
             | Inr page \<Rightarrow>
                 Inr (d \<lparr> opt_max_connections := conns, opt_cert_file := cert, opt_key_file := key,
                        opt_cert_domains := domains, opt_p2p_signal := signal,
                        opt_fallback_page := page, opt_max_conn_age := age \<rparr>)))"

datatype auth_key_source = Inline string | File string

record effective_config =
  eff_listen_addr :: sock_addr
  eff_max_connections :: u32
  eff_cert_file :: string
  eff_key_file :: string
  eff_cert_domains :: "string list"
  eff_health_addr :: "sock_addr option"
  eff_log_level :: string
  eff_auth_key_source :: auth_key_source
  eff_fallback_page :: bool

section \<open>The configuration file\<close>

definition probe_paths :: "string list" where
  "probe_paths = [''./node.toml'', ''/etc/hydra/node.toml'']"

definition resolve_config_path :: "disk_view \<Rightarrow> string option \<Rightarrow> env_vars \<Rightarrow> string option" where
  "resolve_config_path dv cli env =
    (case cli of
       Some p \<Rightarrow> Some p
     | None \<Rightarrow>
         (case env ''HYDRA_NODE_CONFIG'' of
            Some v \<Rightarrow> if trim v \<noteq> [] then Some (trim v) else None
          | None \<Rightarrow> find (path_exists dv) probe_paths))"

definition read_to_string :: "disk_view \<Rightarrow> string \<Rightarrow> string option" where
  "read_to_string dv p = Option.bind (read_file dv p) from_utf8"

definition load_file_layer ::
  "(string \<Rightarrow> string + node_file_config) \<Rightarrow> disk_view \<Rightarrow> string option \<Rightarrow> env_vars \<Rightarrow>
   string + (string \<times> node_file_config) option" where
  "load_file_layer toml dv cli env =
    (case resolve_config_path dv cli env of
       None \<Rightarrow> Inr None
     | Some p \<Rightarrow>
         (case read_to_string dv p of
            None \<Rightarrow> Inl ''read config''
          | Some t \<Rightarrow> (case toml t of Inl e \<Rightarrow> Inl e | Inr c \<Rightarrow> Inr (Some (p, c)))))"

section \<open>Resolving the layers\<close>

definition parse_addr :: "string \<Rightarrow> string \<Rightarrow> string + sock_addr option" where
  "parse_addr v what = (case parse_sock_addr (trim v) of Some a \<Rightarrow> Inr (Some a) | None \<Rightarrow> Inl what)"

definition parse_addr_file :: "string option \<Rightarrow> string \<Rightarrow> string + sock_addr option" where
  "parse_addr_file file_v field_name =
    (case file_v of
       Some v \<Rightarrow> if trim v = [] then Inr None else parse_addr v field_name
     | None \<Rightarrow> Inr None)"

definition parse_addr_opt :: "string option \<Rightarrow> string option \<Rightarrow> string \<Rightarrow> string \<Rightarrow> string + sock_addr option" where
  "parse_addr_opt env_v file_v env_name field_name =
    (case env_v of
       Some v \<Rightarrow> if trim v = [] then parse_addr_file file_v field_name else parse_addr v env_name
     | None \<Rightarrow> parse_addr_file file_v field_name)"

definition parse_u32_field :: "string option \<Rightarrow> u32 option \<Rightarrow> string \<Rightarrow> u32 \<Rightarrow> string + u32" where
  "parse_u32_field env_v file_v env_name d =
    (case env_v of
       Some v \<Rightarrow>
         if trim v = [] then Inr (case file_v of Some n \<Rightarrow> n | None \<Rightarrow> d)
         else (case parse_uint 32 (trim v) of Some n \<Rightarrow> Inr (of_nat n) | None \<Rightarrow> Inl env_name)
     | None \<Rightarrow> Inr (case file_v of Some n \<Rightarrow> n | None \<Rightarrow> d))"

text \<open>The choices of \<open>resolve\<close> that cannot fail: paths, names and the log level.\<close>

definition or_else :: "'a option \<Rightarrow> 'a option \<Rightarrow> 'a option" where
  "or_else a b = (case a of Some x \<Rightarrow> Some x | None \<Rightarrow> b)"

definition resolve_domains :: "string option \<Rightarrow> string list option \<Rightarrow> string list" where
  "resolve_domains env_v file_v =
    (case or_else (map_option (\<lambda>v. domain_list (split_on CHR '','' v)) env_v) (map_option domain_list file_v) of
       Some v \<Rightarrow> if v \<noteq> [] then v else opt_cert_domains default_options
     | None \<Rightarrow> opt_cert_domains default_options)"

definition resolve_log_level :: "string option \<Rightarrow> string option \<Rightarrow> string" where
  "resolve_log_level env_v file_v =
    (case map_option trim (or_else env_v file_v) of
       Some s \<Rightarrow> if s \<noteq> [] then s else ''info''
     | None \<Rightarrow> ''info'')"

definition non_blank :: "string option \<Rightarrow> string option" where
  "non_blank v = (case v of Some s \<Rightarrow> if trim s \<noteq> [] then Some s else None | None \<Rightarrow> None)"

definition resolve_key_source :: "env_vars \<Rightarrow> string option \<Rightarrow> string + auth_key_source" where
  "resolve_key_source env file_v =
    (case non_blank (env ''HYDRA_AUTH_KEY'') of
       Some h \<Rightarrow> Inr (Inline (trim h))
     | None \<Rightarrow>
         (case non_blank (env ''HYDRA_AUTH_KEY_FILE'') of
            Some p \<Rightarrow> Inr (File (trim p))
          | None \<Rightarrow>
              (case non_blank file_v of
                 Some p \<Rightarrow> Inr (File (trim p))
               | None \<Rightarrow> Inl ''no auth key'')))"

definition resolve :: "sock_addr option \<Rightarrow> env_vars \<Rightarrow> node_file_config option \<Rightarrow> string + effective_config" where
  "resolve cli env file =
    (let d = default_options; f = (case file of Some f \<Rightarrow> f | None \<Rightarrow> empty_file) in
     case (case cli of
             Some a \<Rightarrow> Inr a
           | None \<Rightarrow>
               (case parse_addr_opt (env ''HYDRA_LISTEN'') (file_listen_addr f) ''HYDRA_LISTEN'' ''listen_addr'' of
                  Inl e \<Rightarrow> Inl e
                | Inr a \<Rightarrow> Inr (case a of Some a \<Rightarrow> a | None \<Rightarrow> SockV4 0 8080))) of
       Inl e \<Rightarrow> Inl e
     | Inr listen \<Rightarrow>
     (case parse_u32_field (env ''HYDRA_MAX_CONNECTIONS'') (file_max_connections f) ''HYDRA_MAX_CONNECTIONS''
             (opt_max_connections d) of
       Inl e \<Rightarrow> Inl e
     | Inr conns \<Rightarrow>
     (case parse_addr_opt (env ''HYDRA_HEALTH_ADDR'') (file_health_addr f) ''HYDRA_HEALTH_ADDR'' ''health_addr'' of
       Inl e \<Rightarrow> Inl e
     | Inr health \<Rightarrow>
     (case page_from_env (env ''HYDRA_FALLBACK_PAGE'')
             (case file_fallback_page f of Some b \<Rightarrow> b | None \<Rightarrow> opt_fallback_page d) of
       Inl e \<Rightarrow> Inl e
     | Inr page \<Rightarrow>
     (case resolve_key_source env (file_auth_key_file f) of
       Inl e \<Rightarrow> Inl e
     | Inr src \<Rightarrow>
         Inr \<lparr> eff_listen_addr = listen, eff_max_connections = max conns 1,
               eff_cert_file = (case or_else (env ''HYDRA_CERT_FILE'') (file_cert_file f) of
                                  Some v \<Rightarrow> v | None \<Rightarrow> opt_cert_file d),
               eff_key_file = (case or_else (env ''HYDRA_KEY_FILE'') (file_key_file f) of
                                 Some v \<Rightarrow> v | None \<Rightarrow> opt_key_file d),
               eff_cert_domains = resolve_domains (env ''HYDRA_CERT_DOMAINS'') (file_cert_domains f),
               eff_health_addr = health,
               eff_log_level = resolve_log_level (env ''HYDRA_LOG_LEVEL'') (file_log_level f),
               eff_auth_key_source = src, eff_fallback_page = page \<rparr>)))))"

section \<open>The key\<close>

definition decode_auth_key :: "string \<Rightarrow> string + byte list" where
  "decode_auth_key h =
    (case hex_decode h of
       Inl e \<Rightarrow> Inl e
     | Inr key \<Rightarrow> if length key = 32 then Inr key else Inl ''auth key length'')"

definition read_auth_key_file :: "disk_view \<Rightarrow> string \<Rightarrow> string + string" where
  "read_auth_key_file dv p =
    (case read_to_string dv p of None \<Rightarrow> Inl ''read auth key'' | Some t \<Rightarrow> Inr (trim t))"

definition load_auth_key :: "disk_view \<Rightarrow> auth_key_source \<Rightarrow> string + byte list" where
  "load_auth_key dv src =
    (case (case src of Inline h \<Rightarrow> Inr h | File p \<Rightarrow> read_auth_key_file dv p) of
       Inl e \<Rightarrow> Inl e
     | Inr h \<Rightarrow> decode_auth_key h)"

section \<open>Old log files\<close>

text \<open>
  The entries of the directory: name (\<open>None\<close>: not UTF-8), time of the last change since the
  epoch (\<open>None\<close>: unknown) and whether it can be removed. The result is what stays.
\<close>

record log_entry =
  entry_name :: "string option"
  entry_modified :: "nat option"
  removable :: bool

definition is_rotated :: "log_entry \<Rightarrow> bool" where
  "is_rotated e = (case entry_name e of Some n \<Rightarrow> contains ''.log.'' n | None \<Rightarrow> False)"

definition clean_stale_roll_logs :: "nat option \<Rightarrow> log_entry list \<Rightarrow> log_entry list" where
  "clean_stale_roll_logs now entries =
    (case now of
       None \<Rightarrow> entries
     | Some t \<Rightarrow>
         (let cutoff = t - 7 * 24 * 3600 * 1000
          in filter (\<lambda>e. \<not> (is_rotated e \<and> (case entry_modified e of Some m \<Rightarrow> m \<le> cutoff | None \<Rightarrow> False) \<and> removable e))
                    entries))"

section \<open>The command line and the start\<close>

record cli_args =
  arg_listen :: "sock_addr option"
  arg_config :: "string option"

datatype exit = Help | Failed string

text \<open>The arguments after the name of the program.\<close>

fun parse_args :: "string list \<Rightarrow> cli_args \<Rightarrow> exit + cli_args" where
  "parse_args [] c = Inr c"
| "parse_args (a # rest) c =
    (if a = ''--auth-key'' then Inl (Failed ''auth-key removed'')
     else if a = ''--config'' then
       (case rest of
          [] \<Rightarrow> Inr (c \<lparr> arg_config := None \<rparr>)
        | v # rest' \<Rightarrow> parse_args rest' (c \<lparr> arg_config := Some v \<rparr>))
     else if a = ''--help'' \<or> a = ''-h'' then Inl Help
     else
       (case (if arg_listen c = None then parse_sock_addr a else None) of
          Some addr \<Rightarrow> parse_args rest (c \<lparr> arg_listen := Some addr \<rparr>)
        | None \<Rightarrow>
            if starts_with a ''--'' then Inl (Failed ''unknown argument'')
            else if \<not> starts_with a ''-'' then Inl (Failed ''bad position'')
            else parse_args rest c))"

record node_start =
  st_listen :: sock_addr
  st_key :: "byte list"
  st_options :: node_options
  st_health :: "sock_addr option"
  st_log_level :: string

text \<open>
  \<open>main\<close> up to \<open>HydraServer::new\<close>. The level is one the logging crate accepts, or \<open>RUST_LOG\<close>
  is set to one (\<open>level_ok\<close>).
\<close>

definition start_node ::
  "(string \<Rightarrow> string + node_file_config) \<Rightarrow> (string \<Rightarrow> bool) \<Rightarrow> disk_view \<Rightarrow> env_vars \<Rightarrow> string list \<Rightarrow> exit + node_start" where
  "start_node toml level_ok dv env args =
    (case parse_args args \<lparr> arg_listen = None, arg_config = None \<rparr> of
       Inl e \<Rightarrow> Inl e
     | Inr a \<Rightarrow>
     (case load_file_layer toml dv (arg_config a) env of
       Inl e \<Rightarrow> Inl (Failed e)
     | Inr fl \<Rightarrow>
     (case resolve (arg_listen a) env (map_option snd fl) of
       Inl e \<Rightarrow> Inl (Failed e)
     | Inr cfg \<Rightarrow>
     (case load_auth_key dv (eff_auth_key_source cfg) of
       Inl e \<Rightarrow> Inl (Failed e)
     | Inr key \<Rightarrow>
     if \<not> level_ok (eff_log_level cfg) then Inl (Failed ''log level'')
     else
     (case options_from_env env of
       Inl e \<Rightarrow> Inl (Failed e)
     | Inr eo \<Rightarrow>
         Inr \<lparr> st_listen = eff_listen_addr cfg, st_key = key,
               st_options = \<lparr> opt_max_connections = eff_max_connections cfg, opt_cert_file = eff_cert_file cfg,
                 opt_key_file = eff_key_file cfg, opt_cert_domains = eff_cert_domains cfg,
                 opt_p2p_signal = opt_p2p_signal eo, opt_fallback_page = eff_fallback_page cfg,
                 opt_idle_timeout = None, opt_max_conn_age = opt_max_conn_age eo \<rparr>,
               st_health = eff_health_addr cfg, st_log_level = eff_log_level cfg \<rparr>)))))"

section \<open>What a started node runs with\<close>

text \<open>The value of the first layer that sets it; a blank value sets nothing.\<close>

fun first_set :: "string option list \<Rightarrow> string option" where
  "first_set [] = None"
| "first_set (v # vs) = (case v of Some s \<Rightarrow> if trim s \<noteq> [] then Some (trim s) else first_set vs | None \<Rightarrow> first_set vs)"

text \<open>A layer that is given at all decides, also when it is blank.\<close>

fun first_given :: "'a option list \<Rightarrow> 'a option" where
  "first_given [] = None"
| "first_given (v # vs) = (case v of Some s \<Rightarrow> Some s | None \<Rightarrow> first_given vs)"

definition addr_of :: "string option \<Rightarrow> sock_addr option" where
  "addr_of v = Option.bind v parse_sock_addr"

text \<open>The age limit: no limit, or between a minute and a week.\<close>

definition age_ok :: "nat option \<Rightarrow> bool" where
  "age_ok a = (case a of None \<Rightarrow> True | Some t \<Rightarrow> 60 * 1000 \<le> t \<and> t \<le> 604800 * 1000)"

definition name_ok :: "string \<Rightarrow> bool" where "name_ok s \<longleftrightarrow> s \<noteq> []"

lemma parse_addr_opt_first_set:
  "parse_addr_opt e f en fn =
     (case first_set [e] of
        Some v \<Rightarrow> (case parse_sock_addr v of Some a \<Rightarrow> Inr (Some a) | None \<Rightarrow> Inl en)
      | None \<Rightarrow> (case first_set [f] of
          Some v \<Rightarrow> (case parse_sock_addr v of Some a \<Rightarrow> Inr (Some a) | None \<Rightarrow> Inl fn)
        | None \<Rightarrow> Inr None))"
  by (simp add: parse_addr_opt_def parse_addr_file_def parse_addr_def split: option.split)

lemma first_set_two: "first_set [e, f] = or_else (first_set [e]) (first_set [f])"
  by (simp add: or_else_def split: option.split)

text \<open>An address is the one of the first layer that sets it; a bad address of this layer is an error.\<close>

lemma parse_addr_opt_layers:
  "\<exists>tag. parse_addr_opt e f en fn =
     (case first_set [e, f] of
        None \<Rightarrow> Inr None
      | Some v \<Rightarrow> (case parse_sock_addr v of Some a \<Rightarrow> Inr (Some a) | None \<Rightarrow> Inl tag))"
  unfolding parse_addr_opt_first_set first_set_two or_else_def by (auto simp del: first_set.simps split: option.split)

lemma parse_addr_opt_Inr: "parse_addr_opt e f en fn = Inr a \<Longrightarrow> a = addr_of (first_set [e, f])"
  using parse_addr_opt_layers [of e f en fn]
  by (cases "first_set [e, f]") (auto simp: addr_of_def simp del: first_set.simps split: option.splits)

lemma parse_u32_field_Inr:
  assumes "parse_u32_field e f en d = Inr n"
  shows "case first_set [e] of
           Some v \<Rightarrow> (\<exists>k. parse_uint 32 v = Some k \<and> n = of_nat k)
         | None \<Rightarrow> n = (case f of Some k \<Rightarrow> k | None \<Rightarrow> d)"
  using assms by (auto simp: parse_u32_field_def split: option.splits if_splits)

lemma age_from_env_ok: "age_from_env v d = Inr a \<Longrightarrow> age_ok d \<Longrightarrow> age_ok a"
  by (auto simp: age_from_env_def age_ok_def split: option.splits if_splits)

lemma resolve_domains_ok: "resolve_domains e f \<noteq> [] \<and> list_all name_ok (resolve_domains e f)"
proof -
  have "list_all name_ok (domain_list v)" for v by (auto simp: domain_list_def list_all_iff name_ok_def)
  moreover have "list_all name_ok (opt_cert_domains default_options) \<and> opt_cert_domains default_options \<noteq> []"
    by (simp add: default_options_def name_ok_def)
  ultimately show ?thesis by (auto simp: resolve_domains_def or_else_def split: option.splits)
qed

lemma resolve_log_level_ok: "resolve_log_level e f \<noteq> []"
  by (auto simp: resolve_log_level_def split: option.splits)

lemma resolve_key_source_first:
  "resolve_key_source env f = Inr src \<Longrightarrow>
   (case first_set [env ''HYDRA_AUTH_KEY''] of
      Some h \<Rightarrow> src = Inline h
    | None \<Rightarrow> Some src = map_option File (first_set [env ''HYDRA_AUTH_KEY_FILE'', f]))"
  by (auto simp: resolve_key_source_def non_blank_def split: option.splits if_splits)

lemma load_auth_key_length: "load_auth_key dv src = Inr key \<Longrightarrow> length key = 32"
  by (auto simp: load_auth_key_def decode_auth_key_def split: sum.splits if_splits)

text \<open>The clean-up removes only rotated files that have not changed for a week.\<close>

lemma clean_stale_roll_logs_only_stale:
  "e \<in> set entries - set (clean_stale_roll_logs now entries) \<Longrightarrow>
   \<exists>t m. now = Some t \<and> entry_modified e = Some m \<and> is_rotated e \<and> m \<le> t - 7 * 24 * 3600 * 1000"
  by (auto simp: clean_stale_roll_logs_def Let_def split: option.splits)

text \<open>An unknown argument with one dash, and \<open>--config\<close> as the last argument, are not errors.\<close>

lemma parse_sock_x: "parse_sock_addr ''-x'' = None" by code_simp

lemma parse_sock_c: "parse_sock_addr ''-config'' = None" by code_simp

lemma single_dash_ignored: "parse_args [''-x'', ''-config'', ''--config''] c = Inr (c \<lparr> arg_config := None \<rparr>)"
  by (cases "arg_listen c") (simp_all add: starts_with_def parse_sock_x parse_sock_c)

definition bad_addr :: "string option \<Rightarrow> bool" where
  "bad_addr v = (case v of Some s \<Rightarrow> parse_sock_addr s = None | None \<Rightarrow> False)"

definition bad_switch :: "string option \<Rightarrow> bool" where
  "bad_switch v = (case v of Some s \<Rightarrow> s \<notin> {''0'', ''1''} | None \<Rightarrow> False)"

lemma parse_addr_opt_Inl: "parse_addr_opt e f en fn = Inl x \<Longrightarrow> bad_addr (first_set [e, f])"
  using parse_addr_opt_layers [of e f en fn] by (auto simp: bad_addr_def simp del: first_set.simps split: option.splits)

lemma parse_u32_field_Inl:
  "parse_u32_field e f en d = Inl x \<Longrightarrow> \<exists>v. first_set [e] = Some v \<and> parse_uint 32 v = None"
  by (auto simp: parse_u32_field_def split: option.splits if_splits)

lemma page_from_env_Inl: "page_from_env v d = Inl x \<Longrightarrow> bad_switch (first_set [v])"
  by (auto simp: page_from_env_def bad_switch_def split: option.splits if_splits)

lemma page_from_env_Inr:
  "page_from_env v d = Inr b \<Longrightarrow> b = (case first_set [v] of Some s \<Rightarrow> s = ''1'' | None \<Rightarrow> d)"
  by (auto simp: page_from_env_def split: option.splits if_splits)

lemma resolve_key_source_Inl:
  "resolve_key_source env f = Inl x \<Longrightarrow> first_set [env ''HYDRA_AUTH_KEY'', env ''HYDRA_AUTH_KEY_FILE'', f] = None"
  by (auto simp: resolve_key_source_def non_blank_def split: option.splits if_splits)

definition wrong_setting :: "sock_addr option \<Rightarrow> env_vars \<Rightarrow> node_file_config \<Rightarrow> bool" where
  "wrong_setting cli env f \<longleftrightarrow>
     cli = None \<and> bad_addr (first_set [env ''HYDRA_LISTEN'', file_listen_addr f]) \<or>
     bad_addr (first_set [env ''HYDRA_HEALTH_ADDR'', file_health_addr f]) \<or>
     (\<exists>v. first_set [env ''HYDRA_MAX_CONNECTIONS''] = Some v \<and> parse_uint 32 v = None) \<or>
     bad_switch (first_set [env ''HYDRA_FALLBACK_PAGE'']) \<or>
     first_set [env ''HYDRA_AUTH_KEY'', env ''HYDRA_AUTH_KEY_FILE'', file_auth_key_file f] = None"

definition file_or_empty :: "node_file_config option \<Rightarrow> node_file_config" where
  "file_or_empty file = (case file of Some f \<Rightarrow> f | None \<Rightarrow> empty_file)"

lemma good_addr: "parse_addr_opt e f en fn = Inr a \<Longrightarrow> \<not> bad_addr (first_set [e, f])"
  using parse_addr_opt_layers [of e f en fn] by (auto simp: bad_addr_def simp del: first_set.simps split: option.splits)

lemma good_number: "parse_u32_field e f en d = Inr n \<Longrightarrow> first_set [e] = Some v \<Longrightarrow> parse_uint 32 v \<noteq> None"
  by (auto simp: parse_u32_field_def split: option.splits if_splits)

lemma good_switch: "page_from_env v d = Inr b \<Longrightarrow> \<not> bad_switch (first_set [v])"
  by (auto simp: page_from_env_def bad_switch_def split: option.splits if_splits)

lemma given_key:
  "resolve_key_source env f = Inr src \<Longrightarrow> first_set [env ''HYDRA_AUTH_KEY'', env ''HYDRA_AUTH_KEY_FILE'', f] \<noteq> None"
  by (auto simp: resolve_key_source_def non_blank_def split: option.splits if_splits)

text \<open>The stations of \<open>resolve\<close>.\<close>

lemma resolve_cases:
  obtains (Wrong) e where "resolve cli env file = Inl e" "wrong_setting cli env (file_or_empty file)"
  | (Ok) c n where "resolve cli env file = Inr c" "\<not> wrong_setting cli env (file_or_empty file)" "eff_max_connections c = max n 1"
      "parse_u32_field (env ''HYDRA_MAX_CONNECTIONS'') (file_max_connections (file_or_empty file)) ''HYDRA_MAX_CONNECTIONS'' 1000 = Inr n"
      "eff_listen_addr c = (case cli of Some a \<Rightarrow> a | None \<Rightarrow>
         (case addr_of (first_set [env ''HYDRA_LISTEN'', file_listen_addr (file_or_empty file)]) of Some a \<Rightarrow> a | None \<Rightarrow> SockV4 0 8080))"
      "eff_health_addr c = addr_of (first_set [env ''HYDRA_HEALTH_ADDR'', file_health_addr (file_or_empty file)])"
      "page_from_env (env ''HYDRA_FALLBACK_PAGE'') (case file_fallback_page (file_or_empty file) of Some b \<Rightarrow> b | None \<Rightarrow> False) = Inr (eff_fallback_page c)"
      "resolve_key_source env (file_auth_key_file (file_or_empty file)) = Inr (eff_auth_key_source c)"
      "eff_cert_domains c = resolve_domains (env ''HYDRA_CERT_DOMAINS'') (file_cert_domains (file_or_empty file))"
      "eff_log_level c = resolve_log_level (env ''HYDRA_LOG_LEVEL'') (file_log_level (file_or_empty file))"
      "eff_cert_file c = (case first_given [env ''HYDRA_CERT_FILE'', file_cert_file (file_or_empty file)] of Some v \<Rightarrow> v | None \<Rightarrow> ''hydra-node-cert.der'')"
      "eff_key_file c = (case first_given [env ''HYDRA_KEY_FILE'', file_key_file (file_or_empty file)] of Some v \<Rightarrow> v | None \<Rightarrow> ''hydra-node-key.der'')"
proof -
  define f where f: "f = file_or_empty file"
  let ?l = "case cli of Some a \<Rightarrow> Inr a | None \<Rightarrow>
     (case parse_addr_opt (env ''HYDRA_LISTEN'') (file_listen_addr f) ''HYDRA_LISTEN'' ''listen_addr'' of
        Inl e \<Rightarrow> Inl e | Inr a \<Rightarrow> Inr (case a of Some a \<Rightarrow> a | None \<Rightarrow> SockV4 0 8080))"
  let ?c = "parse_u32_field (env ''HYDRA_MAX_CONNECTIONS'') (file_max_connections f) ''HYDRA_MAX_CONNECTIONS''
     (opt_max_connections default_options)"
  let ?h = "parse_addr_opt (env ''HYDRA_HEALTH_ADDR'') (file_health_addr f) ''HYDRA_HEALTH_ADDR'' ''health_addr''"
  let ?p = "page_from_env (env ''HYDRA_FALLBACK_PAGE'')
     (case file_fallback_page f of Some b \<Rightarrow> b | None \<Rightarrow> opt_fallback_page default_options)"
  let ?s = "resolve_key_source env (file_auth_key_file f)"
  note r = resolve_def [of cli env "file", unfolded Let_def, folded file_or_empty_def f]
  consider (l) e where "?l = Inl e" | (c) l e where "?l = Inr l" "?c = Inl e"
    | (h) l n e where "?l = Inr l" "?c = Inr n" "?h = Inl e"
    | (p) l n h e where "?l = Inr l" "?c = Inr n" "?h = Inr h" "?p = Inl e"
    | (s) l n h b e where "?l = Inr l" "?c = Inr n" "?h = Inr h" "?p = Inr b" "?s = Inl e"
    | (ok) l n h b s where "?l = Inr l" "?c = Inr n" "?h = Inr h" "?p = Inr b" "?s = Inr s"
    by (cases "?l"; cases "?c"; cases "?h"; cases "?p"; cases "?s") blast+
  then show ?thesis
  proof cases
    case l
    then show ?thesis
      by (intro Wrong [folded f])
        (auto simp: r wrong_setting_def simp del: first_set.simps split: option.splits sum.splits dest: parse_addr_opt_Inl)
  next
    case c
    then show ?thesis using parse_u32_field_Inl [OF c(2)]
      by (intro Wrong [folded f]) (auto simp: r wrong_setting_def simp del: first_set.simps)
  next
    case h
    then show ?thesis using parse_addr_opt_Inl [OF h(3)]
      by (intro Wrong [folded f]) (simp_all add: r wrong_setting_def del: first_set.simps)
  next
    case p
    then show ?thesis using page_from_env_Inl [OF p(4)]
      by (intro Wrong [folded f]) (simp_all add: r wrong_setting_def del: first_set.simps)
  next
    case s
    then show ?thesis using resolve_key_source_Inl [OF s(5)]
      by (intro Wrong [folded f]) (simp_all add: r wrong_setting_def del: first_set.simps)
  next
    case ok
    have "l = (case cli of Some a \<Rightarrow> a | None \<Rightarrow>
        (case addr_of (first_set [env ''HYDRA_LISTEN'', file_listen_addr f]) of Some a \<Rightarrow> a | None \<Rightarrow> SockV4 0 8080))"
      using ok(1) by (auto simp del: first_set.simps split: option.splits sum.splits dest!: parse_addr_opt_Inr)
    moreover have "\<not> wrong_setting cli env f"
    proof -
      have "\<not> (cli = None \<and> bad_addr (first_set [env ''HYDRA_LISTEN'', file_listen_addr f]))"
        using ok(1) by (auto simp del: first_set.simps split: sum.splits dest: good_addr)
      then show ?thesis
        using good_number [OF ok(2)] good_addr [OF ok(3)] good_switch [OF ok(4)] given_key [OF ok(5)]
        unfolding wrong_setting_def by blast
    qed
    moreover have "page_from_env (env ''HYDRA_FALLBACK_PAGE'') (case file_fallback_page f of Some b \<Rightarrow> b | None \<Rightarrow> False) = Inr b"
      using ok(4) by (simp add: default_options_def cong: option.case_cong)
    ultimately show ?thesis using ok(2-5) parse_addr_opt_Inr [OF ok(3)]
      by (intro Ok [folded f]) (simp_all add: r ok(1) del: first_set.simps, simp_all add: default_options_def or_else_def split: option.split)
  qed
qed

text \<open>The two settings that are never refused: what the first layer that gives them says, and the
  default where it says nothing.\<close>

lemma resolve_domains_layers:
  "resolve_domains e f =
    (case first_given [map_option (\<lambda>v. filter (\<lambda>s. s \<noteq> []) (map trim (split_on CHR '','' v))) e,
                       map_option (\<lambda>vs. filter (\<lambda>s. s \<noteq> []) (map trim vs)) f] of
       Some (n # ns) \<Rightarrow> n # ns | _ \<Rightarrow> [''hydra.node'', ''localhost''])"
  by (auto simp: resolve_domains_def domain_list_def or_else_def default_options_def split: option.split list.split)

lemma resolve_log_level_layers:
  "resolve_log_level e f =
    (case first_given [e, f] of Some v \<Rightarrow> if trim v = [] then ''info'' else trim v | None \<Rightarrow> ''info'')"
  by (auto simp: resolve_log_level_def or_else_def split: option.split)

text \<open>
  C13: the layers are resolved in their order. With the command line before the environment before
  the file before the default, a result takes each address, the connection limit, the page switch
  and the key from the first layer that sets it to something that is not blank, and the certificate
  paths from the first layer that gives them at all; it allows at least one connection. The
  configuration is refused exactly when one of these values that decides is malformed or no layer
  gives a key: of these, no bad value falls through to the next layer. The certificate names and
  the log level are never refused: they come from the first layer that gives them at all, trimmed
  and without empty names, and where nothing is left of that the default is used, silently and
  past any later layer.
\<close>

theorem resolve_layers:
  "case resolve cli env file of
     Inl _ \<Rightarrow> wrong_setting cli env (file_or_empty file)
   | Inr c \<Rightarrow> \<not> wrong_setting cli env (file_or_empty file) \<and>
       eff_listen_addr c = (case cli of Some a \<Rightarrow> a | None \<Rightarrow>
         (case addr_of (first_set [env ''HYDRA_LISTEN'', file_listen_addr (file_or_empty file)]) of Some a \<Rightarrow> a | None \<Rightarrow> SockV4 0 8080)) \<and>
       eff_health_addr c = addr_of (first_set [env ''HYDRA_HEALTH_ADDR'', file_health_addr (file_or_empty file)]) \<and>
       eff_max_connections c = max 1 (case first_set [env ''HYDRA_MAX_CONNECTIONS''] of
          Some v \<Rightarrow> of_nat (the (parse_uint 32 v))
        | None \<Rightarrow> (case file_max_connections (file_or_empty file) of Some k \<Rightarrow> k | None \<Rightarrow> 1000)) \<and>
       eff_fallback_page c = (case first_set [env ''HYDRA_FALLBACK_PAGE''] of
          Some s \<Rightarrow> s = ''1'' | None \<Rightarrow> file_fallback_page (file_or_empty file) = Some True) \<and>
       (case first_set [env ''HYDRA_AUTH_KEY''] of
          Some h \<Rightarrow> eff_auth_key_source c = Inline h
        | None \<Rightarrow> Some (eff_auth_key_source c) =
                   map_option File (first_set [env ''HYDRA_AUTH_KEY_FILE'', file_auth_key_file (file_or_empty file)])) \<and>
       eff_cert_file c = (case first_given [env ''HYDRA_CERT_FILE'', file_cert_file (file_or_empty file)] of
          Some v \<Rightarrow> v | None \<Rightarrow> ''hydra-node-cert.der'') \<and>
       eff_key_file c = (case first_given [env ''HYDRA_KEY_FILE'', file_key_file (file_or_empty file)] of
          Some v \<Rightarrow> v | None \<Rightarrow> ''hydra-node-key.der'') \<and>
       eff_cert_domains c =
         (case first_given [map_option (\<lambda>v. filter (\<lambda>s. s \<noteq> []) (map trim (split_on CHR '','' v))) (env ''HYDRA_CERT_DOMAINS''),
                            map_option (\<lambda>vs. filter (\<lambda>s. s \<noteq> []) (map trim vs)) (file_cert_domains (file_or_empty file))] of
            Some (n # ns) \<Rightarrow> n # ns | _ \<Rightarrow> [''hydra.node'', ''localhost'']) \<and>
       eff_log_level c =
         (case first_given [env ''HYDRA_LOG_LEVEL'', file_log_level (file_or_empty file)] of
            Some v \<Rightarrow> if trim v = [] then ''info'' else trim v | None \<Rightarrow> ''info'')"
proof (cases rule: resolve_cases [of cli env "file"])
  case (Ok c n)
  have "n = (case first_set [env ''HYDRA_MAX_CONNECTIONS''] of
      Some v \<Rightarrow> of_nat (the (parse_uint 32 v))
    | None \<Rightarrow> (case file_max_connections (file_or_empty file) of Some k \<Rightarrow> k | None \<Rightarrow> 1000))"
    using parse_u32_field_Inr [OF Ok(4)] by (auto split: option.splits)
  moreover have "eff_fallback_page c = (case first_set [env ''HYDRA_FALLBACK_PAGE''] of
      Some s \<Rightarrow> s = ''1'' | None \<Rightarrow> file_fallback_page (file_or_empty file) = Some True)"
    using page_from_env_Inr [OF Ok(7)] by (auto split: option.splits)
  ultimately show ?thesis
    using Ok(1-3,5,6,11,12) resolve_key_source_first [OF Ok(8)]
      Ok(9) [unfolded resolve_domains_layers] Ok(10) [unfolded resolve_log_level_layers]
    by (simp only: sum.case max.commute simp_thms)
qed simp

text \<open>
  C37: what a started node runs with. Whatever the arguments, the environment and the disk hold, a
  node that starts has a key of 32 bytes, room for a connection, names for its certificate, a log
  level the logger takes and an age limit of a minute to a week or none.
\<close>

theorem started_node_settings:
  "case start_node toml level_ok dv env args of
     Inl _ \<Rightarrow> True
   | Inr s \<Rightarrow> length (st_key s) = 32 \<and> 1 \<le> opt_max_connections (st_options s) \<and>
       opt_cert_domains (st_options s) \<noteq> [] \<and> list_all name_ok (opt_cert_domains (st_options s)) \<and>
       level_ok (st_log_level s) \<and> age_ok (opt_max_conn_age (st_options s))"
proof (cases "start_node toml level_ok dv env args")
  case (Inr s)
  then obtain a :: cli_args and fl :: "(string \<times> node_file_config) option" and cfg key eo where st: "resolve (arg_listen a) env (map_option snd fl) = Inr cfg"
      "load_auth_key dv (eff_auth_key_source cfg) = Inr key" "level_ok (eff_log_level cfg)"
      "options_from_env env = Inr eo" and s: "st_key s = key" "st_log_level s = eff_log_level cfg"
      "opt_max_connections (st_options s) = eff_max_connections cfg"
      "opt_cert_domains (st_options s) = eff_cert_domains cfg" "opt_max_conn_age (st_options s) = opt_max_conn_age eo"
    by (auto simp: start_node_def split: sum.splits if_splits)
  have "age_ok (opt_max_conn_age eo)"
    using st(4) by (auto simp: options_from_env_def Let_def default_options_def age_ok_def split: sum.splits
        dest: age_from_env_ok)
  moreover have "1 \<le> eff_max_connections cfg \<and> eff_cert_domains cfg \<noteq> [] \<and> list_all name_ok (eff_cert_domains cfg)"
    by (cases rule: resolve_cases [of "arg_listen a" env "map_option snd fl"])
      (use st(1) resolve_domains_ok in auto)
  ultimately show ?thesis using st load_auth_key_length [OF st(2)] by (simp add: Inr s)
qed simp

end
