(* ===== verification/NodeCert.thy ===== *)
theory NodeCert
  imports RustStr
begin

text \<open>
  The certificate and private key of a node (\<open>hydra-node/src/cert.rs\<close>): two files that are loaded
  when they exist and generated when neither does. The disk is a map of paths. What can go wrong in
  a start is its \<open>faults\<close>: reads, the creation and the writing of each file (a write may stop
  after some bytes) and the removal of the key. The PEM reader and the certificate generator are
  crates, the fields of \<open>cert_lib\<close>. Warnings about permissions and log lines are left out.
\<close>

section \<open>Loading and generating\<close>

datatype private_key = Pkcs8 "byte list" | Pkcs1 "byte list" | Sec1 "byte list"

record cert_lib =
  pem_certs :: "byte list \<Rightarrow> byte list list option"
  pem_pkcs8 :: "byte list \<Rightarrow> byte list list option"
  pem_rsa :: "byte list \<Rightarrow> byte list list option"
  pem_ec :: "byte list \<Rightarrow> byte list list option"
  self_signed :: "string list \<Rightarrow> (byte list \<times> byte list) option"

type_synonym disk = "string \<Rightarrow> byte list option"

datatype write_fault = Works | OpenFails | StopsAfter nat

record faults =
  read_fails :: "string \<Rightarrow> bool"
  key_fault :: write_fault
  cert_fault :: write_fault
  remove_fails :: bool

text \<open>Success gives the chain, leaf first, and the key.\<close>

type_synonym identity = "byte list list \<times> private_key"

definition parse_pem_pair :: "cert_lib \<Rightarrow> byte list \<Rightarrow> byte list \<Rightarrow> identity res" where
  "parse_pem_pair lb cert_pem key_pem =
    (case pem_certs lb cert_pem of
       None \<Rightarrow> Inl (NodeError ''pem cert'')
     | Some certs \<Rightarrow>
         if certs = [] then Inl (NodeError ''no cert'')
         else (case pem_pkcs8 lb key_pem of
            None \<Rightarrow> Inl (NodeError ''pkcs8'')
          | Some (k # _) \<Rightarrow> Inr (certs, Pkcs8 k)
          | Some [] \<Rightarrow>
              (case pem_rsa lb key_pem of
                 None \<Rightarrow> Inl (NodeError ''rsa'')
               | Some (k # _) \<Rightarrow> Inr (certs, Pkcs1 k)
               | Some [] \<Rightarrow>
                   (case pem_ec lb key_pem of
                      None \<Rightarrow> Inl (NodeError ''ec'')
                    | Some (k # _) \<Rightarrow> Inr (certs, Sec1 k)
                    | Some [] \<Rightarrow> Inl (NodeError ''no key'')))))"

definition remove_file :: "faults \<Rightarrow> string \<Rightarrow> disk \<Rightarrow> disk" where
  "remove_file ft p d = (if remove_fails ft then d else d(p := None))"

definition write_key_file_secure :: "faults \<Rightarrow> string \<Rightarrow> byte list \<Rightarrow> disk \<Rightarrow> unit res \<times> disk" where
  "write_key_file_secure ft p key d =
    (if d p \<noteq> None \<or> key_fault ft = OpenFails then (Inl (NodeError ''key create''), d)
     else (case key_fault ft of
        StopsAfter n \<Rightarrow> (Inl (NodeError ''key write''), remove_file ft p (d(p \<mapsto> take n key)))
      | _ \<Rightarrow> (Inr (), d(p \<mapsto> key))))"

text \<open>\<open>fs::write\<close>: creates or empties the file, then writes.\<close>

definition fs_write :: "write_fault \<Rightarrow> string \<Rightarrow> byte list \<Rightarrow> disk \<Rightarrow> bool \<times> disk" where
  "fs_write w p bs d =
    (case w of Works \<Rightarrow> (True, d(p \<mapsto> bs)) | OpenFails \<Rightarrow> (False, d) | StopsAfter n \<Rightarrow> (False, d(p \<mapsto> take n bs)))"

definition PEM_START :: "byte list" where "PEM_START = as_bytes ''-----BEGIN''"

definition fs_read :: "faults \<Rightarrow> string \<Rightarrow> disk \<Rightarrow> byte list res" where
  "fs_read ft p d =
    (if read_fails ft p then Inl (IoError ''read'')
     else (case d p of None \<Rightarrow> Inl (IoError ''read'') | Some bs \<Rightarrow> Inr bs))"

definition load_or_generate ::
  "cert_lib \<Rightarrow> faults \<Rightarrow> string \<Rightarrow> string \<Rightarrow> string list \<Rightarrow> disk \<Rightarrow> identity res \<times> disk" where
  "load_or_generate lb ft cert_file key_file domains d =
    (if d cert_file \<noteq> None \<or> d key_file \<noteq> None then
       (if d cert_file = None \<or> d key_file = None then (Inl (NodeError ''incomplete''), d)
        else
          (bind_res (fs_read ft cert_file d) (\<lambda>cert_raw.
             bind_res (fs_read ft key_file d) (\<lambda>key_raw.
               if starts_with cert_raw PEM_START then parse_pem_pair lb cert_raw key_raw
               else Inr ([cert_raw], Pkcs8 key_raw))), d))
     else
       (case self_signed lb domains of
          None \<Rightarrow> (Inl (NodeError ''self-signed''), d)
        | Some (cert_der, key_der) \<Rightarrow>
            (case write_key_file_secure ft key_file key_der d of
               (Inl e, d1) \<Rightarrow> (Inl e, d1)
             | (Inr _, d1) \<Rightarrow>
                 (case fs_write (cert_fault ft) cert_file cert_der d1 of
                    (False, d2) \<Rightarrow> (Inl (NodeError ''cert write''), remove_file ft key_file d2)
                  | (True, d2) \<Rightarrow> (Inr ([cert_der], Pkcs8 key_der), d2)))))"

section \<open>One identity over all starts\<close>

text \<open>A node is started again and again, each time with other faults and names.\<close>

fun starts :: "cert_lib \<Rightarrow> string \<Rightarrow> string \<Rightarrow> (faults \<times> string list) list \<Rightarrow> disk \<Rightarrow> identity res list \<times> disk" where
  "starts lb c k [] d = ([], d)"
| "starts lb c k ((ft, ds) # ss) d =
    (case load_or_generate lb ft c k ds d of
       (r, d1) \<Rightarrow> (case starts lb c k ss d1 of (rs, d2) \<Rightarrow> (r # rs, d2)))"

definition occupied :: "string \<Rightarrow> string \<Rightarrow> disk \<Rightarrow> bool" where
  "occupied c k d \<longleftrightarrow> d c \<noteq> None \<or> d k \<noteq> None"

text \<open>What the two files say when they can be read.\<close>

definition identity_on :: "cert_lib \<Rightarrow> string \<Rightarrow> string \<Rightarrow> disk \<Rightarrow> identity res" where
  "identity_on lb c k d =
    (case (d c, d k) of
       (Some cert, Some key) \<Rightarrow>
         if starts_with cert PEM_START then parse_pem_pair lb cert key else Inr ([cert], Pkcs8 key)
     | _ \<Rightarrow> Inl (NodeError ''incomplete''))"

text \<open>DER, a sequence, does not start like PEM.\<close>

definition der_ok :: "cert_lib \<Rightarrow> bool" where
  "der_ok lb \<longleftrightarrow> (\<forall>ds cert key. self_signed lb ds = Some (cert, key) \<longrightarrow> \<not> starts_with cert PEM_START)"

lemma start_occupied:
  assumes "occupied c k d"
  shows "snd (load_or_generate lb ft c k ds d) = d"
    "fst (load_or_generate lb ft c k ds d) = Inr i \<Longrightarrow> identity_on lb c k d = Inr i"
  using assms by (auto simp: load_or_generate_def occupied_def identity_on_def fs_read_def bind_res_Inr
      split: if_splits option.splits)

lemma start_free:
  assumes "\<not> occupied c k d" "c \<noteq> k" "der_ok lb" "load_or_generate lb ft c k ds d = (Inr i, d')"
  shows "occupied c k d' \<and> identity_on lb c k d' = Inr i"
proof -
  from assms(1,4) obtain cert key where g: "self_signed lb ds = Some (cert, key)"
    by (auto simp: load_or_generate_def occupied_def split: option.splits)
  moreover have "\<not> starts_with cert PEM_START" using g assms(3) by (auto simp: der_ok_def)
  ultimately show ?thesis using assms(1,2,4)
    by (auto simp: load_or_generate_def occupied_def identity_on_def write_key_file_secure_def fs_write_def
        split: if_splits write_fault.splits)
qed

definition agree :: "identity res \<Rightarrow> identity res \<Rightarrow> bool" where
  "agree stored r \<longleftrightarrow> \<not> is_ok r \<or> r = stored"

lemma start_agrees:
  assumes "c \<noteq> k" "der_ok lb" "load_or_generate lb ft c k ds d = (r, d')"
  shows "agree (identity_on lb c k d') r \<and> (is_ok r \<longrightarrow> occupied c k d') \<and> (occupied c k d \<longrightarrow> d' = d)"
proof (cases "occupied c k d")
  case True
  then show ?thesis using start_occupied [OF True, of lb ft ds] assms(3)
    by (cases r) (auto simp: agree_def)
next
  case False
  then show ?thesis using start_free [OF False assms(1,2)] assms(3) by (cases r) (auto simp: agree_def)
qed

lemma starts_occupied:
  assumes "c \<noteq> k" "der_ok lb" "occupied c k d"
  shows "snd (starts lb c k ss d) = d \<and> list_all (agree (identity_on lb c k d)) (fst (starts lb c k ss d))"
proof (induction ss)
  case (Cons s ss)
  obtain ft ds where s: "s = (ft, ds)" by fastforce
  obtain r d1 where r: "load_or_generate lb ft c k ds d = (r, d1)" by fastforce
  show ?case using Cons start_agrees [OF assms(1,2) r] assms(3) by (auto simp: s r split: prod.split)
qed simp

text \<open>
  C12: a node has one identity, whatever fails. Over any number of starts, each with its own read,
  write, creation and removal faults and its own names, every start that succeeds runs with the
  chain and the key that the two files hold at the end, so all of them agree (clients pin the
  certificate); and when either file existed at first, no start ever changes the disk. The two
  paths differ, and the generated certificate is DER.
\<close>

theorem node_keeps_identity:
  assumes "c \<noteq> k" "der_ok lb"
  shows "list_all (agree (identity_on lb c k (snd (starts lb c k ss d)))) (fst (starts lb c k ss d)) \<and>
    (occupied c k d \<longrightarrow> snd (starts lb c k ss d) = d)"
proof (intro conjI impI)
  show "list_all (agree (identity_on lb c k (snd (starts lb c k ss d)))) (fst (starts lb c k ss d))"
  proof (induction ss arbitrary: d)
    case (Cons s ss)
    obtain ft ds where s: "s = (ft, ds)" by fastforce
    obtain r d1 where r: "load_or_generate lb ft c k ds d = (r, d1)" by fastforce
    have "agree (identity_on lb c k (snd (starts lb c k ss d1))) r"
      using start_agrees [OF assms r] starts_occupied [OF assms, of d1 ss] by (auto simp: agree_def)
    then show ?case using Cons.IH [of d1] by (cases "starts lb c k ss d1") (simp add: s r)
  qed simp
qed (simp add: starts_occupied assms)

text \<open>One failed start and two good ones: the first good one generates, the second loads the same.\<close>

definition demo_certs :: cert_lib where
  "demo_certs = \<lparr> pem_certs = \<lambda>_. None, pem_pkcs8 = \<lambda>_. None, pem_rsa = \<lambda>_. None, pem_ec = \<lambda>_. None,
     self_signed = \<lambda>ds. Some ([0x30, of_nat (length ds)], [7]) \<rparr>"

definition demo_faults :: "write_fault \<Rightarrow> faults" where
  "demo_faults w = \<lparr> read_fails = \<lambda>_. False, key_fault = w, cert_fault = Works, remove_fails = False \<rparr>"

definition demo_starts :: "(faults \<times> string list) list" where
  "demo_starts = [(demo_faults (StopsAfter 0), [''a'']), (demo_faults Works, [''a'']), (demo_faults Works, [''b'', ''c''])]"

lemma demo_certs_ok: "der_ok demo_certs"
  by (auto simp: der_ok_def demo_certs_def PEM_START_def starts_with_def as_bytes_def)

theorem node_keeps_identity_witness:
  "fst (starts demo_certs ''c'' ''k'' demo_starts (\<lambda>_. None)) =
     [Inl (NodeError ''key write''), Inr ([[0x30, 1]], Pkcs8 [7]), Inr ([[0x30, 1]], Pkcs8 [7])] \<and>
   list_all (agree (identity_on demo_certs ''c'' ''k'' (snd (starts demo_certs ''c'' ''k'' demo_starts (\<lambda>_. None)))))
     (fst (starts demo_certs ''c'' ''k'' demo_starts (\<lambda>_. None)))"
proof
  have "\<not> starts_with [0x30, 1 :: byte] PEM_START" by (simp add: PEM_START_def starts_with_def as_bytes_def)
  then show "fst (starts demo_certs ''c'' ''k'' demo_starts (\<lambda>_. None)) =
      [Inl (NodeError ''key write''), Inr ([[0x30, 1]], Pkcs8 [7]), Inr ([[0x30, 1]], Pkcs8 [7])]"
    by (simp add: demo_starts_def demo_faults_def demo_certs_def load_or_generate_def write_key_file_secure_def
        remove_file_def fs_write_def fs_read_def)
  show "list_all (agree (identity_on demo_certs ''c'' ''k'' (snd (starts demo_certs ''c'' ''k'' demo_starts (\<lambda>_. None)))))
      (fst (starts demo_certs ''c'' ''k'' demo_starts (\<lambda>_. None)))"
    by (rule node_keeps_identity [of "''c''" "''k''" demo_certs demo_starts "\<lambda>_. None", THEN conjunct1])
      (simp_all add: demo_certs_ok)
qed

text \<open>
  A start whose certificate write stops half-way removes the key but leaves the piece of the
  certificate: no later start succeeds until someone removes it.
\<close>

lemma cert_write_failure_locks:
  assumes "c \<noteq> k" "der_ok lb" "d c = None" "d k = None" "self_signed lb ds = Some (cert, key)"
    and "key_fault ft = Works" "cert_fault ft = StopsAfter n" "\<not> remove_fails ft"
  shows "list_all (\<lambda>r. \<not> is_ok r) (fst (starts lb c k ((ft, ds) # ss) d))"
proof -
  let ?d = "d(c \<mapsto> take n cert)"
  have r: "load_or_generate lb ft c k ds d = (Inl (NodeError ''cert write''), ?d)"
    using assms by (auto simp: load_or_generate_def write_key_file_secure_def fs_write_def remove_file_def fun_upd_twist)
  have "\<not> is_ok (identity_on lb c k ?d)" using assms(1,4) by (simp add: identity_on_def)
  then have eq: "agree (identity_on lb c k ?d) = (\<lambda>r. \<not> is_ok r)" by (auto simp: agree_def fun_eq_iff)
  then have "list_all (\<lambda>r. \<not> is_ok r) (fst (starts lb c k ss ?d))"
    using starts_occupied [OF assms(1,2), of ?d ss] unfolding eq by (simp add: occupied_def)
  then show ?thesis by (cases "starts lb c k ss ?d") (simp add: r)
qed

end
