(* ===== verification/StreamCodec.thy ===== *)
theory StreamCodec
  imports RustStr
begin

text \<open>
  Reading from an ordered byte stream. The bytes still to come on a TCP or TLS stream
  that ends after them are a byte list; \<open>read_exact\<close> is \<open>AsyncReadExt::read_exact\<close>: it
  takes \<open>n\<close> bytes or fails when the stream ends before them. The locale
  \<open>stream_codec\<close> is the contract between a frame encoder and the reader of the other
  side, with what every user of such a pair relies on: a sequence of frames written
  back to back is read back frame by frame, and two streams that read as the same
  frames are the same bytes.
\<close>

definition read_exact :: "nat \<Rightarrow> byte list \<Rightarrow> (byte list \<times> byte list) option" where
  "read_exact n bs = (if n \<le> length bs then Some (take n bs, drop n bs) else None)"

lemma read_exact_append [codec_simps]:
  "length xs = n \<Longrightarrow> read_exact n (xs @ ys) = Some (xs, ys)"
  by (simp add: read_exact_def)

lemma read_exact_Some_iff:
  "read_exact n bs = Some (x, r) \<longleftrightarrow> bs = x @ r \<and> length x = n"
  by (auto simp: read_exact_def min_def)

lemma read_exact_None_iff: "read_exact n bs = None \<longleftrightarrow> length bs < n"
  by (auto simp: read_exact_def)

text \<open>\<open>read_exact\<close> with the error the caller maps the failure to.\<close>

definition read_or :: "hydra_error \<Rightarrow> nat \<Rightarrow> byte list \<Rightarrow> (byte list \<times> byte list) res" where
  "read_or e n bs = (case read_exact n bs of None \<Rightarrow> Inl e | Some p \<Rightarrow> Inr p)"

lemma read_or_append [codec_simps]: "length xs = n \<Longrightarrow> read_or e n (xs @ ys) = Inr (xs, ys)"
  by (simp add: read_or_def read_exact_append)

lemma read_or_Inr_iff: "read_or e n bs = Inr (x, r) \<longleftrightarrow> bs = x @ r \<and> length x = n"
  by (auto simp: read_or_def read_exact_def min_def)

lemma read_or_Inl_iff: "read_or e n bs = Inl e' \<longleftrightarrow> e' = e \<and> length bs < n"
  by (auto simp: read_or_def read_exact_def)

fun read_frames :: "nat \<Rightarrow> (byte list \<Rightarrow> ('a \<times> byte list) res) \<Rightarrow> byte list \<Rightarrow> ('a list \<times> byte list) res" where
  "read_frames 0 rd bs = Inr ([], bs)"
| "read_frames (Suc n) rd bs =
     bind_res (rd bs) (\<lambda>(x, r). bind_res (read_frames n rd r) (\<lambda>(xs, r'). Inr (x # xs, r')))"

fun write_frames :: "('a \<Rightarrow> byte list res) \<Rightarrow> 'a list \<Rightarrow> byte list res" where
  "write_frames enc [] = Inr []"
| "write_frames enc (x # xs) =
     bind_res (enc x) (\<lambda>b. bind_res (write_frames enc xs) (\<lambda>bs. Inr (b @ bs)))"

locale stream_codec =
  fixes wf :: "'a \<Rightarrow> bool"
    and enc :: "'a \<Rightarrow> byte list res"
    and rd :: "byte list \<Rightarrow> ('a \<times> byte list) res"
  assumes rd_enc: "wf x \<Longrightarrow> enc x = Inr b \<Longrightarrow> rd (b @ r) = Inr (x, r)"
    and enc_rd: "rd bs = Inr (x, r) \<Longrightarrow> wf x \<and> (\<exists>b. enc x = Inr b \<and> bs = b @ r)"
begin

lemma read_frames_write_frames:
  "list_all wf xs \<Longrightarrow> write_frames enc xs = Inr b \<Longrightarrow>
   read_frames (length xs) rd (b @ r) = Inr (xs, r)"
  by (induction xs arbitrary: b) (auto simp: bind_res_Inr rd_enc)

lemma write_frames_read_frames:
  "read_frames n rd bs = Inr (xs, r) \<Longrightarrow>
   length xs = n \<and> list_all wf xs \<and> (\<exists>b. write_frames enc xs = Inr b \<and> bs = b @ r)"
proof (induction n arbitrary: bs xs)
  case (Suc n)
  then obtain x r1 ys where
    "rd bs = Inr (x, r1)" "read_frames n rd r1 = Inr (ys, r)" "xs = x # ys"
    by (auto simp: bind_res_Inr)
  with Suc.IH [of r1 ys] enc_rd [of bs x r1] show ?case
    by (auto simp: bind_res_Inr)
qed simp

lemma enc_inject:
  assumes "wf x" "wf y" "enc x = Inr b" "enc y = Inr (b @ s)"
  shows "x = y \<and> s = []"
proof -
  have "rd (b @ s) = Inr (x, s)" "rd ((b @ s) @ []) = Inr (y, [])"
    using assms rd_enc by blast+
  then show ?thesis by simp
qed

lemma frames_determine_bytes:
  "read_frames n rd bs = Inr (xs, r) \<Longrightarrow> read_frames n rd bs' = Inr (xs, r) \<Longrightarrow> bs = bs'"
  by (metis write_frames_read_frames sum.inject(2))

end

end
