(* ===== verification/Handshake.thy ===== *)
theory Handshake
  imports Auth StreamCodec
begin

text \<open>
  \<open>hydra-protocol/src/handshake.rs\<close>: the authentication mode and the two sides of the
  Noise-PSK handshake with key confirmation. The Noise state machine of the \<open>snow\<close>
  crate, HKDF and SHA-256 of \<open>ring\<close> and the random generator are arguments: a record of
  functions, and a seed for the ephemeral key. What the peer delivers is the stream
  \<open>recv\<close>; a side returns its result, the bytes it wrote and the unread rest. The list
  \<open>io\<close> tells which of the writes, in order, the transport takes.
\<close>

section \<open>Authentication mode\<close>

definition HANDSHAKE_VERSION_BYTE :: byte where "HANDSHAKE_VERSION_BYTE = 0x03"
definition MSG1_LEN :: nat where "MSG1_LEN = 48"
definition MSG2_LEN :: nat where "MSG2_LEN = 48"
definition CONFIRM_LEN :: nat where "CONFIRM_LEN = 32"
definition INFO_C2S :: "byte list" where "INFO_C2S = as_bytes ''hydra v3 tls-bind c2s''"
definition INFO_S2C :: "byte list" where "INFO_S2C = as_bytes ''hydra v3 tls-bind s2c''"

lemmas handshake_consts = HANDSHAKE_VERSION_BYTE_def MSG1_LEN_def MSG2_LEN_def CONFIRM_LEN_def

datatype auth_mode = Auto | V2 | V3

fun auth_mode_str :: "auth_mode \<Rightarrow> string" where
  "auth_mode_str Auto = ''auto''"
| "auth_mode_str V2 = ''v2''"
| "auth_mode_str V3 = ''v3''"

definition auth_mode_parse :: "string \<Rightarrow> auth_mode option" where
  "auth_mode_parse s =
    (let t = to_ascii_lowercase (trim s) in
     if t = ''auto'' then Some Auto
     else if t = ''v2'' then Some V2
     else if t = ''v3'' then Some V3
     else None)"

definition auth_mode_from_env :: "string option \<Rightarrow> auth_mode" where
  "auth_mode_from_env var =
    (case var of
       Some v \<Rightarrow> (case auth_mode_parse v of Some m \<Rightarrow> m | None \<Rightarrow> Auto)
     | None \<Rightarrow> Auto)"

definition accepts_v2 :: "auth_mode \<Rightarrow> bool" where
  "accepts_v2 m = (m \<noteq> V3)"

definition accepts_v3 :: "auth_mode \<Rightarrow> bool" where
  "accepts_v3 m = (m \<noteq> V2)"

section \<open>The two sides\<close>

record 'h crypto =
  noise_build :: "byte list \<Rightarrow> bool \<Rightarrow> byte list \<Rightarrow> 'h option"
  noise_write :: "'h \<Rightarrow> ('h \<times> byte list) option"
  noise_read :: "'h \<Rightarrow> byte list \<Rightarrow> 'h option"
  noise_hash :: "'h \<Rightarrow> byte list"
  hkdf_sha256 :: "byte list \<Rightarrow> byte list \<Rightarrow> byte list \<Rightarrow> byte list option"
  sha256 :: "byte list \<Rightarrow> byte list"

definition cert_fingerprint :: "'h crypto \<Rightarrow> byte list \<Rightarrow> byte list" where
  "cert_fingerprint cr cert_der = sha256 cr cert_der"

definition build :: "'h crypto \<Rightarrow> byte list \<Rightarrow> bool \<Rightarrow> byte list \<Rightarrow> 'h res" where
  "build cr psk initiator seed =
    (if length psk \<noteq> 32 then Inl (ProtocolError ''psk must be 32 bytes'')
     else case noise_build cr psk initiator seed of
            Some hs \<Rightarrow> Inr hs
          | None \<Rightarrow> Inl (ProtocolError ''noise build''))"

definition derive_confirm ::
  "'h crypto \<Rightarrow> byte list \<Rightarrow> byte list \<Rightarrow> byte list \<Rightarrow> byte list \<Rightarrow> byte list res" where
  "derive_confirm cr handshake_hash cert_fp exporter info =
    (case hkdf_sha256 cr (cert_fp @ exporter) handshake_hash info of
       Some out \<Rightarrow> Inr out
     | None \<Rightarrow> Inl (ProtocolError ''hkdf''))"

text \<open>A write that the transport refuses leaves the stream as it was.\<close>

definition try_write :: "bool \<Rightarrow> hydra_error \<Rightarrow> byte list \<Rightarrow> byte list \<Rightarrow> byte list res" where
  "try_write ok e sent bs = (if ok then Inr (sent @ bs) else Inl e)"

type_synonym side_result = "byte list res \<times> byte list \<times> byte list"

definition client_side_with_payload ::
  "'h crypto \<Rightarrow> byte list \<Rightarrow> bool \<times> bool \<Rightarrow> byte list \<Rightarrow> byte list \<Rightarrow> byte list \<Rightarrow>
   byte list \<Rightarrow> byte list option \<Rightarrow> side_result" where
  "client_side_with_payload cr seed io recv psk cert_fp exporter piggyback =
    (case build cr psk True seed of
       Inl e \<Rightarrow> (Inl e, [], recv)
     | Inr hs \<Rightarrow>
    (case noise_write cr hs of
       None \<Rightarrow> (Inl (ProtocolError ''write msg1''), [], recv)
     | Some (hs, msg1) \<Rightarrow>
    (let frame = HANDSHAKE_VERSION_BYTE # msg1 in
     if \<not> fst io then (Inl (ProtocolError ''send msg1''), [], recv)
     else let sent = frame in
    (case read_exact MSG2_LEN recv of
       None \<Rightarrow> (Inl (ProtocolError ''recv msg2''), sent, [])
     | Some (msg2, recv) \<Rightarrow>
    (case noise_read cr hs msg2 of
       None \<Rightarrow> (Inl (ProtocolError ''read msg2''), sent, recv)
     | Some hs \<Rightarrow>
    (let hh = noise_hash cr hs in
    (case derive_confirm cr hh cert_fp exporter INFO_C2S of
       Inl e \<Rightarrow> (Inl e, sent, recv)
     | Inr confirm_c \<Rightarrow>
    (let combined = (case piggyback of Some payload \<Rightarrow> confirm_c @ payload | None \<Rightarrow> confirm_c) in
     if \<not> snd io then (Inl (ProtocolError ''send confirm''), sent, recv)
     else let sent = sent @ combined in
    (case read_exact CONFIRM_LEN recv of
       None \<Rightarrow> (Inl (ProtocolError ''recv confirm_s''), sent, [])
     | Some (confirm_s, recv) \<Rightarrow>
    (case derive_confirm cr hh cert_fp exporter INFO_S2C of
       Inl e \<Rightarrow> (Inl e, sent, recv)
     | Inr expected \<Rightarrow>
         if expected \<noteq> confirm_s then (Inl (ProtocolError ''confirm_s mismatch''), sent, recv)
         else (Inr hh, sent, recv)))))))))))"

definition client_side ::
  "'h crypto \<Rightarrow> byte list \<Rightarrow> bool \<times> bool \<Rightarrow> byte list \<Rightarrow> byte list \<Rightarrow> byte list \<Rightarrow>
   byte list \<Rightarrow> side_result" where
  "client_side cr seed io recv psk cert_fp exporter =
    client_side_with_payload cr seed io recv psk cert_fp exporter None"

definition server_side ::
  "'h crypto \<Rightarrow> byte list \<Rightarrow> bool \<times> bool \<Rightarrow> byte list \<Rightarrow> byte list \<Rightarrow> byte list \<Rightarrow>
   byte list \<Rightarrow> side_result" where
  "server_side cr seed io recv psk cert_fp exporter =
    (case build cr psk False seed of
       Inl e \<Rightarrow> (Inl e, [], recv)
     | Inr hs \<Rightarrow>
    (case read_exact MSG1_LEN recv of
       None \<Rightarrow> (Inl (ProtocolError ''recv msg1''), [], [])
     | Some (msg1, recv) \<Rightarrow>
    (case noise_read cr hs msg1 of
       None \<Rightarrow> (Inl (ProtocolError ''read msg1''), [], recv)
     | Some hs \<Rightarrow>
    (case noise_write cr hs of
       None \<Rightarrow> (Inl (ProtocolError ''write msg2''), [], recv)
     | Some (hs, msg2) \<Rightarrow>
    (if \<not> fst io then (Inl (ProtocolError ''send msg2''), [], recv)
     else let sent = msg2 in
    (case read_exact CONFIRM_LEN recv of
       None \<Rightarrow> (Inl (ProtocolError ''recv confirm_c''), sent, [])
     | Some (confirm_c, recv) \<Rightarrow>
    (let hh = noise_hash cr hs in
    (case derive_confirm cr hh cert_fp exporter INFO_C2S of
       Inl e \<Rightarrow> (Inl e, sent, recv)
     | Inr expected \<Rightarrow>
         if expected \<noteq> confirm_c then (Inl (ProtocolError ''confirm_c mismatch''), sent, recv)
         else
    (case derive_confirm cr hh cert_fp exporter INFO_S2C of
       Inl e \<Rightarrow> (Inl e, sent, recv)
     | Inr confirm_s \<Rightarrow>
         if \<not> snd io then (Inl (ProtocolError ''send confirm_s''), sent, recv)
         else (Inr hh, sent @ confirm_s, recv))))))))))"

section \<open>What the handshake relies on\<close>

text \<open>
  The documented behaviour of \<open>snow\<close> for NNpsk2 under one key: both sides build, the
  messages are 48 bytes, the honest messages are accepted, and both sides end with the
  same 32-byte handshake hash.
\<close>

definition noise_correct :: "'h crypto \<Rightarrow> byte list \<Rightarrow> byte list \<Rightarrow> byte list \<Rightarrow> bool" where
  "noise_correct cr psk seed_c seed_s \<longleftrightarrow>
    (\<exists>i i1 i2 r r1 r2 m1 m2.
      noise_build cr psk True seed_c = Some i \<and> noise_build cr psk False seed_s = Some r \<and>
      noise_write cr i = Some (i1, m1) \<and> length m1 = 48 \<and>
      noise_read cr r m1 = Some r1 \<and> noise_write cr r1 = Some (r2, m2) \<and> length m2 = 48 \<and>
      noise_read cr i1 m2 = Some i2 \<and>
      noise_hash cr i2 = noise_hash cr r2 \<and> length (noise_hash cr r2) = 32)"

text \<open>HKDF-SHA256 of \<open>ring\<close> always yields the 32 bytes asked for.\<close>

definition hkdf_total :: "'h crypto \<Rightarrow> bool" where
  "hkdf_total cr \<longleftrightarrow> (\<forall>s k i. \<exists>out. hkdf_sha256 cr s k i = Some out \<and> length out = 32)"

lemma derive_confirm_total:
  "hkdf_total cr \<Longrightarrow> \<exists>out. derive_confirm cr h f e i = Inr out \<and> length out = 32"
proof -
  assume "hkdf_total cr"
  then obtain out where "hkdf_sha256 cr (f @ e) h i = Some out" "length out = 32"
    unfolding hkdf_total_def by blast
  then show ?thesis by (simp add: derive_confirm_def)
qed

text \<open>A concrete set of functions with the documented behaviour: the state is the pair of
  nonces seen so far, the hash their exclusive or.\<close>

definition demo_crypto :: "(bool \<times> byte list) crypto" where
  "demo_crypto =
    \<lparr> noise_build = (\<lambda>psk ini seed. Some (ini, take 32 seed)),
      noise_write = (\<lambda>(ini, s). Some ((ini, s), s @ replicate 16 0)),
      noise_read = (\<lambda>(ini, s) m. Some (ini, if ini then take 32 m else map2 (XOR) s (take 32 m))),
      noise_hash = snd,
      hkdf_sha256 = (\<lambda>salt ikm info. Some (take 32 (map2 (XOR) (salt @ replicate 32 0) (ikm @ replicate 64 0)))),
      sha256 = (\<lambda>m. take 32 (m @ replicate 32 0)) \<rparr>"

lemma demo_crypto_ok:
  assumes "length sc = 32" "length ss = 32"
  shows "noise_correct demo_crypto psk sc ss"
  unfolding noise_correct_def
  by (rule exI [of _ "(True, sc)"], rule exI [of _ "(True, sc)"],
      rule exI [of _ "(True, map2 (XOR) ss sc)"], rule exI [of _ "(False, ss)"],
      rule exI [of _ "(False, map2 (XOR) ss sc)"], rule exI [of _ "(False, map2 (XOR) ss sc)"],
      rule exI [of _ "sc @ replicate 16 0"], rule exI [of _ "map2 (XOR) ss sc @ replicate 16 0"])
     (simp add: demo_crypto_def assms)

lemma demo_hkdf_total: "hkdf_total demo_crypto"
  by (simp add: hkdf_total_def demo_crypto_def)

section \<open>The course of a handshake\<close>

lemma honest_handshake:
  assumes "length psk = 32" and "noise_correct cr psk seed_c seed_s" and "hkdf_total cr"
  shows "\<exists>hh m1 m2 cc cs.
    length hh = 32 \<and> length m2 = 48 \<and>
    (\<forall>more_s. client_side_with_payload cr seed_c (True, True) (m2 @ cs @ more_s) psk fp ex (Some payload)
      = (Inr hh, HANDSHAKE_VERSION_BYTE # m1 @ cc @ payload, more_s)) \<and>
    (\<forall>extra. server_side cr seed_s (True, True) (m1 @ cc @ payload @ extra) psk fp ex
      = (Inr hh, m2 @ cs, payload @ extra))"
proof -
  from assms(2) obtain i i1 i2 r r1 r2 m1 m2 where n:
    "noise_build cr psk True seed_c = Some i" "noise_build cr psk False seed_s = Some r"
    "noise_write cr i = Some (i1, m1)" "length m1 = 48" "noise_read cr r m1 = Some r1"
    "noise_write cr r1 = Some (r2, m2)" "length m2 = 48" "noise_read cr i1 m2 = Some i2"
    "noise_hash cr i2 = noise_hash cr r2" "length (noise_hash cr r2) = 32"
    unfolding noise_correct_def by blast
  let ?h = "noise_hash cr r2"
  from derive_confirm_total [OF assms(3)] obtain cc cs where
    c: "derive_confirm cr ?h fp ex INFO_C2S = Inr cc" "length cc = 32"
    "derive_confirm cr ?h fp ex INFO_S2C = Inr cs" "length cs = 32" by metis
  have "client_side_with_payload cr seed_c (True, True) (m2 @ cs @ more_s) psk fp ex (Some payload)
      = (Inr ?h, HANDSHAKE_VERSION_BYTE # m1 @ cc @ payload, more_s)" for more_s
    using n c assms(1)
    by (simp add: client_side_with_payload_def build_def handshake_consts read_exact_append Let_def)
  moreover have "server_side cr seed_s (True, True) (m1 @ cc @ payload @ extra) psk fp ex
      = (Inr ?h, m2 @ cs, payload @ extra)" for extra
    using n c assms(1)
    by (simp add: server_side_def build_def handshake_consts read_exact_append Let_def)
  ultimately show ?thesis using n by blast
qed

lemma server_side_result:
  "(case server_side cr seed io recv psk fp ex of
      (Inr hh, sent, rest) \<Rightarrow>
        (\<exists>m1 cc r r1 r2 m2 cs. recv = m1 @ cc @ rest \<and> length m1 = 48 \<and> length psk = 32 \<and>
           noise_build cr psk False seed = Some r \<and>
           noise_read cr r m1 = Some r1 \<and> noise_write cr r1 = Some (r2, m2) \<and>
           hh = noise_hash cr r2 \<and>
           derive_confirm cr hh fp ex INFO_C2S = Inr cc \<and>
           derive_confirm cr hh fp ex INFO_S2C = Inr cs \<and> sent = m2 @ cs)
    | (Inl e, sent, rest) \<Rightarrow>
        (sent = [] \<or> (\<exists>r1 r2. noise_write cr r1 = Some (r2, sent))))"
proof (cases "build cr psk False seed")
  case (Inl e)
  then show ?thesis by (simp add: server_side_def)
next
  case (Inr hs)
  then have b: "length psk = 32" "noise_build cr psk False seed = Some hs"
    by (auto simp: build_def split: if_splits option.splits)
  show ?thesis
    by (auto simp: server_side_def Inr b Let_def handshake_consts read_exact_Some_iff
        split: option.split sum.split prod.split if_split)
qed

text \<open>What the client has written when it stops: nothing; the version byte and its first message;
  or, after a second message that the Noise initiator accepted, also the confirmation with what
  is sent along. It only succeeds on the node's confirmation.\<close>

lemma client_side_result:
  "(case client_side_with_payload cr seed io recv psk fp ex p of (res, sent, rest) \<Rightarrow>
      (sent = [] \<and> \<not> is_ok res) \<or>
      (\<exists>i i1 m1. length psk = 32 \<and> noise_build cr psk True seed = Some i \<and> noise_write cr i = Some (i1, m1) \<and>
        ((sent = HANDSHAKE_VERSION_BYTE # m1 \<and> \<not> is_ok res) \<or>
         (\<exists>i2 m2 cc r2. noise_read cr i1 m2 = Some i2 \<and> recv = m2 @ r2 \<and>
            derive_confirm cr (noise_hash cr i2) fp ex INFO_C2S = Inr cc \<and>
            sent = HANDSHAKE_VERSION_BYTE # m1 @ cc @ (case p of Some b \<Rightarrow> b | None \<Rightarrow> []) \<and>
            (\<not> is_ok res \<or>
             (\<exists>cs. r2 = cs @ rest \<and> derive_confirm cr (noise_hash cr i2) fp ex INFO_S2C = Inr cs))))))"
proof (cases "build cr psk True seed")
  case (Inl e)
  then show ?thesis by (simp add: client_side_with_payload_def)
next
  case (Inr hs)
  then have b: "length psk = 32" "noise_build cr psk True seed = Some hs"
    by (auto simp: build_def split: if_splits option.splits)
  show ?thesis
    by (auto simp: client_side_with_payload_def Inr b Let_def handshake_consts read_exact_Some_iff
        split: option.split sum.split prod.split if_split)
qed

section \<open>Properties\<close>

text \<open>
  the authentication mode printed is the mode parsed, with any letter case, and only
  the three names parse.
\<close>

theorem auth_mode_parse_iff:
  "auth_mode_parse s = Some m \<longleftrightarrow> to_ascii_lowercase (trim s) = auth_mode_str m"
  by (cases m) (auto simp: auth_mode_parse_def Let_def)

text \<open>
  two honest ends with the same key, certificate fingerprint and exporter complete
  the handshake. When each side's stream is what the other wrote, both return the same
  hash, the node is left exactly at the payload the client sent along with its
  confirmation (so the address frame saves a round trip and is not lost), and the client
  is left at the first byte the node sends afterwards.
\<close>

theorem handshake_completes:
  assumes "length psk = 32" and "noise_correct cr psk seed_c seed_s" and "hkdf_total cr"
  shows "\<exists>hh m1 m2 cc cs.
    length hh = 32 \<and> length m2 = 48 \<and>
    client_side_with_payload cr seed_c (True, True) (m2 @ cs @ more_s) psk fp ex (Some payload)
      = (Inr hh, HANDSHAKE_VERSION_BYTE # m1 @ cc @ payload, more_s) \<and>
    server_side cr seed_s (True, True) (m1 @ cc @ payload) psk fp ex
      = (Inr hh, m2 @ cs, payload)"
proof -
  from honest_handshake [OF assms, where payload = payload and fp = fp and ex = ex]
  obtain hh m1 m2 cc cs where
    "length hh = 32" "length m2 = 48"
    "client_side_with_payload cr seed_c (True, True) (m2 @ cs @ more_s) psk fp ex (Some payload)
      = (Inr hh, HANDSHAKE_VERSION_BYTE # m1 @ cc @ payload, more_s)"
    "\<And>extra. server_side cr seed_s (True, True) (m1 @ cc @ payload @ extra) psk fp ex = (Inr hh, m2 @ cs, payload @ extra)"
    by blast
  moreover from this(4) [of "[]"] have
    "server_side cr seed_s (True, True) (m1 @ cc @ payload) psk fp ex = (Inr hh, m2 @ cs, payload)" by simp
  ultimately show ?thesis by blast
qed

theorem handshake_completes_witness:
  "\<exists>hh m1 m2 cc cs.
    length hh = 32 \<and> length m2 = 48 \<and>
    client_side_with_payload demo_crypto (replicate 32 5) (True, True) (m2 @ cs @ [8])
        (replicate 32 1) (replicate 32 2) (replicate 32 3) (Some [6, 7])
      = (Inr hh, HANDSHAKE_VERSION_BYTE # m1 @ cc @ [6, 7], [8]) \<and>
    server_side demo_crypto (replicate 32 9) (True, True) (m1 @ cc @ [6, 7])
        (replicate 32 1) (replicate 32 2) (replicate 32 3)
      = (Inr hh, m2 @ cs, [6, 7])"
  by (rule handshake_completes [OF _ demo_crypto_ok demo_hkdf_total]) simp_all

text \<open>
  C8: a node lets nobody in without the right confirmation. Whatever bytes arrive,
  \<open>server_side\<close> succeeds only if they are a first message the Noise responder accepts
  followed by the confirmation value derived from this handshake's own hash, the node's
  certificate fingerprint and this connection's exporter; and unless that value came the
  node has written at most its second message, so a prober sees no confirmation.
\<close>

theorem server_accepts_only_confirmed:
  "(case server_side cr seed io recv psk fp ex of
      (Inr hh, sent, rest) \<Rightarrow>
        (\<exists>m1 cc r r1 r2 m2 cs. recv = m1 @ cc @ rest \<and> length m1 = 48 \<and> length psk = 32 \<and>
           noise_build cr psk False seed = Some r \<and>
           noise_read cr r m1 = Some r1 \<and> noise_write cr r1 = Some (r2, m2) \<and>
           hh = noise_hash cr r2 \<and>
           derive_confirm cr hh fp ex INFO_C2S = Inr cc \<and>
           derive_confirm cr hh fp ex INFO_S2C = Inr cs \<and> sent = m2 @ cs)
    | (Inl e, sent, rest) \<Rightarrow>
        (sent = [] \<or> (\<exists>r1 r2. noise_write cr r1 = Some (r2, sent))))"
  by (rule server_side_result)

end
