(* ===== verification/TimedReader.thy ===== *)
theory TimedReader
  imports ProxyInput
begin

text \<open>
  Readers of bytes run under a time limit on a timed stream: \<open>timeout(d, f)\<close> around a function
  that reads from a TLS connection, on the client and on the node.
\<close>

text \<open>The bytes that have arrived by a time, whether the stream has ended by then, and the
  stream after some of the bytes were taken.\<close>

definition arrived :: "nat \<Rightarrow> client \<Rightarrow> byte list" where
  "arrived dl c = concat (map snd (takeWhile (\<lambda>(t, _). t \<le> dl) (inbox c)))"

definition ended_by :: "nat \<Rightarrow> client \<Rightarrow> bool" where
  "ended_by dl c \<longleftrightarrow> list_all (\<lambda>(t, _). t \<le> dl) (inbox c) \<and>
    (case tail c of Some (t, _) \<Rightarrow> t \<le> dl | None \<Rightarrow> False)"

fun drop_bytes :: "nat \<Rightarrow> nat \<Rightarrow> (nat \<times> byte list) list \<Rightarrow> nat \<times> (nat \<times> byte list) list" where
  "drop_bytes n now [] = (now, [])"
| "drop_bytes n now ((t, b) # r) =
    (if n = 0 then (now, (t, b) # r)
     else if n < length b then (max now t, (t, drop n b) # r)
     else drop_bytes (n - length b) (max now t) r)"

definition consume :: "nat \<Rightarrow> client \<Rightarrow> client" where
  "consume n c = (case drop_bytes n (clock c) (inbox c) of (t, r) \<Rightarrow> c \<lparr> clock := t, inbox := r \<rparr>)"

text \<open>\<open>timeout(d, f)\<close> for a reader \<open>f\<close> of the bytes: it runs on what has arrived; when it runs
  out of bytes and the stream goes on, the time is up.\<close>

definition run_by :: "nat \<Rightarrow> (byte list \<Rightarrow> 'r \<times> byte list) \<Rightarrow> ('r \<Rightarrow> bool) \<Rightarrow> client \<Rightarrow> 'r \<times> bool \<times> client" where
  "run_by dl f starved c =
    (let avail = arrived dl c in
     case f avail of (r, rest) \<Rightarrow>
       if starved r \<and> \<not> ended_by dl c
       then (r, True, c \<lparr> clock := max (clock c) dl, inbox := dropWhile (\<lambda>(t, _). t \<le> dl) (inbox c) \<rparr>)
       else (r, False, consume (length avail - length rest) c))"

section \<open>What a reader consumes\<close>

definition arrivals :: "client \<Rightarrow> byte list" where
  "arrivals c = concat (map snd (inbox c))"

definition later :: "nat \<Rightarrow> client \<Rightarrow> byte list" where
  "later dl c = concat (map snd (dropWhile (\<lambda>(t, _). t \<le> dl) (inbox c)))"

lemma arrived_later: "arrivals c = arrived dl c @ later dl c"
  unfolding arrivals_def arrived_def later_def
  by (metis concat_append map_append takeWhile_dropWhile_id)

lemma drop_bytes_concat:
  "n \<le> length (concat (map snd s)) \<Longrightarrow> concat (map snd (snd (drop_bytes n now s))) = drop n (concat (map snd s))"
  by (induction n now s rule: drop_bytes.induct) auto

lemma consume_fields [simp]:
  "outbox (consume n c) = outbox c" "writable (consume n c) = writable c" "pending (consume n c) = pending c"
  by (simp_all add: consume_def split: prod.split)

lemma arrivals_consume: "n \<le> length (arrivals c) \<Longrightarrow> arrivals (consume n c) = drop n (arrivals c)"
  using drop_bytes_concat [of n "inbox c" "clock c"] by (auto simp: consume_def arrivals_def split: prod.split)

lemma run_by_done:
  assumes "run_by dl f starved c = (r, late, c')" "f (arrived dl c) = (r', rest)" "arrived dl c = taken @ rest"
  shows "r = r' \<and> outbox c' = outbox c \<and> writable c' = writable c \<and> (late = (starved r \<and> \<not> ended_by dl c)) \<and>
    (\<not> late \<longrightarrow> arrivals c' = rest @ later dl c)"
proof -
  have "arrivals (consume (length taken) c) = rest @ later dl c"
    using arrivals_consume [of "length taken" c] arrived_later [of c dl] assms(3) by simp
  then show ?thesis using assms by (auto simp: run_by_def Let_def split: if_splits)
qed

lemma read_exact_by_arrivals:
  "read_exact_by dl n c = (Got b, c') \<Longrightarrow> arrivals c = b @ arrivals c' \<and> length b = n"
  using read_exact_by_unread [of dl n c b c'] by (simp add: arrivals_def)

lemma arrived_all: "list_all (\<lambda>(t, _). t \<le> dl) (inbox c) \<Longrightarrow> arrived dl c = arrivals c \<and> later dl c = []"
  unfolding arrived_def later_def arrivals_def list_all_iff
  by (simp add: takeWhile_eq_all_conv [THEN iffD2] dropWhile_eq_Nil_conv [THEN iffD2])

lemma drop_bytes_times:
  "list_all (\<lambda>(t, _). t \<le> dl) s \<Longrightarrow> list_all (\<lambda>(t, _). t \<le> dl) (snd (drop_bytes n now s)) \<and>
    now \<le> fst (drop_bytes n now s)"
  by (induction n now s rule: drop_bytes.induct) auto

lemma consume_times: "list_all (\<lambda>(t, _). t \<le> dl) (inbox c) \<Longrightarrow> list_all (\<lambda>(t, _). t \<le> dl) (inbox (consume n c)) \<and>
    clock c \<le> clock (consume n c)"
  using drop_bytes_times [of dl "inbox c" n "clock c"] by (auto simp: consume_def split: prod.split)

text \<open>Segments that have all arrived in time, none of them empty.\<close>

definition prompt_by :: "nat \<Rightarrow> client \<Rightarrow> bool" where
  "prompt_by dl c \<longleftrightarrow> list_all (\<lambda>(t, b). t \<le> dl \<and> b \<noteq> []) (inbox c)"

lemma read_version:
  assumes "prompt_by (clock c + d) c" "arrivals c = v # bs"
  shows "\<exists>c'. read_exact_by (clock c + d) 1 c = (Got [v], c') \<and> arrivals c' = bs \<and>
    list_all (\<lambda>(t, _). t \<le> clock c + d) (inbox c') \<and> clock c \<le> clock c' \<and> outbox c' = outbox c \<and> writable c' = writable c"
proof -
  have "\<exists>c'. read_exact_by (clock c + d) 1 c = (Got (take 1 (concat (map snd (inbox c)))), c') \<and>
      (\<forall>(t, b)\<in>set (inbox c'). t \<le> clock c + d \<and> b \<noteq> [])"
    using assms by (intro read_exact_by_timely) (auto simp: prompt_by_def list_all_iff arrivals_def)
  then obtain c' where c': "read_exact_by (clock c + d) 1 c = (Got [v], c')" "\<forall>(t, b)\<in>set (inbox c'). t \<le> clock c + d \<and> b \<noteq> []"
    using assms(2) by (auto simp: arrivals_def)
  moreover have "arrivals c' = bs" using read_exact_by_arrivals [OF c'(1)] assms(2) by simp
  ultimately show ?thesis using read_exact_by_keeps [OF c'(1)]
    by (intro exI [of _ c']) (auto simp: list_all_iff)
qed

section \<open>Time\<close>

lemma drop_bytes_clock:
  "n \<le> length (concat (map snd (takeWhile (\<lambda>(t, _). t \<le> dl) s))) \<Longrightarrow> fst (drop_bytes n now s) \<le> max now dl"
proof (induction s arbitrary: n now)
  case (Cons x r)
  obtain t b where x: "x = (t, b)" by fastforce
  show ?case
  proof (cases "n = 0 \<or> n < length b")
    case True
    then show ?thesis using Cons.prems x by (auto split: if_splits)
  next
    case False
    then have t: "t \<le> dl" using Cons.prems x by (auto split: if_splits)
    then have "n - length b \<le> length (concat (map snd (takeWhile (\<lambda>(t, _). t \<le> dl) r)))"
      using Cons.prems x by simp
    from Cons.IH [OF this, of "max now t"] show ?thesis using False t x by (simp add: max.absorb1 max.assoc)
  qed
qed simp

lemma run_by_clock:
  assumes "run_by dl f starved c = (r, late, c')"
  shows "clock c' \<le> max (clock c) dl"
proof -
  have "clock (consume n c) \<le> max (clock c) dl" if "n \<le> length (arrived dl c)" for n
    using drop_bytes_clock [of n dl "inbox c" "clock c"] that
    by (simp add: consume_def arrived_def case_prod_beta)
  then show ?thesis using assms by (auto simp: run_by_def Let_def split: prod.splits if_splits)
qed

end
