(* ===== verification/TcpFrame.thy ===== *)
theory TcpFrame
  imports StreamCodec
begin

text \<open>
  \<open>hydra-protocol/src/tcp_frame.rs\<close>: the address frame a client sends after the
  handshake, \<open>[len u16 big endian][target]\<close>, and the two-byte reply of the node. A
  write to the stream appends the bytes to what was written; \<open>sent\<close> is the stream so
  far and \<open>io_ok\<close> whether the transport took the write.
\<close>

section \<open>Constants\<close>

definition MAX_TARGET_LEN :: nat where "MAX_TARGET_LEN = 1024"
definition REPLY_OK :: byte where "REPLY_OK = 0x00"
definition REPLY_TARGET_FAIL :: byte where "REPLY_TARGET_FAIL = 0x01"
definition REPLY_DNS_FAIL :: byte where "REPLY_DNS_FAIL = 0x02"
definition REPLY_LEN :: nat where "REPLY_LEN = 2"

lemmas frame_consts = MAX_TARGET_LEN_def REPLY_OK_def REPLY_TARGET_FAIL_def
  REPLY_DNS_FAIL_def REPLY_LEN_def

section \<open>Address frames\<close>

definition encode_target :: "string \<Rightarrow> byte list res" where
  "encode_target target =
    (let addr = as_bytes target in
     if addr = [] \<or> length addr > MAX_TARGET_LEN
     then Inl (ProtocolError ''target length'')
     else Inr (u16_be (of_nat (length addr)) @ addr))"

definition read_target :: "byte list \<Rightarrow> (string \<times> byte list) res" where
  "read_target recv =
    bind_res (read_or (ProtocolError ''read target len'') 2 recv) (\<lambda>(len_buf, recv).
      let len = unat (be_u16 len_buf) in
      if len = 0 \<or> len > MAX_TARGET_LEN then Inl (ProtocolError ''target frame len'')
      else bind_res (read_or (ProtocolError ''read target'') len recv) (\<lambda>(buf, recv).
        case from_utf8 buf of
          None \<Rightarrow> Inl (ProtocolError ''target not utf8'')
        | Some s \<Rightarrow> Inr (s, recv)))"

definition write_target :: "bool \<Rightarrow> byte list \<Rightarrow> string \<Rightarrow> byte list res" where
  "write_target io_ok sent target =
    bind_res (encode_target target) (\<lambda>frame.
      if io_ok then Inr (sent @ frame) else Inl (ProtocolError ''write target''))"

lemma encode_target_Inr_iff:
  "encode_target t = Inr b \<longleftrightarrow>
     t \<noteq> [] \<and> length t \<le> 1024 \<and> b = u16_be (of_nat (length t)) @ as_bytes t"
  by (auto simp: encode_target_def Let_def frame_consts as_bytes_def)

lemma read_target_encode:
  assumes "is_str t" "encode_target t = Inr b"
  shows "read_target (b @ r) = Inr (t, r)"
proof -
  from assms(2) have t: "t \<noteq> []" "length t \<le> 1024"
    and b: "b = u16_be (of_nat (length t)) @ as_bytes t"
    by (simp_all add: encode_target_Inr_iff)
  have "unat (of_nat (length t) :: u16) = length t"
    using t by simp
  with t assms(1) show ?thesis
    by (simp add: read_target_def b read_or_append Let_def frame_consts)
qed

lemma encode_read_target:
  assumes "read_target bs = Inr (t, r)"
  shows "is_str t \<and> (\<exists>b. encode_target t = Inr b \<and> bs = b @ r)"
proof -
  from assms obtain lb buf where
    lb: "length lb = 2" and len: "be_u16 lb \<noteq> 0" "unat (be_u16 lb) \<le> 1024"
    and buf: "length buf = unat (be_u16 lb)" and bs: "bs = lb @ buf @ r"
    and utf: "from_utf8 buf = Some t"
    by (auto simp: read_target_def bind_res_Inr read_or_Inr_iff Let_def frame_consts unat_eq_0
        split: if_splits option.splits)
  from from_utf8_SomeD [OF utf] have t: "buf = as_bytes t" "is_str t" by auto
  from buf t have l: "length t = unat (be_u16 lb)" by simp
  with len have "t \<noteq> []" by (auto simp: unat_eq_0)
  with len lb l t bs show ?thesis
    by (simp add: encode_target_Inr_iff u16_be_be_u16)
qed

interpretation target_codec: stream_codec is_str encode_target read_target
  by unfold_locales (rule read_target_encode, assumption+, rule encode_read_target)

section \<open>Replies\<close>

definition encode_reply :: "byte \<Rightarrow> byte list" where
  "encode_reply code = [0x00, code]"

definition write_reply :: "bool \<Rightarrow> byte list \<Rightarrow> byte \<Rightarrow> byte list res" where
  "write_reply io_ok sent code =
    (if io_ok then Inr (sent @ encode_reply code) else Inl (ProtocolError ''write reply''))"

definition read_reply :: "byte list \<Rightarrow> (unit \<times> byte list) res" where
  "read_reply recv =
    (case read_exact REPLY_LEN recv of
       None \<Rightarrow> Inl (ConnectionError ''silent close'')
     | Some (resp, recv) \<Rightarrow>
         if resp ! 0 \<noteq> 0x00 then Inl (ProtocolError ''reply first byte'')
         else if resp ! 1 = REPLY_OK then Inr ((), recv)
         else if resp ! 1 = REPLY_TARGET_FAIL then Inl (TargetUnreachable ''target failed'')
         else if resp ! 1 = REPLY_DNS_FAIL then Inl (TargetUnreachable ''dns failed'')
         else Inl (ProtocolError ''reply code''))"

lemma read_reply_encode [codec_simps]:
  "read_reply (encode_reply c @ r) =
     (if c = REPLY_OK then Inr ((), r)
      else if c = REPLY_TARGET_FAIL then Inl (TargetUnreachable ''target failed'')
      else if c = REPLY_DNS_FAIL then Inl (TargetUnreachable ''dns failed'')
      else Inl (ProtocolError ''reply code''))"
  by (simp add: read_reply_def encode_reply_def read_exact_def frame_consts)

section \<open>Properties\<close>

text \<open>
  an address frame is read back exactly. Whatever follows it on the stream, a
  node that reads a target the client wrote gets that target and is left at the first
  byte after the frame; and every stream from which the node reads a target starts
  with the frame the client would write for it, so a frame cannot be read in two ways.
\<close>

theorem target_frames_roundtrip:
  "(\<forall>ts b r. list_all is_str ts \<and> write_frames encode_target ts = Inr b \<longrightarrow>
      read_frames (length ts) read_target (b @ r) = Inr (ts, r)) \<and>
   (\<forall>n bs ts r. read_frames n read_target bs = Inr (ts, r) \<longrightarrow>
      (\<exists>b. write_frames encode_target ts = Inr b \<and> bs = b @ r))"
  using target_codec.read_frames_write_frames target_codec.write_frames_read_frames
  by blast

theorem target_frames_roundtrip_witness:
  "read_frames 2 read_target
     (u16_be 3 @ as_bytes ''a:1'' @ u16_be 4 @ as_bytes ''b:22'' @ [7]) = Inr ([''a:1'', ''b:22''], [7])"
proof -
  have s: "list_all is_str [''a:1'', ''b:22'']"
    by (simp add: is_ascii_is_str is_ascii_def)
  have w: "write_frames encode_target [''a:1'', ''b:22''] =
      Inr (u16_be 3 @ as_bytes ''a:1'' @ u16_be 4 @ as_bytes ''b:22'')"
    by (simp add: encode_target_def frame_consts as_bytes_def)
  from target_frames_roundtrip s w
  have "read_frames (length [''a:1'', ''b:22'']) read_target
     ((u16_be 3 @ as_bytes ''a:1'' @ u16_be 4 @ as_bytes ''b:22'') @ [7]) = Inr ([''a:1'', ''b:22''], [7])"
    by blast
  then show ?thesis by (simp add: numeral_2_eq_2)
qed

text \<open>
  what the client concludes from a reply. Only the code 0 lets it go on; the two
  target codes become \<open>TargetUnreachable\<close>, which the failover layer never counts against
  the node; a stream that ends within the reply is a \<open>ConnectionError\<close> (the silent close of a failed
  authentication); everything else is a protocol error.
\<close>

theorem read_reply_spec:
  "read_reply bs =
     (case bs of
        a # c # r \<Rightarrow>
          if a \<noteq> 0 then Inl (ProtocolError ''reply first byte'')
          else if c = 0 then Inr ((), r)
          else if c = 1 then Inl (TargetUnreachable ''target failed'')
          else if c = 2 then Inl (TargetUnreachable ''dns failed'')
          else Inl (ProtocolError ''reply code'')
      | _ \<Rightarrow> Inl (ConnectionError ''silent close''))"
  by (auto simp: read_reply_def read_exact_def frame_consts split: list.splits)

end
