(* ===== verification/TcpTransport.thy ===== *)
theory TcpTransport
  imports Handshake TimedReader TcpFrame Tables
begin

text \<open>
  \<open>hydra-core/src/tcp_transport.rs\<close>: the client's side of a node connection. It chooses the
  fingerprint of the TLS hello, builds the TLS configuration of a trust setting and caches it,
  and then connects: TCP, TLS, the check of the pinned certificate, the Noise handshake with the
  address frame sent along, and the reply. A TLS stack is an argument (\<open>tls_lib\<close>): its cipher
  suites, its decompressors, the certificates and server names it takes. What the network does
  with one attempt is another (\<open>attempt\<close>).
\<close>

section \<open>Transport and fingerprint modes\<close>

datatype transport_choice = Quic | Tcp

fun transport_str :: "transport_choice \<Rightarrow> string" where
  "transport_str Quic = ''quic''"
| "transport_str Tcp = ''tcp''"

definition transport_parse :: "string \<Rightarrow> transport_choice res" where
  "transport_parse s =
    (if s = ''quic'' then Inr Quic else if s = ''tcp'' then Inr Tcp
     else Inl (ProtocolError ''invalid transport''))"

definition DEFAULT_TRANSPORT :: transport_choice where "DEFAULT_TRANSPORT = Tcp"

text \<open>The old value \<open>quic\<close> only adds a warning.\<close>

definition transport_from_env :: "string option \<Rightarrow> transport_choice" where
  "transport_from_env var = (case var of Some v \<Rightarrow> (if v = ''quic'' then Tcp else Tcp) | None \<Rightarrow> Tcp)"

datatype fingerprint_mode = Chrome | Stock

text \<open>\<open>feature\<close> tells whether the crate was built with its feature \<open>fingerprint\<close>.\<close>

definition fingerprint_mode_from_env :: "bool \<Rightarrow> string option \<Rightarrow> fingerprint_mode" where
  "fingerprint_mode_from_env feature var =
    (let parsed = (case var of
        Some v \<Rightarrow> (let s = trim v in
          if s = '''' then None
          else if eq_ignore_ascii_case s ''none'' then Some Stock
          else if eq_ignore_ascii_case s ''chrome'' then Some Chrome
          else None)
      | None \<Rightarrow> None)
     in case parsed of
          Some m \<Rightarrow> m
        | None \<Rightarrow> (if feature then Chrome else Stock))"

definition resolve_chrome :: "bool \<Rightarrow> fingerprint_mode \<Rightarrow> fingerprint_mode" where
  "resolve_chrome feature m = (if \<not> feature \<and> m = Chrome then Stock else m)"

definition CONNECT_TIMEOUT :: nat where "CONNECT_TIMEOUT = 5 * 1000"
definition RESPONSE_TIMEOUT :: nat where "RESPONSE_TIMEOUT = 20 * 1000"
definition DEFAULT_SNI :: string where "DEFAULT_SNI = ''hydra.node''"

section \<open>Trust and the TLS configuration\<close>

record tls_trust =
  pinned_certs :: "byte list list"
  use_public_ca :: bool
  leaf_pin :: "string option"

definition trust_pinned :: "byte list list \<Rightarrow> tls_trust" where
  "trust_pinned certs = \<lparr> pinned_certs = certs, use_public_ca = False, leaf_pin = None \<rparr>"

definition trust_public_ca :: "string option \<Rightarrow> tls_trust" where
  "trust_public_ca pin = \<lparr> pinned_certs = [], use_public_ca = True, leaf_pin = pin \<rparr>"

text \<open>What the digest of the cache key is fed with; a length is a little-endian \<open>u64\<close>.\<close>

definition trust_content :: "tls_trust \<Rightarrow> byte list" where
  "trust_content t =
    (if use_public_ca t then 1 else 0) #
    (case leaf_pin t of Some pin \<Rightarrow> as_bytes pin | None \<Rightarrow> []) @
    concat (map (\<lambda>der. rev (be_bytes 8 (length der)) @ der) (pinned_certs t))"

definition cache_fingerprint :: "(byte list \<Rightarrow> byte list) \<Rightarrow> tls_trust \<Rightarrow> byte list" where
  "cache_fingerprint sha t = sha (trust_content t)"

text \<open>The rank of a cipher suite by its code point; \<open>sort_by_key\<close> is stable, as \<open>sort_key\<close>.\<close>

definition suite_rank :: "u16 \<Rightarrow> nat" where
  "suite_rank s = (if s = 0x1301 then 0 else if s = 0x1302 then 1 else if s = 0x1303 then 2 else 3)"

definition chrome_order_cipher_suites :: "u16 list \<Rightarrow> u16 list" where
  "chrome_order_cipher_suites base = sort_key suite_rank base"

record tls_lib =
  ring_suites :: "u16 list"
  decompressors :: "string list"
  versions_ok :: bool
  root_ok :: "byte list \<Rightarrow> bool"
  name_ok :: "string \<Rightarrow> bool"

datatype roots = WebpkiRoots | Pinned "byte list list"

record client_config =
  root_store :: roots
  suites :: "u16 list"
  alpn :: "byte list list"
  cert_decompressors :: "string list"
  resumption :: bool

definition node_roots :: "tls_lib \<Rightarrow> tls_trust \<Rightarrow> roots res" where
  "node_roots lib t =
    (if use_public_ca t then Inr WebpkiRoots
     else if pinned_certs t = [] then Inl (ConnectionError ''no node certificate'')
     else if list_all (root_ok lib) (pinned_certs t) then Inr (Pinned (pinned_certs t))
     else Inl (ProtocolError ''invalid node certificate''))"

definition build_client_config :: "tls_lib \<Rightarrow> tls_trust \<Rightarrow> fingerprint_mode \<Rightarrow> client_config res" where
  "build_client_config lib t m =
    (case node_roots lib t of
       Inl e \<Rightarrow> Inl e
     | Inr rs \<Rightarrow>
         (let ss = (if m = Chrome then chrome_order_cipher_suites (ring_suites lib) else ring_suites lib) in
          if \<not> versions_ok lib then Inl (ProtocolError ''TLS versions'')
          else Inr (case m of
              Chrome \<Rightarrow> \<lparr> root_store = rs, suites = ss, alpn = [as_bytes ''h2'', as_bytes ''http/1.1''],
                         cert_decompressors = decompressors lib, resumption = False \<rparr>
            | Stock \<Rightarrow> \<lparr> root_store = rs, suites = ss, alpn = [], cert_decompressors = [], resumption = False \<rparr>)))"

text \<open>The cache of the process. The mode, 0 or 1, is mixed into the first byte of the key.\<close>

type_synonym connectors = "(byte list \<times> client_config) list"

fun mode_byte :: "fingerprint_mode \<Rightarrow> byte" where
  "mode_byte Chrome = 0"
| "mode_byte Stock = 1"

definition cache_key :: "(byte list \<Rightarrow> byte list) \<Rightarrow> tls_trust \<Rightarrow> fingerprint_mode \<Rightarrow> byte list" where
  "cache_key sha t m = (let fp = cache_fingerprint sha t in fp[0 := fp ! 0 XOR mode_byte m])"

text \<open>The environment of the process, read at every build.\<close>

record tls_env =
  lib :: tls_lib
  feature :: bool
  fingerprint_var :: "string option"
  sha :: "byte list \<Rightarrow> byte list"

definition env_mode :: "tls_env \<Rightarrow> fingerprint_mode" where
  "env_mode e = resolve_chrome (feature e) (fingerprint_mode_from_env (feature e) (fingerprint_var e))"

definition build_tls_connector :: "tls_env \<Rightarrow> tls_trust \<Rightarrow> connectors \<Rightarrow> client_config res \<times> connectors" where
  "build_tls_connector e t cache =
    (let m = env_mode e; fp = cache_key (sha e) t m in
     case map_of cache fp of
       Some c \<Rightarrow> (Inr c, cache)
     | None \<Rightarrow>
         (case build_client_config (lib e) t m of
            Inl err \<Rightarrow> (Inl err, cache)
          | Inr c \<Rightarrow> (Inr c, AList.update fp c cache)))"

section \<open>Connecting\<close>

text \<open>What a TLS handshake gives: the stream, the exported keying material and the peer's
  certificates.\<close>

record tls_session =
  stream :: client
  keying :: "byte list option"
  peer_chain :: "byte list list option"

text \<open>One attempt: when the TCP connection is there or fails, and the same for TLS with a
  configuration and a server name; then which of the two writes of the handshake the transport
  takes, and the seed of the ephemeral key.\<close>

record attempt =
  tcp_time :: nat
  tcp_up :: bool
  tls_time :: nat
  tls_peer :: "client_config \<Rightarrow> string \<Rightarrow> tls_session option"
  hello_io :: "bool \<times> bool"
  ephemeral :: "byte list"

text \<open>How far an attempt came: nothing sent, the node dialled, or a TLS stream in some state.\<close>

datatype progress = Untouched | Dialled | OnStream client

definition tls_connect_for_node ::
  "tls_env \<Rightarrow> attempt \<Rightarrow> string \<Rightarrow> tls_trust \<Rightarrow> nat \<Rightarrow> connectors \<Rightarrow>
   tls_session res \<times> progress \<times> nat \<times> connectors" where
  "tls_connect_for_node e a sni t now cache =
    (let sni = (if sni = [] then DEFAULT_SNI else sni) in
     case build_tls_connector e t cache of
       (Inl err, cache) \<Rightarrow> (Inl err, Untouched, now, cache)
     | (Inr cfg, cache) \<Rightarrow>
         if \<not> name_ok (lib e) sni then (Inl (ProtocolError ''invalid SNI''), Untouched, now, cache)
         else if tcp_time a > CONNECT_TIMEOUT
         then (Inl (ConnectionError ''tcp timed out''), Dialled, now + CONNECT_TIMEOUT, cache)
         else if \<not> tcp_up a then (Inl (ConnectionError ''tcp failed''), Dialled, now + tcp_time a, cache)
         else
           (let now = now + tcp_time a in
            if tls_time a > CONNECT_TIMEOUT
            then (Inl (ConnectionError ''tls timed out''), Dialled, now + CONNECT_TIMEOUT, cache)
            else case tls_peer a cfg sni of
               None \<Rightarrow> (Inl (ConnectionError ''tls failed''), Dialled, now + tls_time a, cache)
             | Some s \<Rightarrow>
                 (let now = now + tls_time a; s = s \<lparr> stream := (stream s) \<lparr> clock := now \<rparr> \<rparr>
                  in (Inr s, OnStream (stream s), now, cache))))"

definition peer_leaf_cert :: "tls_session \<Rightarrow> byte list res" where
  "peer_leaf_cert s =
    (case peer_chain s of
       Some (leaf # _) \<Rightarrow> Inr leaf
     | _ \<Rightarrow> Inl (ConnectionError ''no peer certificate''))"

text \<open>The keying material and the leaf certificate that the handshake is bound to, the pin
  checked.\<close>

definition channel_binding :: "(byte list \<Rightarrow> byte list) \<Rightarrow> tls_trust \<Rightarrow> tls_session \<Rightarrow> (byte list \<times> byte list) res" where
  "channel_binding h t s =
    (case keying s of
       None \<Rightarrow> Inl (ConnectionError ''no exporter'')
     | Some ex \<Rightarrow>
         (case peer_leaf_cert s of
            Inl e \<Rightarrow> Inl e
          | Inr leaf \<Rightarrow>
              (case leaf_pin t of
                 Some pin \<Rightarrow>
                   (if \<not> eq_ignore_ascii_case (hex_encode (h leaf)) (trim pin)
                    then Inl (ConnectionError ''leaf pin mismatch'') else Inr (ex, leaf))
               | None \<Rightarrow> Inr (ex, leaf))))"

text \<open>The handshake and the reply under their time limits, on the stream. What a handshake that
  fails has written stays written.\<close>

definition client_starved :: "byte list res \<times> byte list \<Rightarrow> bool" where
  "client_starved r = (fst r \<in> {Inl (ProtocolError ''recv msg2''), Inl (ProtocolError ''recv confirm_s'')})"

definition client_reader ::
  "'h crypto \<Rightarrow> attempt \<Rightarrow> byte list \<Rightarrow> byte list \<Rightarrow> byte list \<Rightarrow> byte list option \<Rightarrow> byte list \<Rightarrow>
   (byte list res \<times> byte list) \<times> byte list" where
  "client_reader cr a key fp ex payload recv =
    (case client_side_with_payload cr (ephemeral a) (hello_io a) recv key fp ex payload of
       (r, sent, rest) \<Rightarrow> ((r, sent), rest))"

definition noise_by ::
  "'h crypto \<Rightarrow> attempt \<Rightarrow> byte list \<Rightarrow> byte list \<Rightarrow> byte list \<Rightarrow> byte list option \<Rightarrow> client \<Rightarrow> unit res \<times> client" where
  "noise_by cr a key fp ex payload c =
    (case run_by (clock c + CONNECT_TIMEOUT) (client_reader cr a key fp ex payload) client_starved c of
       ((r, sent), late, c) \<Rightarrow>
         ((if late then Inl (ConnectionError ''noise timed out'')
           else case r of Inl _ \<Rightarrow> Inl (ConnectionError ''noise failed'') | Inr _ \<Rightarrow> Inr ()),
          c \<lparr> outbox := outbox c @ sent \<rparr>))"

definition reply_reader :: "byte list \<Rightarrow> unit res \<times> byte list" where
  "reply_reader recv = (case read_reply recv of Inl e \<Rightarrow> (Inl e, drop REPLY_LEN recv) | Inr (_, rest) \<Rightarrow> (Inr (), rest))"

definition reply_starved :: "unit res \<Rightarrow> bool" where
  "reply_starved r = (r = Inl (ConnectionError ''silent close''))"

definition reply_by :: "nat \<Rightarrow> client \<Rightarrow> unit res \<times> client" where
  "reply_by limit c =
    (case run_by (clock c + limit) reply_reader reply_starved c of
       (r, late, c) \<Rightarrow> (if late then Inl (ConnectionError ''node response timeout'') else r, c))"

text \<open>The whole way: the target is encoded before anything is sent.\<close>

definition connect_target ::
  "'h crypto \<Rightarrow> tls_env \<Rightarrow> attempt \<Rightarrow> string \<Rightarrow> tls_trust \<Rightarrow> byte list \<Rightarrow> string \<Rightarrow> nat \<Rightarrow> connectors \<Rightarrow>
   unit res \<times> progress \<times> nat \<times> connectors" where
  "connect_target cr e a sni t key tgt now cache =
    (case encode_target tgt of
       Inl err \<Rightarrow> (Inl err, Untouched, now, cache)
     | Inr frame \<Rightarrow>
         (case tls_connect_for_node e a sni t now cache of
            (Inl err, reach, now, cache) \<Rightarrow> (Inl err, reach, now, cache)
          | (Inr s, reach, now, cache) \<Rightarrow>
              (case channel_binding (sha e) t s of
                 Inl err \<Rightarrow> (Inl err, reach, now, cache)
               | Inr (ex, leaf) \<Rightarrow>
                   (case noise_by cr a key (cert_fingerprint cr leaf) ex (Some frame) (stream s) of
                      (Inl err, c) \<Rightarrow> (Inl err, OnStream c, clock c, cache)
                    | (Inr _, c) \<Rightarrow>
                        (case reply_by RESPONSE_TIMEOUT c of
                           (r, c) \<Rightarrow> (r, OnStream c, clock c, cache))))))"

text \<open>A warm channel stops before the address frame; a request on it sends the frame and reads
  the reply.\<close>

definition connect_channel ::
  "'h crypto \<Rightarrow> tls_env \<Rightarrow> attempt \<Rightarrow> string \<Rightarrow> tls_trust \<Rightarrow> byte list \<Rightarrow> nat \<Rightarrow> connectors \<Rightarrow>
   unit res \<times> progress \<times> nat \<times> connectors" where
  "connect_channel cr e a sni t key now cache =
    (case tls_connect_for_node e a sni t now cache of
       (Inl err, reach, now, cache) \<Rightarrow> (Inl err, reach, now, cache)
     | (Inr s, reach, now, cache) \<Rightarrow>
         (case channel_binding (sha e) t s of
            Inl err \<Rightarrow> (Inl err, reach, now, cache)
          | Inr (ex, leaf) \<Rightarrow>
              (case noise_by cr a key (cert_fingerprint cr leaf) ex None (stream s) of
                 (r, c) \<Rightarrow> (r, OnStream c, clock c, cache))))"

datatype write_outcome = Written | WriteFails | WriteStalls

definition request_target_with_timeout :: "write_outcome \<Rightarrow> client \<Rightarrow> string \<Rightarrow> nat \<Rightarrow> unit res \<times> client" where
  "request_target_with_timeout w c tgt limit =
    (case encode_target tgt of
       Inl e \<Rightarrow> (Inl e, c)
     | Inr frame \<Rightarrow>
         (case w of
            WriteStalls \<Rightarrow> (Inl (ConnectionError ''write timed out''), c \<lparr> clock := clock c + CONNECT_TIMEOUT \<rparr>)
          | WriteFails \<Rightarrow> (Inl (ConnectionError ''write failed''), c)
          | Written \<Rightarrow> reply_by limit (c \<lparr> outbox := outbox c @ frame \<rparr>)))"

definition request_target :: "write_outcome \<Rightarrow> client \<Rightarrow> string \<Rightarrow> unit res \<times> client" where
  "request_target w c tgt = request_target_with_timeout w c tgt RESPONSE_TIMEOUT"

definition warm_response_timeout :: "string option \<Rightarrow> nat" where
  "warm_response_timeout var =
    (case var of
       Some v \<Rightarrow> (case parse_uint 64 v of Some s \<Rightarrow> max 2 (min 20 s) * 1000 | None \<Rightarrow> 8 * 1000)
     | None \<Rightarrow> 8 * 1000)"


section \<open>What each step gives\<close>

lemma read_reply_accepts: "read_reply bs = Inr ((), rest) \<longleftrightarrow> bs = encode_reply REPLY_OK @ rest"
proof
  assume "read_reply bs = Inr ((), rest)"
  then show "bs = encode_reply REPLY_OK @ rest"
    by (auto simp: read_reply_def encode_reply_def read_exact_Some_iff frame_consts length_Suc_conv numeral_2_eq_2
        split: option.splits if_splits)
qed (simp add: read_reply_encode)

lemma encode_target_error: "encode_target tgt = Inl e \<Longrightarrow> \<exists>x. e = ProtocolError x"
  by (auto simp: encode_target_def Let_def split: if_splits)

text \<open>The session as the peer gave it, at whatever time.\<close>

definition same_session :: "tls_session \<Rightarrow> tls_session \<Rightarrow> bool" where
  "same_session s s' \<longleftrightarrow> keying s = keying s' \<and> peer_chain s = peer_chain s' \<and>
    inbox (stream s) = inbox (stream s') \<and> tail (stream s) = tail (stream s') \<and>
    outbox (stream s) = outbox (stream s') \<and> writable (stream s) = writable (stream s')"

lemma tls_connect_result:
  assumes "tls_connect_for_node e a sni t now cache = (r, reach, now', cache')"
  shows "now' \<le> now + 10000 \<and>
    (case r of
       Inl (ProtocolError x) \<Rightarrow> reach = Untouched
     | Inl (ConnectionError x) \<Rightarrow> reach = Untouched \<or> reach = Dialled
     | Inl _ \<Rightarrow> False
     | Inr s \<Rightarrow> reach = OnStream (stream s) \<and> clock (stream s) = now' \<and>
         (\<exists>cfg s'. fst (build_tls_connector e t cache) = Inr cfg \<and>
            tls_peer a cfg (if sni = [] then DEFAULT_SNI else sni) = Some s' \<and> same_session s s'))"
proof -
  have b: "\<exists>x. err = ProtocolError x \<or> err = ConnectionError x" if "build_tls_connector e t cache = (Inl err, c)" for err c
    using that by (auto simp: build_tls_connector_def build_client_config_def node_roots_def Let_def
        split: option.splits sum.splits if_splits fingerprint_mode.splits)
  show ?thesis using assms b
    by (auto simp: tls_connect_for_node_def Let_def CONNECT_TIMEOUT_def same_session_def
        split: prod.splits sum.splits if_splits option.splits dest!: b)
qed

lemma channel_binding_error: "channel_binding h t s = Inl e \<Longrightarrow> \<exists>x. e = ConnectionError x"
  by (auto simp: channel_binding_def peer_leaf_cert_def split: option.splits sum.splits if_splits list.splits)

lemma noise_by_result:
  assumes "noise_by cr a key fp ex p c = (r, c')"
  shows "clock c' \<le> clock c + 5000 \<and> (case r of Inl e \<Rightarrow> \<exists>x. e = ConnectionError x | Inr _ \<Rightarrow> True)"
  using assms run_by_clock [of "clock c + CONNECT_TIMEOUT" "client_reader cr a key fp ex p" client_starved c]
  by (fastforce simp: noise_by_def CONNECT_TIMEOUT_def split: prod.splits sum.splits if_splits)

lemma reply_by_result:
  assumes "reply_by limit c = (r, c')"
  shows "clock c' \<le> clock c + limit \<and> outbox c' = outbox c \<and>
    (case r of Inl (ProtocolError x) \<Rightarrow> x \<in> {''reply first byte'', ''reply code''}
     | Inl (ConnectionError x) \<Rightarrow> True | Inl (TargetUnreachable x) \<Rightarrow> True | Inl _ \<Rightarrow> False | Inr _ \<Rightarrow> True)"
proof -
  obtain r' late where r: "run_by (clock c + limit) reply_reader reply_starved c = (r', late, c')"
    and e: "r = (if late then Inl (ConnectionError ''node response timeout'') else r')"
    using assms by (auto simp: reply_by_def split: prod.splits)
  have "r' = fst (reply_reader (arrived (clock c + limit) c)) \<and> outbox c' = outbox c"
    using r by (auto simp: run_by_def Let_def split: prod.splits if_splits)
  then show ?thesis using run_by_clock [OF r] e
    by (auto simp: reply_reader_def read_reply_def split: option.splits sum.splits prod.splits if_splits)
qed

lemma reply_by_accepts:
  assumes "reply_by limit c = (r, c')"
  shows "(\<exists>x. r = Inl x) \<or> arrivals c = encode_reply REPLY_OK @ arrivals c'"
proof -
  obtain r' late where r: "run_by (clock c + limit) reply_reader reply_starved c = (r', late, c')"
    and e: "r = (if late then Inl (ConnectionError ''node response timeout'') else r')"
    using assms by (auto simp: reply_by_def split: prod.splits)
  show ?thesis
  proof (cases "\<exists>x. r = Inl x")
    case False
    then have "r' = Inr ()" "\<not> late" using e by (cases r'; auto split: if_splits)+
    obtain rest where q: "reply_reader (arrived (clock c + limit) c) = (Inr (), rest)"
      using r \<open>r' = Inr ()\<close> by (auto simp: run_by_def Let_def split: prod.splits if_splits)
    have a: "arrived (clock c + limit) c = encode_reply REPLY_OK @ rest"
      using q by (auto simp: reply_reader_def read_reply_accepts split: sum.splits)
    have "arrivals c' = rest @ later (clock c + limit) c"
      using run_by_done [OF r q a] \<open>\<not> late\<close> \<open>r' = Inr ()\<close> by blast
    then show ?thesis using arrived_later [of c "clock c + limit"] a by simp
  qed blast
qed

text \<open>The stations of an attempt.\<close>

lemma connect_target_stations:
  assumes "connect_target cr e a sni t key tgt now cache = (r, reach, now', cache')"
  obtains (encode) err where "encode_target tgt = Inl err" "r = Inl err" "reach = Untouched" "now' = now"
  | (dial) frame err where "encode_target tgt = Inr frame"
      "tls_connect_for_node e a sni t now cache = (Inl err, reach, now', cache')" "r = Inl err"
  | (bind) frame s err where "encode_target tgt = Inr frame"
      "tls_connect_for_node e a sni t now cache = (Inr s, reach, now', cache')"
      "channel_binding (sha e) t s = Inl err" "r = Inl err"
  | (noise) frame s reach1 n1 ex leaf x c where "encode_target tgt = Inr frame"
      "tls_connect_for_node e a sni t now cache = (Inr s, reach1, n1, cache')"
      "channel_binding (sha e) t s = Inr (ex, leaf)"
      "noise_by cr a key (cert_fingerprint cr leaf) ex (Some frame) (stream s) = (Inl x, c)"
      "r = Inl x" "reach = OnStream c" "now' = clock c"
  | (reply) frame s reach1 n1 ex leaf c c' where "encode_target tgt = Inr frame"
      "tls_connect_for_node e a sni t now cache = (Inr s, reach1, n1, cache')"
      "channel_binding (sha e) t s = Inr (ex, leaf)"
      "noise_by cr a key (cert_fingerprint cr leaf) ex (Some frame) (stream s) = (Inr (), c)"
      "reply_by RESPONSE_TIMEOUT c = (r, c')" "reach = OnStream c'" "now' = clock c'"
  using assms unfolding connect_target_def by (simp split: sum.splits prod.splits) metis+

text \<open>
  C33: how an attempt to open a target fails. A local error of the protocol (a target that cannot
  be encoded, an invalid server name or certificate) touches no node; the only other protocol
  error is a node's reply with a bad code; a refused target was reported by the node over the
  finished connection; everything else is a connection error. Whatever the node and the network
  do, the attempt is over after 35 seconds.
\<close>

theorem connect_target_errors:
  "case connect_target cr e a sni t key tgt now cache of (r, reach, now', _) \<Rightarrow>
     now' \<le> now + 35000 \<and>
     (case r of
        Inl (ProtocolError x) \<Rightarrow> reach = Untouched \<or> (\<exists>c. reach = OnStream c \<and> x \<in> {''reply first byte'', ''reply code''})
      | Inl (TargetUnreachable x) \<Rightarrow> \<exists>c. reach = OnStream c
      | Inl (ConnectionError x) \<Rightarrow> True
      | Inl _ \<Rightarrow> False
      | Inr _ \<Rightarrow> \<exists>c. reach = OnStream c)"
proof -
  obtain r reach now' cache' where c: "connect_target cr e a sni t key tgt now cache = (r, reach, now', cache')"
    by (rule prod_cases4)
  from c show ?thesis
  proof (cases rule: connect_target_stations)
    case (encode err)
    then show ?thesis using encode_target_error [of tgt err] c by auto
  next
    case (dial frame err)
    then show ?thesis using tls_connect_result [OF dial(2)] c by (simp split: hydra_error.splits)
  next
    case (bind frame s err)
    then obtain x where "err = ConnectionError x" using channel_binding_error by blast
    moreover have "now' \<le> now + 10000" using tls_connect_result [OF bind(2)] by blast
    ultimately show ?thesis using bind c by simp
  next
    case (noise frame s reach1 n1 ex leaf x cl)
    have "n1 \<le> now + 10000" "clock (stream s) = n1"
      using tls_connect_result [OF noise(2)] unfolding sum.case by blast+
    then show ?thesis using noise_by_result [OF noise(4)] noise(5-7) c by auto
  next
    case (reply frame s reach1 n1 ex leaf cl cl')
    have "n1 \<le> now + 10000" "clock (stream s) = n1"
      using tls_connect_result [OF reply(2)] unfolding sum.case by blast+
    moreover have "clock cl \<le> clock (stream s) + 5000" using noise_by_result [OF reply(4)] by simp
    ultimately have "now' \<le> now + 35000"
      using reply_by_result [OF reply(5)] reply(7) by (simp add: RESPONSE_TIMEOUT_def)
    then show ?thesis using reply_by_result [OF reply(5)] reply(6) c
      by (simp split: sum.splits hydra_error.splits)
  qed
qed


section \<open>What leaves the client\<close>

text \<open>The first message of the client with a key; and a second message, of a node, that it
  accepts with the key, giving the hash \<open>h\<close> of the handshake.\<close>

definition greeting :: "'h crypto \<Rightarrow> byte list \<Rightarrow> byte list \<Rightarrow> byte list \<Rightarrow> bool" where
  "greeting cr key seed m1 \<longleftrightarrow> (\<exists>i i1. noise_build cr key True seed = Some i \<and> noise_write cr i = Some (i1, m1))"

definition proves_key :: "'h crypto \<Rightarrow> byte list \<Rightarrow> byte list \<Rightarrow> byte list \<Rightarrow> byte list \<Rightarrow> byte list \<Rightarrow> bool" where
  "proves_key cr key seed m1 m2 h \<longleftrightarrow>
    (\<exists>i i1 i2. noise_build cr key True seed = Some i \<and> noise_write cr i = Some (i1, m1) \<and>
       noise_read cr i1 m2 = Some i2 \<and> noise_hash cr i2 = h)"

lemma noise_by_sends:
  assumes "noise_by cr a key fp ex p c = (r, c')"
  shows "\<exists>bs. outbox c' = outbox c @ bs \<and>
    (((bs = [] \<or> (\<exists>m1. greeting cr key (ephemeral a) m1 \<and> bs = HANDSHAKE_VERSION_BYTE # m1)) \<and>
        (\<exists>x. r = Inl (ConnectionError x))) \<or>
     (\<exists>m1 m2 h cc rest. proves_key cr key (ephemeral a) m1 m2 h \<and> derive_confirm cr h fp ex INFO_C2S = Inr cc \<and>
        arrivals c = m2 @ rest \<and> bs = HANDSHAKE_VERSION_BYTE # m1 @ cc @ (case p of Some b \<Rightarrow> b | None \<Rightarrow> []) \<and>
        ((\<exists>x. r = Inl (ConnectionError x)) \<or>
         (\<exists>cs. derive_confirm cr h fp ex INFO_S2C = Inr cs \<and> rest = cs @ arrivals c'))))"
proof -
  let ?dl = "clock c + CONNECT_TIMEOUT"
  obtain res sent rest where s: "client_side_with_payload cr (ephemeral a) (hello_io a) (arrived ?dl c) key fp ex p = (res, sent, rest)"
    by (rule prod_cases3)
  obtain q late c1 where q: "run_by ?dl (client_reader cr a key fp ex p) client_starved c = (q, late, c1)"
    by (rule prod_cases3)
  have f: "client_reader cr a key fp ex p (arrived ?dl c) = ((res, sent), rest)" by (simp add: client_reader_def s)
  then have q1: "q = (res, sent)" "outbox c1 = outbox c" using q by (auto simp: run_by_def Let_def split: if_splits)
  have c': "c' = c1 \<lparr> outbox := outbox c @ sent \<rparr>" and
    rr: "r = (if late then Inl (ConnectionError ''noise timed out'')
        else case res of Inl _ \<Rightarrow> Inl (ConnectionError ''noise failed'') | Inr _ \<Rightarrow> Inr ())"
    using assms q q1 by (auto simp: noise_by_def)
  have bad: "\<exists>x. r = Inl (ConnectionError x)" if "\<not> is_ok res" using rr that by (cases res) simp_all
  note cs = client_side_result [where cr = cr and seed = "ephemeral a" and io = "hello_io a" and recv = "arrived ?dl c"
      and psk = key and fp = fp and ex = ex and p = p, unfolded s prod.case]
  consider (nothing) "sent = []" "\<not> is_ok res"
    | (first) i i1 m1 where "noise_build cr key True (ephemeral a) = Some i" "noise_write cr i = Some (i1, m1)"
        "sent = HANDSHAKE_VERSION_BYTE # m1" "\<not> is_ok res"
    | (second) i i1 m1 i2 m2 cc r2 where "noise_build cr key True (ephemeral a) = Some i" "noise_write cr i = Some (i1, m1)"
        "noise_read cr i1 m2 = Some i2" "arrived ?dl c = m2 @ r2"
        "derive_confirm cr (noise_hash cr i2) fp ex INFO_C2S = Inr cc"
        "sent = HANDSHAKE_VERSION_BYTE # m1 @ cc @ (case p of Some b \<Rightarrow> b | None \<Rightarrow> [])"
        "\<not> is_ok res \<or> (\<exists>cs. r2 = cs @ rest \<and> derive_confirm cr (noise_hash cr i2) fp ex INFO_S2C = Inr cs)"
    using cs by (elim disjE exE conjE) blast+
  then show ?thesis
  proof cases
    case nothing
    then show ?thesis using bad c' by auto
  next
    case first
    then show ?thesis using bad c' unfolding greeting_def by auto
  next
    case second
    have arr: "arrivals c = m2 @ r2 @ later ?dl c" using arrived_later [of c ?dl] second(4) by simp
    have pk: "proves_key cr key (ephemeral a) m1 m2 (noise_hash cr i2)" using second(1-3) by (auto simp: proves_key_def)
    have "(\<exists>x. r = Inl (ConnectionError x)) \<or>
        (\<exists>cs. derive_confirm cr (noise_hash cr i2) fp ex INFO_S2C = Inr cs \<and> r2 @ later ?dl c = cs @ arrivals c')"
    proof (cases "\<exists>x. r = Inl (ConnectionError x)")
      case False
      then obtain hh where hh: "res = Inr hh" "\<not> late" using rr by (cases res) (auto split: if_splits)
      then obtain cs where k: "r2 = cs @ rest" "derive_confirm cr (noise_hash cr i2) fp ex INFO_S2C = Inr cs"
        using second(7) by auto
      have "arrivals c1 = rest @ later ?dl c"
        using run_by_done [OF q f, of "m2 @ cs"] second(4) k(1) hh(2) by simp
      then have "arrivals c' = rest @ later ?dl c" by (simp add: c' arrivals_def)
      then show ?thesis using k by auto
    qed blast
    moreover have "outbox c' = outbox c @ sent" using c' by simp
    ultimately show ?thesis using pk arr second(5,6) by blast
  qed
qed

text \<open>
  C2: a client names its target only to a node that holds the key. Whatever the peer of the TLS
  connection sends, and however the attempt ends, the bytes that leave the client are at most the
  version byte and the first message, unless the TLS peer passed the checks of this trust (its
  configuration, and the pinned leaf), and answered with a second message that the Noise initiator
  accepts with the key; only then do the confirmation, bound to this certificate and TLS session,
  and the address frame follow. The attempt succeeds only if the node confirmed the same handshake
  and replied that the target is connected.
\<close>

theorem target_only_to_proven_node:
  "case connect_target cr e a sni t key tgt now cache of (r, reach, _) \<Rightarrow>
     (case reach of
        OnStream c \<Rightarrow>
          (\<exists>cfg s bs. fst (build_tls_connector e t cache) = Inr cfg \<and>
             tls_peer a cfg (if sni = [] then DEFAULT_SNI else sni) = Some s \<and> outbox c = outbox (stream s) @ bs \<and>
             (((bs = [] \<or> (\<exists>m1. greeting cr key (ephemeral a) m1 \<and> bs = HANDSHAKE_VERSION_BYTE # m1)) \<and>
                 (\<exists>x. r = Inl (ConnectionError x))) \<or>
              (\<exists>ex leaf frame m1 m2 h cc rest.
                 channel_binding (sha e) t s = Inr (ex, leaf) \<and> encode_target tgt = Inr frame \<and>
                 proves_key cr key (ephemeral a) m1 m2 h \<and> arrivals (stream s) = m2 @ rest \<and>
                 derive_confirm cr h (cert_fingerprint cr leaf) ex INFO_C2S = Inr cc \<and>
                 bs = HANDSHAKE_VERSION_BYTE # m1 @ cc @ frame \<and>
                 ((\<exists>x. r = Inl x) \<or>
                  (\<exists>cs. derive_confirm cr h (cert_fingerprint cr leaf) ex INFO_S2C = Inr cs \<and>
                     rest = cs @ encode_reply REPLY_OK @ arrivals c)))))
      | _ \<Rightarrow> \<exists>x. r = Inl x)"
proof -
  obtain r reach now' cache' where c: "connect_target cr e a sni t key tgt now cache = (r, reach, now', cache')"
    by (rule prod_cases4)
  let ?sni = "if sni = [] then DEFAULT_SNI else sni"
  have sess: "\<exists>cfg s'. fst (build_tls_connector e t cache) = Inr cfg \<and> tls_peer a cfg ?sni = Some s' \<and>
      outbox (stream s') = outbox (stream s) \<and> arrivals (stream s') = arrivals (stream s) \<and>
      channel_binding (sha e) t s' = channel_binding (sha e) t s \<and> reach1 = OnStream (stream s)"
    if t: "tls_connect_for_node e a sni t now cache = (Inr s, reach1, n1, cache')" for s reach1 n1
  proof -
    have k: "outbox (stream s') = outbox (stream s) \<and> arrivals (stream s') = arrivals (stream s) \<and>
        channel_binding (sha e) t s' = channel_binding (sha e) t s" if "same_session s s'" for s'
      using that by (simp add: same_session_def arrivals_def channel_binding_def peer_leaf_cert_def cong: option.case_cong)
    show ?thesis using tls_connect_result [OF t] k unfolding sum.case by blast
  qed
  from c show ?thesis
  proof (cases rule: connect_target_stations)
    case (encode err)
    then show ?thesis using c by simp
  next
    case (dial frame err)
    then show ?thesis using tls_connect_result [OF dial(2)] c by (auto split: hydra_error.splits)
  next
    case (bind frame s err)
    then obtain x where "err = ConnectionError x" using channel_binding_error by blast
    then show ?thesis using sess [OF bind(2)] bind(4) c by fastforce
  next
    case (noise frame s reach1 n1 ex leaf x cl)
    from sess [OF noise(2)] obtain cfg s' where s': "fst (build_tls_connector e t cache) = Inr cfg" "tls_peer a cfg ?sni = Some s'"
      "outbox (stream s') = outbox (stream s)" "arrivals (stream s') = arrivals (stream s)"
      "channel_binding (sha e) t s' = Inr (ex, leaf)" using noise(3) by auto
    obtain bs where bs: "outbox cl = outbox (stream s') @ bs" "((bs = [] \<or> (\<exists>m1. greeting cr key (ephemeral a) m1 \<and> bs = HANDSHAKE_VERSION_BYTE # m1)) \<and>
        (\<exists>x. r = Inl (ConnectionError x))) \<or>
     (\<exists>m1 m2 h cc rest. proves_key cr key (ephemeral a) m1 m2 h \<and>
        derive_confirm cr h (cert_fingerprint cr leaf) ex INFO_C2S = Inr cc \<and>
        arrivals (stream s') = m2 @ rest \<and> bs = HANDSHAKE_VERSION_BYTE # m1 @ cc @ frame)"
      using noise_by_sends [OF noise(4), folded s'(3,4) noise(5), unfolded option.case] by blast
    show ?thesis unfolding c prod.case noise(6) progress.case
      using s'(1,2,5) bs noise(1,5) by blast
  next
    case (reply frame s reach1 n1 ex leaf cl cl')
    from sess [OF reply(2)] obtain cfg s' where s': "fst (build_tls_connector e t cache) = Inr cfg" "tls_peer a cfg ?sni = Some s'"
      "outbox (stream s') = outbox (stream s)" "arrivals (stream s') = arrivals (stream s)"
      "channel_binding (sha e) t s' = Inr (ex, leaf)" using reply(3) by auto
    obtain bs m1 m2 h cc cs where bs: "outbox cl = outbox (stream s') @ bs" "proves_key cr key (ephemeral a) m1 m2 h"
        "derive_confirm cr h (cert_fingerprint cr leaf) ex INFO_C2S = Inr cc" "arrivals (stream s') = m2 @ cs @ arrivals cl"
        "bs = HANDSHAKE_VERSION_BYTE # m1 @ cc @ frame" "derive_confirm cr h (cert_fingerprint cr leaf) ex INFO_S2C = Inr cs"
      using noise_by_sends [OF reply(4)] s'(3,4) by auto
    have "outbox cl' = outbox (stream s') @ bs" using reply_by_result [OF reply(5)] bs(1) by simp
    moreover have "(\<exists>x. r = Inl x) \<or> arrivals cl = encode_reply REPLY_OK @ arrivals cl'"
      using reply_by_accepts [OF reply(5)] by blast
    ultimately show ?thesis unfolding c prod.case reply(6) progress.case
      using s'(1,2,5) bs(2-6) reply(1) by blast
  qed
qed


section \<open>The configuration and its cache\<close>

lemma sorted_map_const: "\<forall>x\<in>set xs. f x = k \<Longrightarrow> sorted (map f xs)"
  by (induction xs) auto

lemma suite_rank_iff:
  "suite_rank s = 0 \<longleftrightarrow> s = 0x1301" "suite_rank s = 1 \<longleftrightarrow> s = 0x1302" "suite_rank s = 2 \<longleftrightarrow> s = 0x1303"
  "suite_rank s = 3 \<longleftrightarrow> s \<notin> {0x1301, 0x1302, 0x1303}"
  by (simp_all add: suite_rank_def)

lemma sort_key_four:
  assumes "\<And>x. f x = 0 \<or> f x = 1 \<or> f x = 2 \<or> f x = (3 :: nat)"
  shows "sort_key f xs = filter (\<lambda>x. f x = 0) xs @ filter (\<lambda>x. f x = 1) xs @ filter (\<lambda>x. f x = 2) xs @ filter (\<lambda>x. f x = 3) xs"
proof (rule properties_for_sort_key)
  let ?ys = "filter (\<lambda>x. f x = 0) xs @ filter (\<lambda>x. f x = 1) xs @ filter (\<lambda>x. f x = 2) xs @ filter (\<lambda>x. f x = 3) xs"
  show "mset ?ys = mset xs"
  proof (induction xs)
    case (Cons x xs)
    then show ?case using assms [of x] by (elim disjE) simp_all
  qed simp
  have one: "filter (\<lambda>x. f x = i) (filter (\<lambda>x. f x = j) xs) = (if i = j then filter (\<lambda>x. f x = i) xs else [])" for i j
    by (induction xs) auto
  have "filter (\<lambda>x. f x = i) ?ys = filter (\<lambda>x. f x = i) xs" if "i = 0 \<or> i = 1 \<or> i = 2 \<or> i = 3" for i
    using that unfolding filter_append one by (elim disjE) simp_all
  from this [OF assms] show "filter (\<lambda>x. f k = f x) ?ys = filter (\<lambda>x. f k = f x) xs" for k
    unfolding eq_commute [of "f k"] .
  show "sorted (map f ?ys)"
    unfolding map_append sorted_append
    by (intro conjI sorted_map_const [where k = 0] sorted_map_const [where k = 1] sorted_map_const [where k = 2]
        sorted_map_const [where k = 3]) auto
qed

lemma chrome_order_correct:
  "chrome_order_cipher_suites base =
     filter (\<lambda>s. s = 0x1301) base @ filter (\<lambda>s. s = 0x1302) base @ filter (\<lambda>s. s = 0x1303) base @
     filter (\<lambda>s. s \<notin> {0x1301, 0x1302, 0x1303}) base"
  unfolding chrome_order_cipher_suites_def suite_rank_iff [symmetric]
  by (rule sort_key_four) (simp add: suite_rank_def)

text \<open>Trust settings with a pin of 64 hexadecimal digits, as a SHA-256 digest has, and
  certificates of a realistic size.\<close>

definition wf_trust :: "tls_trust \<Rightarrow> bool" where
  "wf_trust t \<longleftrightarrow> (case leaf_pin t of Some p \<Rightarrow> length p = 64 \<and> list_all is_ascii_hexdigit p | None \<Rightarrow> True) \<and>
    list_all (\<lambda>d. length d < 2 ^ 56) (pinned_certs t)"

definition len_prefixed :: "byte list list \<Rightarrow> byte list" where
  "len_prefixed ds = concat (map (\<lambda>der. rev (be_bytes 8 (length der)) @ der) ds)"

lemma len_prefixed_Cons: "len_prefixed (x # xs) = rev (be_bytes 8 (length x)) @ x @ len_prefixed xs"
  by (simp add: len_prefixed_def)

lemma len_prefixed_Nil [simp]: "len_prefixed [] = []" "len_prefixed (x # xs) \<noteq> []"
proof -
  have "length (rev (be_bytes 8 (length x))) = 8" by (simp only: length_rev length_be_bytes)
  then show "len_prefixed (x # xs) \<noteq> []" unfolding len_prefixed_Cons by (cases "rev (be_bytes 8 (length x))") simp_all
qed (simp add: len_prefixed_def)

lemma len_prefixed_inj:
  "len_prefixed xs = len_prefixed ys \<Longrightarrow> list_all (\<lambda>d. length d < 2 ^ 56) xs \<Longrightarrow> list_all (\<lambda>d. length d < 2 ^ 56) ys \<Longrightarrow> xs = ys"
proof (induction xs arbitrary: ys)
  case Nil
  then show ?case using len_prefixed_Nil(2) [of "hd ys" "tl ys"] by (cases ys) (simp_all del: len_prefixed_Nil(2))
next
  case (Cons x xs)
  obtain y ys' where ys: "ys = y # ys'" using Cons.prems(1) by (cases ys) (simp_all only: len_prefixed_Nil)
  have e: "rev (be_bytes 8 (length x)) @ x @ len_prefixed xs = rev (be_bytes 8 (length y)) @ y @ len_prefixed ys'"
    using Cons.prems(1) unfolding ys len_prefixed_Cons .
  have l: "length (rev (be_bytes 8 (length x))) = length (rev (be_bytes 8 (length y)))"
    by (simp only: length_rev length_be_bytes)
  then have "be_bytes 8 (length x) = be_bytes 8 (length y)" using e unfolding append_eq_append_conv [OF disjI1, OF l] by simp
  then have "be_nat (be_bytes 8 (length x)) = be_nat (be_bytes 8 (length y))" by simp
  then have "length x = length y" using Cons.prems(2,3) ys by (simp only: be_nat_be_bytes) simp
  then show ?case using e Cons ys unfolding append_eq_append_conv [OF disjI1, OF l] by simp
qed

lemma hexdigit_byte: "is_ascii_hexdigit c \<Longrightarrow> (of_nat (of_char c) :: byte) \<noteq> 0"
proof -
  assume h: "is_ascii_hexdigit c"
  have "unat (of_nat (of_char c) :: byte) = of_char c" by (simp add: unat_of_nat)
  moreover have "(of_char c :: nat) \<noteq> 0" using h by (auto simp: is_ascii_hexdigit_def Let_def)
  ultimately show ?thesis by (metis unsigned_0)
qed

text \<open>The length of a certificate cannot be taken for the start of a pin.\<close>

lemma prefix_not_pin:
  assumes "length d < 2 ^ 56" "rev (be_bytes 8 (length d)) @ r = as_bytes p @ r'" "length p = 64" "list_all is_ascii_hexdigit p"
  shows False
proof -
  have "be_bytes 8 (length d) = be_bytes (Suc 7) (length d)" by simp
  also have "\<dots> = of_nat (length d div 256 ^ 7) # be_bytes 7 (length d)" by (simp only: be_bytes.simps)
  also have "length d div 256 ^ 7 = 0" using assms(1) by simp
  finally have "rev (be_bytes 8 (length d)) @ r = rev (be_bytes 7 (length d)) @ 0 # r" by simp
  moreover have "(rev (be_bytes 7 (length d)) @ 0 # r) ! length (rev (be_bytes 7 (length d))) = 0" by (rule nth_append_length)
  moreover have "length (rev (be_bytes 7 (length d))) = 7" by (simp only: length_rev length_be_bytes)
  ultimately have "(rev (be_bytes 8 (length d)) @ r) ! 7 = 0" by simp
  moreover have "(as_bytes p @ r') ! 7 = of_nat (of_char (p ! 7))" using assms(3) by (simp add: nth_append as_bytes_def)
  moreover have "is_ascii_hexdigit (p ! 7)" using assms(3,4) by (simp add: list_all_length)
  ultimately show False using assms(2) hexdigit_byte by metis
qed

lemma xor_left_inject: "(x :: byte) XOR y = x XOR z \<Longrightarrow> y = z"
  by (metis xor.assoc xor.left_neutral xor_self_eq)

lemma tl_update0 [simp]: "List.tl (xs[0 := x]) = List.tl xs"
  by (cases xs) simp_all

lemma trust_content_inj:
  assumes "wf_trust t" "wf_trust t'" "trust_content t = trust_content t'"
  shows "t = t'"
proof -
  have e: "trust_content t = (if use_public_ca t then 1 else 0) # (case leaf_pin t of Some p \<Rightarrow> as_bytes p | None \<Rightarrow> []) @ len_prefixed (pinned_certs t)" for t
    by (simp add: trust_content_def len_prefixed_def)
  have ca: "use_public_ca t = use_public_ca t'" using assms(3) by (auto simp: e split: if_splits)
  have mixed: False if p: "leaf_pin a = Some p" "leaf_pin b = None" "wf_trust a" "wf_trust b" "trust_content a = trust_content b" for a b p
  proof (cases "pinned_certs b")
    case Nil
    then have "length (as_bytes p) = 0" using p by (simp add: e)
    then show False using p by (simp add: wf_trust_def)
  next
    case (Cons d ds)
    then show False using p prefix_not_pin [of d "d @ len_prefixed ds" p "len_prefixed (pinned_certs a)"]
      by (simp add: e wf_trust_def len_prefixed_Cons)
  qed
  have "leaf_pin t = leaf_pin t' \<and> pinned_certs t = pinned_certs t'"
  proof (cases "leaf_pin t"; cases "leaf_pin t'")
    fix p p' assume "leaf_pin t = Some p" "leaf_pin t' = Some p'"
    then show ?thesis using assms by (auto simp: e wf_trust_def intro: len_prefixed_inj)
  next
    fix p assume "leaf_pin t = None" "leaf_pin t' = Some p"
    then show ?thesis using mixed [of t' p t] assms by simp
  next
    fix p assume "leaf_pin t = Some p" "leaf_pin t' = None"
    then show ?thesis using mixed [of t p t'] assms by simp
  next
    assume "leaf_pin t = None" "leaf_pin t' = None"
    then show ?thesis using assms by (auto simp: e wf_trust_def intro: len_prefixed_inj)
  qed
  then show ?thesis using ca by simp
qed

text \<open>Any builds of a process, each with a value of the variable.\<close>

definition run_builds :: "tls_lib \<Rightarrow> bool \<Rightarrow> (byte list \<Rightarrow> byte list) \<Rightarrow> (string option \<times> tls_trust) list \<Rightarrow> connectors" where
  "run_builds l ft h reqs =
    fold (\<lambda>(var, t) cache. snd (build_tls_connector \<lparr> lib = l, feature = ft, fingerprint_var = var, sha = h \<rparr> t cache)) reqs []"

text \<open>
  C16: the cache of TLS connectors is invisible. After any builds in any order the connector of
  a trust setting is exactly the one a build without a cache would give, or the error it would
  give, so no connection is made under the roots, the fingerprint or the pin of another setting.
  The hash must not collide, outside its first byte, on the settings in use (the mode is mixed
  into that byte), and pins have their 64 digits; with a pin of another length two settings can
  feed the hash the same bytes.
\<close>

theorem connector_cache_correct:
  assumes "set (map snd reqs) \<subseteq> T" "t \<in> T" "\<forall>t\<in>T. wf_trust t"
    and "inj_on (\<lambda>x. List.tl (h x)) (trust_content ` T)" "\<forall>t\<in>T. h (trust_content t) \<noteq> []"
  shows "fst (build_tls_connector \<lparr> lib = l, feature = ft, fingerprint_var = var, sha = h \<rparr> t (run_builds l ft h reqs))
    = build_client_config l t (resolve_chrome ft (fingerprint_mode_from_env ft var))"
proof -
  have key: "u = t \<and> m = m'" if "u \<in> T" "t \<in> T" "cache_key h u m = cache_key h t m'" for u t m m'
  proof -
    have "List.tl (cache_key h u m) = List.tl (cache_key h t m')" using that(3) by simp
    then have "List.tl (h (trust_content u)) = List.tl (h (trust_content t))"
      by (simp add: cache_key_def cache_fingerprint_def Let_def tl_update0)
    then have "trust_content u = trust_content t" using assms(4) that(1,2) by (auto dest: inj_onD)
    then have u: "u = t" using trust_content_inj assms(3) that(1,2) by blast
    have "h (trust_content t) ! 0 XOR mode_byte m = h (trust_content t) ! 0 XOR mode_byte m'"
      using that(2,3) u assms(5) by (auto simp: cache_key_def cache_fingerprint_def Let_def dest: arg_cong [where f = "\<lambda>x. x ! 0"])
    then have "mode_byte m = mode_byte m'" by (rule xor_left_inject)
    then show ?thesis using u by (cases m; cases m') auto
  qed
  let ?ok = "\<lambda>cache. \<forall>k c. map_of cache k = Some c \<longrightarrow> (\<exists>t\<in>T. \<exists>m. k = cache_key h t m \<and> build_client_config l t m = Inr c)"
  have step: "?ok (snd (build_tls_connector \<lparr> lib = l, feature = ft, fingerprint_var = var, sha = h \<rparr> t cache)) \<and>
      fst (build_tls_connector \<lparr> lib = l, feature = ft, fingerprint_var = var, sha = h \<rparr> t cache) =
        build_client_config l t (resolve_chrome ft (fingerprint_mode_from_env ft var))"
    if ok: "?ok cache" and tT: "t \<in> T" for cache t var
  proof -
    let ?m = "resolve_chrome ft (fingerprint_mode_from_env ft var)"
    let ?k = "cache_key h t ?m"
    have b: "build_tls_connector \<lparr> lib = l, feature = ft, fingerprint_var = var, sha = h \<rparr> t cache =
        (case map_of cache ?k of Some c \<Rightarrow> (Inr c, cache)
         | None \<Rightarrow> (case build_client_config l t ?m of Inl err \<Rightarrow> (Inl err, cache) | Inr c \<Rightarrow> (Inr c, AList.update ?k c cache)))"
      unfolding build_tls_connector_def env_mode_def Let_def tls_env.simps ..
    show ?thesis
    proof (cases "map_of cache ?k")
      case (Some c)
      then obtain u m where "u \<in> T" "?k = cache_key h u m" "build_client_config l u m = Inr c" using ok by blast
      then have "build_client_config l t ?m = Inr c" using key tT by metis
      then show ?thesis unfolding b using Some ok by simp
    next
      case None
      show ?thesis
      proof (cases "build_client_config l t ?m")
        case (Inl err)
        then show ?thesis unfolding b using None ok by simp
      next
        case (Inr c)
        have "?ok (AList.update ?k c cache)"
        proof (intro allI impI)
          fix k d assume "map_of (AList.update ?k c cache) k = Some d"
          then have "(k = ?k \<and> d = c) \<or> map_of cache k = Some d" by (auto simp: update_conv' split: if_splits)
          then show "\<exists>t\<in>T. \<exists>m. k = cache_key h t m \<and> build_client_config l t m = Inr d"
            using ok tT Inr by blast
        qed
        then show ?thesis unfolding b using None Inr by simp
      qed
    qed
  qed
  have "?ok (run_builds l ft h reqs)"
    using assms(1) unfolding run_builds_def
    by (induction reqs rule: rev_induct) (use step in \<open>auto split: prod.splits\<close>)
  then show ?thesis using step assms(2) by blast
qed

theorem connector_cache_correct_witness:
  "fst (build_tls_connector \<lparr> lib = \<lparr> ring_suites = [0x1302, 0x1301], decompressors = [''brotli''], versions_ok = True,
        root_ok = (\<lambda>d. d = [1]), name_ok = (\<lambda>_. True) \<rparr>, feature = True, fingerprint_var = Some ''none'', sha = (\<lambda>x. 0 # x) \<rparr>
      (trust_pinned [[1]])
      (run_builds \<lparr> ring_suites = [0x1302, 0x1301], decompressors = [''brotli''], versions_ok = True,
        root_ok = (\<lambda>d. d = [1]), name_ok = (\<lambda>_. True) \<rparr> True (\<lambda>x. 0 # x)
        [(None, trust_pinned [[1]]), (Some ''none'', trust_public_ca None)]))
    = Inr \<lparr> root_store = Pinned [[1]], suites = [0x1302, 0x1301], alpn = [], cert_decompressors = [], resumption = False \<rparr>"
proof -
  have "wf_trust (trust_pinned [[1]])" "wf_trust (trust_public_ca None)"
    by (simp_all add: wf_trust_def trust_pinned_def trust_public_ca_def)
  moreover have "resolve_chrome True (fingerprint_mode_from_env True (Some ''none'')) = Stock" by code_simp
  ultimately show ?thesis
    by (subst connector_cache_correct [where T = "{trust_pinned [[1]], trust_public_ca None}"])
      (auto simp: inj_on_def build_client_config_def node_roots_def trust_pinned_def)
qed
end
