(* ===== verification/ShareLink.thy ===== *)
theory ShareLink
  imports Scheduler TcpTransport
begin

text \<open>
  Share links of a node, \<open>hydra-core/src/share_link.rs\<close>: their fields and builders, the URL
  form, the base64 form, and files with a link per line. The crates \<open>base64\<close> and \<open>url\<close>, and
  the decimal text of an \<open>f64\<close>, are arguments (\<open>link_lib\<close>); SHA-256 is \<open>sha\<close>. A number of a
  link is a real, as in the scheduler.
\<close>

section \<open>The link\<close>

datatype transport_mode = Masquerade | Obfs

definition mode_parse :: "string \<Rightarrow> transport_mode res" where
  "mode_parse s =
    (if s = ''masquerade'' then Inr Masquerade else if s = ''obfs'' then Inr Obfs
     else Inl (ProtocolError ''invalid mode''))"

fun mode_str :: "transport_mode \<Rightarrow> string" where
  "mode_str Masquerade = ''masquerade''"
| "mode_str Obfs = ''obfs''"

record share_link =
  link_address :: string
  link_port :: u16
  link_bandwidth :: real
  link_latency :: real
  link_loss :: real
  link_load :: real
  link_status :: node_status
  link_mode :: transport_mode
  auth_key :: "string option"
  cert_der :: "string option"
  cert_fp :: "string option"
  obfs_key :: "string option"
  transport :: "string option"

text \<open>A URL as the \<open>url\<close> crate gives it, and the crates.\<close>

record url =
  scheme :: string
  host_str :: "string option"
  port :: "u16 option"
  query_pairs :: "(string \<times> string) list"

record link_lib =
  b64url_encode :: "byte list \<Rightarrow> string"
  b64url_decode :: "string \<Rightarrow> byte list option"
  b64_encode :: "byte list \<Rightarrow> string"
  b64_decode :: "string \<Rightarrow> byte list option"
  url_parse :: "string \<Rightarrow> url option"
  f64_parse :: "string \<Rightarrow> f64 option"
  f64_show :: "real \<Rightarrow> string"

definition link_new :: "node_info \<Rightarrow> share_link" where
  "link_new n =
    \<lparr> link_address = show_ip (sock_ip (address n)), link_port = sock_port (address n),
      link_bandwidth = bandwidth n, link_latency = latency n, link_loss = loss_rate n, link_load = load n,
      link_status = status n, link_mode = Masquerade, auth_key = None, cert_der = None, cert_fp = None,
      obfs_key = None, transport = Some (transport_str Tcp) \<rparr>"

section \<open>Builders and readers of the fields\<close>

definition sha256_hex :: "(byte list \<Rightarrow> byte list) \<Rightarrow> byte list \<Rightarrow> string" where
  "sha256_hex h bs = hex_encode (h bs)"

definition with_auth_key_bytes :: "link_lib \<Rightarrow> byte list \<Rightarrow> share_link \<Rightarrow> share_link res" where
  "with_auth_key_bytes lb key l =
    (if length key \<noteq> 32 then Inl (ProtocolError ''auth key length'')
     else Inr (l \<lparr> auth_key := Some (b64url_encode lb key) \<rparr>))"

definition with_cert_der :: "link_lib \<Rightarrow> (byte list \<Rightarrow> byte list) \<Rightarrow> byte list \<Rightarrow> share_link \<Rightarrow> share_link" where
  "with_cert_der lb h der l =
    l \<lparr> cert_fp := Some (sha256_hex h der), cert_der := Some (b64url_encode lb der) \<rparr>"

definition is_fingerprint :: "string \<Rightarrow> bool" where
  "is_fingerprint s \<longleftrightarrow> length s = 64 \<and> list_all is_ascii_hexdigit s"

definition with_cert_fp :: "string \<Rightarrow> share_link \<Rightarrow> share_link res" where
  "with_cert_fp fp l =
    (let fp = to_ascii_lowercase (trim fp) in
     if \<not> is_fingerprint fp then Inl (ProtocolError ''fingerprint'')
     else Inr (l \<lparr> cert_fp := Some fp \<rparr>))"

definition with_obfs_key :: "link_lib \<Rightarrow> string \<Rightarrow> share_link \<Rightarrow> share_link" where
  "with_obfs_key lb key l = l \<lparr> obfs_key := Some (b64url_encode lb (as_bytes key)) \<rparr>"

definition with_transport :: "transport_choice \<Rightarrow> share_link \<Rightarrow> share_link" where
  "with_transport tp l = l \<lparr> transport := Some (transport_str tp) \<rparr>"

definition with_mode :: "transport_mode \<Rightarrow> share_link \<Rightarrow> share_link" where
  "with_mode m l = l \<lparr> link_mode := m \<rparr>"

definition link_new_with_mode :: "node_info \<Rightarrow> transport_mode \<Rightarrow> share_link" where
  "link_new_with_mode n m = (link_new n) \<lparr> link_mode := m \<rparr>"

definition link_transport :: "share_link \<Rightarrow> transport_choice res" where
  "link_transport l =
    (case transport l of
       None \<Rightarrow> Inr DEFAULT_TRANSPORT
     | Some s \<Rightarrow> if s = ''quic'' then Inr Tcp else transport_parse s)"

definition transport_is_tcp :: "share_link \<Rightarrow> bool" where
  "transport_is_tcp l \<longleftrightarrow> link_transport l = Inr Tcp"

definition is_full_share :: "share_link \<Rightarrow> bool" where
  "is_full_share l \<longleftrightarrow> auth_key l \<noteq> None \<and> cert_der l \<noteq> None"

definition has_secret_fields :: "share_link \<Rightarrow> bool" where
  "has_secret_fields l \<longleftrightarrow> auth_key l \<noteq> None \<or> cert_der l \<noteq> None \<or> obfs_key l \<noteq> None"

definition auth_key_bytes :: "link_lib \<Rightarrow> share_link \<Rightarrow> byte list option res" where
  "auth_key_bytes lb l =
    (case auth_key l of
       None \<Rightarrow> Inr None
     | Some s \<Rightarrow>
         (case b64url_decode lb s of
            None \<Rightarrow> Inl (ProtocolError ''invalid k'')
          | Some key \<Rightarrow> if length key \<noteq> 32 then Inl (ProtocolError ''k length'') else Inr (Some key)))"

definition cert_der_bytes :: "link_lib \<Rightarrow> share_link \<Rightarrow> byte list option res" where
  "cert_der_bytes lb l =
    (case cert_der l of
       None \<Rightarrow> Inr None
     | Some s \<Rightarrow> (case b64url_decode lb s of None \<Rightarrow> Inl (ProtocolError ''invalid cc'') | Some b \<Rightarrow> Inr (Some b)))"

definition obfs_key_string :: "link_lib \<Rightarrow> share_link \<Rightarrow> string option res" where
  "obfs_key_string lb l =
    (case obfs_key l of
       None \<Rightarrow> Inr None
     | Some s \<Rightarrow>
         (case b64url_decode lb s of
            None \<Rightarrow> Inl (ProtocolError ''invalid ok'')
          | Some b \<Rightarrow> (case from_utf8 b of None \<Rightarrow> Inl (ProtocolError ''ok encoding'') | Some t \<Rightarrow> Inr (Some t))))"

definition to_node_info :: "share_link \<Rightarrow> node_info res" where
  "to_node_info l =
    (case parse_sock_addr (link_address l @ '':'' @ show_nat (unat (link_port l))) of
       None \<Rightarrow> Inl (ProtocolError ''node address'')
     | Some a \<Rightarrow> Inr \<lparr> address = a, bandwidth = link_bandwidth l, latency = link_latency l,
         loss_rate = link_loss l, load = link_load l, status = link_status l \<rparr>)"

section \<open>The URL\<close>

fun status_str :: "node_status \<Rightarrow> string" where
  "status_str Online = ''online''"
| "status_str Degraded = ''degraded''"
| "status_str Offline = ''offline''"

definition param :: "string \<Rightarrow> string option \<Rightarrow> string" where
  "param key v = (case v of Some x \<Rightarrow> ''&'' @ key @ ''='' @ x | None \<Rightarrow> '''')"

definition to_share_url :: "link_lib \<Rightarrow> share_link \<Rightarrow> string" where
  "to_share_url lb l =
    ''hydra://'' @ link_address l @ '':'' @ show_nat (unat (link_port l)) @
    ''?bandwidth='' @ f64_show lb (link_bandwidth l) @ ''&latency='' @ f64_show lb (link_latency l) @
    ''&loss_rate='' @ f64_show lb (link_loss l) @ ''&load='' @ f64_show lb (link_load l) @
    ''&status='' @ status_str (link_status l) @
    (if link_mode l = Obfs then ''&mode=obfs'' else '''') @
    (if has_secret_fields l
     then ''&v=3'' @ param ''k'' (auth_key l) @ param ''cc'' (cert_der l) @ param ''ok'' (obfs_key l) else '''') @
    param ''cf'' (cert_fp l) @
    (case transport l of Some tp \<Rightarrow> (if tp = ''tcp'' then ''&tp=tcp'' else '''') | None \<Rightarrow> '''')"

definition parse_bounded_f64 :: "link_lib \<Rightarrow> string \<Rightarrow> string \<Rightarrow> real \<Rightarrow> real \<Rightarrow> real res" where
  "parse_bounded_f64 lb v name lo hi =
    (case f64_parse lb v of
       None \<Rightarrow> Inl (ProtocolError (''invalid '' @ name))
     | Some NotFinite \<Rightarrow> Inl (ProtocolError (''range of '' @ name))
     | Some (Finite x) \<Rightarrow> if x < lo \<or> x > hi then Inl (ProtocolError (''range of '' @ name)) else Inr x)"

text \<open>One query parameter; a later one of the same name wins, an unknown one is skipped.\<close>

definition link_param :: "link_lib \<Rightarrow> share_link \<Rightarrow> string \<times> string \<Rightarrow> share_link res" where
  "link_param lb l kv =
    (case kv of (key, v) \<Rightarrow>
      if key = ''k'' then
        (if b64url_decode lb v = None then Inl (ProtocolError ''invalid k'') else Inr (l \<lparr> auth_key := Some v \<rparr>))
      else if key = ''cc'' then
        (if b64url_decode lb v = None then Inl (ProtocolError ''invalid cc'') else Inr (l \<lparr> cert_der := Some v \<rparr>))
      else if key = ''ok'' then
        (if b64url_decode lb v = None then Inl (ProtocolError ''invalid ok'') else Inr (l \<lparr> obfs_key := Some v \<rparr>))
      else if key = ''cf'' then
        (if \<not> is_fingerprint v then Inl (ProtocolError ''invalid cf'') else Inr (l \<lparr> cert_fp := Some (to_ascii_lowercase v) \<rparr>))
      else if key = ''v'' then Inr l
      else if key = ''bandwidth'' then
        bind_res (parse_bounded_f64 lb v ''bandwidth'' 0 1000000) (\<lambda>x. Inr (l \<lparr> link_bandwidth := x \<rparr>))
      else if key = ''latency'' then
        bind_res (parse_bounded_f64 lb v ''latency'' 0 1000000) (\<lambda>x. Inr (l \<lparr> link_latency := x \<rparr>))
      else if key = ''loss_rate'' then
        bind_res (parse_bounded_f64 lb v ''loss_rate'' 0 1) (\<lambda>x. Inr (l \<lparr> link_loss := x \<rparr>))
      else if key = ''load'' then
        bind_res (parse_bounded_f64 lb v ''load'' 0 1) (\<lambda>x. Inr (l \<lparr> link_load := x \<rparr>))
      else if key = ''status'' then
        Inr (l \<lparr> link_status := (if v = ''online'' then Online else if v = ''degraded'' then Degraded
                               else if v = ''offline'' then Offline else Online) \<rparr>)
      else if key = ''mode'' then
        bind_res (mode_parse v) (\<lambda>m. Inr (l \<lparr> link_mode := m \<rparr>))
      else if key = ''tp'' then
        bind_res (transport_parse v) (\<lambda>_. Inr (l \<lparr> transport := Some v \<rparr>))
      else Inr l)"

fun link_params :: "link_lib \<Rightarrow> share_link \<Rightarrow> (string \<times> string) list \<Rightarrow> share_link res" where
  "link_params lb l [] = Inr l"
| "link_params lb l (kv # kvs) = bind_res (link_param lb l kv) (\<lambda>l. link_params lb l kvs)"

definition from_share_url :: "link_lib \<Rightarrow> string \<Rightarrow> share_link res" where
  "from_share_url lb s =
    (case url_parse lb s of
       None \<Rightarrow> Inl (ProtocolError ''invalid URL'')
     | Some u \<Rightarrow>
         if scheme u \<noteq> ''hydra'' then Inl (ProtocolError ''scheme'')
         else (case host_str u of
            None \<Rightarrow> Inl (ProtocolError ''missing host'')
          | Some h \<Rightarrow>
              (case port u of
                 None \<Rightarrow> Inl (ProtocolError ''missing port'')
               | Some p \<Rightarrow>
                   link_params lb \<lparr> link_address = h, link_port = p, link_bandwidth = 100, link_latency = 10,
                     link_loss = 1/100, link_load = 1/2, link_status = Online, link_mode = Masquerade,
                     auth_key = None, cert_der = None, cert_fp = None, obfs_key = None, transport = None \<rparr>
                     (query_pairs u))))"

text \<open>The reason for which an imported address is warned about in the log.\<close>

definition private_reason :: "ip_addr \<Rightarrow> string option" where
  "private_reason ip =
    (case ip of
       IpV4 a \<Rightarrow>
         (if v4_is_loopback a \<or> v4_is_link_local a \<or> v4_is_private a then Some ''v4 private''
          else if v4_is_broadcast a \<or> v4_is_multicast a \<or> v4_octets a ! 0 = 0 then Some ''v4 reserved''
          else None)
     | IpV6 a \<Rightarrow>
         (let seg0 = v6_segments a ! 0;
              loopback_or_local = v6_is_loopback a \<or> v6_is_unspecified a \<or> seg0 AND 0xffc0 = 0xfe80;
              ula_or_multicast = seg0 AND 0xfe00 = 0xfc00 \<or> v6_is_multicast a
          in if loopback_or_local \<or> ula_or_multicast then Some ''v6 local'' else None))"

definition import_warning :: "string \<Rightarrow> string option" where
  "import_warning addr = (case parse_ip addr of Some ip \<Rightarrow> private_reason ip | None \<Rightarrow> None)"

section \<open>Base64 and files\<close>

definition to_base64 :: "link_lib \<Rightarrow> share_link \<Rightarrow> string" where
  "to_base64 lb l = b64_encode lb (as_bytes (to_share_url lb l))"

definition from_decoded :: "link_lib \<Rightarrow> byte list option \<Rightarrow> share_link res" where
  "from_decoded lb d =
    (case d of
       None \<Rightarrow> Inl (ProtocolError ''invalid base64'')
     | Some b \<Rightarrow> (case from_utf8 b of None \<Rightarrow> Inl (ProtocolError ''invalid UTF-8'') | Some s \<Rightarrow> from_share_url lb s))"

definition from_base64 :: "link_lib \<Rightarrow> string \<Rightarrow> share_link res" where
  "from_base64 lb s = from_decoded lb (b64_decode lb s)"

definition from_base64_nopad :: "link_lib \<Rightarrow> string \<Rightarrow> share_link res" where
  "from_base64_nopad lb s = from_decoded lb (b64url_decode lb s)"

text \<open>The lines that are looked at, trimmed.\<close>

definition link_lines :: "string \<Rightarrow> string list" where
  "link_lines text = filter (\<lambda>l. l \<noteq> [] \<and> \<not> starts_with l ''#'') (map trim (str_lines text))"

fun share_lines :: "link_lib \<Rightarrow> string list \<Rightarrow> share_link list res" where
  "share_lines lb [] = Inr []"
| "share_lines lb (s # ss) =
    (if starts_with s ''hydra://'' then
       bind_res (from_share_url lb s) (\<lambda>l. bind_res (share_lines lb ss) (\<lambda>ls. Inr (l # ls)))
     else share_lines lb ss)"

definition parse_share_links :: "link_lib \<Rightarrow> string \<Rightarrow> share_link list res" where
  "parse_share_links lb text = share_lines lb (link_lines text)"

definition generate_share_links :: "link_lib \<Rightarrow> node_info list \<Rightarrow> string" where
  "generate_share_links lb ns = concat (map (\<lambda>n. to_share_url lb (link_new n) @ [CHR 0x0A]) ns)"

definition generate_base64_share_links :: "link_lib \<Rightarrow> node_info list \<Rightarrow> string" where
  "generate_base64_share_links lb ns = concat (map (\<lambda>n. to_base64 lb (link_new n) @ [CHR 0x0A]) ns)"

text \<open>A line that is no base64 link may be a plain link, whose error ends the parse, or a link in
  the other alphabet; else it is skipped.\<close>

fun base64_lines :: "link_lib \<Rightarrow> string list \<Rightarrow> share_link list res" where
  "base64_lines lb [] = Inr []"
| "base64_lines lb (s # ss) =
    (case from_base64 lb s of
       Inr l \<Rightarrow> bind_res (base64_lines lb ss) (\<lambda>ls. Inr (l # ls))
     | Inl _ \<Rightarrow>
         if starts_with s ''hydra://'' then
           bind_res (from_share_url lb s) (\<lambda>l. bind_res (base64_lines lb ss) (\<lambda>ls. Inr (l # ls)))
         else (case from_base64_nopad lb s of
            Inr l \<Rightarrow> bind_res (base64_lines lb ss) (\<lambda>ls. Inr (l # ls))
          | Inl _ \<Rightarrow> base64_lines lb ss))"

definition parse_base64_share_links :: "link_lib \<Rightarrow> string \<Rightarrow> share_link list res" where
  "parse_base64_share_links lb text = base64_lines lb (link_lines text)"


section \<open>What a URL carries\<close>

text \<open>Characters that stand for themselves in a host and in a query.\<close>

definition plain :: "char \<Rightarrow> bool" where
  "plain c \<longleftrightarrow> (let n = of_char c :: nat in
     48 \<le> n \<and> n \<le> 57 \<or> 97 \<le> n \<and> n \<le> 122 \<or> 65 \<le> n \<and> n \<le> 90 \<or> n = 45 \<or> n = 46 \<or> n = 95)"

definition url_text :: "string \<Rightarrow> u16 \<Rightarrow> (string \<times> string) list \<Rightarrow> string" where
  "url_text h p ps = ''hydra://'' @ h @ '':'' @ show_nat (unat p) @ ''?'' @ join ''&'' (map (\<lambda>(k, v). k @ ''='' @ v) ps)"

text \<open>What the crates promise: a URL of plain parts is taken apart into them, and the numbers
  in \<open>F\<close> are printed in plain characters and read back.\<close>

definition lib_ok :: "link_lib \<Rightarrow> real set \<Rightarrow> bool" where
  "lib_ok lb F \<longleftrightarrow>
    (\<forall>h p ps. h \<noteq> [] \<and> list_all plain h \<and> ps \<noteq> [] \<and>
       list_all (\<lambda>(k, v). k \<noteq> [] \<and> list_all plain k \<and> list_all plain v) ps \<longrightarrow>
       url_parse lb (url_text h p ps) = Some \<lparr> scheme = ''hydra'', host_str = Some h, port = Some p, query_pairs = ps \<rparr>) \<and>
    (\<forall>x\<in>F. f64_parse lb (f64_show lb x) = Some (Finite x) \<and> list_all plain (f64_show lb x))"

definition secret_ok :: "link_lib \<Rightarrow> string option \<Rightarrow> bool" where
  "secret_ok lb v = (case v of Some s \<Rightarrow> list_all plain s \<and> b64url_decode lb s \<noteq> None | None \<Rightarrow> True)"

definition link_ok :: "link_lib \<Rightarrow> real set \<Rightarrow> share_link \<Rightarrow> bool" where
  "link_ok lb F l \<longleftrightarrow> link_address l \<noteq> [] \<and> list_all plain (link_address l) \<and>
    {link_bandwidth l, link_latency l, link_loss l, link_load l} \<subseteq> F \<and>
    0 \<le> link_bandwidth l \<and> link_bandwidth l \<le> 1000000 \<and> 0 \<le> link_latency l \<and> link_latency l \<le> 1000000 \<and>
    0 \<le> link_loss l \<and> link_loss l \<le> 1 \<and> 0 \<le> link_load l \<and> link_load l \<le> 1 \<and>
    secret_ok lb (auth_key l) \<and> secret_ok lb (cert_der l) \<and> secret_ok lb (obfs_key l) \<and>
    (case cert_fp l of Some s \<Rightarrow> is_fingerprint s \<and> list_all plain s \<and> to_ascii_lowercase s = s | None \<Rightarrow> True) \<and>
    transport l \<in> {None, Some ''tcp''}"

definition opt_pair :: "string \<Rightarrow> string option \<Rightarrow> (string \<times> string) list" where
  "opt_pair k v = (case v of Some x \<Rightarrow> [(k, x)] | None \<Rightarrow> [])"

definition link_pairs :: "link_lib \<Rightarrow> share_link \<Rightarrow> (string \<times> string) list" where
  "link_pairs lb l =
    [(''bandwidth'', f64_show lb (link_bandwidth l)), (''latency'', f64_show lb (link_latency l)),
     (''loss_rate'', f64_show lb (link_loss l)), (''load'', f64_show lb (link_load l)),
     (''status'', status_str (link_status l))] @
    (if link_mode l = Obfs then [(''mode'', ''obfs'')] else []) @
    (if has_secret_fields l then [(''v'', ''3'')] else []) @
    opt_pair ''k'' (auth_key l) @ opt_pair ''cc'' (cert_der l) @ opt_pair ''ok'' (obfs_key l) @ opt_pair ''cf'' (cert_fp l) @
    opt_pair ''tp'' (transport l)"

lemma param_pair: "param k v = concat (map (\<lambda>(k, v). ''&'' @ k @ ''='' @ v) (opt_pair k v))"
  by (simp add: param_def opt_pair_def split: option.split)

lemma join_amp: "ps \<noteq> [] \<Longrightarrow> ''&'' @ join ''&'' (map (\<lambda>(k, v). k @ ''='' @ v) ps) = concat (map (\<lambda>(k, v). ''&'' @ k @ ''='' @ v) ps)"
  by (cases ps) (auto simp: join_def o_def split_def)

lemma to_share_url_text:
  assumes "transport l \<in> {None, Some ''tcp''}"
  shows "to_share_url lb l = url_text (link_address l) (link_port l) (link_pairs lb l)"
proof -
  have "''&'' @ join ''&'' (map (\<lambda>(k, v). k @ ''='' @ v) (link_pairs lb l)) =
      concat (map (\<lambda>(k, v). ''&'' @ k @ ''='' @ v) (link_pairs lb l))"
    by (rule join_amp) (simp add: link_pairs_def)
  also have "\<dots> = ''&'' @ drop 1 (concat (map (\<lambda>(k, v). ''&'' @ k @ ''='' @ v) (link_pairs lb l)))"
    by (simp add: link_pairs_def)
  finally have j: "join ''&'' (map (\<lambda>(k, v). k @ ''='' @ v) (link_pairs lb l)) =
      drop 1 (concat (map (\<lambda>(k, v). ''&'' @ k @ ''='' @ v) (link_pairs lb l)))" by simp
  have "(if has_secret_fields l
     then ''&v=3'' @ param ''k'' (auth_key l) @ param ''cc'' (cert_der l) @ param ''ok'' (obfs_key l) else '''') =
    (if has_secret_fields l then ''&v=3'' else '''') @ param ''k'' (auth_key l) @ param ''cc'' (cert_der l) @ param ''ok'' (obfs_key l)"
    by (simp add: has_secret_fields_def param_def)
  moreover have "(case transport l of Some tp \<Rightarrow> (if tp = ''tcp'' then ''&tp=tcp'' else '''') | None \<Rightarrow> '''') = param ''tp'' (transport l)"
    using assms by (auto simp: param_def)
  ultimately show ?thesis
    unfolding to_share_url_def url_text_def j by (simp add: link_pairs_def param_pair)
qed

lemma link_params_append:
  "link_params lb l (xs @ ys) = bind_res (link_params lb l xs) (\<lambda>l. link_params lb l ys)"
  by (induction lb l xs rule: link_params.induct) (auto simp: bind_res_def split: sum.splits)

lemma link_params_secret:
  "secret_ok lb v \<Longrightarrow> link_params lb l (opt_pair ''k'' v) = Inr (case v of Some x \<Rightarrow> l \<lparr> auth_key := v \<rparr> | None \<Rightarrow> l)"
  "secret_ok lb v \<Longrightarrow> link_params lb l (opt_pair ''cc'' v) = Inr (case v of Some x \<Rightarrow> l \<lparr> cert_der := v \<rparr> | None \<Rightarrow> l)"
  "secret_ok lb v \<Longrightarrow> link_params lb l (opt_pair ''ok'' v) = Inr (case v of Some x \<Rightarrow> l \<lparr> obfs_key := v \<rparr> | None \<Rightarrow> l)"
  by (auto simp: secret_ok_def opt_pair_def link_param_def split: option.split)

lemma link_params_numbers:
  assumes "lib_ok lb F" "link_ok lb F l"
  shows "link_params lb b
      [(''bandwidth'', f64_show lb (link_bandwidth l)), (''latency'', f64_show lb (link_latency l)),
       (''loss_rate'', f64_show lb (link_loss l)), (''load'', f64_show lb (link_load l)),
       (''status'', status_str (link_status l))] =
    Inr (b \<lparr> link_bandwidth := link_bandwidth l, link_latency := link_latency l, link_loss := link_loss l,
      link_load := link_load l, link_status := link_status l \<rparr>)"
proof -
  have f: "f64_parse lb (f64_show lb x) = Some (Finite x)" if "x \<in> F" for x using assms(1) that by (simp add: lib_ok_def)
  show ?thesis using assms(2) f
    by (cases "link_status l") (simp_all add: link_ok_def link_param_def parse_bounded_f64_def)
qed

lemma link_params_pairs:
  assumes "lib_ok lb F" "link_ok lb F l"
    and "b = \<lparr> link_address = link_address l, link_port = link_port l, link_bandwidth = x1, link_latency = x2,
       link_loss = x3, link_load = x4, link_status = st, link_mode = Masquerade,
       auth_key = None, cert_der = None, cert_fp = None, obfs_key = None, transport = None \<rparr>"
  shows "link_params lb b (link_pairs lb l) = Inr l"
proof -
  have s: "secret_ok lb (auth_key l)" "secret_ok lb (cert_der l)" "secret_ok lb (obfs_key l)" using assms(2) by (simp_all add: link_ok_def)
  have m: "link_params lb c (if link_mode l = Obfs then [(''mode'', ''obfs'')] else []) =
      Inr (if link_mode l = Obfs then c \<lparr> link_mode := Obfs \<rparr> else c)" for c
    by (simp add: link_param_def mode_parse_def)
  have v: "link_params lb c (if has_secret_fields l then [(''v'', ''3'')] else []) = Inr c" for c
    by (simp add: link_param_def)
  have fp: "link_params lb c (opt_pair ''cf'' (cert_fp l)) = Inr (case cert_fp l of Some x \<Rightarrow> c \<lparr> cert_fp := cert_fp l \<rparr> | None \<Rightarrow> c)" for c
    using assms(2) by (auto simp: link_ok_def opt_pair_def link_param_def split: option.split)
  have tp: "link_params lb c (opt_pair ''tp'' (transport l)) = Inr (case transport l of Some x \<Rightarrow> c \<lparr> transport := transport l \<rparr> | None \<Rightarrow> c)" for c
    using assms(2) by (auto simp: link_ok_def opt_pair_def link_param_def transport_parse_def split: option.split)
  show ?thesis
    unfolding link_pairs_def link_params_append link_params_numbers [OF assms(1,2)] m v fp tp link_params_secret [OF s(1)]
      link_params_secret(2) [OF s(2)] link_params_secret(3) [OF s(3)] bind_res_simps assms(3)
    by (cases "link_mode l"; cases l) (auto split: option.split)
qed

lemma link_pairs_plain:
  assumes "lib_ok lb F" "link_ok lb F l"
  shows "link_pairs lb l \<noteq> [] \<and> list_all (\<lambda>(k, v). k \<noteq> [] \<and> list_all plain k \<and> list_all plain v) (link_pairs lb l)"
proof -
  have f: "list_all plain (f64_show lb x)" if "x \<in> F" for x using assms(1) that by (simp add: lib_ok_def)
  have st: "list_all plain (status_str s)" for s by (cases s) (simp_all add: plain_def Let_def)
  let ?P = "\<lambda>(k, v). k \<noteq> [] \<and> list_all plain k \<and> list_all plain v"
  have num: "list_all plain (f64_show lb (link_bandwidth l))" "list_all plain (f64_show lb (link_latency l))"
    "list_all plain (f64_show lb (link_loss l))" "list_all plain (f64_show lb (link_load l))"
    using assms(2) by (simp_all add: link_ok_def f)
  have o: "list_all ?P (opt_pair k v)" if "k \<noteq> [] \<and> list_all plain k" "\<forall>x. v = Some x \<longrightarrow> list_all plain x" for k v
    using that by (simp add: opt_pair_def split: option.split)
  have sec: "\<forall>x. v = Some x \<longrightarrow> list_all plain x" if "secret_ok lb v" for v
    using that by (simp add: secret_ok_def split: option.splits)
  have five: "list_all ?P [(''bandwidth'', f64_show lb (link_bandwidth l)), (''latency'', f64_show lb (link_latency l)),
     (''loss_rate'', f64_show lb (link_loss l)), (''load'', f64_show lb (link_load l)),
     (''status'', status_str (link_status l))]"
    using num st by (simp add: plain_def Let_def)
  have "list_all ?P (opt_pair ''k'' (auth_key l))" "list_all ?P (opt_pair ''cc'' (cert_der l))"
    "list_all ?P (opt_pair ''ok'' (obfs_key l))"
    using assms(2) by (auto intro!: o sec simp: link_ok_def, simp_all add: plain_def Let_def)
  moreover have "list_all ?P (opt_pair ''cf'' (cert_fp l))"
    using assms(2) by (intro o) (auto simp: link_ok_def plain_def Let_def split: option.splits)
  moreover have "list_all ?P (opt_pair ''tp'' (transport l))"
    using assms(2) by (intro o) (auto simp: link_ok_def plain_def Let_def)
  moreover have "list_all ?P (if link_mode l = Obfs then [(''mode'', ''obfs'')] else [])"
    "list_all ?P (if has_secret_fields l then [(''v'', ''3'')] else [])" by (simp_all add: plain_def Let_def)
  ultimately show ?thesis unfolding link_pairs_def list_all_append using five by blast
qed

lemma share_link_roundtrip_aux:
  assumes "lib_ok lb F" "link_ok lb F l"
  shows "from_share_url lb (to_share_url lb l) = Inr l"
proof -
  have "transport l \<in> {None, Some ''tcp''}" "link_address l \<noteq> []" "list_all plain (link_address l)"
    using assms(2) by (simp_all add: link_ok_def)
  then have "url_parse lb (to_share_url lb l) = Some \<lparr> scheme = ''hydra'', host_str = Some (link_address l),
      port = Some (link_port l), query_pairs = link_pairs lb l \<rparr>"
    using link_pairs_plain [OF assms] assms(1) by (simp add: to_share_url_text lib_ok_def)
  then show ?thesis by (simp add: from_share_url_def link_params_pairs [OF assms refl])
qed

text \<open>
  C15: a share link survives its text. Every link whose fields can be written (numbers in range,
  secrets in the alphabet, a lower-case fingerprint, transport tcp or none) is read back from its
  URL exactly as it was.
\<close>

theorem share_link_roundtrip:
  assumes "lib_ok lb F" "link_ok lb F l"
  shows "from_share_url lb (to_share_url lb l) = Inr l"
  by (rule share_link_roundtrip_aux [OF assms])

section \<open>What an import guarantees\<close>

text \<open>A link that was read: numbers in range, secrets that decode, a lower-case fingerprint and a
  known transport.\<close>

definition decodes :: "link_lib \<Rightarrow> string option \<Rightarrow> bool" where
  "decodes lb v \<longleftrightarrow> v = None \<or> b64url_decode lb (the v) \<noteq> None"

definition in_range :: "real \<Rightarrow> real \<Rightarrow> bool" where
  "in_range hi x \<longleftrightarrow> 0 \<le> x \<and> x \<le> hi"

definition lower_fingerprint :: "string option \<Rightarrow> bool" where
  "lower_fingerprint v \<longleftrightarrow> v = None \<or> (length (the v) = 64 \<and> to_ascii_lowercase (the v) = the v)"

definition link_typed :: "link_lib \<Rightarrow> share_link \<Rightarrow> bool" where
  "link_typed lb l \<longleftrightarrow>
    in_range 1000000 (link_bandwidth l) \<and> in_range 1000000 (link_latency l) \<and> in_range 1 (link_loss l) \<and> in_range 1 (link_load l) \<and>
    decodes lb (auth_key l) \<and> decodes lb (cert_der l) \<and> decodes lb (obfs_key l) \<and> lower_fingerprint (cert_fp l) \<and>
    transport l \<in> {None, Some ''tcp'', Some ''quic''}"

lemma parse_bounded_result:
  "case parse_bounded_f64 lb v name 0 hi of Inl e \<Rightarrow> (\<exists>x. e = ProtocolError x) | Inr x \<Rightarrow> in_range hi x"
  by (auto simp: parse_bounded_f64_def in_range_def split: option.splits f64.splits)

definition import_step :: "link_lib \<Rightarrow> share_link \<Rightarrow> share_link res \<Rightarrow> bool" where
  "import_step lb l r \<longleftrightarrow> (case r of Inl e \<Rightarrow> (\<exists>x. e = ProtocolError x)
    | Inr l' \<Rightarrow> link_typed lb l' \<and> link_address l' = link_address l \<and> link_port l' = link_port l)"

lemma import_step_if: "(b \<Longrightarrow> import_step lb l x) \<Longrightarrow> (\<not> b \<Longrightarrow> import_step lb l y) \<Longrightarrow> import_step lb l (if b then x else y)"
  by simp

lemma import_step_number:
  "(\<And>x. in_range hi x \<Longrightarrow> import_step lb l (f x)) \<Longrightarrow> import_step lb l (bind_res (parse_bounded_f64 lb v name 0 hi) f)"
  using parse_bounded_result [where lb = lb and v = v and name = name and hi = hi]
  by (cases "parse_bounded_f64 lb v name 0 hi") (simp_all add: import_step_def)

lemma link_param_typed: "link_typed lb l \<Longrightarrow> import_step lb l (link_param lb l kv)"
  unfolding link_param_def
  by (cases kv, simp only: prod.case, intro import_step_if import_step_number)
    (simp_all add: import_step_def link_typed_def decodes_def lower_fingerprint_def is_fingerprint_def to_ascii_lowercase_def
      mode_parse_def transport_parse_def in_range_def)

lemma link_params_typed: "link_typed lb l \<Longrightarrow> import_step lb l (link_params lb l kvs)"
proof (induction kvs arbitrary: l)
  case (Cons kv kvs)
  show ?case
  proof (cases "link_param lb l kv")
    case (Inl e)
    then show ?thesis using link_param_typed [OF Cons.prems, of kv] by (simp add: import_step_def)
  next
    case (Inr l')
    then have l': "link_typed lb l'" "link_address l' = link_address l" "link_port l' = link_port l"
      using link_param_typed [OF Cons.prems, of kv] by (simp_all add: import_step_def)
    then show ?thesis using Cons.IH [OF l'(1)] Inr by (simp add: import_step_def split: sum.splits)
  qed
qed (simp add: import_step_def)

text \<open>
  C14: only well-formed links are imported. Whatever text is imported, and whatever the URL and
  base64 libraries make of it, the result is a protocol error or a link with every number in its
  range, secrets that decode, a fingerprint of 64 lower-case characters, a known transport, and
  the host and port of the URL: no link can bring a value into the scheduler that it does not
  expect.
\<close>

theorem imported_links_typed:
  "case from_share_url lb s of
     Inl e \<Rightarrow> \<exists>x. e = ProtocolError x
   | Inr l \<Rightarrow> link_typed lb l \<and> (\<exists>u. url_parse lb s = Some u \<and> scheme u = ''hydra'' \<and>
       host_str u = Some (link_address l) \<and> port u = Some (link_port l))"
proof -
  have t: "link_typed lb \<lparr> link_address = h, link_port = p, link_bandwidth = 100, link_latency = 10,
       link_loss = 1/100, link_load = 1/2, link_status = Online, link_mode = Masquerade,
       auth_key = None, cert_der = None, cert_fp = None, obfs_key = None, transport = None \<rparr>" for h p
    by (simp add: link_typed_def in_range_def decodes_def lower_fingerprint_def)
  show ?thesis
  proof (cases "url_parse lb s")
    case (Some u)
    show ?thesis
    proof (cases "scheme u = ''hydra'' \<and> (\<exists>h p. host_str u = Some h \<and> port u = Some p)")
      case True
      then obtain h p where hp: "scheme u = ''hydra''" "host_str u = Some h" "port u = Some p" by blast
      show ?thesis using link_params_typed [OF t, of h p "query_pairs u"] Some hp
        by (simp add: from_share_url_def import_step_def split: sum.splits)
    next
      case False
      then show ?thesis using Some by (auto simp: from_share_url_def split: option.split)
    qed
  qed (simp add: from_share_url_def)
qed

text \<open>A node with an IPv6 address makes a link without the brackets that an IPv6 host needs: no
  such link can be turned back into a node. And an imported IPv6 host keeps its brackets, so the
  warning about private addresses never looks at it.\<close>

lemma hex_digit_plain: "d < 16 \<Longrightarrow> hex_digit d \<noteq> CHR '':'' \<and> hex_digit d \<noteq> CHR ''.'' \<and> hex_digit d \<noteq> CHR ''[''"
  unfolding hex_digit_def by (auto dest: arg_cong [where f = "of_char :: char \<Rightarrow> nat"])

lemma show_hex_plain: "c \<in> set (show_hex n) \<Longrightarrow> c \<noteq> CHR '':'' \<and> c \<noteq> CHR ''.'' \<and> c \<noteq> CHR ''[''"
proof (induction n rule: show_hex.induct)
  case (1 n)
  then show ?case using hex_digit_plain by (subst (asm) (2) show_hex.simps) (auto split: if_splits)
qed

lemma show_ipv6_form: "\<exists>h r. show_ipv6 a = h @ CHR '':'' # r \<and> (\<forall>c\<in>set h. c \<noteq> CHR '':'' \<and> c \<noteq> CHR ''.'' \<and> c \<noteq> CHR ''['')"
proof (cases "v6_to_ipv4_mapped a")
  case (Some v4)
  then show ?thesis by (intro exI [of _ "[]"] exI [of _ "'':ffff:'' @ show_ipv4 v4"]) (simp add: show_ipv6_def)
next
  case None
  have g: "\<exists>r. show_groups (g # gs) = show_hex (unat g) @ r \<and> (gs \<noteq> [] \<longrightarrow> (\<exists>q. r = CHR '':'' # q))" for g gs
    by (cases gs) (auto simp: show_groups_def join_def)
  obtain z n where z: "zero_run (v6_segments a) 0 (0, 0) (0, 0) = (z, n)" by fastforce
  show ?thesis
  proof (cases "n > 1")
    case True
    then have e: "show_ipv6 a = show_groups (take z (v6_segments a)) @ ''::'' @ show_groups (drop (z + n) (v6_segments a))"
      using None z by (simp add: show_ipv6_def Let_def)
    show ?thesis
    proof (cases "take z (v6_segments a)")
      case Nil
      have "show_ipv6 a = [] @ CHR '':'' # CHR '':'' # show_groups (drop (z + n) (v6_segments a))"
        using e unfolding Nil by (simp add: show_groups_def join_def)
      then show ?thesis by (metis empty_iff empty_set)
    next
      case (Cons s ss)
      obtain r where r: "show_groups (s # ss) = show_hex (unat s) @ r" "ss \<noteq> [] \<longrightarrow> (\<exists>q. r = CHR '':'' # q)" using g by blast
      have "\<exists>q. r @ ''::'' @ show_groups (drop (z + n) (v6_segments a)) = CHR '':'' # q"
        using r by (cases ss) (auto simp: show_groups_def join_def)
      then show ?thesis using e r(1) Cons show_hex_plain by (metis append.assoc)
    qed
  next
    case False
    then have e: "show_ipv6 a = show_groups (v6_segments a)" using None z by (simp add: show_ipv6_def Let_def)
    have "length (v6_segments a) = Suc (Suc 6)" by simp
    then obtain s s' ss where "v6_segments a = s # s' # ss" unfolding length_Suc_conv by blast
    then show ?thesis using e g [of s "s' # ss"] show_hex_plain by auto
  qed
qed

lemma read_given_hd: "hd xs \<noteq> c \<Longrightarrow> read_given c xs = None"
  by (cases xs) auto

lemma ipv6_text_not_socket:
  assumes "s = h @ CHR '':'' # r" "\<forall>c\<in>set h. c \<noteq> CHR '':'' \<and> c \<noteq> CHR ''.'' \<and> c \<noteq> CHR ''[''"
  shows "parse_sock_addr s = None"
proof -
  have "dropWhile (is_radix_digit 10) s = dropWhile (is_radix_digit 10) h @ CHR '':'' # r"
    unfolding assms(1) by (induction h) (auto simp: is_radix_digit_def digit_val_def)
  moreover have "hd (dropWhile (is_radix_digit 10) h @ CHR '':'' # r) \<noteq> CHR ''.''"
  proof (cases "dropWhile (is_radix_digit 10) h")
    case (Cons x xs)
    then have "x \<in> set h" using set_dropWhileD [of x] by (metis list.set_intros(1))
    then show ?thesis using assms(2) Cons by simp
  next
    case Nil
    then show ?thesis unfolding Nil by simp
  qed
  ultimately have "read_given (CHR ''.'') (dropWhile (is_radix_digit 10) s) = None"
    by (simp add: read_given_hd)
  then have "read_octets (Suc 3) False s = None" 
  proof -
    have "read_octets (Suc 2) True (dropWhile (is_radix_digit 10) s) = None"
      using \<open>read_given (CHR ''.'') (dropWhile (is_radix_digit 10) s) = None\<close> by (simp only: read_octets.simps if_True option.case)
    then have three: "read_octets 3 True (dropWhile (is_radix_digit 10) s) = None" by simp
    have "read_number 10 (Some 3) False 255 s = None \<or> (\<exists>b. read_number 10 (Some 3) False 255 s = Some (b, dropWhile (is_radix_digit 10) s))"
      by (simp add: read_number_def Let_def split: option.split)
    then show "read_octets (Suc 3) False s = None" unfolding read_octets.simps(2) if_False option.case using three by (elim disjE exE) simp_all
  qed
  then have "read_octets 4 False s = None" by simp
  then have "read_ipv4 s = None" by (simp add: read_ipv4_def)
  moreover have "read_given (CHR ''['') s = None" using assms by (cases h) auto
  ultimately show ?thesis by (simp add: parse_sock_addr_def read_sock_v4_def read_sock_v6_def full_def)
qed

lemma ipv6_link_not_a_node:
  "to_node_info (link_new (n \<lparr> address := SockV6 a p sc \<rparr>)) = Inl (ProtocolError ''node address'')"
proof -
  obtain h r where "show_ipv6 a = h @ CHR '':'' # r" "\<forall>c\<in>set h. c \<noteq> CHR '':'' \<and> c \<noteq> CHR ''.'' \<and> c \<noteq> CHR ''[''"
    using show_ipv6_form by blast
  then have "parse_sock_addr (show_ipv6 a @ '':'' @ show_nat (unat p)) = None"
    by (intro ipv6_text_not_socket [of _ h "r @ '':'' @ show_nat (unat p)"]) simp_all
  then show ?thesis by (simp add: to_node_info_def link_new_def)
qed

lemma bracketed_ipv6_not_warned: "import_warning (CHR ''['' # s) = None"
proof -
  have d: "\<not> is_radix_digit k (CHR ''['')" for k by (simp add: is_radix_digit_def digit_val_def)
  have r4: "read_ipv4 (CHR ''['' # s) = None"
    by (simp add: read_ipv4_def numeral_eq_Suc read_number_def d)
  then have "read_groups (Suc 7) False (CHR ''['' # s) = ([], False, CHR ''['' # s)"
    unfolding read_groups.simps(2) by (simp add: read_number_def d)
  then have "read_groups 8 False (CHR ''['' # s) = ([], False, CHR ''['' # s)" by simp
  then have "read_ipv6 (CHR ''['' # s) = None" by (simp add: read_ipv6_def)
  then show ?thesis using r4 by (simp add: import_warning_def parse_ip_def full_def)
qed

section \<open>Lists of links\<close>

text \<open>A library that keeps the promises, for URLs of plain parts.\<close>

definition demo_url_parse :: "string \<Rightarrow> url option" where
  "demo_url_parse s =
    (case strip_prefix ''hydra://'' s of
       None \<Rightarrow> None
     | Some s \<Rightarrow>
         (case split_once (CHR '':'') s of
            None \<Rightarrow> None
          | Some (h, s) \<Rightarrow>
              (case split_once (CHR ''?'') s of
                 None \<Rightarrow> None
               | Some (p, q) \<Rightarrow>
                   Some \<lparr> scheme = ''hydra'', host_str = Some h, port = parse_u16 p,
                     query_pairs = map (\<lambda>kv. case split_once (CHR ''='') kv of Some x \<Rightarrow> x | None \<Rightarrow> (kv, []))
                       (split_on (CHR ''&'') q) \<rparr>)))"

definition demo_lib :: link_lib where
  "demo_lib = \<lparr> b64url_encode = of_bytes, b64url_decode = (\<lambda>s. Some (as_bytes s)), b64_encode = of_bytes,
     b64_decode = (\<lambda>s. Some (as_bytes s)), url_parse = demo_url_parse,
     f64_parse = (\<lambda>s. if s = ''0'' then Some (Finite 0) else if s = ''1'' then Some (Finite 1) else None),
     f64_show = (\<lambda>x. if x = 0 then ''0'' else ''1'') \<rparr>"

lemma plain_notin: "list_all plain s \<Longrightarrow> c \<in> {CHR '':'', CHR ''?'', CHR ''='', CHR ''&'', CHR 0x0A, CHR 0x0D} \<Longrightarrow> c \<notin> set s"
  by (induction s) (auto simp: plain_def Let_def)

lemma split_on_join:
  "ps \<noteq> [] \<Longrightarrow> \<forall>p\<in>set ps. c \<notin> set p \<Longrightarrow> split_on c (join [c] ps) = ps"
proof (induction ps)
  case (Cons p qs)
  show ?case
  proof (cases qs)
    case Nil
    then show ?thesis using Cons.prems by (simp add: join_def split_on_none)
  next
    case (Cons q rs)
    have "join [c] (p # qs) = p @ c # join [c] qs" by (simp add: join_def Cons)
    then show ?thesis using Cons.prems Cons.IH Cons by (simp add: split_on_append_sep)
  qed
qed simp

lemma demo_lib_ok: "lib_ok demo_lib {0, 1}"
proof -
  have "demo_url_parse (url_text h p ps) = Some \<lparr> scheme = ''hydra'', host_str = Some h, port = Some p, query_pairs = ps \<rparr>"
    if h: "h \<noteq> []" "list_all plain h" and ps: "ps \<noteq> []" "list_all (\<lambda>(k, v). k \<noteq> [] \<and> list_all plain k \<and> list_all plain v) ps" for h p ps
  proof -
    have 1: "split_once (CHR '':'') (h @ CHR '':'' # r) = Some (h, r)" for r
      using plain_notin [OF h(2)] by (simp add: split_once_append)
    have 2: "split_once (CHR ''?'') (show_nat (unat p) @ CHR ''?'' # r) = Some (show_nat (unat p), r)" for r
      by (rule split_once_append) (simp add: show_nat_notin)
    have "\<forall>x\<in>set (map (\<lambda>(k, v). k @ ''='' @ v) ps). CHR ''&'' \<notin> set x"
      using ps(2) plain_notin by (fastforce simp: list_all_iff)
    then have 3: "split_on (CHR ''&'') (join ''&'' (map (\<lambda>(k, v). k @ ''='' @ v) ps)) = map (\<lambda>(k, v). k @ ''='' @ v) ps"
      using ps(1) by (intro split_on_join) simp_all
    have 4: "map (\<lambda>kv. case split_once (CHR ''='') kv of Some x \<Rightarrow> x | None \<Rightarrow> (kv, [])) (map (\<lambda>(k, v). k @ ''='' @ v) ps) = ps"
      unfolding map_map
    proof (rule map_idI)
      fix x assume "x \<in> set ps"
      then obtain k v where x: "x = (k, v)" "list_all plain k" using ps(2) by (cases x) (auto simp: list_all_iff)
      then show "((\<lambda>kv. case split_once (CHR ''='') kv of Some x \<Rightarrow> x | None \<Rightarrow> (kv, [])) \<circ> (\<lambda>(k, v). k @ ''='' @ v)) x = x"
        using plain_notin [OF x(2)] by (simp add: split_once_append)
    qed
    have s: "url_text h p ps = ''hydra://'' @ (h @ CHR '':'' # (show_nat (unat p) @ CHR ''?'' # join ''&'' (map (\<lambda>(k, v). k @ ''='' @ v) ps)))"
      by (simp add: url_text_def)
    show ?thesis
      unfolding demo_url_parse_def s strip_prefix_append option.case 1 prod.case 2 3 4 parse_u16_show ..
  qed
  then show ?thesis by (auto simp: lib_ok_def demo_lib_def plain_def Let_def)
qed

theorem share_link_roundtrip_witness:
  "let l = \<lparr> link_address = ''10.0.0.1'', link_port = 443, link_bandwidth = 1, link_latency = 0, link_loss = 0, link_load = 1,
      link_status = Degraded, link_mode = Obfs, auth_key = Some ''abc'', cert_der = None, cert_fp = None, obfs_key = Some ''x'',
      transport = Some ''tcp'' \<rparr>
   in from_share_url demo_lib (to_share_url demo_lib l) = Inr l"
  unfolding Let_def
  by (rule share_link_roundtrip [OF demo_lib_ok])
    (simp add: link_ok_def secret_ok_def demo_lib_def plain_def Let_def)

text \<open>The link of an IPv4 node with numbers in \<open>F\<close>.\<close>

definition shareable :: "real set \<Rightarrow> node_info \<Rightarrow> bool" where
  "shareable F n \<longleftrightarrow> (\<exists>a p. address n = SockV4 a p) \<and> {bandwidth n, latency n, loss_rate n, load n} \<subseteq> F \<and>
    in_range 1000000 (bandwidth n) \<and> in_range 1000000 (latency n) \<and> in_range 1 (loss_rate n) \<and> in_range 1 (load n)"

lemma show_ipv4_plain: "list_all plain (show_ipv4 a) \<and> show_ipv4 a \<noteq> []"
proof -
  have n: "list_all plain (show_nat n)" for n
    using show_nat_digits by (fastforce simp: list_all_iff plain_def Let_def)
  have "length (v4_octets a) = Suc (Suc (Suc (Suc 0)))" by simp
  then obtain w x y z where "v4_octets a = [w, x, y, z]" unfolding length_Suc_conv length_0_conv by blast
  moreover have "plain (CHR ''.'')" by (simp add: plain_def Let_def)
  ultimately show ?thesis using n by (simp add: show_ipv4_def join_def)
qed

lemma link_new_ok: "shareable F n \<Longrightarrow> link_ok lb F (link_new n)"
  using show_ipv4_plain
  by (auto simp: shareable_def link_ok_def link_new_def secret_ok_def in_range_def)

lemma link_new_node: "shareable F n \<Longrightarrow> to_node_info (link_new n) = Inr n"
  by (auto simp: shareable_def to_node_info_def link_new_def parse_sock_addr_show_v4 [simplified])

lemma plain_graphic: "plain c \<Longrightarrow> graphic c"
  by (auto simp: plain_def graphic_def Let_def)

lemma str_lines_concat:
  "\<forall>l\<in>set ls. CHR 0x0A \<notin> set l \<and> CHR 0x0D \<notin> set l \<Longrightarrow> str_lines (concat (map (\<lambda>l. l @ [CHR 0x0A]) ls)) = ls"
proof -
  assume l: "\<forall>l\<in>set ls. CHR 0x0A \<notin> set l \<and> CHR 0x0D \<notin> set l"
  have "split_on (CHR 0x0A) (concat (map (\<lambda>l. l @ [CHR 0x0A]) ls)) = ls @ [[]]"
    using l by (induction ls) (auto simp: split_on_append_sep)
  moreover have "strip_cr x = x" if "x \<in> set ls" for x
    using l that by (auto simp: strip_cr_def strip_suffix_def strip_prefix_Some_iff split: option.split)
  ultimately show ?thesis by (simp add: str_lines_def map_idI)
qed

lemma join_all: "\<forall>p\<in>set ps. list_all P p \<Longrightarrow> list_all P sep \<Longrightarrow> list_all P (join sep ps)"
  by (auto simp: join_def list_all_iff split: list.splits)

lemma url_text_chars:
  assumes "list_all plain h" "list_all (\<lambda>(k, v). k \<noteq> [] \<and> list_all plain k \<and> list_all plain v) ps"
  shows "list_all graphic (url_text h p ps)"
proof -
  have n: "list_all graphic (show_nat k)" for k
    using show_nat_digits by (fastforce simp: list_all_iff graphic_def)
  have pg: "list_all graphic s" if "list_all plain s" for s using that plain_graphic by (auto simp: list_all_iff)
  have "list_all graphic x" if mem: "x \<in> set (map (\<lambda>(k, v). k @ ''='' @ v) ps)" for x
  proof -
    obtain k v where x: "x = k @ CHR ''='' # v" "(k, v) \<in> set ps" using mem by auto
    then have "list_all plain k" "list_all plain v" using assms(2) by (auto simp: list_all_iff)
    then show ?thesis using pg x(1) by (simp add: graphic_def)
  qed
  then have "list_all graphic (join ''&'' (map (\<lambda>(k, v). k @ ''='' @ v) ps))"
    by (intro join_all ballI) (auto simp: graphic_def)
  then show ?thesis using n pg [OF assms(1)] by (simp add: url_text_def graphic_def)
qed

lemma exported_line:
  assumes "lib_ok lb F" "shareable F n"
  shows "list_all graphic (to_share_url lb (link_new n)) \<and>
    (\<exists>r. to_share_url lb (link_new n) = ''hydra://'' @ r) \<and> from_share_url lb (to_share_url lb (link_new n)) = Inr (link_new n)"
proof -
  have ok: "link_ok lb F (link_new n)" using assms(2) by (rule link_new_ok)
  have u: "to_share_url lb (link_new n) = url_text (link_address (link_new n)) (link_port (link_new n)) (link_pairs lb (link_new n))"
    by (rule to_share_url_text) (simp add: link_new_def)
  have "list_all graphic (to_share_url lb (link_new n))"
    unfolding u using url_text_chars link_pairs_plain [OF assms(1) ok] ok by (simp add: link_ok_def)
  moreover have "\<exists>r. to_share_url lb (link_new n) = ''hydra://'' @ r" unfolding u url_text_def by blast
  ultimately show ?thesis using share_link_roundtrip_aux [OF assms(1) ok] by blast
qed

text \<open>
  C34: exporting a list of nodes and importing the text gives the same nodes. For IPv4 nodes with
  numbers in range every line is read, in order, and each link turns back into exactly its node.
\<close>

theorem node_list_roundtrip:
  assumes "lib_ok lb F" "list_all (shareable F) ns"
  shows "\<exists>ls. parse_share_links lb (generate_share_links lb ns) = Inr ls \<and> map to_node_info ls = map Inr ns"
proof -
  let ?u = "\<lambda>n. to_share_url lb (link_new n)"
  have ok: "link_ok lb F (link_new n)" if "n \<in> set ns" for n using assms(2) that by (simp add: list_all_iff link_new_ok)
  have u: "?u n = url_text (link_address (link_new n)) (link_port (link_new n)) (link_pairs lb (link_new n))" for n
    by (rule to_share_url_text) (simp add: link_new_def)
  have g: "list_all graphic (?u n)" if "n \<in> set ns" for n
    unfolding u using url_text_chars link_pairs_plain [OF assms(1) ok [OF that]] ok [OF that] by (simp add: link_ok_def)
  have pre: "?u n = ''hydra://'' @ drop 8 (?u n)" for n unfolding u url_text_def by simp
  have lines: "str_lines (generate_share_links lb ns) = map ?u ns"
  proof -
    have "generate_share_links lb ns = concat (map (\<lambda>l. l @ [CHR 0x0A]) (map ?u ns))"
      by (simp add: generate_share_links_def o_def)
    moreover have "\<forall>l\<in>set (map ?u ns). CHR 0x0A \<notin> set l \<and> CHR 0x0D \<notin> set l"
      using g by (fastforce simp: list_all_iff graphic_def)
    ultimately show ?thesis using str_lines_concat by metis
  qed
  have "trim (?u n) = ?u n" if "n \<in> set ns" for n
  proof (rule trim_id, rule disjI2)
    have "?u n \<noteq> []" using pre [of n] by (metis append_is_Nil_conv list.simps(3))
    then show "graphic (hd (?u n)) \<and> graphic (last (?u n))" using g [OF that] by (simp add: list_all_iff)
  qed
  then have t: "map trim (map ?u ns) = map ?u ns" by simp
  have keep: "l \<noteq> [] \<and> \<not> starts_with l ''#''" if mem: "l \<in> set (map ?u ns)" for l
  proof -
    obtain n where "l = ?u n" using mem by auto
    then obtain r where "l = ''hydra://'' @ r" using pre by blast
    then show ?thesis by (simp add: starts_with_def)
  qed
  have "link_lines (generate_share_links lb ns) = map ?u ns"
    unfolding link_lines_def lines t by (rule filter_True) (use keep in blast)
  moreover have "list_all (\<lambda>n. link_ok lb F (link_new n)) ns \<Longrightarrow> share_lines lb (map ?u ns) = Inr (map link_new ns)" for ns
  proof (induction ns)
    case (Cons n ns)
    have "starts_with (?u n) ''hydra://''" unfolding starts_with_def by (subst pre) (simp add: prefix_def)
    then show ?case using Cons share_link_roundtrip_aux [OF assms(1), of "link_new n"] by simp
  qed simp
  ultimately have "parse_share_links lb (generate_share_links lb ns) = Inr (map link_new ns)"
    using ok by (simp add: parse_share_links_def list_all_iff)
  moreover have "map to_node_info (map link_new ns) = map Inr ns"
    using assms(2) link_new_node [where F = F] by (simp add: list_all_iff)
  ultimately show ?thesis by blast
qed

theorem node_list_roundtrip_witness:
  "let ns = [\<lparr> address = SockV4 0x0A000001 443, bandwidth = 1, latency = 0, loss_rate = 0, load = 1, status = Online \<rparr>,
      \<lparr> address = SockV4 0x0A000002 8443, bandwidth = 0, latency = 1, loss_rate = 1, load = 0, status = Offline \<rparr>]
   in \<exists>ls. parse_share_links demo_lib (generate_share_links demo_lib ns) = Inr ls \<and> map to_node_info ls = map Inr ns"
  unfolding Let_def
  by (rule node_list_roundtrip [OF demo_lib_ok]) (simp add: shareable_def in_range_def)
end
