(* ===== verification/Subscription.thy ===== *)
theory Subscription
  imports ShareLink
begin

text \<open>
  Subscriptions, \<open>hydra-core/src/subscription.rs\<close>: a text with a link per line, each line or the
  whole text possibly in base64, and links that a chat program has folded over several lines.
  A bad line is reported and does not end the parse.
\<close>

record subscription =
  sub_links :: "share_link list"
  sub_errors :: "(nat \<times> hydra_error \<times> string) list"

definition sub_ok :: "subscription \<Rightarrow> bool" where
  "sub_ok s \<longleftrightarrow> sub_links s \<noteq> []"

text \<open>The first \<open>n\<close> characters, and a text cut to \<open>n\<close> characters with an ellipsis.\<close>

definition is_cont :: "char \<Rightarrow> bool" where
  "is_cont c \<longleftrightarrow> utf8_cont (of_nat (of_char c))"

fun take_chars :: "nat \<Rightarrow> string \<Rightarrow> string" where
  "take_chars n [] = []"
| "take_chars n (c # s) =
    (if is_cont c then c # take_chars n s
     else (case n of 0 \<Rightarrow> [] | Suc m \<Rightarrow> c # take_chars m s))"

definition char_count :: "string \<Rightarrow> nat" where
  "char_count s = length (filter (\<lambda>c. \<not> is_cont c) s)"

definition truncate :: "string \<Rightarrow> nat \<Rightarrow> string" where
  "truncate s max_chars =
    (if char_count s \<le> max_chars then s else take_chars max_chars s @ map char_of [226, 128, 166 :: nat])"

text \<open>All characters that are not white space.\<close>

definition without_ws :: "string \<Rightarrow> string" where
  "without_ws s = concat (split_whitespace s)"

definition is_folded_continuation :: "string \<Rightarrow> bool" where
  "is_folded_continuation line \<longleftrightarrow> CHR ''='' \<in> set line \<and> \<not> ends_with line ''=''"

definition working_text :: "link_lib \<Rightarrow> string \<Rightarrow> string" where
  "working_text lb trimmed =
    (if contains ''hydra://'' trimmed then trimmed
     else (case Option.bind (b64_decode lb (without_ws trimmed)) from_utf8 of
             Some decoded \<Rightarrow> (if contains ''hydra://'' decoded then decoded else trimmed)
           | None \<Rightarrow> trimmed))"

text \<open>One line joins the groups: a link starts one, a continuation goes to the last.\<close>

definition add_line :: "nat \<times> string \<Rightarrow> (nat \<times> string) list list \<Rightarrow> (nat \<times> string) list list" where
  "add_line il gs =
    (case il of (i, raw) \<Rightarrow>
      (let line = trim raw in
       if line = [] \<or> starts_with line ''#'' then gs
       else if starts_with line ''hydra://'' then gs @ [[(i, line)]]
       else if gs \<noteq> [] then
         (if is_folded_continuation line then butlast gs @ [last gs @ [(i, line)]] else gs @ [[(i, line)]])
       else gs @ [[(i, line)]]))"

definition line_groups :: "string \<Rightarrow> (nat \<times> string) list list" where
  "line_groups text = fold add_line (enumerate 0 (str_lines text)) []"

definition parse_line :: "link_lib \<Rightarrow> string \<Rightarrow> share_link res" where
  "parse_line lb line = (if starts_with line ''hydra://'' then from_share_url lb line else from_base64 lb line)"

definition add_single :: "link_lib \<Rightarrow> nat \<times> string \<Rightarrow> subscription \<Rightarrow> subscription" where
  "add_single lb il s =
    (case il of (i, line) \<Rightarrow>
      (case parse_line lb line of
         Inr l \<Rightarrow> s \<lparr> sub_links := sub_links s @ [l] \<rparr>
       | Inl e \<Rightarrow> s \<lparr> sub_errors := sub_errors s @ [(i + 1, e, truncate line 40)] \<rparr>))"

definition add_group :: "link_lib \<Rightarrow> (nat \<times> string) list \<Rightarrow> subscription \<Rightarrow> subscription" where
  "add_group lb g s =
    (case (if length g > 1 then from_share_url lb (concat (map (\<lambda>(_, l). without_ws l) g)) else Inl (ProtocolError ''single'')) of
       Inr l \<Rightarrow> s \<lparr> sub_links := sub_links s @ [l] \<rparr>
     | Inl _ \<Rightarrow> fold (add_single lb) g s)"

definition parse_subscription :: "link_lib \<Rightarrow> string \<Rightarrow> subscription" where
  "parse_subscription lb text =
    (let trimmed = trim text; none = \<lparr> sub_links = [], sub_errors = [] \<rparr> in
     if trimmed = [] then none
     else fold (add_group lb) (line_groups (working_text lb trimmed)) none)"

section \<open>Every line is accounted for\<close>

text \<open>The lines that carry something, numbered from zero.\<close>

definition kept_lines :: "string \<Rightarrow> (nat \<times> string) list" where
  "kept_lines text = filter (\<lambda>(_, l). l \<noteq> [] \<and> \<not> starts_with l ''#'')
     (map (\<lambda>(i, l). (i, trim l)) (enumerate 0 (str_lines text)))"

lemma concat_add_line: "concat (add_line il gs) = concat gs @ filter (\<lambda>(_, l). l \<noteq> [] \<and> \<not> starts_with l ''#'') [(fst il, trim (snd il))]"
  by (cases gs rule: rev_cases) (auto simp: add_line_def Let_def split: prod.split)

lemma concat_line_groups: "concat (line_groups text) = kept_lines text"
proof -
  have "concat (fold add_line ls gs) = concat gs @ filter (\<lambda>(_, l). l \<noteq> [] \<and> \<not> starts_with l ''#'') (map (\<lambda>(i, l). (i, trim l)) ls)" for ls gs
    by (induction ls arbitrary: gs) (auto simp: concat_add_line)
  then show ?thesis by (simp add: line_groups_def kept_lines_def)
qed

text \<open>A line that goes on the link above it, and lines cut into groups where the next link begins.\<close>

definition folds_on :: "nat \<times> string \<Rightarrow> bool" where
  "folds_on il \<longleftrightarrow> is_folded_continuation (snd il) \<and> \<not> starts_with (snd il) ''hydra://''"

definition groups_ok :: "(nat \<times> string) list list \<Rightarrow> bool" where
  "groups_ok gs \<longleftrightarrow> list_all (\<lambda>g. g \<noteq> [] \<and> list_all folds_on (tl g)) gs \<and> list_all (\<lambda>g. \<not> folds_on (hd g)) (tl gs)"

text \<open>What comes of a line, and of a group: one link, or what comes of each of its lines.\<close>

definition line_outcome :: "link_lib \<Rightarrow> nat \<times> string \<Rightarrow> (nat \<times> hydra_error \<times> string) + share_link" where
  "line_outcome lb il =
    (case parse_line lb (snd il) of Inr l \<Rightarrow> Inr l | Inl e \<Rightarrow> Inl (fst il + 1, e, truncate (snd il) 40))"

definition outcomes :: "link_lib \<Rightarrow> (nat \<times> string) list \<Rightarrow> ((nat \<times> hydra_error \<times> string) + share_link) list" where
  "outcomes lb g =
    (case (2 \<le> length g, from_share_url lb (concat (map (\<lambda>(_, l). without_ws l) g))) of
       (True, Inr l) \<Rightarrow> [Inr l]
     | _ \<Rightarrow> map (line_outcome lb) g)"

definition links_in :: "('e + 'a) list \<Rightarrow> 'a list" where
  "links_in xs = concat (map (case_sum (\<lambda>_. []) (\<lambda>l. [l])) xs)"

definition errors_in :: "('e + 'a) list \<Rightarrow> 'e list" where
  "errors_in xs = concat (map (case_sum (\<lambda>e. [e]) (\<lambda>_. [])) xs)"

lemma outcomes_in [simp]:
  "links_in [] = []" "links_in (Inr l # xs) = l # links_in xs" "links_in (Inl e # xs) = links_in xs"
  "errors_in [] = []" "errors_in (Inl e # xs) = e # errors_in xs" "errors_in (Inr l # xs) = errors_in xs"
  "links_in (xs @ ys) = links_in xs @ links_in ys" "errors_in (xs @ ys) = errors_in xs @ errors_in ys"
  by (simp_all add: links_in_def errors_in_def)

lemma length_outcomes: "length (links_in xs) + length (errors_in xs) = length xs"
  by (induction xs) (auto simp: links_in_def errors_in_def split: sum.split)

lemma add_singles:
  "fold (add_single lb) g s =
    s \<lparr> sub_links := sub_links s @ links_in (map (line_outcome lb) g),
       sub_errors := sub_errors s @ errors_in (map (line_outcome lb) g) \<rparr>"
  by (induction g arbitrary: s) (auto simp: add_single_def line_outcome_def split: sum.split)

lemma add_group_outcomes:
  "add_group lb g s =
    s \<lparr> sub_links := sub_links s @ links_in (outcomes lb g), sub_errors := sub_errors s @ errors_in (outcomes lb g) \<rparr>"
  by (auto simp: add_group_def outcomes_def add_singles split: sum.split)

lemma add_groups_outcomes:
  "fold (add_group lb) gs s =
    s \<lparr> sub_links := sub_links s @ links_in (concat (map (outcomes lb) gs)),
       sub_errors := sub_errors s @ errors_in (concat (map (outcomes lb) gs)) \<rparr>"
  by (induction gs arbitrary: s) (simp_all add: add_group_outcomes)

lemma groups_ok_snoc:
  "groups_ok (gs @ [g]) \<longleftrightarrow> groups_ok gs \<and> g \<noteq> [] \<and> list_all folds_on (tl g) \<and> (gs = [] \<or> \<not> folds_on (hd g))"
  by (cases gs) (auto simp: groups_ok_def)

lemma add_line_cases:
  "add_line il gs = gs \<or> (\<exists>x. add_line il gs = gs @ [[x]] \<and> (gs = [] \<or> \<not> folds_on x)) \<or>
   (\<exists>hs h x. gs = hs @ [h] \<and> add_line il gs = hs @ [h @ [x]] \<and> folds_on x)"
  by (cases il; cases gs rule: rev_cases) (simp_all add: add_line_def folds_on_def Let_def)

lemma add_line_groups_ok:
  assumes "groups_ok gs"
  shows "groups_ok (add_line il gs)"
proof -
  have "groups_ok (hs @ [h @ [x]])" if "groups_ok (hs @ [h])" "folds_on x" for hs h x
    using that by (cases h) (auto simp: groups_ok_snoc)
  moreover have "groups_ok [[x]]" for x by (simp add: groups_ok_def)
  ultimately show ?thesis using assms add_line_cases [of il gs] by (auto simp: groups_ok_snoc)
qed

lemma line_groups_ok: "groups_ok (line_groups text)"
proof -
  have "groups_ok gs \<Longrightarrow> groups_ok (fold add_line ls gs)" for ls gs
    by (induction ls arbitrary: gs) (simp_all add: add_line_groups_ok)
  from this [of "[]"] show ?thesis by (simp add: line_groups_def groups_ok_def)
qed

text \<open>
  C35: no line of a subscription is lost. Blank and comment lines apart, the lines are cut, in order
  and without leaving one out, into groups, a new one at every line that does not go on a folded
  link. A group of several lines whose joined text is a link gives that link; every other line
  gives its own link or its own error, with its number and the beginning of its text. The links
  and the errors of the result are exactly these, in the order of the lines, and nothing else.
\<close>

theorem subscription_accounts_lines:
  "if trim text = [] then parse_subscription lb text = \<lparr> sub_links = [], sub_errors = [] \<rparr>
   else \<exists>gs. concat gs = kept_lines (working_text lb (trim text)) \<and> groups_ok gs \<and>
     sub_links (parse_subscription lb text) = links_in (concat (map (outcomes lb) gs)) \<and>
     sub_errors (parse_subscription lb text) = errors_in (concat (map (outcomes lb) gs)) \<and>
     length (sub_links (parse_subscription lb text)) + length (sub_errors (parse_subscription lb text)) =
       sum_list (map (\<lambda>g. length (outcomes lb g)) gs)"
proof (cases "trim text = []")
  case False
  have "parse_subscription lb text =
      \<lparr> sub_links = links_in (concat (map (outcomes lb) (line_groups (working_text lb (trim text))))),
        sub_errors = errors_in (concat (map (outcomes lb) (line_groups (working_text lb (trim text))))) \<rparr>"
    using False by (simp add: parse_subscription_def Let_def add_groups_outcomes)
  then show ?thesis
    using False concat_line_groups line_groups_ok by (auto simp: length_outcomes length_concat o_def)
qed (simp add: parse_subscription_def)


section \<open>Subscriptions made by the program\<close>

text \<open>What the base64 crate promises of its standard alphabet: it decodes what it encodes, into
  printable text without a colon.\<close>

definition b64_ok :: "link_lib \<Rightarrow> bool" where
  "b64_ok lb \<longleftrightarrow> (\<forall>b. b64_decode lb (b64_encode lb b) = Some b \<and> list_all graphic (b64_encode lb b) \<and>
     CHR '':'' \<notin> set (b64_encode lb b) \<and> (b \<noteq> [] \<longrightarrow> b64_encode lb b \<noteq> []))"

lemma trim_newline:
  assumes "s \<noteq> []" "graphic (hd s)" "graphic (last s)"
  shows "trim (s @ [CHR 0x0A]) = s"
proof -
  have "trim_start (s @ [CHR 0x0A]) = s @ [CHR 0x0A]"
    unfolding trim_start_def using assms ws_seqs_not_Nil
    by (intro trim_fuel_id ballI strip_prefix_hd) auto
  moreover have "trim_end (s @ [CHR 0x0A]) = s"
  proof -
    have f: "find (\<lambda>w. strip_prefix w (CHR 0x0A # rev s) \<noteq> None) (map rev ws_seqs) = Some [CHR 0x0A]"
      by (simp add: ws_seqs_def char_of_def bit_0)
    have "trim_fuel (length s) (map rev ws_seqs) (rev s) = rev s"
      using assms ws_seqs_not_Nil by (intro trim_fuel_id ballI strip_prefix_hd) (auto simp: hd_rev)
    then show ?thesis unfolding trim_end_def rev_append length_append using f by simp
  qed
  ultimately show ?thesis by (simp add: trim_def)
qed

lemma split_on_snoc: "split_on c (xs @ [c]) = split_on c xs @ [[]]"
  by (induction xs) (auto split: list.splits)

lemma str_lines_no_newline:
  assumes "str_lines (s @ [CHR 0x0A]) = ls" "list_all (\<lambda>l. l \<noteq> [] \<and> last l \<noteq> CHR 0x0D) (split_on (CHR 0x0A) s)"
  shows "str_lines s = ls"
proof -
  have "strip_cr x = x" if "x \<noteq> []" "last x \<noteq> CHR 0x0D" for x
    using that by (auto simp: strip_cr_def strip_suffix_def strip_prefix_Some_iff split: option.split)
  then have "map strip_cr (split_on (CHR 0x0A) s) = split_on (CHR 0x0A) s"
    using assms(2) by (intro map_idI) (simp add: list_all_iff)
  moreover have "last (split_on (CHR 0x0A) s) \<noteq> []" using assms(2) by (simp add: list_all_iff)
  moreover have "map strip_cr (butlast (split_on (CHR 0x0A) s)) @ [last (split_on (CHR 0x0A) s)] = map strip_cr (split_on (CHR 0x0A) s)"
    using calculation(1) by (metis append_butlast_last_id map_butlast split_on_not_Nil)
  ultimately show ?thesis using assms(1) by (simp add: str_lines_def split_on_snoc)
qed

lemma contains_prefix: "contains p (p @ r)"
  by (auto simp: contains_def list_ex_iff intro!: bexI [of _ "p @ r"])

lemma contains_mem: "contains p s \<Longrightarrow> c \<in> set p \<Longrightarrow> c \<in> set s"
  using set_mono_suffix by (fastforce simp: contains_def list_ex_iff strip_prefix_Some_iff)

text \<open>Lines that are all links of their own.\<close>

lemma link_groups:
  "list_all (\<lambda>l. trim l = l \<and> starts_with l ''hydra://'') ls \<Longrightarrow>
    fold add_line (enumerate n ls) gs = gs @ map (\<lambda>il. [il]) (enumerate n ls)"
proof (induction ls arbitrary: n gs)
  case (Cons l ls)
  then have "l \<noteq> []" "\<not> starts_with l ''#''" by (auto simp: starts_with_def prefix_def)
  then have "add_line (n, l) gs = gs @ [[(n, l)]]" using Cons.prems by (simp add: add_line_def)
  then show ?case using Cons by simp
qed simp

lemma singles_all_links:
  "list_all2 (\<lambda>l k. starts_with l ''hydra://'' \<and> from_share_url lb l = Inr k) ls ks \<Longrightarrow>
    fold (add_group lb) (map (\<lambda>il. [il]) (enumerate n ls)) s = s \<lparr> sub_links := sub_links s @ ks \<rparr>"
proof (induction arbitrary: n s rule: list_all2_induct)
  case (Cons l ls k ks)
  have "add_group lb [(n, l)] s = s \<lparr> sub_links := sub_links s @ [k] \<rparr>"
    using Cons(1) by (simp add: add_group_def add_single_def parse_line_def)
  then show ?case using Cons.IH by simp
qed simp

text \<open>
  what the program exports it can subscribe to. A list of IPv4 nodes, exported as text or as
  one block of base64, gives exactly its links, in order and without an error.
\<close>

theorem exported_subscription:
  assumes "lib_ok lb F" "b64_ok lb" "list_all (shareable F) ns" "ns \<noteq> []"
  shows "parse_subscription lb (generate_share_links lb ns) = \<lparr> sub_links = map link_new ns, sub_errors = [] \<rparr> \<and>
    parse_subscription lb (b64_encode lb (as_bytes (generate_share_links lb ns))) = \<lparr> sub_links = map link_new ns, sub_errors = [] \<rparr>"
proof -
  let ?u = "\<lambda>n. to_share_url lb (link_new n)" and ?text = "generate_share_links lb ns"
  let ?none = "\<lparr> sub_links = [], sub_errors = [] \<rparr>"
  have u: "list_all graphic (?u n)" "\<exists>r. ?u n = ''hydra://'' @ r" "from_share_url lb (?u n) = Inr (link_new n)" "?u n \<noteq> []"
    if "n \<in> set ns" for n
    using exported_line [OF assms(1), of n] assms(3) that by (auto simp: list_all_iff)
  have nl: "CHR 0x0A \<notin> set l \<and> CHR 0x0D \<notin> set l" if "l \<in> set (map ?u ns)" for l
    using u(1) that by (fastforce simp: list_all_iff graphic_def)
  have tx: "?text = concat (map (\<lambda>l. l @ [CHR 0x0A]) (map ?u ns))"
    by (simp add: generate_share_links_def o_def)
  have lines: "str_lines ?text = map ?u ns" unfolding tx using nl by (intro str_lines_concat) blast
  define s where "s = butlast ?text"
  obtain ms m where ms: "ns = ms @ [m]" using assms(4) by (metis append_butlast_last_id)
  have st: "?text = s @ [CHR 0x0A]" unfolding s_def generate_share_links_def ms by (simp add: butlast_append)
  have sm: "s = generate_share_links lb ms @ ?u m" unfolding s_def generate_share_links_def ms by (simp add: butlast_append)
  have "graphic (last s)"
    using u(1,4) [of m] ms by (simp add: sm list_all_iff)
  moreover have "s \<noteq> []" using u(4) [of m] ms by (simp add: sm)
  moreover have "\<exists>r. s = ''hydra://'' @ r"
  proof (cases ms)
    case Nil
    then show ?thesis using u(2) [of m] ms by (simp add: sm generate_share_links_def)
  next
    case (Cons n rs)
    then have "s = ?u n @ CHR 0x0A # generate_share_links lb rs @ ?u m" by (simp add: sm generate_share_links_def)
    moreover obtain r where "?u n = ''hydra://'' @ r" using u(2) [of n] ms Cons by auto
    ultimately show ?thesis by simp
  qed
  then obtain r where r: "s = ''hydra://'' @ r" by blast
  have hs: "graphic (hd s)" "contains ''hydra://'' s" "contains ''hydra://'' ?text"
    using contains_prefix [of "''hydra://''" r] contains_prefix [of "''hydra://''" "r @ [CHR 0x0A]"]
    unfolding st r by (simp_all add: graphic_def)
  ultimately have tr: "trim ?text = s" unfolding st by (simp add: trim_newline)
  have "split_on (CHR 0x0A) s @ [[]] = split_on (CHR 0x0A) ?text" unfolding st by (simp add: split_on_snoc)
  also have "\<dots> = map ?u ns @ [[]]"
    unfolding tx using nl by (induction ns) (auto simp: split_on_append_sep)
  finally have sp: "split_on (CHR 0x0A) s = map ?u ns" by simp
  have "str_lines s = map ?u ns"
  proof (rule str_lines_no_newline)
    show "str_lines (s @ [CHR 0x0A]) = map ?u ns" using lines st by simp
    show "list_all (\<lambda>l. l \<noteq> [] \<and> last l \<noteq> CHR 0x0D) (split_on (CHR 0x0A) s)"
      unfolding sp using nl u(4) by (fastforce simp: list_all_iff dest: last_in_set)
  qed
  moreover have parse: "fold (add_group lb) (line_groups w) ?none = \<lparr> sub_links = map link_new ns, sub_errors = [] \<rparr>"
    if w: "str_lines w = map ?u ns" for w
  proof -
    have "trim (?u n) = ?u n" if "n \<in> set ns" for n
      using u(1,4) [OF that] by (intro trim_id) (auto simp: list_all_iff)
    then have "list_all (\<lambda>l. trim l = l \<and> starts_with l ''hydra://'') (map ?u ns)"
      using u(2) by (fastforce simp: list_all_iff starts_with_def prefix_def)
    then have "line_groups w = map (\<lambda>il. [il]) (enumerate 0 (map ?u ns))"
      unfolding line_groups_def w by (simp add: link_groups)
    moreover have "list_all2 (\<lambda>l k. starts_with l ''hydra://'' \<and> from_share_url lb l = Inr k) (map ?u ns) (map link_new ns)"
      using u(2,3) by (fastforce simp: list_all2_conv_all_nth starts_with_def prefix_def)
    ultimately show ?thesis by (simp add: singles_all_links)
  qed
  ultimately have plain: "parse_subscription lb ?text = \<lparr> sub_links = map link_new ns, sub_errors = [] \<rparr>"
    using hs \<open>s \<noteq> []\<close> by (simp add: parse_subscription_def Let_def tr working_text_def)
  let ?b = "b64_encode lb (as_bytes ?text)"
  have b: "list_all graphic ?b" "CHR '':'' \<notin> set ?b" "?b \<noteq> []" "b64_decode lb ?b = Some (as_bytes ?text)"
    using assms(2) by (simp_all add: b64_ok_def) (simp add: st as_bytes_def)
  have "trim ?b = ?b" using b(1,3) by (intro trim_id) (simp add: list_all_iff)
  moreover have "without_ws ?b = ?b"
    using split_ws_graphic [of ?b "[]" "[]"] b(1,3) by (simp add: without_ws_def split_whitespace_def list_all_iff)
  moreover have "from_utf8 (as_bytes ?text) = Some ?text"
    by (intro from_utf8_as_bytes is_ascii_is_str)
      (use u(1) in \<open>fastforce simp: is_ascii_def generate_share_links_def list_all_iff graphic_def\<close>)
  moreover have "\<not> contains ''hydra://'' ?b" using b(2) contains_mem [of "''hydra://''" ?b "CHR '':''"] by auto
  ultimately have "parse_subscription lb ?b = fold (add_group lb) (line_groups ?text) ?none"
    using b(3,4) hs(3) by (simp add: parse_subscription_def Let_def working_text_def)
  then show ?thesis using plain parse [OF lines] by simp
qed


text \<open>Hexadecimal text in the place of base64 keeps the promises too.\<close>

definition demo_sub_lib :: link_lib where
  "demo_sub_lib = demo_lib \<lparr> b64_encode := hex_encode, b64_decode := (\<lambda>s. case hex_decode s of Inr b \<Rightarrow> Some b | Inl _ \<Rightarrow> None) \<rparr>"

lemma demo_sub_lib_ok: "lib_ok demo_sub_lib {0, 1}" "b64_ok demo_sub_lib"
proof -
  show "lib_ok demo_sub_lib {0, 1}" using demo_lib_ok unfolding lib_ok_def demo_sub_lib_def by simp
  have c: "is_ascii_hexdigit x" if "x \<in> set (hex_encode b)" for x b
    using that by (auto dest!: hex_encode_chars hex_char_props)
  then have "list_all graphic (hex_encode b)" for b
    by (fastforce simp: list_all_iff graphic_def is_ascii_hexdigit_def Let_def)
  moreover have "CHR '':'' \<notin> set (hex_encode b)" for b
    using c by (fastforce simp: is_ascii_hexdigit_def Let_def)
  moreover have "hex_encode b \<noteq> []" if "b \<noteq> []" for b
    using that length_hex_encode [of b] by (metis length_0_conv mult_is_0 zero_neq_numeral)
  ultimately show "b64_ok demo_sub_lib" by (simp add: b64_ok_def demo_sub_lib_def hex_decode_encode)
qed

theorem exported_subscription_witness:
  "let ns = [\<lparr> address = SockV4 0x0A000001 443, bandwidth = 1, latency = 0, loss_rate = 0, load = 1, status = Online \<rparr>]
   in parse_subscription demo_sub_lib (generate_share_links demo_sub_lib ns) = \<lparr> sub_links = map link_new ns, sub_errors = [] \<rparr> \<and>
    parse_subscription demo_sub_lib (b64_encode demo_sub_lib (as_bytes (generate_share_links demo_sub_lib ns))) =
      \<lparr> sub_links = map link_new ns, sub_errors = [] \<rparr>"
  unfolding Let_def
  by (rule exported_subscription [OF demo_sub_lib_ok]) (simp_all add: shareable_def in_range_def)

end
