(* ===== verification/Traffic.thy ===== *)
theory Traffic
  imports Complex_Main Tables NetAddr
begin

text \<open>
  Traffic counters, \<open>hydra-core/src/traffic.rs\<close>: totals of the process and of every node, counted
  by wrappers around the streams, connection counts, and the speed over a window of five seconds.
  The counters are 64-bit words; time is in milliseconds. A node's entry is shared by every
  stream of that node; the model names it by its address.
\<close>

record node_entry =
  node_sent :: u64
  node_received :: u64

record monitor =
  bytes_sent :: u64
  bytes_received :: u64
  active :: u64
  opened_total :: u64
  started :: nat
  sent_samples :: "(nat \<times> u64) list"
  recv_samples :: "(nat \<times> u64) list"
  last_upload :: real
  last_download :: real
  node_traffic :: "(sock_addr \<times> node_entry) list"

definition monitor_new :: "nat \<Rightarrow> monitor" where
  "monitor_new now =
    \<lparr> bytes_sent = 0, bytes_received = 0, active = 0, opened_total = 0, started = now, sent_samples = [],
      recv_samples = [], last_upload = 0, last_download = 0, node_traffic = [] \<rparr>"

section \<open>Counting\<close>

definition entry_add_sent :: "u64 \<Rightarrow> node_entry \<Rightarrow> node_entry" where
  "entry_add_sent n e = (if n > 0 then e \<lparr> node_sent := node_sent e + n \<rparr> else e)"

definition entry_add_received :: "u64 \<Rightarrow> node_entry \<Rightarrow> node_entry" where
  "entry_add_received n e = (if n > 0 then e \<lparr> node_received := node_received e + n \<rparr> else e)"

definition record_sent_sync :: "u64 \<Rightarrow> monitor \<Rightarrow> monitor" where
  "record_sent_sync n m = (if n = 0 then m else m \<lparr> bytes_sent := bytes_sent m + n \<rparr>)"

definition record_received_sync :: "u64 \<Rightarrow> monitor \<Rightarrow> monitor" where
  "record_received_sync n m = (if n = 0 then m else m \<lparr> bytes_received := bytes_received m + n \<rparr>)"

text \<open>\<open>entry(addr).or_default()\<close>, and a change of a shared entry.\<close>

definition node_entry_of :: "sock_addr \<Rightarrow> monitor \<Rightarrow> monitor" where
  "node_entry_of a m =
    (case map_of (node_traffic m) a of
       Some _ \<Rightarrow> m
     | None \<Rightarrow> m \<lparr> node_traffic := AList.update a \<lparr> node_sent = 0, node_received = 0 \<rparr> (node_traffic m) \<rparr>)"

definition change_entry :: "sock_addr \<Rightarrow> (node_entry \<Rightarrow> node_entry) \<Rightarrow> monitor \<Rightarrow> monitor" where
  "change_entry a f m =
    (case map_of (node_traffic m) a of
       Some e \<Rightarrow> m \<lparr> node_traffic := AList.update a (f e) (node_traffic m) \<rparr>
     | None \<Rightarrow> m)"

definition node_traffic_snapshot :: "monitor \<Rightarrow> (sock_addr \<times> u64 \<times> u64) list" where
  "node_traffic_snapshot m = map (\<lambda>(a, e). (a, node_sent e, node_received e)) (node_traffic m)"

text \<open>A counter of a direction: whether it counts for the process, and for which node.\<close>

record byte_counter =
  to_monitor :: bool
  to_node :: "sock_addr option"
  is_up :: bool

definition counter_up :: "bool \<Rightarrow> sock_addr option \<Rightarrow> byte_counter" where
  "counter_up mon node = \<lparr> to_monitor = mon, to_node = node, is_up = True \<rparr>"

definition counter_down :: "bool \<Rightarrow> sock_addr option \<Rightarrow> byte_counter" where
  "counter_down mon node = \<lparr> to_monitor = mon, to_node = node, is_up = False \<rparr>"

definition counter_record :: "byte_counter \<Rightarrow> u64 \<Rightarrow> monitor \<Rightarrow> monitor" where
  "counter_record c n m =
    (if n = 0 then m
     else
       (let m = (if to_monitor c then (if is_up c then record_sent_sync n m else record_received_sync n m) else m) in
        case to_node c of
          Some a \<Rightarrow> change_entry a (if is_up c then entry_add_sent n else entry_add_received n) m
        | None \<Rightarrow> m))"

text \<open>A poll of the wrapped stream: \<open>None\<close> when it is pending or fails, else the number of bytes.\<close>

definition counting_read :: "byte_counter \<Rightarrow> nat option \<Rightarrow> monitor \<Rightarrow> monitor" where
  "counting_read c r m =
    (case r of
       Some n \<Rightarrow> (if (of_nat n :: u64) > 0 \<and> \<not> is_up c then counter_record c (of_nat n) m else m)
     | None \<Rightarrow> m)"

definition counting_write :: "byte_counter \<Rightarrow> nat option \<Rightarrow> monitor \<Rightarrow> monitor" where
  "counting_write c r m =
    (case r of
       Some n \<Rightarrow> (if n > 0 \<and> is_up c then counter_record c (of_nat n) m else m)
     | None \<Rightarrow> m)"

section \<open>Connections and speed\<close>

definition connection_opened :: "monitor \<Rightarrow> monitor" where
  "connection_opened m = m \<lparr> active := active m + 1, opened_total := opened_total m + 1 \<rparr>"

definition connection_closed :: "monitor \<Rightarrow> monitor" where
  "connection_closed m = (if active m = 0 then m else m \<lparr> active := active m - 1 \<rparr>)"

definition window_speed :: "nat \<Rightarrow> (nat \<times> u64) list \<Rightarrow> u64 \<Rightarrow> real \<Rightarrow> real \<times> (nat \<times> u64) list" where
  "window_speed now samples tot last_speed =
    (let s = filter (\<lambda>(t, _). t + 5000 > now) samples;
         s = (if s \<noteq> [] \<and> snd (last s) > tot then [] else s);
         s = s @ [(now, tot)]
     in if length s < 2 then (last_speed, s)
        else (let first = hd s; newest = last s; duration = real (fst newest - fst first) / 1000
              in if duration \<le> 0 then (last_speed, s)
                 else (real (unat (if snd newest < snd first then 0 else snd newest - snd first)) / duration, s)))"

record traffic_stats =
  st_sent :: u64
  st_received :: u64
  upload_speed :: real
  download_speed :: real
  st_active :: u64
  st_total :: u64
  uptime_secs :: nat

definition get_stats :: "nat \<Rightarrow> monitor \<Rightarrow> traffic_stats \<times> monitor" where
  "get_stats now m =
    (case window_speed now (sent_samples m) (bytes_sent m) (last_upload m) of
       (up, ss) \<Rightarrow>
         (case window_speed now (recv_samples m) (bytes_received m) (last_download m) of
            (down, rs) \<Rightarrow>
              (\<lparr> st_sent = bytes_sent m, st_received = bytes_received m, upload_speed = up, download_speed = down,
                 st_active = active m, st_total = opened_total m, uptime_secs = (now - started m) div 1000 \<rparr>,
               m \<lparr> sent_samples := ss, recv_samples := rs, last_upload := up, last_download := down \<rparr>)))"

definition monitor_reset :: "monitor \<Rightarrow> monitor" where
  "monitor_reset m = m \<lparr> bytes_sent := 0, bytes_received := 0, active := 0, opened_total := 0 \<rparr>"

text \<open>Days, when there are any, and hours, minutes and seconds in two digits.\<close>

definition pad2 :: "nat \<Rightarrow> string" where
  "pad2 n = (if n < 10 then CHR ''0'' # show_nat n else show_nat n)"

definition format_duration :: "nat \<Rightarrow> string" where
  "format_duration secs =
    (let days = secs div 86400; hours = secs mod 86400 div 3600; minutes = secs mod 3600 div 60; seconds = secs mod 60;
         hms = pad2 hours @ '':'' @ pad2 minutes @ '':'' @ pad2 seconds
     in if days > 0 then show_nat days @ map char_of [229, 164, 169 :: nat] @ '' '' @ hms else hms)"

section \<open>What the counters say\<close>

datatype traffic_op =
    NodeStream sock_addr
  | ReadPolled byte_counter "nat option"
  | WritePolled byte_counter "nat option"
  | Opened | Closed | Sample nat | Reset

fun traffic_step :: "traffic_op \<Rightarrow> monitor \<Rightarrow> monitor" where
  "traffic_step (NodeStream a) m = node_entry_of a m"
| "traffic_step (ReadPolled c r) m = counting_read c r m"
| "traffic_step (WritePolled c r) m = counting_write c r m"
| "traffic_step Opened m = connection_opened m"
| "traffic_step Closed m = connection_closed m"
| "traffic_step (Sample now) m = snd (get_stats now m)"
| "traffic_step Reset m = monitor_reset m"

text \<open>The bytes an operation moves up or down under a counter that satisfies \<open>P\<close>.\<close>

fun moved :: "(byte_counter \<Rightarrow> bool) \<Rightarrow> bool \<Rightarrow> traffic_op \<Rightarrow> nat" where
  "moved P up (ReadPolled c (Some n)) = (if P c \<and> \<not> is_up c \<and> \<not> up then n else 0)"
| "moved P up (WritePolled c (Some n)) = (if P c \<and> is_up c \<and> up then n else 0)"
| "moved P up _ = 0"

definition since_reset :: "traffic_op list \<Rightarrow> traffic_op list" where
  "since_reset ops = rev (takeWhile (\<lambda>op. op \<noteq> Reset) (rev ops))"

text \<open>The operations up to the last reset, with it, and the connections that are really open after
  some operations: those opened, less those closed, whatever was reset in between.\<close>

definition until_reset :: "traffic_op list \<Rightarrow> traffic_op list" where
  "until_reset ops = rev (dropWhile (\<lambda>op. op \<noteq> Reset) (rev ops))"

definition really_open :: "traffic_op list \<Rightarrow> nat" where
  "really_open ops = count_list ops Opened - count_list ops Closed"

text \<open>A connection is closed at most once, and after it was opened.\<close>

definition closes_follow_opens :: "traffic_op list \<Rightarrow> bool" where
  "closes_follow_opens ops \<longleftrightarrow> list_all (\<lambda>h. count_list h Closed \<le> count_list h Opened) (prefixes ops)"

lemma since_reset_snoc: "since_reset (ops @ [op]) = (if op = Reset then [] else since_reset ops @ [op])"
  by (simp add: since_reset_def)

lemma until_reset_snoc: "until_reset (ops @ [op]) = (if op = Reset then ops @ [op] else until_reset ops)"
  by (simp add: until_reset_def)

lemma closes_follow_opens_snoc:
  "closes_follow_opens (ops @ [op]) \<longleftrightarrow>
    closes_follow_opens ops \<and> count_list (ops @ [op]) Closed \<le> count_list (ops @ [op]) Opened"
  by (simp add: closes_follow_opens_def)

lemma really_open_snoc:
  "closes_follow_opens (ops @ [op]) \<Longrightarrow>
    really_open (ops @ [op]) + (if op = Closed then 1 else 0) = really_open ops + (if op = Opened then 1 else 0)"
proof -
  assume h: "closes_follow_opens (ops @ [op])"
  have "count_list ops Closed \<le> count_list ops Opened"
    using h by (simp add: closes_follow_opens_snoc) (simp add: closes_follow_opens_def list_all_iff)
  then show ?thesis using h by (auto simp: closes_follow_opens_snoc really_open_def)
qed

lemma really_open_le: "really_open ops \<le> length ops"
  unfolding really_open_def by (rule order_trans [OF diff_le_self count_le_length])

lemma change_entry_fields [simp]:
  "bytes_sent (change_entry a f m) = bytes_sent m" "bytes_received (change_entry a f m) = bytes_received m"
  "active (change_entry a f m) = active m" "opened_total (change_entry a f m) = opened_total m"
  by (simp_all add: change_entry_def split: option.split)

lemma record_fields [simp]:
  "bytes_sent (record_sent_sync n m) = bytes_sent m + n" "bytes_received (record_sent_sync n m) = bytes_received m"
  "bytes_received (record_received_sync n m) = bytes_received m + n" "bytes_sent (record_received_sync n m) = bytes_sent m"
  "active (record_sent_sync n m) = active m" "active (record_received_sync n m) = active m"
  "opened_total (record_sent_sync n m) = opened_total m" "opened_total (record_received_sync n m) = opened_total m"
  "node_traffic (record_sent_sync n m) = node_traffic m" "node_traffic (record_received_sync n m) = node_traffic m"
  by (simp_all add: record_sent_sync_def record_received_sync_def)

lemma counter_record_fields:
  "bytes_sent (counter_record c n m) = bytes_sent m + (if to_monitor c \<and> is_up c then n else 0)"
  "bytes_received (counter_record c n m) = bytes_received m + (if to_monitor c \<and> \<not> is_up c then n else 0)"
  "active (counter_record c n m) = active m" "opened_total (counter_record c n m) = opened_total m"
  by (auto simp: counter_record_def Let_def split: option.split)

lemma traffic_step_totals:
  "op \<noteq> Reset \<Longrightarrow> bytes_sent (traffic_step op m) = bytes_sent m + of_nat (moved to_monitor True op) \<and>
    bytes_received (traffic_step op m) = bytes_received m + of_nat (moved to_monitor False op)"
  by (cases op)
    (auto simp: counting_read_def counting_write_def counter_record_fields connection_opened_def connection_closed_def
      get_stats_def node_entry_of_def word_gt_0 split: option.splits prod.splits)

lemma map_of_update [simp]: "map_of (AList.update k v t) k' = (if k' = k then Some v else map_of t k')"
  by (simp add: update_conv')

lemma counter_record_entry:
  "map_of (node_traffic m) a = Some e \<Longrightarrow>
    map_of (node_traffic (counter_record c n m)) a =
      Some (if to_node c = Some a then (if is_up c then e \<lparr> node_sent := node_sent e + n \<rparr> else e \<lparr> node_received := node_received e + n \<rparr>) else e)"
  by (cases e) (auto simp: counter_record_def Let_def change_entry_def entry_add_sent_def entry_add_received_def word_gt_0
      split: option.split)

lemma traffic_step_entry:
  "map_of (node_traffic m) a = Some e \<Longrightarrow>
    map_of (node_traffic (traffic_step op m)) a =
      Some \<lparr> node_sent = node_sent e + of_nat (moved (\<lambda>c. to_node c = Some a) True op),
             node_received = node_received e + of_nat (moved (\<lambda>c. to_node c = Some a) False op) \<rparr>"
  by (cases op; cases e)
    (auto simp: counting_read_def counting_write_def counter_record_entry connection_opened_def connection_closed_def
      get_stats_def node_entry_of_def monitor_reset_def word_gt_0 split: option.splits prod.splits)

lemma traffic_step_active:
  "active (traffic_step op m) = (case op of Opened \<Rightarrow> active m + 1 | Closed \<Rightarrow> (if active m = 0 then 0 else active m - 1)
    | Reset \<Rightarrow> 0 | _ \<Rightarrow> active m)"
  by (cases op) (auto simp: counting_read_def counting_write_def counter_record_fields connection_opened_def connection_closed_def
      get_stats_def node_entry_of_def monitor_reset_def split: option.splits prod.splits)

lemma traffic_step_opened:
  "opened_total (traffic_step op m) = (case op of Opened \<Rightarrow> opened_total m + 1 | Reset \<Rightarrow> 0 | _ \<Rightarrow> opened_total m)"
  by (cases op) (auto simp: counting_read_def counting_write_def counter_record_fields connection_opened_def connection_closed_def
      get_stats_def node_entry_of_def monitor_reset_def split: option.splits prod.splits)

lemma totals_since_reset:
  "bytes_sent (fold traffic_step ops (monitor_new now)) = of_nat (sum_list (map (moved to_monitor True) (since_reset ops))) \<and>
   bytes_received (fold traffic_step ops (monitor_new now)) = of_nat (sum_list (map (moved to_monitor False) (since_reset ops))) \<and>
   opened_total (fold traffic_step ops (monitor_new now)) = of_nat (count_list (since_reset ops) Opened)"
proof (induction ops rule: rev_induct)
  case (snoc op ops)
  show ?case
  proof (cases "op = Reset")
    case True
    then show ?thesis by (simp add: since_reset_snoc monitor_reset_def)
  next
    case False
    then show ?thesis using snoc traffic_step_totals [OF False, of "fold traffic_step ops (monitor_new now)"]
      by (cases op) (auto simp: since_reset_snoc traffic_step_opened simp del: traffic_step.simps)
  qed
qed (simp add: monitor_new_def since_reset_def)

lemma entry_since_made:
  "map_of (node_traffic (fold traffic_step ops (node_entry_of a (monitor_new now)))) a = Some
     \<lparr> node_sent = of_nat (sum_list (map (moved (\<lambda>c. to_node c = Some a) True) ops)),
       node_received = of_nat (sum_list (map (moved (\<lambda>c. to_node c = Some a) False) ops)) \<rparr>"
proof (induction ops rule: rev_induct)
  case (snoc op ops)
  then show ?case using traffic_step_entry [OF snoc] by simp
qed (simp add: node_entry_of_def monitor_new_def)

lemma gauge_and_open:
  assumes "length ops < 2 ^ 64" "closes_follow_opens ops"
  shows "unat (active (fold traffic_step ops (monitor_new now))) \<le> really_open ops \<and>
    really_open ops \<le> unat (active (fold traffic_step ops (monitor_new now))) + really_open (until_reset ops)"
  using assms
proof (induction ops rule: rev_induct)
  case (snoc op ops)
  let ?m = "fold traffic_step ops (monitor_new now)"
  have i: "unat (active ?m) \<le> really_open ops" "really_open ops \<le> unat (active ?m) + really_open (until_reset ops)"
    using snoc by (simp_all add: closes_follow_opens_snoc)
  have "unat (active ?m) + 1 < 2 ^ 64" using i(1) really_open_le [of ops] snoc.prems(1) by simp
  then have up: "unat (active ?m + 1) = unat (active ?m) + 1" by (simp add: unat_word_ariths)
  have down: "unat (if active ?m = 0 then 0 else active ?m - 1) = unat (active ?m) - 1"
    by (simp add: unat_minus_one)
  note o = really_open_snoc [OF snoc.prems(2)]
  have a: "unat (active (fold traffic_step (ops @ [op]) (monitor_new now))) =
      (case op of Opened \<Rightarrow> unat (active ?m) + 1 | Closed \<Rightarrow> unat (active ?m) - 1 | Reset \<Rightarrow> 0 | _ \<Rightarrow> unat (active ?m))"
    using up down by (cases op) (simp_all add: traffic_step_active del: traffic_step.simps)
  show ?case unfolding a until_reset_snoc using i o by (cases op) auto
qed (simp add: monitor_new_def really_open_def)

text \<open>
  C36: the traffic counters count exactly what passes. After any operations in any order the byte
  totals and the number of connections opened are those since the last reset, modulo \<open>2^64\<close>; the
  entry of a node holds what its streams moved since it was made, which a reset does not touch.
  The gauge of active connections never counts a connection that is not open, so that it never
  wraps below zero, and misses at most as many as were open at the last reset; it is exact when
  there were none, in particular while nothing was reset.
\<close>

theorem traffic_counters_correct:
  assumes "length ops < 2 ^ 64" "closes_follow_opens ops"
  shows "let m = fold traffic_step ops (monitor_new now);
             n = fold traffic_step ops (node_entry_of a (monitor_new now))
    in bytes_sent m = of_nat (sum_list (map (moved to_monitor True) (since_reset ops))) \<and>
       bytes_received m = of_nat (sum_list (map (moved to_monitor False) (since_reset ops))) \<and>
       opened_total m = of_nat (count_list (since_reset ops) Opened) \<and>
       map_of (node_traffic n) a = Some
         \<lparr> node_sent = of_nat (sum_list (map (moved (\<lambda>c. to_node c = Some a) True) ops)),
           node_received = of_nat (sum_list (map (moved (\<lambda>c. to_node c = Some a) False) ops)) \<rparr> \<and>
       unat (active m) \<le> really_open ops \<and>
       really_open ops \<le> unat (active m) + really_open (until_reset ops) \<and>
       (Reset \<notin> set ops \<longrightarrow> unat (active m) = really_open ops)"
proof -
  have "until_reset ops = []" if "Reset \<notin> set ops"
    unfolding until_reset_def using that by (auto simp: dropWhile_eq_Nil_conv)
  then show ?thesis
    using totals_since_reset [of ops now] entry_since_made [of ops a now] gauge_and_open [OF assms, of now]
    by (auto simp: Let_def really_open_def)
qed

text \<open>A reset that overtakes the end of a connection: one is open and the gauge shows none.\<close>

theorem traffic_counters_correct_witness:
  "let ops = [WritePolled (counter_up True (Some (SockV4 1 1))) (Some 7), Opened, Reset, Opened, ReadPolled (counter_down True None) (Some 5), Closed];
       m = fold traffic_step ops (monitor_new 0); n = fold traffic_step ops (node_entry_of (SockV4 1 1) (monitor_new 0))
   in bytes_sent m = 0 \<and> bytes_received m = 5 \<and> opened_total m = 1 \<and>
     map_of (node_traffic n) (SockV4 1 1) = Some \<lparr> node_sent = 7, node_received = 0 \<rparr> \<and>
     really_open ops = 1 \<and> unat (active m) = 0"
  using traffic_counters_correct [where ops = "[WritePolled (counter_up True (Some (SockV4 1 1))) (Some 7), Opened, Reset, Opened,
      ReadPolled (counter_down True None) (Some 5), Closed]" and now = 0 and a = "SockV4 1 1"]
  unfolding Let_def
  by (simp add: since_reset_def until_reset_def closes_follow_opens_def really_open_def counter_up_def counter_down_def
      counting_read_def counting_write_def counter_record_def Let_def connection_opened_def connection_closed_def monitor_reset_def monitor_new_def
      record_sent_sync_def record_received_sync_def change_entry_def)

text \<open>The speed is the growth over the window, divided by its length.\<close>

lemma window_speed_correct:
  "case window_speed now samples tot v of (speed, s) \<Rightarrow>
    last s = (now, tot) \<and> list_all (\<lambda>(t, _). now < t + 5000) s \<and>
    (speed = v \<or> (\<exists>t x. hd s = (t, x) \<and> t < now \<and>
       speed = real (unat (if tot < x then 0 else tot - x)) / (real (now - t) / 1000)))"
proof -
  define s0 where "s0 = (let s = filter (\<lambda>(t, _). t + 5000 > now) samples in if s \<noteq> [] \<and> snd (last s) > tot then [] else s)"
  have s0: "list_all (\<lambda>(t, _). now < t + 5000) s0" by (auto simp: s0_def Let_def list_all_iff)
  obtain t x where hd: "hd (s0 @ [(now, tot)]) = (t, x)" by fastforce
  have "window_speed now samples tot v =
    (if length (s0 @ [(now, tot)]) < 2 then (v, s0 @ [(now, tot)])
     else if real (now - t) / 1000 \<le> 0 then (v, s0 @ [(now, tot)])
     else (real (unat (if tot < x then 0 else tot - x)) / (real (now - t) / 1000), s0 @ [(now, tot)]))"
    unfolding window_speed_def s0_def [unfolded Let_def, symmetric] Let_def hd by simp
  then show ?thesis using s0 hd by auto
qed
end
