(* ===== verification/DnsCache.thy ===== *)
theory DnsCache
  imports Tables NetAddr
begin

text \<open>
  \<open>hydra-node/src/dns_cache.rs\<close>: the resolver cache all connections of a node share.
  The process-wide map is the state \<open>cache\<close>; the clock is an argument; \<open>env\<close> is the value
  of \<open>HYDRA_DNS_CACHE\<close>. A resolution waits for a permit (\<open>permit\<close>: whether it came within
  the queue timeout) and for \<open>lookup_host\<close>; \<open>others\<close> is what other tasks do to the cache
  in the meantime.
\<close>

definition POSITIVE_TTL :: nat where "POSITIVE_TTL = 60000"
definition NEGATIVE_TTL :: nat where "NEGATIVE_TTL = 10000"
definition MAX_ENTRIES :: nat where "MAX_ENTRIES = 1024"

lemmas dns_consts = POSITIVE_TTL_def NEGATIVE_TTL_def MAX_ENTRIES_def

record cache_entry =
  addrs :: "sock_addr list"
  entry_at :: nat
  negative :: bool

type_synonym cache = "(string \<times> cache_entry) list"

definition cache_enabled :: "string option \<Rightarrow> bool" where
  "cache_enabled env \<longleftrightarrow> env \<noteq> Some ''0''"

definition entry_ttl :: "cache_entry \<Rightarrow> nat" where
  "entry_ttl e = (if negative e then NEGATIVE_TTL else POSITIVE_TTL)"

definition lookup_cached :: "bool \<Rightarrow> nat \<Rightarrow> string \<Rightarrow> cache \<Rightarrow> sock_addr list option \<times> cache" where
  "lookup_cached enabled now host c =
    (if \<not> enabled then (None, c)
     else case map_of c host of
       None \<Rightarrow> (None, c)
     | Some e \<Rightarrow>
         if now - entry_at e < entry_ttl e then (Some (addrs e), c)
         else (None, AList.delete host c))"

definition evict_oldest :: "cache \<Rightarrow> cache" where
  "evict_oldest c =
    (if MAX_ENTRIES \<le> length c then
       (case min_by (\<lambda>(_, e). entry_at e) c of
          Some (oldest, _) \<Rightarrow> AList.delete oldest c
        | None \<Rightarrow> c)
     else c)"

definition put_cache :: "bool \<Rightarrow> nat \<Rightarrow> string \<Rightarrow> sock_addr list \<Rightarrow> bool \<Rightarrow> cache \<Rightarrow> cache" where
  "put_cache enabled now host as neg c =
    (if \<not> enabled then c
     else AList.update host \<lparr> addrs = as, entry_at = now, negative = neg \<rparr> (evict_oldest c))"

text \<open>The outcome of \<open>lookup_host\<close> under its timeout of five seconds.\<close>

datatype lookup = Resolved "sock_addr list" | LookupFailed | LookupTimeout

definition resolve_host_cached ::
    "bool \<Rightarrow> nat \<Rightarrow> string \<Rightarrow> bool \<Rightarrow> lookup \<Rightarrow> nat \<Rightarrow> (cache \<Rightarrow> cache) \<Rightarrow> cache
     \<Rightarrow> sock_addr list option \<times> cache" where
  "resolve_host_cached enabled now host permit net done others c =
    (case lookup_cached enabled now host c of
       (Some as, c1) \<Rightarrow> if as = [] then (None, c1) else (Some as, c1)
     | (None, c1) \<Rightarrow>
         let c2 = others c1 in
         if \<not> permit then (None, c2)
         else (case net of
            Resolved v \<Rightarrow>
              if v = [] then (None, put_cache enabled done host [] True c2)
              else (Some v, put_cache enabled done host v False c2)
          | LookupFailed \<Rightarrow> (None, put_cache enabled done host [] True c2)
          | LookupTimeout \<Rightarrow> (None, put_cache enabled done host [] True c2)))"

section \<open>Invariant\<close>

text \<open>At most 1024 hosts, one entry each, and a negative entry is one without addresses.\<close>

definition cache_inv :: "cache \<Rightarrow> bool" where
  "cache_inv c \<longleftrightarrow> table_ok c \<and> length c \<le> MAX_ENTRIES \<and>
     (\<forall>(h, e) \<in> set c. negative e \<longleftrightarrow> addrs e = [])"

lemma cache_inv_delete: "cache_inv c \<Longrightarrow> cache_inv (AList.delete h c)"
  using length_filter_le [of "\<lambda>(k', _). h \<noteq> k'" c]
  by (auto simp: cache_inv_def AList.delete_eq distinct_map_filter simp del: length_filter_le)

lemma evict_oldest_cases:
  obtains "length c < MAX_ENTRIES" "evict_oldest c = c"
  | k e where "MAX_ENTRIES \<le> length c" "(k, e) \<in> set c" "evict_oldest c = AList.delete k c"
      "\<forall>p\<in>set c. entry_at e \<le> entry_at (snd p)"
proof (cases "MAX_ENTRIES \<le> length c")
  case True
  then have "c \<noteq> []" by (auto simp: dns_consts)
  then obtain k e where m: "min_by (\<lambda>(_, e). entry_at e) c = Some (k, e)"
    using min_by_None [of "\<lambda>(_, e). entry_at e" c] by fastforce
  from min_by_mem [OF this] show ?thesis
    by (intro that(2) [of k e]) (auto simp: True evict_oldest_def m)
qed (auto simp: evict_oldest_def intro: that(1))

lemma evict_oldest_inv: "cache_inv c \<Longrightarrow> cache_inv (evict_oldest c) \<and> length (evict_oldest c) < MAX_ENTRIES"
proof (cases c rule: evict_oldest_cases)
  case (2 k e)
  assume inv: "cache_inv c"
  then have "Suc (length (AList.delete k c)) = length c"
    using 2(2) by (intro length_delete_old) (auto simp: cache_inv_def image_iff intro: bexI [of _ "(k, e)"])
  then show ?thesis
    using inv 2 cache_inv_delete [OF inv, of k] by (auto simp: cache_inv_def)
qed simp

lemma put_cache_inv: "cache_inv c \<Longrightarrow> neg = (as = []) \<Longrightarrow> cache_inv (put_cache en now h as neg c)"
  using evict_oldest_inv [of c]
    length_update_le [of h "\<lparr> addrs = as, entry_at = now, negative = neg \<rparr>" "evict_oldest c"]
  by (auto simp: put_cache_def cache_inv_def distinct_update in_update_iff split: if_splits)

lemma lookup_cached_inv: "cache_inv c \<Longrightarrow> cache_inv (snd (lookup_cached en now h c))"
  by (auto simp: lookup_cached_def cache_inv_delete split: option.split)

lemma resolve_inv:
  assumes "cache_inv c" "\<And>c. cache_inv c \<Longrightarrow> cache_inv (others c)"
  shows "cache_inv (snd (resolve_host_cached en now h permit net done others c))"
proof -
  obtain r c1 where l: "lookup_cached en now h c = (r, c1)" by fastforce
  then have "cache_inv c1" using lookup_cached_inv [OF assms(1), of en now h] by simp
  then have o: "cache_inv (others c1)" by (rule assms(2))
  show ?thesis
  proof (cases r)
    case None
    with o show ?thesis
      by (cases net) (simp_all add: resolve_host_cached_def l put_cache_inv Let_def)
  next
    case (Some as)
    with \<open>cache_inv c1\<close> show ?thesis by (simp add: resolve_host_cached_def l)
  qed
qed

text \<open>What tasks do to the shared cache: look a host up, store the outcome of a lookup.\<close>

datatype cache_op = Look bool nat string | Store bool nat string "sock_addr list"

fun cache_step :: "cache_op \<Rightarrow> cache \<Rightarrow> cache" where
  "cache_step (Look en now h) c = snd (lookup_cached en now h c)"
| "cache_step (Store en now h as) c = put_cache en now h as (as = []) c"

interpretation dns: guarded_table "[]" cache_step cache_inv
proof
  show "cache_inv []" by (simp add: cache_inv_def)
  show "cache_inv s \<Longrightarrow> cache_inv (cache_step op s)" for s op
    by (cases op) (simp_all add: lookup_cached_inv put_cache_inv)
qed

section \<open>Storing and finding\<close>

definition fresh_entry :: "nat \<Rightarrow> string \<Rightarrow> cache \<Rightarrow> cache_entry option" where
  "fresh_entry now h c =
    (case map_of c h of
       Some e \<Rightarrow> if now - entry_at e < entry_ttl e then Some e else None
     | None \<Rightarrow> None)"

lemma delete_not_in: "map_of t k = None \<Longrightarrow> AList.delete k t = t"
  by (induction t) (auto split: if_splits)

lemma lookup_after_put:
  "cache_inv c \<Longrightarrow> lookup_cached True now h (put_cache True t h as neg c) =
    (if now - t < (if neg then NEGATIVE_TTL else POSITIVE_TTL)
     then (Some as, put_cache True t h as neg c)
     else (None, AList.delete h (put_cache True t h as neg c)))"
  by (simp add: lookup_cached_def put_cache_def update_conv' entry_ttl_def)

text \<open>Refreshing a host the full cache already holds evicts another one.\<close>

lemma refresh_evicts_another:
  assumes "cache_inv c" "length c = MAX_ENTRIES"
    and "(k, e) \<in> set c" "\<forall>p\<in>set c. fst p \<noteq> k \<longrightarrow> entry_at e < entry_at (snd p)"
    and "h \<noteq> k" "h \<in> fst ` set c"
  shows "map_of (put_cache True now h as neg c) k = None"
proof (cases c rule: evict_oldest_cases)
  case (2 k' e')
  have "k' = k"
  proof (rule ccontr)
    assume "k' \<noteq> k"
    then have "entry_at e < entry_at e'" using assms(4) 2(2) by auto
    moreover have "entry_at e' \<le> entry_at e" using 2(4) assms(3) by auto
    ultimately show False by simp
  qed
  then show ?thesis using assms(5) 2 by (simp add: put_cache_def update_conv' delete_conv')
qed (use assms(2) in simp)

section \<open>Properties\<close>

text \<open>
  whatever sequence of lookups and stores the tasks of the node make, the shared cache
  holds at most 1024 hosts, one entry each, and an entry is negative exactly when it has no
  addresses.
\<close>

theorem dns_cache_bounded: "cache_inv (fold cache_step ops [])"
  by (rule dns.inv_run)

text \<open>
  the cached resolver never answers with an empty list, answers either from an entry for
  this very host less than a minute old or with what the resolver just returned, does not
  ask the resolver at all while a fresh entry (positive or negative) exists, and stores the
  outcome of a resolution, failures as negative entries; waiting in vain for a permit stores
  nothing.
\<close>

theorem resolve_host_cached_correct:
  assumes "cache_inv c"
    and "resolve_host_cached True now h permit net done others c = (r, c')"
  shows "case fresh_entry now h c of
      Some e \<Rightarrow> c' = c \<and> r = (if negative e then None else Some (addrs e)) \<and> r \<noteq> Some [] \<and>
        now - entry_at e < 60000
    | None \<Rightarrow>
        if permit then
          r = (case net of Resolved v \<Rightarrow> if v = [] then None else Some v | _ \<Rightarrow> None) \<and>
          map_of c' h = Some \<lparr> addrs = (case r of None \<Rightarrow> [] | Some as \<Rightarrow> as),
                              entry_at = done, negative = (r = None) \<rparr>
        else r = None \<and> c' = others (AList.delete h c)"
proof (cases "fresh_entry now h c")
  case (Some e)
  then have l: "lookup_cached True now h c = (Some (addrs e), c)"
    and m: "map_of c h = Some e" and t: "now - entry_at e < entry_ttl e"
    by (auto simp: fresh_entry_def lookup_cached_def split: option.splits if_splits)
  have neg: "negative e \<longleftrightarrow> addrs e = []"
    using assms(1) m by (auto simp: cache_inv_def dest!: map_of_SomeD bspec)
  have "entry_ttl e \<le> 60000" by (simp add: entry_ttl_def dns_consts)
  then show ?thesis
    using assms(2) t by (auto simp: Some resolve_host_cached_def l neg split: if_splits)
next
  case None
  then have l: "lookup_cached True now h c = (None, AList.delete h c)"
    by (auto simp: fresh_entry_def lookup_cached_def delete_not_in split: option.splits if_splits)
  show ?thesis
  proof (cases "permit")
    case False
    then show ?thesis using assms(2) None by (simp add: resolve_host_cached_def l Let_def)
  next
    case True
    then show ?thesis using assms(2) None
      by (cases net) (auto simp: resolve_host_cached_def l Let_def put_cache_def update_conv' split: if_splits)
  qed
qed

theorem resolve_host_cached_correct_witness:
  "fst (resolve_host_cached True 70000 ''a:1'' True (Resolved [SockV4 2 1]) 70001 id
      [(''a:1'', \<lparr> addrs = [SockV4 1 1], entry_at = 20000, negative = False \<rparr>)]) = Some [SockV4 1 1] \<and>
   fst (resolve_host_cached True 90000 ''a:1'' True (Resolved [SockV4 2 1]) 90001 id
      [(''a:1'', \<lparr> addrs = [SockV4 1 1], entry_at = 20000, negative = False \<rparr>)]) = Some [SockV4 2 1]"
proof -
  let ?c = "[(''a:1'', \<lparr> addrs = [SockV4 1 1], entry_at = 20000, negative = False \<rparr>)]"
  have inv: "cache_inv ?c" by (simp add: cache_inv_def dns_consts)
  have f: "fresh_entry 70000 ''a:1'' ?c = Some \<lparr> addrs = [SockV4 1 1], entry_at = 20000, negative = False \<rparr>"
    "fresh_entry 90000 ''a:1'' ?c = None"
    by (simp_all add: fresh_entry_def entry_ttl_def dns_consts)
  show ?thesis
    using resolve_host_cached_correct [OF inv, where now = 70000 and h = "''a:1''", OF surjective_pairing]
      resolve_host_cached_correct [OF inv, where now = 90000 and h = "''a:1''" and permit = True, OF surjective_pairing]
    by (simp add: f)
qed

end
