(* ===== verification/Ssrf.thy ===== *)
theory Ssrf
  imports DnsCache
begin

text \<open>
  \<open>hydra-node/src/handler.rs\<close>: the target filter of the node and the connection to a
  target. \<open>allowed\<close> is the outcome of \<open>private_targets_allowed\<close>, \<open>answer\<close> that of
  \<open>resolve_host_cached\<close>, with the time it took. Connecting is the argument \<open>dial\<close>: for an attempt started at a time
  to an address, how many milliseconds it takes and how it ends. Socket options, metrics and
  logs are left out. Besides its result the model returns the addresses an attempt was made
  to, and the time of the end.
\<close>

definition ERR_TARGET_CONNECT :: nat where "ERR_TARGET_CONNECT = 0x11"
definition ERR_DNS_FAIL :: nat where "ERR_DNS_FAIL = 0x12"

definition private_targets_allowed :: "string option \<Rightarrow> bool" where
  "private_targets_allowed env \<longleftrightarrow> env = Some ''1''"

section \<open>The filter\<close>

definition classify_blocked_v4 :: "u32 \<Rightarrow> string option" where
  "classify_blocked_v4 v4 =
    (let o0 = v4_octets v4 ! 0; o1 = v4_octets v4 ! 1; o2 = v4_octets v4 ! 2 in
     if o0 = 0 then Some ''this-network 0.0.0.0/8''
     else if v4_is_loopback v4 then Some ''loopback''
     else if v4_is_link_local v4 then Some ''link-local''
     else if v4_is_private v4 then Some ''RFC1918 private''
     else if o0 = 100 \<and> 64 \<le> o1 \<and> o1 \<le> 127 then Some ''CGNAT 100.64.0.0/10''
     else if o0 = 198 \<and> 18 \<le> o1 \<and> o1 \<le> 19 then Some ''benchmarking 198.18.0.0/15''
     else if o0 = 192 \<and> o1 = 0 \<and> o2 = 0 then Some ''special 192.0.0.0/24''
     else if o0 = 192 \<and> o1 = 0 \<and> o2 = 2 then Some ''documentation TEST-NET-1 192.0.2.0/24''
     else if o0 = 198 \<and> o1 = 51 \<and> o2 = 100 then Some ''documentation TEST-NET-2 198.51.100.0/24''
     else if o0 = 203 \<and> o1 = 0 \<and> o2 = 113 then Some ''documentation TEST-NET-3 203.0.113.0/24''
     else if o0 AND 0xf0 = 0xe0 then Some ''multicast 224.0.0.0/4''
     else if o0 AND 0xf0 = 0xf0 then Some ''reserved 240.0.0.0/4''
     else None)"

definition embedded_ipv4_of_v6 :: "u16 list \<Rightarrow> u32 option" where
  "embedded_ipv4_of_v6 seg =
    (let v4 = v4_of_octets [ucast (drop_bit 8 (seg ! 6)), ucast (seg ! 6 AND 0xff),
                            ucast (drop_bit 8 (seg ! 7)), ucast (seg ! 7 AND 0xff)] in
     if list_all (\<lambda>s. s = 0) (take 6 seg) \<and> \<not> (seg ! 6 = 0 \<and> seg ! 7 \<le> 1) then Some v4
     else if list_all (\<lambda>s. s = 0) (take 4 seg) \<and> seg ! 4 = 0xffff \<and> seg ! 5 = 0 then Some v4
     else if seg ! 0 = 0x0064 \<and> seg ! 1 = 0xff9b \<and> list_all (\<lambda>s. s = 0) (take 4 (drop 2 seg)) then Some v4
     else None)"

definition classify_blocked_ip :: "ip_addr \<Rightarrow> string option" where
  "classify_blocked_ip ip =
    (case ip of
       IpV4 v4 \<Rightarrow> classify_blocked_v4 v4
     | IpV6 v6 \<Rightarrow>
        (case v6_to_ipv4_mapped v6 of
           Some v4 \<Rightarrow> classify_blocked_v4 v4
         | None \<Rightarrow>
            let seg = v6_segments v6 in
            (case embedded_ipv4_of_v6 seg of
               Some v4 \<Rightarrow> classify_blocked_v4 v4
             | None \<Rightarrow>
                 if v6_is_loopback v6 then Some ''loopback''
                 else if (seg ! 0) AND 0xffc0 = 0xfe80 then Some ''link-local''
                 else if (seg ! 0) AND 0xfe00 = 0xfc00 then Some ''IPv6 ULA private''
                 else if v6_is_unspecified v6 then Some ''unspecified ::''
                 else if (seg ! 0) AND 0xff00 = 0xff00 then Some ''IPv6 multicast ff00::/8''
                 else if (seg ! 0) AND 0xff00 = 0x2000 \<and> seg ! 1 = 0x0db8
                   then Some ''documentation 2001:db8::/32''
                 else None)))"

section \<open>Candidates\<close>

fun retain_first :: "'a list \<Rightarrow> 'a list \<Rightarrow> 'a list" where
  "retain_first seen [] = []"
| "retain_first seen (a # as) =
    (if a \<in> set seen then retain_first seen as else a # retain_first (a # seen) as)"

definition order_candidates :: "sock_addr list \<Rightarrow> sock_addr list" where
  "order_candidates as =
    retain_first [] (sort_by (\<lambda>a b. sock_is_ipv4 a \<or> \<not> sock_is_ipv4 b) as)"

type_synonym 'a conn_res = "(nat \<times> hydra_error) + 'a"

definition resolve_candidates :: "string \<Rightarrow> sock_addr list option \<Rightarrow> sock_addr list conn_res" where
  "resolve_candidates target cached =
    (case parse_sock_addr target of
       Some a \<Rightarrow> Inr [a]
     | None \<Rightarrow>
        (case cached of
           None \<Rightarrow> Inl (ERR_DNS_FAIL, ConnectionError ''DNS resolution failed'')
         | Some as \<Rightarrow>
             let ordered = order_candidates as in
             if ordered = [] then Inl (ERR_DNS_FAIL, ConnectionError ''DNS resolution failed'')
             else Inr ordered))"

definition filter_candidates :: "bool \<Rightarrow> sock_addr list \<Rightarrow> sock_addr list conn_res" where
  "filter_candidates allowed cs =
    (if allowed then Inr cs
     else
       let ok = filter (\<lambda>a. classify_blocked_ip (sock_ip a) = None) cs;
           first_block = List.map_filter (\<lambda>a. classify_blocked_ip (sock_ip a)) cs in
       if ok = [] then
         Inl (ERR_TARGET_CONNECT, ConnectionError (''Target blocked: '' @
           (case first_block of [] \<Rightarrow> ''private/reserved'' | r # _ \<Rightarrow> r)))
       else Inr ok)"

section \<open>Connecting\<close>

definition CONNECT_TOTAL :: nat where "CONNECT_TOTAL = 15000"
definition MIN_ATTEMPT :: nat where "MIN_ATTEMPT = 500"
definition HE_STAGGER :: nat where "HE_STAGGER = 250"

lemmas connect_consts = CONNECT_TOTAL_def MIN_ATTEMPT_def HE_STAGGER_def

type_synonym 's dialer = "nat \<Rightarrow> sock_addr \<Rightarrow> nat \<times> (string + 's)"

text \<open>One attempt under a time limit: when it ends and how.\<close>

definition dial_candidate :: "'s dialer \<Rightarrow> nat \<Rightarrow> sock_addr \<Rightarrow> nat \<Rightarrow> nat \<times> 's res" where
  "dial_candidate dial start c budget =
    (case dial start c of (d, r) \<Rightarrow>
       if d \<le> budget then
         (start + d, case r of Inl e \<Rightarrow> Inl (TargetUnreachable ''Failed to connect'') | Inr s \<Rightarrow> Inr s)
       else (start + budget, Inl (TargetUnreachable ''Timeout connecting'')))"

text \<open>
  The race of the first two candidates, the second starting a quarter of a second later.
  \<open>tie\<close> tells which branch \<open>select!\<close> takes when both end in the same millisecond.
\<close>

definition race_candidates ::
    "'s dialer \<Rightarrow> bool \<Rightarrow> nat \<Rightarrow> sock_addr \<Rightarrow> sock_addr \<Rightarrow> sock_addr list \<times> nat \<times> 's res" where
  "race_candidates dial tie t0 c0 c1 =
    (let remaining = CONNECT_TOTAL;
         (f0, r0) = dial_candidate dial t0 c0 remaining;
         (f1, r1) = dial_candidate dial (t0 + HE_STAGGER) c1 (remaining - HE_STAGGER) in
     if f0 < f1 \<or> (f0 = f1 \<and> tie) then
       (case r0 of
          Inr s \<Rightarrow> (if f0 < t0 + HE_STAGGER then [c0] else [c0, c1], f0, Inr s)
        | Inl e \<Rightarrow> ([c0, c1], f1, r1))
     else
       (case r1 of
          Inr s \<Rightarrow> ([c0, c1], f1, Inr s)
        | Inl e \<Rightarrow> ([c0, c1], f0, r0)))"

text \<open>The candidates tried one after the other, while half a second of the budget is left.\<close>

fun serial_candidates ::
    "'s dialer \<Rightarrow> nat \<Rightarrow> nat \<Rightarrow> sock_addr list \<Rightarrow> hydra_error option
     \<Rightarrow> sock_addr list \<times> nat \<times> (hydra_error option + 's)" where
  "serial_candidates dial t0 now [] last_err = ([], now, Inl last_err)"
| "serial_candidates dial t0 now (c # cs) last_err =
    (let remaining = CONNECT_TOTAL - (now - t0) in
     if remaining < MIN_ATTEMPT then ([], now, Inl last_err)
     else (case dial_candidate dial now c remaining of
        (f, Inr s) \<Rightarrow> ([c], f, Inr s)
      | (f, Inl e) \<Rightarrow>
          (case serial_candidates dial t0 f cs (Some e) of (tried, r) \<Rightarrow> (c # tried, r))))"

definition connect_candidates ::
    "'s dialer \<Rightarrow> bool \<Rightarrow> nat \<Rightarrow> sock_addr list \<Rightarrow> sock_addr list \<times> nat \<times> 's conn_res" where
  "connect_candidates dial tie t0 cs =
    (let finish = (\<lambda>pre. \<lambda>(tried, now, r). (pre @ tried, now, case r of
           Inr s \<Rightarrow> Inr s
         | Inl e \<Rightarrow> Inl (ERR_TARGET_CONNECT,
             case e of Some e \<Rightarrow> e | None \<Rightarrow> TargetUnreachable ''Timeout connecting''))) in
     (case cs of
        c0 # c1 # rest \<Rightarrow>
          (case race_candidates dial tie t0 c0 c1 of
             (tried, now, Inr s) \<Rightarrow> (tried, now, Inr s)
           | (tried, now, Inl e) \<Rightarrow> finish tried (serial_candidates dial t0 now rest (Some e)))
      | _ \<Rightarrow> finish [] (serial_candidates dial t0 t0 cs None)))"

text \<open>The answer of \<open>resolve_host_cached\<close>, with how long the lookup took: its place in the queue and the
  resolver, which have their own limits, come before the budget for connecting.\<close>

type_synonym dns_answer = "nat \<times> sock_addr list option"

definition connect_start :: "string \<Rightarrow> dns_answer \<Rightarrow> nat \<Rightarrow> nat" where
  "connect_start target answer now = (case parse_sock_addr target of Some _ \<Rightarrow> now | None \<Rightarrow> now + fst answer)"

definition resolve_and_connect ::
    "bool \<Rightarrow> dns_answer \<Rightarrow> 's dialer \<Rightarrow> bool \<Rightarrow> nat \<Rightarrow> string
     \<Rightarrow> sock_addr list \<times> nat \<times> 's conn_res" where
  "resolve_and_connect allowed answer dial tie now target =
    (let start = connect_start target answer now in
     case resolve_candidates target (snd answer) of
       Inl e \<Rightarrow> ([], start, Inl e)
     | Inr cs \<Rightarrow>
        (case filter_candidates allowed cs of
           Inl e \<Rightarrow> ([], start, Inl e)
         | Inr cs' \<Rightarrow> connect_candidates dial tie start cs'))"

section \<open>Facts about the filter\<close>

text \<open>The blocks of IPv4 addresses the documentation of the filter lists, as ranges.\<close>

definition blocked_v4_ranges :: "(nat \<times> nat) list" where
  "blocked_v4_ranges =
    [(0x00000000, 0x00FFFFFF), (0x7F000000, 0x7FFFFFFF), (0xA9FE0000, 0xA9FEFFFF),
     (0x0A000000, 0x0AFFFFFF), (0xAC100000, 0xAC1FFFFF), (0xC0A80000, 0xC0A8FFFF),
     (0x64400000, 0x647FFFFF), (0xC6120000, 0xC613FFFF), (0xC0000000, 0xC00000FF),
     (0xC0000200, 0xC00002FF), (0xC6336400, 0xC63364FF), (0xCB007100, 0xCB0071FF),
     (0xE0000000, 0xFFFFFFFF)]"

lemma high_nibble: "(b :: byte) AND 0xf0 = 0xe0 \<or> b AND 0xf0 = 0xf0 \<longleftrightarrow> 224 \<le> unat b"
proof -
  have "\<forall>n\<in>set [0..<256]. ((of_nat n :: byte) AND 0xf0 = 0xe0 \<or> (of_nat n :: byte) AND 0xf0 = 0xf0) = (224 \<le> n)"
    by code_simp
  from bspec [OF this, of "unat b"] show ?thesis using unat_byte_less [of b] by simp
qed

lemma classify_v4_None:
  "classify_blocked_v4 a = None \<longleftrightarrow> \<not> (\<exists>(lo, hi) \<in> set blocked_v4_ranges. lo \<le> unat a \<and> unat a \<le> hi)"
proof -
  let ?n = "unat a"
  have "?n < 4294967296" using unsigned_less [of a] by simp
  then have top: "?n \<le> 0xFFFFFFFF" by simp
  have r: "(31 :: nat) < 256" "(127 :: nat) < 256" "(19 :: nat) < 256" by simp_all
  have nib: "v4_octets a ! 0 AND 0xf0 = 0xe0 \<or> v4_octets a ! 0 AND 0xf0 = 0xf0 \<longleftrightarrow> 0xE0000000 \<le> ?n"
    unfolding high_nibble octet_nat by (simp add: less_eq_div_iff_mult_less_eq)
  have "classify_blocked_v4 a = None \<longleftrightarrow> \<not>
     (?n div 16777216 = 0 \<or> ?n div 16777216 = 127 \<or> (?n div 16777216 = 169 \<and> ?n div 65536 mod 256 = 254) \<or>
      ?n div 16777216 = 10 \<or>
      (?n div 16777216 = 172 \<and> 16 \<le> ?n div 65536 mod 256 \<and> ?n div 65536 mod 256 \<le> 31) \<or>
      (?n div 16777216 = 192 \<and> ?n div 65536 mod 256 = 168) \<or>
      (?n div 16777216 = 100 \<and> 64 \<le> ?n div 65536 mod 256 \<and> ?n div 65536 mod 256 \<le> 127) \<or>
      (?n div 16777216 = 198 \<and> 18 \<le> ?n div 65536 mod 256 \<and> ?n div 65536 mod 256 \<le> 19) \<or>
      (?n div 16777216 = 192 \<and> ?n div 65536 mod 256 = 0 \<and> ?n div 256 mod 256 = 0) \<or>
      (?n div 16777216 = 192 \<and> ?n div 65536 mod 256 = 0 \<and> ?n div 256 mod 256 = 2) \<or>
      (?n div 16777216 = 198 \<and> ?n div 65536 mod 256 = 51 \<and> ?n div 256 mod 256 = 100) \<or>
      (?n div 16777216 = 203 \<and> ?n div 65536 mod 256 = 0 \<and> ?n div 256 mod 256 = 113) \<or>
      0xE0000000 \<le> ?n)"
    unfolding nib [symmetric] classify_blocked_v4_def v4_is_loopback_def v4_is_link_local_def
      v4_is_private_def
    by (simp add: octet_range octet2_nat Let_def)
  then show ?thesis
    unfolding block_range [where j = 31 and k = 172, OF r(1)]
      block_range [where j = 127 and k = 100, OF r(2)] block_range [where j = 19 and k = 198, OF r(3)]
      block24 block16 [of ?n 192] block16 [of ?n 169]
    unfolding block8 using top by (simp add: blocked_v4_ranges_def)
qed

text \<open>The sixteen octets that carry an IPv4 address under a prefix of twelve.\<close>

definition v4_prefixes :: "byte list list" where
  "v4_prefixes = [replicate 12 0, replicate 10 0 @ [0xff, 0xff], replicate 8 0 @ [0xff, 0xff, 0, 0],
     [0, 0x64, 0xff, 0x9b] @ replicate 8 0]"

definition v6_with_v4 :: "byte list \<Rightarrow> u32 \<Rightarrow> u128" where
  "v6_with_v4 p a = v6_of_octets (p @ v4_octets a)"

lemma four_octets: "\<exists>w x y z. v4_octets a = [w, x, y, z]"
  by (simp add: v4_octets_def be_bytes_4)

lemma classify_v6_octets:
  assumes "length p = 12" "v4_octets a = [w, x, y, z]"
  shows "v6_octets (v6_with_v4 p a) = p @ [w, x, y, z]"
    "v6_segments (v6_with_v4 p a) = byte_pairs (p @ [w, x, y, z])"
  using assms by (simp_all add: v6_with_v4_def v6_octets_of_octets v6_segments_of_octets)

lemma be_u16_const: "be_u16 [0, 0] = 0" "be_u16 [0xff, 0xff] = 0xffff" "be_u16 [0, 0x64] = 0x64"
  "be_u16 [0xff, 0x9b] = 0xff9b"
  by (simp_all add: be_u16_def)

lemma v4_of_parts: "v4_octets a = [w, x, y, z] \<Longrightarrow> v4_of_octets [w, x, y, z] = a"
  using v4_of_octets_octets [of a] by simp

text \<open>IPv4-compatible addresses, \<open>::\<close> and \<open>::1\<close> apart.\<close>

lemma classify_compatible:
  "classify_blocked_ip (IpV6 (v6_with_v4 (replicate 12 0) a)) = None \<longleftrightarrow> classify_blocked_v4 a = None"
proof -
  obtain w x y z where o: "v4_octets a = [w, x, y, z]" using four_octets by blast
  let ?p = "[0, 0, 0, 0, 0, 0, 0, 0, 0, 0, 0, 0] :: byte list"
  have rep: "replicate 12 0 = ?p" by (simp add: numeral_eq_Suc)
  have v: "v6_octets (v6_with_v4 ?p a) = ?p @ [w, x, y, z]"
    "v6_segments (v6_with_v4 ?p a) = [0, 0, 0, 0, 0, 0, be_u16 [w, x], be_u16 [y, z]]"
    using classify_v6_octets [of ?p a] o by (simp_all add: be_u16_const)
  have m: "v6_to_ipv4_mapped (v6_with_v4 ?p a) = None" by (simp add: v6_to_ipv4_mapped_def v)
  show ?thesis
  proof (cases "be_u16 [w, x] = 0 \<and> be_u16 [y, z] \<le> 1")
    case False
    then have "embedded_ipv4_of_v6 [0, 0, 0, 0, 0, 0, be_u16 [w, x], be_u16 [y, z]] = Some a"
      by (auto simp: embedded_ipv4_of_v6_def be_u16_bytes v4_of_parts [OF o])
    then show ?thesis by (simp add: classify_blocked_ip_def rep m v Let_def)
  next
    case True
    have yz: "be_u16 [y, z] = 0 \<or> be_u16 [y, z] = 1"
      using True by (metis le_less word_less_1)
    have "w = 0 \<and> x = 0" using True be_u16_inject [of w x 0 0] by (simp add: be_u16_const)
    moreover have "y = 0 \<and> (z = 0 \<or> z = 1)"
      using yz be_u16_inject [of y z 0 0] be_u16_inject [of y z 0 1] by (auto simp: be_u16_const be_u16_def)
    ultimately have "a = v4_of_octets [0, 0, 0, 0] \<or> a = v4_of_octets [0, 0, 0, 1]"
      using v4_of_parts [OF o] by auto
    then have "a = 0 \<or> a = 1" by (simp add: v4_of_octets_def)
    moreover have "classify_blocked_v4 0 \<noteq> None" "classify_blocked_v4 1 \<noteq> None"
      unfolding classify_v4_None by (simp_all add: blocked_v4_ranges_def)
    moreover have "v6_with_v4 ?p 0 = 0" "v6_with_v4 ?p 1 = 1"
      by (simp_all add: v6_with_v4_def v6_of_octets_def v4_octets_def be_bytes_4)
    ultimately have "v6_is_loopback (v6_with_v4 ?p a) \<or> v6_is_unspecified (v6_with_v4 ?p a)"
      and v4: "classify_blocked_v4 a \<noteq> None"
      by (auto simp: v6_is_loopback_def v6_is_unspecified_def)
    moreover have "embedded_ipv4_of_v6 [0, 0, 0, 0, 0, 0, be_u16 [w, x], be_u16 [y, z]] = None"
      using True by (simp add: embedded_ipv4_of_v6_def)
    ultimately have "classify_blocked_ip (IpV6 (v6_with_v4 ?p a)) \<noteq> None"
      by (auto simp: classify_blocked_ip_def m v Let_def)
    with v4 show ?thesis unfolding rep by blast
  qed
qed

lemma classify_embedded:
  assumes "p \<in> set v4_prefixes"
  shows "classify_blocked_ip (IpV6 (v6_with_v4 p a)) = None \<longleftrightarrow> classify_blocked_v4 a = None"
proof -
  obtain w x y z where o: "v4_octets a = [w, x, y, z]" using four_octets by blast
  consider "p = replicate 12 0" | "p = [0, 0, 0, 0, 0, 0, 0, 0, 0, 0, 0xff, 0xff]"
    | "p = [0, 0, 0, 0, 0, 0, 0, 0, 0xff, 0xff, 0, 0]" | "p = [0, 0x64, 0xff, 0x9b, 0, 0, 0, 0, 0, 0, 0, 0]"
    using assms by (auto simp: v4_prefixes_def numeral_eq_Suc)
  then show ?thesis
  proof cases
    case 1
    then show ?thesis by (simp only: classify_compatible)
  next
    case 2
    then show ?thesis using classify_v6_octets(1) [of p a] o
      by (simp add: classify_blocked_ip_def v6_to_ipv4_mapped_def v4_of_parts [OF o])
  next
    case 3
    have "v6_octets (v6_with_v4 p a) = p @ [w, x, y, z]"
      "v6_segments (v6_with_v4 p a) = [0, 0, 0, 0, 0xffff, 0, be_u16 [w, x], be_u16 [y, z]]"
      using classify_v6_octets [of p a] o 3 by (simp_all add: be_u16_const)
    then show ?thesis
      by (simp add: classify_blocked_ip_def v6_to_ipv4_mapped_def 3 Let_def embedded_ipv4_of_v6_def
          be_u16_bytes v4_of_parts [OF o])
  next
    case 4
    have "v6_octets (v6_with_v4 p a) = p @ [w, x, y, z]"
      "v6_segments (v6_with_v4 p a) = [0x64, 0xff9b, 0, 0, 0, 0, be_u16 [w, x], be_u16 [y, z]]"
      using classify_v6_octets [of p a] o 4 by (simp_all add: be_u16_const)
    then show ?thesis
      by (simp add: classify_blocked_ip_def v6_to_ipv4_mapped_def 4 Let_def embedded_ipv4_of_v6_def
          be_u16_bytes v4_of_parts [OF o])
  qed
qed

text \<open>An IPv6 address that carries no IPv4 address, and the blocks of those that are refused: the
  ranges of the first group, and of the first two groups for what the source calls 2001:db8::/32.\<close>

definition native_v6 :: "u128 \<Rightarrow> bool" where
  "native_v6 v \<longleftrightarrow> (\<forall>p \<in> set v4_prefixes. \<forall>a. v \<noteq> v6_with_v4 p a)"

definition blocked_v6_groups :: "(nat \<times> nat) list" where
  "blocked_v6_groups = [(0xFE80, 0xFEBF), (0xFC00, 0xFDFF), (0xFF00, 0xFFFF)]"

definition group0 :: "u128 \<Rightarrow> nat" where "group0 v = unat v div 2 ^ 112"
definition group1 :: "u128 \<Rightarrow> nat" where "group1 v = unat v div 2 ^ 96 mod 2 ^ 16"

lemma be_u16_eq:
  "be_u16 [a, b] = 0 \<longleftrightarrow> a = 0 \<and> b = 0" "be_u16 [a, b] = 0xffff \<longleftrightarrow> a = 0xff \<and> b = 0xff"
  "be_u16 [a, b] = 0x64 \<longleftrightarrow> a = 0 \<and> b = 0x64" "be_u16 [a, b] = 0xff9b \<longleftrightarrow> a = 0xff \<and> b = 0x9b"
  unfolding be_u16_const [symmetric] be_u16_inject by (rule refl)+

lemma sixteen:
  assumes "length os = 16"
  obtains a b c d e f g h i j k l w x y z where "os = [a, b, c, d, e, f, g, h, i, j, k, l, w, x, y, z]"
  using assms by (auto simp: numeral_eq_Suc length_Suc_conv)

lemma native_v6_carries_none:
  assumes "native_v6 v"
  shows "v6_to_ipv4_mapped v = None" "embedded_ipv4_of_v6 (v6_segments v) = None"
    "\<not> v6_is_loopback v" "\<not> v6_is_unspecified v"
proof -
  obtain a b c d e f g h i j k l w x y z
    where os: "v6_octets v = [a, b, c, d, e, f, g, h, i, j, k, l, w, x, y, z]"
    using sixteen [OF length_octets(2)] by blast
  have v: "v = v6_of_octets [a, b, c, d, e, f, g, h, i, j, k, l, w, x, y, z]"
    using v6_of_octets_octets [of v] os by simp
  have four: "v4_octets (v4_of_octets [w, x, y, z]) = [w, x, y, z]" by (rule v4_octets_of_octets) simp
  have eq: "v = v6_with_v4 [a, b, c, d, e, f, g, h, i, j, k, l] (v4_of_octets [w, x, y, z])"
    by (simp add: v6_with_v4_def v four)
  have no: "[a, b, c, d, e, f, g, h, i, j, k, l] \<noteq> p" if "p \<in> set v4_prefixes" for p
    using assms that eq unfolding native_v6_def by blast
  have ps: "[0, 0, 0, 0, 0, 0, 0, 0, 0, 0, 0, 0] \<in> set v4_prefixes" "[0, 0, 0, 0, 0, 0, 0, 0, 0, 0, 0xff, 0xff] \<in> set v4_prefixes"
    "[0, 0, 0, 0, 0, 0, 0, 0, 0xff, 0xff, 0, 0] \<in> set v4_prefixes" "[0, 0x64, 0xff, 0x9b, 0, 0, 0, 0, 0, 0, 0, 0] \<in> set v4_prefixes"
    by (simp_all add: v4_prefixes_def numeral_eq_Suc)
  note n = no [OF ps(1)] no [OF ps(2)] no [OF ps(3)] no [OF ps(4)]
  show "v6_to_ipv4_mapped v = None" using n(2) by (auto simp: v6_to_ipv4_mapped_def os)
  have sg: "v6_segments v = [be_u16 [a, b], be_u16 [c, d], be_u16 [e, f], be_u16 [g, h], be_u16 [i, j], be_u16 [k, l],
      be_u16 [w, x], be_u16 [y, z]]"
    unfolding v by (subst v6_segments_of_octets) simp_all
  show "embedded_ipv4_of_v6 (v6_segments v) = None"
  proof -
    let ?s = "v6_segments v"
    have "\<not> list_all (\<lambda>s. s = 0) (take 6 ?s)" using n(1) unfolding sg by (simp add: be_u16_eq)
    moreover have "\<not> (list_all (\<lambda>s. s = 0) (take 4 ?s) \<and> ?s ! 4 = 0xffff \<and> ?s ! 5 = 0)"
      using n(3) unfolding sg by (simp add: be_u16_eq)
    moreover have "\<not> (?s ! 0 = 0x0064 \<and> ?s ! 1 = 0xff9b \<and> list_all (\<lambda>s. s = 0) (take 4 (drop 2 ?s)))"
      using n(4) unfolding sg by (simp add: be_u16_eq)
    ultimately show ?thesis unfolding embedded_ipv4_of_v6_def Let_def by presburger
  qed
  have "v6_with_v4 [0, 0, 0, 0, 0, 0, 0, 0, 0, 0, 0, 0] 0 = 0" "v6_with_v4 [0, 0, 0, 0, 0, 0, 0, 0, 0, 0, 0, 0] 1 = 1"
    by (simp_all add: v6_with_v4_def v6_of_octets_def v4_octets_def be_bytes_4)
  with ps(1) assms have "v \<noteq> 0" "v \<noteq> 1" unfolding native_v6_def by metis+
  then show "\<not> v6_is_loopback v" "\<not> v6_is_unspecified v"
    by (simp_all add: v6_is_loopback_def v6_is_unspecified_def)
qed

lemma segment_groups: "unat (v6_segments v ! 0) = group0 v" "unat (v6_segments v ! 1) = group1 v"
proof -
  have w: "be_words (Suc (Suc 6)) n ! 0 = of_nat (n div 65536 ^ Suc 6)" "be_words (Suc (Suc 6)) n ! 1 = of_nat (n div 65536 ^ 6)" for n
    by (simp_all only: be_words.simps nth_Cons_0 nth_Cons_Suc One_nat_def)
  have e: "(8 :: nat) = Suc (Suc 6)" by simp
  have "unat v < 2 ^ 128" using unsigned_less [of v] by simp
  then have top: "unat v div 2 ^ 112 < 2 ^ 16" by (simp add: less_mult_imp_div_less)
  have p: "(65536 :: nat) ^ Suc 6 = 2 ^ 112" "(65536 :: nat) ^ 6 = 2 ^ 96" by simp_all
  show "unat (v6_segments v ! 0) = group0 v"
    unfolding v6_segments_def e w p group0_def using top by (simp add: unat_of_nat)
  show "unat (v6_segments v ! 1) = group1 v"
    unfolding v6_segments_def e w p group1_def by (simp add: unat_of_nat)
qed

lemma u16_ranges:
  fixes s :: u16
  shows "s AND 0xffc0 = 0xfe80 \<longleftrightarrow> 0xFE80 \<le> unat s \<and> unat s \<le> 0xFEBF"
    "s AND 0xfe00 = 0xfc00 \<longleftrightarrow> 0xFC00 \<le> unat s \<and> unat s \<le> 0xFDFF"
    "s AND 0xff00 = 0xff00 \<longleftrightarrow> 0xFF00 \<le> unat s \<and> unat s \<le> 0xFFFF"
    "s AND 0xff00 = 0x2000 \<longleftrightarrow> 0x2000 \<le> unat s \<and> unat s \<le> 0x20FF"
proof -
  have m: "(0xffc0 :: u16) = NOT (mask 6)" "(0xfe00 :: u16) = NOT (mask 9)" "(0xff00 :: u16) = NOT (mask 8)"
    by (simp_all add: mask_eq_exp_minus_1)
  show "s AND 0xffc0 = 0xfe80 \<longleftrightarrow> 0xFE80 \<le> unat s \<and> unat s \<le> 0xFEBF"
    unfolding m by (subst masked_range) (simp_all add: mask_eq_exp_minus_1 word_le_nat_alt)
  show "s AND 0xfe00 = 0xfc00 \<longleftrightarrow> 0xFC00 \<le> unat s \<and> unat s \<le> 0xFDFF"
    unfolding m by (subst masked_range) (simp_all add: mask_eq_exp_minus_1 word_le_nat_alt)
  have "s AND NOT (mask 8) = 0xff00 \<longleftrightarrow> 0xFF00 \<le> unat s \<and> unat s \<le> 0xFFFF"
    by (subst masked_range) (simp_all add: mask_eq_exp_minus_1 word_le_nat_alt)
  then show "s AND 0xff00 = 0xff00 \<longleftrightarrow> 0xFF00 \<le> unat s \<and> unat s \<le> 0xFFFF"
    by (simp only: m(3) [symmetric])
  show "s AND 0xff00 = 0x2000 \<longleftrightarrow> 0x2000 \<le> unat s \<and> unat s \<le> 0x20FF"
    unfolding m by (subst masked_range) (simp_all add: mask_eq_exp_minus_1 word_le_nat_alt)
qed

lemma classify_native:
  assumes "native_v6 v"
  shows "classify_blocked_ip (IpV6 v) = None \<longleftrightarrow>
    \<not> ((\<exists>(lo, hi) \<in> set blocked_v6_groups. lo \<le> group0 v \<and> group0 v \<le> hi) \<or>
       (0x2000 \<le> group0 v \<and> group0 v \<le> 0x20FF \<and> group1 v = 0xDB8))"
proof -
  note n = native_v6_carries_none [OF assms]
  have db8: "v6_segments v ! 1 = 0x0db8 \<longleftrightarrow> group1 v = 0xDB8"
    unfolding segment_groups(2) [symmetric] by (simp add: word_unat_eq_iff)
  show ?thesis
    by (simp add: classify_blocked_ip_def n Let_def u16_ranges segment_groups db8 [simplified] blocked_v6_groups_def)
qed

section \<open>Facts about connecting\<close>

definition reached :: "'s dialer \<Rightarrow> sock_addr \<Rightarrow> 's \<Rightarrow> bool" where
  "reached dial c s \<longleftrightarrow> (\<exists>t d. dial t c = (d, Inr s))"

lemma dial_candidate_facts:
  "dial_candidate dial t c b = (f, r) \<Longrightarrow>
    t \<le> f \<and> f \<le> t + b \<and> (\<forall>s. r = Inr s \<longrightarrow> reached dial c s)"
  by (cases "dial t c"; cases "snd (dial t c)")
     (auto simp: dial_candidate_def reached_def split: if_splits)

lemma race_facts:
  assumes "race_candidates dial tie t0 c0 c1 = (tried, f, r)"
  shows "set tried \<subseteq> {c0, c1} \<and> t0 \<le> f \<and> f \<le> t0 + 15000 \<and>
    (\<forall>s. r = Inr s \<longrightarrow> (\<exists>c\<in>set tried. reached dial c s)) \<and> (\<forall>e. r = Inl e \<longrightarrow> tried = [c0, c1])"
proof -
  obtain f0 r0 f1 r1 where d: "dial_candidate dial t0 c0 15000 = (f0, r0)"
    "dial_candidate dial (t0 + 250) c1 14750 = (f1, r1)" by fastforce
  note fs = dial_candidate_facts [OF d(1)] dial_candidate_facts [OF d(2)]
  show ?thesis
  proof (cases "f0 < f1 \<or> f0 = f1 \<and> tie")
    case True
    then have "(case r0 of Inr s \<Rightarrow> (if f0 < t0 + 250 then [c0] else [c0, c1], f0, Inr s)
        | Inl e \<Rightarrow> ([c0, c1], f1, r1)) = (tried, f, r)"
      using assms d by (cases r0) (auto simp: race_candidates_def connect_consts)
    with fs show ?thesis by (cases r0) (auto split: if_splits)
  next
    case False
    then have "(case r1 of Inr s \<Rightarrow> ([c0, c1], f1, Inr s) | Inl e \<Rightarrow> ([c0, c1], f0, r0)) = (tried, f, r)"
      using assms d False by (cases r1) (auto simp: race_candidates_def connect_consts split: if_splits)
    with fs show ?thesis by (cases r1) auto
  qed
qed

lemma serial_facts:
  assumes "serial_candidates dial t0 now cs le = (tried, f, r)" "t0 \<le> now" "now \<le> t0 + 15000"
  shows "prefix tried cs \<and> t0 \<le> f \<and> f \<le> t0 + 15000 \<and>
    (\<forall>s. r = Inr s \<longrightarrow> (\<exists>c\<in>set tried. reached dial c s)) \<and>
    (\<forall>e. r = Inl e \<longrightarrow> tried = cs \<or> t0 + 14500 < f)"
  using assms
proof (induction cs arbitrary: now le tried f r)
  case (Cons c cs)
  show ?case
  proof (cases "15000 - (now - t0) < 500")
    case True
    then show ?thesis using Cons.prems by (auto simp: connect_consts)
  next
    case False
    obtain f1 r1 where d: "dial_candidate dial now c (15000 - (now - t0)) = (f1, r1)" by fastforce
    note fs = dial_candidate_facts [OF d]
    show ?thesis
    proof (cases r1)
      case (Inr s)
      then show ?thesis using Cons.prems False d fs by (auto simp: connect_consts)
    next
      case (Inl e)
      obtain tr f2 r2 where rec: "serial_candidates dial t0 f1 cs (Some e) = (tr, f2, r2)"
        by (metis prod_cases3)
      have "tried = c # tr" "f = f2" "r = r2"
        using Cons.prems(1) False d Inl rec by (auto simp: connect_consts)
      moreover have "t0 \<le> f1" "f1 \<le> t0 + 15000" using fs Cons.prems(2,3) by linarith+
      ultimately show ?thesis using Cons.IH [OF rec] by auto
    qed
  qed
qed simp

lemma connect_candidates_facts:
  assumes "connect_candidates dial tie t0 cs = (tried, f, r)"
  shows "set tried \<subseteq> set cs \<and> t0 \<le> f \<and> f \<le> t0 + 15000 \<and>
    (\<forall>s. r = Inr s \<longrightarrow> (\<exists>c\<in>set tried. reached dial c s)) \<and>
    (\<forall>x. r = Inl x \<longrightarrow> fst x = ERR_TARGET_CONNECT \<and> (tried = cs \<or> t0 + 14500 < f))"
proof (cases "length cs \<ge> 2")
  case True
  then obtain c0 c1 rest where cs: "cs = c0 # c1 # rest"
    by (metis Suc_le_length_iff numeral_2_eq_2)
  obtain tr1 f1 r1 where race: "race_candidates dial tie t0 c0 c1 = (tr1, f1, r1)" by (metis prod_cases3)
  note rf = race_facts [OF race]
  show ?thesis
  proof (cases r1)
    case (Inr s)
    then show ?thesis using assms rf by (auto simp: connect_candidates_def cs race)
  next
    case (Inl e)
    obtain tr2 f2 r2 where ser: "serial_candidates dial t0 f1 rest (Some e) = (tr2, f2, r2)"
      by (metis prod_cases3)
    have eq: "tried = tr1 @ tr2" "f = f2" "tr1 = [c0, c1]"
      "r = (case r2 of Inr s \<Rightarrow> Inr s | Inl e \<Rightarrow> Inl (ERR_TARGET_CONNECT,
             case e of Some e \<Rightarrow> e | None \<Rightarrow> TargetUnreachable ''Timeout connecting''))"
      using assms rf Inl by (simp_all add: connect_candidates_def cs race ser)
    have "t0 \<le> f1" "f1 \<le> t0 + 15000" using rf by simp_all
    from serial_facts [OF ser this] show ?thesis
      by (cases r2) (auto simp: eq cs dest: set_mono_prefix)
  qed
next
  case False
  then have "\<And>c0 c1 rest. cs \<noteq> c0 # c1 # rest" by auto
  moreover obtain tr2 f2 r2 where ser: "serial_candidates dial t0 t0 cs None = (tr2, f2, r2)"
    by (metis prod_cases3)
  ultimately have eq: "tried = tr2" "f = f2"
      "r = (case r2 of Inr s \<Rightarrow> Inr s | Inl e \<Rightarrow> Inl (ERR_TARGET_CONNECT,
             case e of Some e \<Rightarrow> e | None \<Rightarrow> TargetUnreachable ''Timeout connecting''))"
    using assms by (auto simp: connect_candidates_def split: list.splits)
  from serial_facts [OF ser] show ?thesis
    by (cases r2) (auto simp: eq dest: set_mono_prefix)
qed

lemma filter_candidates_cases:
  "filter_candidates allowed cs = Inr ds \<Longrightarrow>
    ds = filter (\<lambda>a. allowed \<or> classify_blocked_ip (sock_ip a) = None) cs"
  "filter_candidates allowed cs = Inl x \<Longrightarrow> fst x = ERR_TARGET_CONNECT \<and>
    filter (\<lambda>a. allowed \<or> classify_blocked_ip (sock_ip a) = None) cs = []"
  by (auto simp: filter_candidates_def Let_def split: if_splits)

section \<open>Facts about the candidates\<close>

lemma retain_first_facts:
  "distinct (retain_first seen as) \<and> set (retain_first seen as) = set as - set seen"
  by (induction as arbitrary: seen) auto

lemma retain_first_sorted: "sorted_wrt P as \<Longrightarrow> sorted_wrt P (retain_first seen as)"
  by (induction as arbitrary: seen) (auto simp: retain_first_facts)

lemma retain_first_cong:
  "\<forall>x\<in>set xs. x \<in> set s1 \<longleftrightarrow> x \<in> set s2 \<Longrightarrow> retain_first s1 xs = retain_first s2 xs"
  by (induction xs arbitrary: s1 s2) auto

lemma retain_first_append:
  "set xs \<inter> set ys = {} \<Longrightarrow> retain_first seen (xs @ ys) = retain_first seen xs @ retain_first seen ys"
proof (induction xs arbitrary: seen)
  case (Cons x xs)
  have "retain_first (x # seen) ys = retain_first seen ys"
    using Cons.prems by (intro retain_first_cong) auto
  with Cons show ?case by simp
qed simp

lemma sort_by_partition:
  "sort_by (\<lambda>a b. P a \<or> \<not> P b) xs = filter P xs @ filter (\<lambda>x. \<not> P x) xs"
proof (induction xs)
  case (Cons x xs)
  have "insert_by (\<lambda>a b. P a \<or> \<not> P b) x (filter P xs @ filter (\<lambda>x. \<not> P x) xs) =
      filter P (x # xs) @ filter (\<lambda>x. \<not> P x) (x # xs)"
  proof (cases "P x")
    case True
    then show ?thesis by (cases "filter P xs @ filter (\<lambda>x. \<not> P x) xs") auto
  next
    case False
    have "insert_by (\<lambda>a b. P a \<or> \<not> P b) x (filter P xs @ ys) = filter P xs @ insert_by (\<lambda>a b. P a \<or> \<not> P b) x ys" for ys
      using False by (induction xs) auto
    moreover have "insert_by (\<lambda>a b. P a \<or> \<not> P b) x (filter (\<lambda>x. \<not> P x) xs) = x # filter (\<lambda>x. \<not> P x) xs"
      by (induction xs) auto
    ultimately show ?thesis using False by simp
  qed
  with Cons show ?case by (simp add: sort_by_def)
qed (simp add: sort_by_def)

lemma partition_sorted: "sorted_wrt (\<lambda>a b. P a \<or> \<not> P b) (filter P xs @ filter (\<lambda>x. \<not> P x) xs)"
proof -
  have "sorted_wrt (\<lambda>a b. P a \<or> \<not> P b) (filter P xs)"
    "sorted_wrt (\<lambda>a b. P a \<or> \<not> P b) (filter (\<lambda>x. \<not> P x) xs)"
    by (induction xs) auto
  then show ?thesis by (auto simp: sorted_wrt_append)
qed

lemma order_candidates_eq:
  "order_candidates as = retain_first [] (filter sock_is_ipv4 as @ filter (\<lambda>a. \<not> sock_is_ipv4 a) as)"
  by (simp add: order_candidates_def sort_by_partition)

lemma set_order_candidates [simp]: "set (order_candidates as) = set as"
  by (auto simp: order_candidates_eq retain_first_facts)

lemma order_candidates_Nil [simp]: "order_candidates as = [] \<longleftrightarrow> as = []"
  by (metis set_empty set_order_candidates)

definition candidates_of :: "string \<Rightarrow> sock_addr list option \<Rightarrow> sock_addr list" where
  "candidates_of target cached =
    (case parse_sock_addr target of
       Some a \<Rightarrow> [a]
     | None \<Rightarrow> (case cached of Some as \<Rightarrow> order_candidates as | None \<Rightarrow> []))"

lemma resolve_candidates_iff:
  "resolve_candidates target cached =
    (if candidates_of target cached = [] then Inl (ERR_DNS_FAIL, ConnectionError ''DNS resolution failed'')
     else Inr (candidates_of target cached))"
  by (auto simp: resolve_candidates_def candidates_of_def Let_def split: option.splits)

section \<open>Properties\<close>

text \<open>
  C23: the filter refuses exactly the listed IPv4 blocks; an IPv6 address that carries an
  IPv4 address (mapped, translated, compatible, which includes \<open>::\<close> and \<open>::1\<close>, or NAT64) is refused
  exactly when the carried address is; and of the other IPv6 addresses exactly link-local fe80::/10,
  unique local fc00::/7, multicast ff00::/8 and, where the documentation lists 2001:db8::/32,
  20xx:db8::/32 for every xx.
\<close>

theorem ssrf_filter_blocks:
  "(classify_blocked_ip (IpV4 a) = None \<longleftrightarrow>
      \<not> (\<exists>(lo, hi) \<in> set blocked_v4_ranges. lo \<le> unat a \<and> unat a \<le> hi)) \<and>
   list_all (\<lambda>p. classify_blocked_ip (IpV6 (v6_with_v4 p a)) = None \<longleftrightarrow>
      classify_blocked_ip (IpV4 a) = None) v4_prefixes \<and>
   (native_v6 v \<longrightarrow>
     (classify_blocked_ip (IpV6 v) = None \<longleftrightarrow>
      \<not> ((\<exists>(lo, hi) \<in> set blocked_v6_groups. lo \<le> group0 v \<and> group0 v \<le> hi) \<or>
         (0x2000 \<le> group0 v \<and> group0 v \<le> 0x20FF \<and> group1 v = 0xDB8))))"
proof -
  have "classify_blocked_ip (IpV4 b) = classify_blocked_v4 b" for b
    by (simp add: classify_blocked_ip_def)
  then show ?thesis using classify_native [of v] by (simp add: classify_v4_None classify_embedded list_all_iff)
qed

text \<open>fe80::1 carries no address and is refused.\<close>

lemma demo_native: "native_v6 0xFE800000000000000000000000000001"
proof -
  have "group0 (v6_with_v4 p a) = unat (be_u16 [p ! 0, p ! 1])" if "length p = 12" for p a
  proof -
    obtain w x y z where o: "v4_octets a = [w, x, y, z]" using four_octets by blast
    have "v6_segments (v6_with_v4 p a) ! 0 = be_u16 [p ! 0, p ! 1]"
      using classify_v6_octets(2) [OF that o] that by (cases p; cases "tl p") auto
    then show ?thesis using segment_groups(1) by metis
  qed
  then have "group0 (v6_with_v4 p a) \<le> 0x64" if "p \<in> set v4_prefixes" for p a
    using that by (auto simp: v4_prefixes_def numeral_eq_Suc be_u16_const)
  moreover have "group0 0xFE800000000000000000000000000001 = 0xFE80" by (simp add: group0_def)
  ultimately have big: "group0 0xFE800000000000000000000000000001 = 0xFE80"
    and small: "\<And>p a. p \<in> set v4_prefixes \<Longrightarrow> group0 (v6_with_v4 p a) \<le> 0x64" by blast+
  show ?thesis unfolding native_v6_def
  proof (intro ballI allI notI)
    fix p a assume "p \<in> set v4_prefixes" "0xFE800000000000000000000000000001 = v6_with_v4 p a"
    then have "(0xFE80 :: nat) \<le> 0x64" using small [of p a] big by simp
    then show False by simp
  qed
qed

theorem ssrf_filter_blocks_witness:
  "native_v6 0xFE800000000000000000000000000001 \<and>
   classify_blocked_ip (IpV6 0xFE800000000000000000000000000001) \<noteq> None"
proof -
  have "group0 0xFE800000000000000000000000000001 = 0xFE80" by (simp add: group0_def)
  then show ?thesis using ssrf_filter_blocks [of 0 "0xFE800000000000000000000000000001"] demo_native
    by (simp add: blocked_v6_groups_def)
qed

text \<open>
  C4: whatever the resolver answers and however the attempts go, the node attempts to connect
  only to addresses the target stands for and the filter lets through, the stream it returns
  was given by one of these attempts, and from the end of the lookup it takes at most fifteen
  seconds.
\<close>

theorem connects_only_to_allowed:
  assumes "resolve_and_connect allowed answer dial tie now target = (tried, fin, r)"
  shows "(\<forall>a\<in>set tried. (allowed \<or> classify_blocked_ip (sock_ip a) = None) \<and>
       (case parse_sock_addr target of
          Some b \<Rightarrow> a = b | None \<Rightarrow> \<exists>as. snd answer = Some as \<and> a \<in> set as)) \<and>
    (\<forall>s. r = Inr s \<longrightarrow> (\<exists>a\<in>set tried. reached dial a s)) \<and> connect_start target answer now \<le> fin \<and>
    fin \<le> connect_start target answer now + 15000"
proof (cases "candidates_of target (snd answer) = []")
  case True
  then show ?thesis using assms by (auto simp: resolve_and_connect_def Let_def resolve_candidates_iff)
next
  case False
  let ?cs = "candidates_of target (snd answer)"
  have mem: "a \<in> set ?cs \<Longrightarrow> (case parse_sock_addr target of
          Some b \<Rightarrow> a = b | None \<Rightarrow> \<exists>as. snd answer = Some as \<and> a \<in> set as)" for a
    by (cases "snd answer") (auto simp: candidates_of_def split: option.splits)
  show ?thesis
  proof (cases "filter_candidates allowed ?cs")
    case (Inl x)
    then show ?thesis
      using assms False by (auto simp: resolve_and_connect_def Let_def resolve_candidates_iff)
  next
    case (Inr ds)
    have "connect_candidates dial tie (connect_start target answer now) ds = (tried, fin, r)"
      using assms False Inr by (simp add: resolve_and_connect_def Let_def resolve_candidates_iff)
    from connect_candidates_facts [OF this] filter_candidates_cases(1) [OF Inr] mem show ?thesis
      by fastforce
  qed
qed

theorem connects_only_to_allowed_witness:
  "\<exists>tried fin r. resolve_and_connect False (0, Some [SockV4 0x7F000001 80, SockV4 0x08080808 80])
       (\<lambda>t a. (10, Inr a)) True 0 ''example.org:80'' = (tried, fin, r) \<and>
     SockV4 0x7F000001 80 \<notin> set tried \<and> fin \<le> 15000"
proof -
  obtain tried fin r where e: "resolve_and_connect False (0, Some [SockV4 0x7F000001 80, SockV4 0x08080808 80])
       (\<lambda>t a. (10, Inr a)) True 0 ''example.org:80'' = (tried, fin, r)" by (metis prod_cases3)
  have "classify_blocked_ip (IpV4 0x7F000001) \<noteq> None"
    by (simp add: classify_blocked_ip_def classify_v4_None blocked_v4_ranges_def)
  then have "SockV4 0x7F000001 80 \<notin> set tried" using connects_only_to_allowed [OF e] by force
  moreover have "fin \<le> 15000" using connects_only_to_allowed [OF e] by (simp add: connect_start_def split: option.splits)
  ultimately show ?thesis using e by blast
qed

text \<open>
  C24: a failure is honest. The resolution error is reported exactly when the target is not
  an address and no address is known for it; every other failure is the connection error,
  and then every candidate the filter lets through was tried, unless the attempts had used
  up all but half a second of the budget.
\<close>

theorem connect_failure_exhaustive:
  assumes "resolve_and_connect allowed answer dial tie now target = (tried, fin, Inl (code, e))"
  shows "(code = ERR_DNS_FAIL \<longleftrightarrow> parse_sock_addr target = None \<and> (snd answer = None \<or> snd answer = Some [])) \<and>
    (code = ERR_DNS_FAIL \<or> code = ERR_TARGET_CONNECT) \<and>
    (code = ERR_TARGET_CONNECT \<longrightarrow>
       tried = filter (\<lambda>a. allowed \<or> classify_blocked_ip (sock_ip a) = None) (candidates_of target (snd answer)) \<or>
       connect_start target answer now + 14500 < fin)"
proof -
  have ne: "ERR_DNS_FAIL \<noteq> ERR_TARGET_CONNECT" by (simp add: ERR_DNS_FAIL_def ERR_TARGET_CONNECT_def)
  have nil: "candidates_of target (snd answer) = [] \<longleftrightarrow>
      parse_sock_addr target = None \<and> (snd answer = None \<or> snd answer = Some [])"
    by (auto simp: candidates_of_def split: option.splits)
  show ?thesis
  proof (cases "candidates_of target (snd answer) = []")
    case True
    then show ?thesis using assms ne nil by (auto simp: resolve_and_connect_def Let_def resolve_candidates_iff)
  next
    case False
    show ?thesis
    proof (cases "filter_candidates allowed (candidates_of target (snd answer))")
      case (Inl x)
      then have "x = (code, e)" "tried = []"
        using assms False by (auto simp: resolve_and_connect_def Let_def resolve_candidates_iff)
      then show ?thesis using filter_candidates_cases(2) [OF Inl] False ne nil by auto
    next
      case (Inr ds)
      have "connect_candidates dial tie (connect_start target answer now) ds = (tried, fin, Inl (code, e))"
        using assms False Inr by (simp add: resolve_and_connect_def Let_def resolve_candidates_iff)
      from connect_candidates_facts [OF this] filter_candidates_cases(1) [OF Inr] False ne nil
      show ?thesis by auto
    qed
  qed
qed

theorem connect_failure_exhaustive_witness:
  "resolve_and_connect False (0, Some [SockV4 0x7F000001 80]) (\<lambda>t a. (10, Inr ())) True 0 (show_sock (SockV4 0x7F000001 80)) =
     ([], 0, Inl (ERR_TARGET_CONNECT, ConnectionError ''Target blocked: loopback'')) \<and>
   filter (\<lambda>a. False \<or> classify_blocked_ip (sock_ip a) = None)
     (candidates_of (show_sock (SockV4 0x7F000001 80)) (Some [SockV4 0x7F000001 80])) = []"
proof -
  have p: "parse_sock_addr (show_sock (SockV4 0x7F000001 80)) = Some (SockV4 0x7F000001 80)"
    by (rule parse_sock_addr_show_v4)
  have c: "classify_blocked_v4 0x7F000001 = Some ''loopback''"
  proof -
    have "v4_octets 0x7F000001 ! 0 = 127" by (simp add: octet_range)
    then show ?thesis by (simp add: classify_blocked_v4_def v4_is_loopback_def Let_def)
  qed
  have e: "resolve_and_connect False (0, Some [SockV4 0x7F000001 80]) (\<lambda>t a. (10, Inr ())) True 0 (show_sock (SockV4 0x7F000001 80)) =
     ([], 0, Inl (ERR_TARGET_CONNECT, ConnectionError ''Target blocked: loopback''))"
    by (simp del: show_sock.simps add: resolve_and_connect_def Let_def resolve_candidates_def p filter_candidates_def connect_start_def
        classify_blocked_ip_def c map_filter_simps)
  from connect_failure_exhaustive [OF e] e show ?thesis by (simp del: show_sock.simps)
qed

text \<open>
  the candidates are the resolved addresses without repetition, IPv4 before IPv6, each
  family in the order of the resolver (the first occurrence counting).
\<close>

theorem order_candidates_correct:
  "set (order_candidates as) = set as \<and> distinct (order_candidates as) \<and>
   sorted_wrt (\<lambda>a b. sock_is_ipv4 a \<or> \<not> sock_is_ipv4 b) (order_candidates as) \<and>
   order_candidates as = retain_first [] (filter sock_is_ipv4 as) @
      retain_first [] (filter (\<lambda>a. \<not> sock_is_ipv4 a) as)"
proof -
  have "sorted_wrt (\<lambda>a b. sock_is_ipv4 a \<or> \<not> sock_is_ipv4 b) (filter sock_is_ipv4 as @ filter (\<lambda>a. \<not> sock_is_ipv4 a) as)"
    by (rule partition_sorted)
  then show ?thesis
    by (auto simp: order_candidates_eq retain_first_facts retain_first_sorted intro!: retain_first_append)
qed

end
