(* ===== verification/DnsAaaa.thy ===== *)
theory DnsAaaa
  imports NetAddr
begin

text \<open>
  \<open>hydra-node/src/dns_aaaa.rs\<close>: the local answer to AAAA queries on nodes without an IPv6
  route. The environment variable and the outcome of the routing probe (\<open>connect\<close> on an
  unbound socket) are arguments; the process-wide \<open>OnceLock\<close> caches of both are left out,
  their values do not change while the arguments do not.
\<close>

definition QTYPE_AAAA :: u16 where "QTYPE_AAAA = 28"
definition QCLASS_IN :: u16 where "QCLASS_IN = 1"
definition DNS_HEADER_LEN :: nat where "DNS_HEADER_LEN = 12"

lemmas dns_header_consts = QTYPE_AAAA_def QCLASS_IN_def DNS_HEADER_LEN_def

text \<open>\<open>route\<close> tells whether binding a socket and connecting it to an address succeeds.\<close>

definition has_v6_route :: "(sock_addr \<Rightarrow> bool) \<Rightarrow> bool" where
  "has_v6_route route =
    (case parse_sock_addr ''2001:4860:4860::8888:53'' of
       Some probe \<Rightarrow> route probe
     | None \<Rightarrow> False)"

definition aaaa_filter_enabled :: "string option \<Rightarrow> (sock_addr \<Rightarrow> bool) \<Rightarrow> bool" where
  "aaaa_filter_enabled env route =
    (case env of
       Some v \<Rightarrow>
         if trim v = ''0'' then False
         else if trim v = ''1'' then True
         else \<not> has_v6_route route
     | None \<Rightarrow> \<not> has_v6_route route)"

definition target_port :: "string \<Rightarrow> u16 option" where
  "target_port target = Option.bind (rsplit_once (CHR '':'') target) (\<lambda>(_, p). parse_u16 p)"

text \<open>The loop over the labels of the name: the offset after the name, or \<open>None\<close> where
  the message ends inside it.\<close>

function skip_qname :: "byte list \<Rightarrow> nat \<Rightarrow> nat option" where
  "skip_qname msg off =
    (if length msg \<le> off then None
     else let len = msg ! off in
       if len AND 0xC0 = 0xC0 then Some (off + 2)
       else if len = 0 then Some (off + 1)
       else skip_qname msg (off + 1 + unat len))"
  by pat_completeness auto
termination by (relation "measure (\<lambda>(msg, off). length msg - off)") auto

declare skip_qname.simps [simp del]

definition aaaa_query_question_end :: "byte list \<Rightarrow> nat option" where
  "aaaa_query_question_end msg =
    (if length msg < DNS_HEADER_LEN then None
     else let flags = be_u16 [msg ! 2, msg ! 3] in
       if flags AND 0x8000 \<noteq> 0 then None
       else if flags AND 0x7800 \<noteq> 0 then None
       else if be_u16 [msg ! 4, msg ! 5] \<noteq> 1 then None
       else (case skip_qname msg DNS_HEADER_LEN of
          None \<Rightarrow> None
        | Some off \<Rightarrow>
            if length msg < off + 4 then None
            else let qtail = take 4 (drop off msg);
                     qtype = be_u16 [qtail ! 0, qtail ! 1];
                     qclass = be_u16 [qtail ! 2, qtail ! 3] in
              if qtype \<noteq> QTYPE_AAAA \<or> qclass \<noteq> QCLASS_IN then None
              else Some (off + 4)))"

definition synthesize_nodata :: "byte list \<Rightarrow> nat \<Rightarrow> byte list" where
  "synthesize_nodata query q_end =
    (let out = take (min q_end (length query)) query in
     if DNS_HEADER_LEN \<le> length out then
       let o1 = out[2 := (out ! 2 AND 0x79) OR 0x80];
           o2 = o1[3 := 0x80] in
       take 6 o2 @ replicate 6 0 @ drop DNS_HEADER_LEN o2
     else out)"

section \<open>Queries as the standard encodes them\<close>

definition encode_label :: "byte list \<Rightarrow> byte list" where
  "encode_label l = of_nat (length l) # l"

definition encode_qname :: "byte list list \<Rightarrow> byte list" where
  "encode_qname ls = concat (map encode_label ls) @ [0]"

definition label_ok :: "byte list \<Rightarrow> bool" where
  "label_ok l \<longleftrightarrow> 1 \<le> length l \<and> length l \<le> 63"

text \<open>A message with one question: identifier, flags, counts, the question, and whatever
  follows (additional records).\<close>

definition one_question :: "u16 \<Rightarrow> byte \<Rightarrow> byte \<Rightarrow> byte list \<Rightarrow> byte list list \<Rightarrow> u16 \<Rightarrow> u16 \<Rightarrow> byte list \<Rightarrow> byte list" where
  "one_question ident f2 f3 counts ls qtype qclass rest =
    u16_be ident @ [f2, f3] @ u16_be 1 @ counts @ encode_qname ls @ u16_be qtype @ u16_be qclass @ rest"

lemma small_label: "n \<le> 63 \<Longrightarrow> (of_nat n :: byte) AND 0xC0 = 0"
proof -
  assume "n \<le> 63"
  have "\<forall>m\<in>set [0..<64]. (of_nat m :: byte) AND 0xC0 = 0" by code_simp
  with \<open>n \<le> 63\<close> show ?thesis by auto
qed

lemma skip_qname_encoded:
  assumes "\<forall>l\<in>set ls. label_ok l"
  shows "skip_qname (pre @ encode_qname ls @ rest) (length pre) = Some (length pre + length (encode_qname ls))"
  using assms
proof (induction ls arbitrary: pre)
  case Nil
  then show ?case by (subst skip_qname.simps) (simp add: encode_qname_def nth_append)
next
  case (Cons l ls)
  let ?msg = "pre @ encode_qname (l # ls) @ rest"
  have l: "1 \<le> length l" "length l \<le> 63" using Cons.prems by (auto simp: label_ok_def)
  have at: "?msg ! length pre = of_nat (length l)"
    by (simp add: encode_qname_def encode_label_def nth_append)
  have un: "unat (of_nat (length l) :: byte) = length l"
    using l by (simp add: unat_byte_of_nat)
  have nz: "(of_nat (length l) :: byte) \<noteq> 0" using l un by (metis not_one_le_zero unat_0)
  have "skip_qname ?msg (length pre) = skip_qname ?msg (length pre + 1 + length l)"
    using l by (subst skip_qname.simps) (simp add: at small_label un nz encode_qname_def encode_label_def)
  moreover have "?msg = (pre @ encode_label l) @ encode_qname ls @ rest"
    by (simp add: encode_qname_def)
  moreover have "length (pre @ encode_label l) = length pre + 1 + length l"
    by (simp add: encode_label_def)
  ultimately show ?case
    using Cons.IH [of "pre @ encode_label l"] Cons.prems
    by (simp add: encode_qname_def encode_label_def)
qed

lemma be_u16_and_high: "be_u16 [x, y] AND push_bit 8 (ucast m) = push_bit 8 (ucast (x AND m))"
  unfolding be_u16_pair_eq by (rule bit_word_eqI) (auto simp: bit_simps dest: bit_byte)

lemma push_ucast_0: "(push_bit 8 (ucast (b :: byte)) :: u16) = 0 \<longleftrightarrow> b = 0"
proof
  assume "(push_bit 8 (ucast b) :: u16) = 0"
  then have "\<not> bit (push_bit 8 (ucast b) :: u16) (n + 8)" for n by simp
  then have "\<not> bit b n" for n using bit_byte [of b n] by (auto simp: bit_simps)
  then show "b = 0" by (intro bit_word_eqI) simp
qed simp

lemma be_u16_flags: "be_u16 [x, y] AND 0x8000 = 0 \<longleftrightarrow> x AND 0x80 = 0"
  "be_u16 [x, y] AND 0x7800 = 0 \<longleftrightarrow> x AND 0x78 = 0"
  using be_u16_and_high [of x y "0x80"] be_u16_and_high [of x y "0x78"]
  by (simp_all add: push_ucast_0)

lemma skip_qname_bounds: "skip_qname msg off = Some q \<Longrightarrow> off < q"
proof (induction msg off rule: skip_qname.induct)
  case (1 msg off)
  have "skip_qname msg off = Some q" by (rule 1(2))
  then show ?case
    using 1(1) [OF _ refl] by (auto simp: skip_qname.simps [of msg off] Let_def split: if_splits)
qed

lemma question_end_cases:
  assumes "aaaa_query_question_end msg = Some q"
  obtains off where "skip_qname msg 12 = Some off" "q = off + 4" "q \<le> length msg" "12 < off"
    "12 \<le> length msg" "msg ! 2 AND 0x80 = 0" "msg ! 2 AND 0x78 = 0" "be_u16 [msg ! 4, msg ! 5] = 1"
    "be_u16 [msg ! off, msg ! (off + 1)] = 28" "be_u16 [msg ! (off + 2), msg ! (off + 3)] = 1"
proof -
  have a: "\<not> length msg < 12" using assms by (auto simp: aaaa_query_question_end_def dns_header_consts split: if_splits)
  have b: "msg ! 2 AND 0x80 = 0" "msg ! 2 AND 0x78 = 0" "be_u16 [msg ! 4, msg ! 5] = 1"
    using assms unfolding be_u16_flags [of "msg ! 2" "msg ! 3", symmetric]
    by (auto simp: aaaa_query_question_end_def Let_def split: if_splits)
  then obtain off where off: "skip_qname msg 12 = Some off"
    using assms by (auto simp: aaaa_query_question_end_def Let_def dns_header_consts split: if_splits option.splits)
  have c: "off + 4 \<le> length msg"
    using assms off by (auto simp: aaaa_query_question_end_def Let_def dns_header_consts split: if_splits)
  have d: "be_u16 [msg ! off, msg ! (off + 1)] = 28" "be_u16 [msg ! (off + 2), msg ! (off + 3)] = 1" "q = off + 4"
    using assms off c by (auto simp: aaaa_query_question_end_def Let_def dns_header_consts split: if_splits)
  from a b c d off skip_qname_bounds [OF off] show ?thesis
    by (intro that [of off]) auto
qed

lemma two_bytes: "\<exists>x y. u16_be w = [x, y]"
  by (simp add: u16_be_def numeral_2_eq_2)

lemma take_4_drop:
  assumes "off + 4 \<le> length xs"
  shows "take 4 (drop off xs) = [xs ! off, xs ! (off + 1), xs ! (off + 2), xs ! (off + 3)]"
proof -
  have "drop off xs = xs ! off # xs ! (off + 1) # xs ! (off + 2) # xs ! (off + 3) # drop (off + 4) xs"
    using assms Cons_nth_drop_Suc [of off xs] Cons_nth_drop_Suc [of "off + 1" xs]
      Cons_nth_drop_Suc [of "off + 2" xs] Cons_nth_drop_Suc [of "off + 3" xs]
    by (simp add: eval_nat_numeral)
  then show ?thesis by simp
qed

section \<open>Properties\<close>

text \<open>
  a standard query with one question, whatever its name of labels of up to 63 bytes and
  whatever follows the question, is answered locally exactly when it is a query of class IN
  for AAAA records, and the answer is the same message with QR and RA set, AA, TC and RCODE
  clear, no records, and nothing after the question.
\<close>

theorem aaaa_query_answered:
  assumes "\<forall>l\<in>set ls. label_ok l" "length counts = 6"
  shows "aaaa_query_question_end (one_question ident f2 f3 counts ls qtype qclass rest) =
      (if f2 AND 0x80 = 0 \<and> f2 AND 0x78 = 0 \<and> qtype = 28 \<and> qclass = 1
       then Some (12 + length (encode_qname ls) + 4) else None) \<and>
    synthesize_nodata (one_question ident f2 f3 counts ls qtype qclass rest)
        (12 + length (encode_qname ls) + 4) =
      one_question ident (f2 AND 0x79 OR 0x80) 0x80 (replicate 6 0) ls qtype qclass []"
proof
  obtain i1 i2 where i: "u16_be ident = [i1, i2]"
    using two_bytes [of ident] by blast
  obtain t1 t2 where t: "u16_be qtype = [t1, t2]"
    using two_bytes [of qtype] by blast
  obtain c1 c2 where c: "u16_be qclass = [c1, c2]"
    using two_bytes [of qclass] by blast
  have one: "u16_be 1 = [0, 1]" by (simp add: u16_be_def numeral_2_eq_2)
  obtain k1 k2 k3 k4 k5 k6 where k: "counts = [k1, k2, k3, k4, k5, k6]"
    using assms(2) by (auto simp: length_Suc_conv numeral_eq_Suc)
  define hdr where "hdr = [i1, i2, f2, f3, 0, 1, k1, k2, k3, k4, k5, k6]"
  define qn where "qn = encode_qname ls"
  have m: "one_question ident f2 f3 counts ls qtype qclass rest = hdr @ qn @ [t1, t2, c1, c2] @ rest"
    by (simp add: one_question_def i t c one k qn_def hdr_def)
  have len12 [simp]: "length hdr = 12" by (simp add: hdr_def)
  have sk: "skip_qname (hdr @ qn @ [t1, t2, c1, c2] @ rest) 12 = Some (12 + length qn)"
    using skip_qname_encoded [OF assms(1), of hdr "[t1, t2, c1, c2] @ rest"]
    by (simp only: len12 qn_def append_assoc)
  have tq: "take 4 (drop (12 + length qn) (hdr @ qn @ [t1, t2, c1, c2] @ rest)) = [t1, t2, c1, c2]"
    by simp
  have w: "be_u16 [t1, t2] = qtype" "be_u16 [c1, c2] = qclass" "be_u16 [0, 1] = 1"
    using be_u16_u16_be [of qtype] be_u16_u16_be [of qclass] be_u16_u16_be [of 1] by (simp_all add: t c one)
  show "aaaa_query_question_end (one_question ident f2 f3 counts ls qtype qclass rest) =
      (if f2 AND 0x80 = 0 \<and> f2 AND 0x78 = 0 \<and> qtype = 28 \<and> qclass = 1
       then Some (12 + length (encode_qname ls) + 4) else None)"
    unfolding aaaa_query_question_end_def m dns_header_consts sk Let_def tq option.case
    by (simp add: be_u16_flags w qn_def hdr_def)
  have "take (min (12 + length qn + 4) (length (hdr @ qn @ [t1, t2, c1, c2] @ rest)))
      (hdr @ qn @ [t1, t2, c1, c2] @ rest) = hdr @ qn @ [t1, t2, c1, c2]" by simp
  then show "synthesize_nodata (one_question ident f2 f3 counts ls qtype qclass rest)
        (12 + length (encode_qname ls) + 4) =
      one_question ident (f2 AND 0x79 OR 0x80) 0x80 (replicate 6 0) ls qtype qclass []"
    unfolding synthesize_nodata_def m qn_def [symmetric] Let_def DNS_HEADER_LEN_def
    by (simp add: one_question_def i t c one qn_def hdr_def numeral_eq_Suc)
qed

theorem aaaa_query_answered_witness:
  "aaaa_query_question_end (one_question 0xABCD 1 0 [0, 0, 0, 0, 0, 1] [[119, 119], [97]] 28 1 [0, 0, 41]) = Some 22"
  using aaaa_query_answered [of "[[119, 119], [97]]" "[0, 0, 0, 0, 0, 1]" "0xABCD" 1 0 28 1 "[0, 0, 41]"]
  by (simp add: label_ok_def encode_qname_def encode_label_def)

text \<open>
  on any bytes at all, when a datagram is taken for an AAAA query, its question ends
  inside the datagram and is of type AAAA and class IN, the datagram is a query, and the
  answer keeps its identifier, recursion flag and question, has one question and no records.
\<close>

theorem local_answer_shape:
  assumes "aaaa_query_question_end msg = Some q"
  shows "17 \<le> q \<and> q \<le> length msg \<and> msg ! 2 AND 0xF8 = 0 \<and>
    take 4 (drop (q - 4) msg) = [0, 28, 0, 1] \<and>
    synthesize_nodata msg q =
      take 2 msg @ [msg ! 2 AND 0x79 OR 0x80, 0x80, 0, 1, 0, 0, 0, 0, 0, 0] @ drop 12 (take q msg)"
proof -
  from assms obtain off where o: "skip_qname msg 12 = Some off" "q = off + 4" "q \<le> length msg" "12 < off"
    "12 \<le> length msg" "msg ! 2 AND 0x80 = 0" "msg ! 2 AND 0x78 = 0" "be_u16 [msg ! 4, msg ! 5] = 1"
    "be_u16 [msg ! off, msg ! (off + 1)] = 28" "be_u16 [msg ! (off + 2), msg ! (off + 3)] = 1"
    by (rule question_end_cases)
  have pair: "[x, y] = u16_be w" if "be_u16 [x, y] = w" for x y w
    using u16_be_be_u16 [of "[x, y]"] that by simp
  have b: "u16_be 1 = [0, 1]" "u16_be 28 = [0, 28]" by code_simp+
  have four: "take 4 (drop off msg) = [msg ! off, msg ! (off + 1), msg ! (off + 2), msg ! (off + 3)]"
    using o(2,3) by (intro take_4_drop) simp
  then have "take 4 (drop (q - 4) msg) = [0, 28, 0, 1]"
    using pair [OF o(9)] pair [OF o(10)] o(2) by (simp add: b)
  moreover have "msg ! 2 AND 0xF8 = 0"
  proof -
    have "msg ! 2 AND 0xF8 = (msg ! 2 AND 0x80) OR (msg ! 2 AND 0x78)"
      by (simp flip: bit.conj_disj_distrib)
    then show ?thesis using o(6,7) by simp
  qed
  moreover have "synthesize_nodata msg q =
      take 2 msg @ [msg ! 2 AND 0x79 OR 0x80, 0x80, 0, 1, 0, 0, 0, 0, 0, 0] @ drop 12 (take q msg)"
  proof -
    have "12 \<le> length (take q msg)" using o(2,3,4) by simp
    then obtain h r where h: "take q msg = h @ r" "length h = 12"
      by (metis append_take_drop_id length_take min_absorb2)
    then obtain a0 a1 a2 a3 a4 a5 a6 a7 a8 a9 a10 a11 where
      hh: "h = [a0, a1, a2, a3, a4, a5, a6, a7, a8, a9, a10, a11]"
      by (auto simp: length_Suc_conv numeral_eq_Suc)
    have n: "msg ! i = (h @ r) ! i" if "i < 12" for i
      using that h(1) o(2,4) by (metis less_trans nth_take trans_less_add1)
    have "a4 = 0 \<and> a5 = 1" using pair [OF o(8)] n [of 4] n [of 5] by (simp add: b hh)
    moreover have "take 2 msg = take 2 (take q msg)" using o(2) by (simp add: min_def)
    ultimately show ?thesis
      using n [of 2] o(3)
      unfolding synthesize_nodata_def Let_def DNS_HEADER_LEN_def
      by (simp add: min_absorb1 h(1) hh numeral_eq_Suc)
  qed
  ultimately show ?thesis using o(2,3,4) by simp
qed

theorem local_answer_shape_witness:
  "synthesize_nodata [0xAB, 0xCD, 1, 0, 0, 1, 0, 0, 0, 0, 0, 0, 1, 97, 0, 0, 28, 0, 1, 9, 9] 19 =
    [0xAB, 0xCD, 0x81, 0x80, 0, 1, 0, 0, 0, 0, 0, 0, 1, 97, 0, 0, 28, 0, 1]"
proof -
  have "aaaa_query_question_end [0xAB, 0xCD, 1, 0, 0, 1, 0, 0, 0, 0, 0, 0, 1, 97, 0, 0, 28, 0, 1, 9, 9] = Some 19"
    by code_simp
  from local_answer_shape [OF this] show ?thesis by simp
qed

text \<open>
  the automatic decision never depends on the routes of the node: the probe address is
  written without brackets and does not parse, so the node counts as one without IPv6, and
  the filter is on unless the environment switches it off explicitly.
\<close>

theorem filter_ignores_routes:
  "has_v6_route route = False \<and>
   aaaa_filter_enabled env route = (case env of Some v \<Rightarrow> trim v \<noteq> ''0'' | None \<Rightarrow> True)"
proof -
  have "parse_sock_addr ''2001:4860:4860::8888:53'' = None" by code_simp
  then have "has_v6_route route = False" by (simp add: has_v6_route_def)
  then show ?thesis by (auto simp: aaaa_filter_enabled_def split: option.split)
qed

end
