(* ===== verification/UdpFrame.thy ===== *)
theory UdpFrame
  imports TcpFrame
begin

text \<open>
  \<open>hydra-protocol/src/udp_frame.rs\<close>: the frames that carry UDP sessions over one
  authenticated stream, \<open>[session_id u16][payload_len u16][kind][...]\<close>. Decoding is
  strict (the declared length must be the actual one). The encoder into a caller's
  buffer returns the buffer it leaves beside its result.
\<close>

definition UDP_KIND_DATA :: byte where "UDP_KIND_DATA = 0x00"
definition UDP_KIND_CLOSE :: byte where "UDP_KIND_CLOSE = 0x01"
definition UDP_HEADER_LEN :: nat where "UDP_HEADER_LEN = 4"
definition MAX_DATAGRAM_LEN :: nat where "MAX_DATAGRAM_LEN = 65507"
definition U16_MAX :: nat where "U16_MAX = 65535"

lemmas udp_consts = frame_consts UDP_KIND_DATA_def UDP_KIND_CLOSE_def UDP_HEADER_LEN_def
  MAX_DATAGRAM_LEN_def U16_MAX_def

datatype udp_frame =
    Data (session_id: u16) (target: string) (datagram: "byte list")
  | Close (session_id: u16)

section \<open>Encoding\<close>

definition encode_udp_data :: "u16 \<Rightarrow> string \<Rightarrow> byte list \<Rightarrow> byte list res" where
  "encode_udp_data sid tgt dgram =
    (let addr = as_bytes tgt in
     if addr = [] \<or> length addr > MAX_TARGET_LEN then Inl (ProtocolError ''udp target length'')
     else if length dgram > MAX_DATAGRAM_LEN then Inl (ProtocolError ''udp datagram too long'')
     else let payload_len = 1 + 2 + length addr + length dgram in
       if payload_len > U16_MAX then Inl (ProtocolError ''udp payload too long'')
       else Inr (u16_be sid @ u16_be (of_nat payload_len) @ [UDP_KIND_DATA]
                 @ u16_be (of_nat (length addr)) @ addr @ dgram))"

definition encode_udp_data_into ::
  "byte list \<Rightarrow> u16 \<Rightarrow> string \<Rightarrow> byte list \<Rightarrow> unit res \<times> byte list" where
  "encode_udp_data_into frame sid tgt dgram =
    (let addr = as_bytes tgt in
     if addr = [] \<or> length addr > MAX_TARGET_LEN
     then (Inl (ProtocolError ''udp target length''), frame)
     else if length dgram > MAX_DATAGRAM_LEN
     then (Inl (ProtocolError ''udp datagram too long''), frame)
     else let payload_len = 1 + 2 + length addr + length dgram in
       if payload_len > U16_MAX then (Inl (ProtocolError ''udp payload too long''), frame)
       else let frame = [];
                frame = frame @ u16_be sid;
                frame = frame @ u16_be (of_nat payload_len);
                frame = frame @ [UDP_KIND_DATA];
                frame = frame @ u16_be (of_nat (length addr));
                frame = frame @ addr;
                frame = frame @ dgram
            in (Inr (), frame))"

definition encode_udp_close :: "u16 \<Rightarrow> byte list" where
  "encode_udp_close sid = u16_be sid @ u16_be 1 @ [UDP_KIND_CLOSE]"

text \<open>The encoder of either kind of frame, as its two callers use it.\<close>

fun encode_frame :: "udp_frame \<Rightarrow> byte list res" where
  "encode_frame (Data sid tgt dgram) = encode_udp_data sid tgt dgram"
| "encode_frame (Close sid) = Inr (encode_udp_close sid)"

section \<open>Decoding\<close>

definition decode_udp_frame :: "byte list \<Rightarrow> udp_frame res" where
  "decode_udp_frame buf =
    (if length buf < UDP_HEADER_LEN + 1 then Inl (ProtocolError ''udp frame truncated'')
     else
       let sid = be_u16 [buf ! 0, buf ! 1];
           payload_len = unat (be_u16 [buf ! 2, buf ! 3]);
           payload = drop UDP_HEADER_LEN buf in
       if length payload \<noteq> payload_len then Inl (ProtocolError ''udp payload length'')
       else if payload ! 0 = UDP_KIND_DATA then
         let rest = drop 1 payload in
         if length rest < 2 then Inl (ProtocolError ''udp no target len'')
         else let tlen = unat (be_u16 [rest ! 0, rest ! 1]) in
           if tlen = 0 \<or> tlen > MAX_TARGET_LEN then Inl (ProtocolError ''udp target length'')
           else let total = 2 + tlen in
             if length rest < total then Inl (ProtocolError ''udp target truncated'')
             else (case from_utf8 (take (total - 2) (drop 2 rest)) of
                     None \<Rightarrow> Inl (ProtocolError ''udp target not utf8'')
                   | Some tgt \<Rightarrow>
                       let dgram = drop total rest in
                       if length dgram > MAX_DATAGRAM_LEN
                       then Inl (ProtocolError ''udp datagram too long'')
                       else Inr (Data sid tgt dgram))
       else if payload ! 0 = UDP_KIND_CLOSE then
         if length payload \<noteq> 1 then Inl (ProtocolError ''udp close length'')
         else Inr (Close sid)
       else Inl (ProtocolError ''udp kind''))"

definition read_udp_frame :: "byte list \<Rightarrow> (udp_frame \<times> byte list) res" where
  "read_udp_frame recv =
    bind_res (read_or (ProtocolError ''read udp header'') UDP_HEADER_LEN recv) (\<lambda>(header, recv).
      let payload_len = unat (be_u16 [header ! 2, header ! 3]) in
      bind_res (read_or (ProtocolError ''read udp payload'') payload_len recv) (\<lambda>(payload, recv).
        bind_res (decode_udp_frame (header @ payload)) (\<lambda>f. Inr (f, recv))))"

text \<open>\<open>write_all\<close> then \<open>flush\<close>; each may fail. The bytes are on the stream when the first succeeds.\<close>

definition write_udp_frame :: "bool \<Rightarrow> bool \<Rightarrow> byte list \<Rightarrow> byte list \<Rightarrow> unit res \<times> byte list" where
  "write_udp_frame write_ok flush_ok sent frame =
    (if \<not> write_ok then (Inl (ProtocolError ''write udp frame''), sent)
     else if \<not> flush_ok then (Inl (ProtocolError ''flush udp frame''), sent @ frame)
     else (Inr (), sent @ frame))"

section \<open>Facts about frames\<close>

fun frame_wf :: "udp_frame \<Rightarrow> bool" where
  "frame_wf (Data sid tgt dgram) \<longleftrightarrow> is_str tgt"
| "frame_wf (Close sid) \<longleftrightarrow> True"

lemma encode_udp_data_Inr_iff:
  "encode_udp_data sid t d = Inr b \<longleftrightarrow>
     t \<noteq> [] \<and> length t \<le> 1024 \<and> length d \<le> 65507 \<and> 3 + length t + length d \<le> 65535 \<and>
     b = u16_be sid @ u16_be (of_nat (3 + length t + length d)) @ [0] @
         u16_be (of_nat (length t)) @ as_bytes t @ d"
  by (auto simp: encode_udp_data_def Let_def udp_consts as_bytes_def add.assoc)

lemma u16_be_nth: "[u16_be w ! 0, u16_be w ! Suc 0] = u16_be w"
  by (simp add: u16_be_def numeral_2_eq_2)

lemma u16_be_Cons: "\<exists>a b. u16_be w = [a, b]"
  by (simp add: u16_be_def numeral_2_eq_2)

lemma be_u16_two: "be_u16 lb = be_u16 [lb ! 0, lb ! 1]" if "length lb = 2" for lb
  using that by (cases lb; cases "tl lb") auto

lemma unat_eq_iff1: "Suc 0 = unat (w :: u16) \<longleftrightarrow> w = 1"
  by (metis One_nat_def unat_1 word_unat_eq_iff)

lemma u16_be_be_u16_pair: "u16_be (be_u16 [a, b]) = [a, b]"
  by (simp add: u16_be_be_u16)

text \<open>What follows the kind byte of a data frame, taken apart once.\<close>

definition data_part :: "u16 \<Rightarrow> byte list \<Rightarrow> udp_frame res" where
  "data_part sid rest =
    (case rest of
       x # y # r \<Rightarrow>
         (let tlen = unat (be_u16 [x, y]) in
          if tlen = 0 \<or> tlen > 1024 then Inl (ProtocolError ''udp target length'')
          else if length r < tlen then Inl (ProtocolError ''udp target truncated'')
          else (case from_utf8 (take tlen r) of
                  None \<Rightarrow> Inl (ProtocolError ''udp target not utf8'')
                | Some t \<Rightarrow> if length r - tlen > 65507
                    then Inl (ProtocolError ''udp datagram too long'')
                    else Inr (Data sid t (drop tlen r))))
     | _ \<Rightarrow> Inl (ProtocolError ''udp no target len''))"

lemma decode_Cons:
  "decode_udp_frame (a # b # c # d # k # q) =
    (if Suc (length q) \<noteq> unat (be_u16 [c, d]) then Inl (ProtocolError ''udp payload length'')
     else if k = 0 then data_part (be_u16 [a, b]) q
     else if k = 1 then
       if q \<noteq> [] then Inl (ProtocolError ''udp close length'') else Inr (Close (be_u16 [a, b]))
     else Inl (ProtocolError ''udp kind''))"
proof (cases "k = 0")
  case True
  consider "q = []" | x where "q = [x]" | x y r where "q = x # y # r"
    by (metis neq_Nil_conv)
  then show ?thesis
    using True
    by cases (simp_all add: decode_udp_frame_def udp_consts data_part_def Let_def split: option.splits)
next
  case False
  then show ?thesis by (simp add: decode_udp_frame_def udp_consts Let_def)
qed

lemma data_part_Inr_iff:
  "data_part sid rest = Inr f \<longleftrightarrow>
    (\<exists>t d. f = Data sid t d \<and> is_str t \<and> t \<noteq> [] \<and> length t \<le> 1024 \<and> length d \<le> 65507 \<and>
       rest = u16_be (of_nat (length t)) @ as_bytes t @ d)"
proof
  assume l: "data_part sid rest = Inr f"
  then obtain x y r where rest: "rest = x # y # r"
    by (auto simp: data_part_def split: list.splits)
  let ?n = "unat (be_u16 [x, y])"
  from l obtain t where n: "?n \<noteq> 0" "?n \<le> 1024" "?n \<le> length r" "length r - ?n \<le> 65507"
    and t: "from_utf8 (take ?n r) = Some t" and f: "f = Data sid t (drop ?n r)"
    by (auto simp: data_part_def rest Let_def not_less simp del: unat_eq_zero unat_eq_0
        split: if_splits option.splits)
  from from_utf8_SomeD [OF t] have tb: "as_bytes t = take ?n r" "is_str t" by auto
  then have lt: "length t = ?n" using n by (metis length_as_bytes length_take min.absorb2)
  then have "rest = u16_be (of_nat (length t)) @ as_bytes t @ drop ?n r"
    by (simp add: rest u16_be_be_u16_pair tb)
  moreover have "length (drop ?n r) \<le> 65507" "t \<noteq> []" using n lt by auto
  ultimately show "\<exists>t d. f = Data sid t d \<and> is_str t \<and> t \<noteq> [] \<and> length t \<le> 1024 \<and>
      length d \<le> 65507 \<and> rest = u16_be (of_nat (length t)) @ as_bytes t @ d"
    using f tb n lt by metis
next
  assume "\<exists>t d. f = Data sid t d \<and> is_str t \<and> t \<noteq> [] \<and> length t \<le> 1024 \<and> length d \<le> 65507 \<and>
       rest = u16_be (of_nat (length t)) @ as_bytes t @ d"
  then obtain t d where f: "f = Data sid t d" and t: "is_str t" "t \<noteq> []" "length t \<le> 1024"
    "length d \<le> 65507" and r: "rest = u16_be (of_nat (length t)) @ as_bytes t @ d" by blast
  obtain x y where xy: "u16_be (of_nat (length t)) = [x, y]" using u16_be_Cons by blast
  have "be_u16 [x, y] = of_nat (length t)" by (metis xy be_u16_u16_be)
  then have "unat (be_u16 [x, y]) = length t" using t by simp
  then show "data_part sid rest = Inr f"
    using t by (simp add: data_part_def r xy f)
qed

lemma decode_udp_frame_Inr_iff:
  "decode_udp_frame bs = Inr f \<longleftrightarrow> frame_wf f \<and> encode_frame f = Inr bs"
proof (cases "length bs < 5")
  case True
  then have "\<not> encode_frame f = Inr bs"
    by (cases f) (auto simp: encode_udp_data_Inr_iff encode_udp_close_def)
  then show ?thesis using True by (simp add: decode_udp_frame_def udp_consts)
next
  case False
  then obtain a b c d k q where bs: "bs = a # b # c # d # k # q"
    by (auto simp: not_less numeral_eq_Suc Suc_le_length_iff)
  have hdr: "u16_be sid @ u16_be w @ p = bs \<longleftrightarrow>
      sid = be_u16 [a, b] \<and> w = be_u16 [c, d] \<and> p = k # q" for sid w p
    using u16_be_Cons [of sid] u16_be_Cons [of w]
    by (auto simp: bs u16_be_be_u16_pair) (metis be_u16_u16_be)+
  show ?thesis
  proof (cases f)
    case (Data sid t g)
    have "decode_udp_frame bs = Inr f \<longleftrightarrow>
        Suc (length q) = unat (be_u16 [c, d]) \<and> k = 0 \<and> sid = be_u16 [a, b] \<and>
        data_part sid q = Inr f"
      by (auto simp: bs decode_Cons Data data_part_Inr_iff)
    also have "\<dots> \<longleftrightarrow> frame_wf f \<and> encode_frame f = Inr bs" (is "?L \<longleftrightarrow> ?R")
    proof
      assume l: ?L
      then have q: "q = u16_be (of_nat (length t)) @ as_bytes t @ g" and t: "is_str t"
        "t \<noteq> []" "length t \<le> 1024" "length g \<le> 65507"
        by (auto simp: data_part_Inr_iff Data)
      have n: "3 + length t + length g = unat (be_u16 [c, d])" using l q by simp
      then have w: "of_nat (3 + length t + length g) = be_u16 [c, d]"
        unfolding n by simp
      have "3 + length t + length g \<le> 65535"
        using n unat_u16_less [of "be_u16 [c, d]"] by linarith
      moreover have "bs = u16_be sid @ u16_be (be_u16 [c, d]) @ 0 # q"
        using l by (simp add: bs u16_be_be_u16_pair)
      ultimately show ?R
        using t unfolding Data frame_wf.simps encode_frame.simps encode_udp_data_Inr_iff w
        by (simp add: q)
    next
      assume r: ?R
      then have q: "q = u16_be (of_nat (length t)) @ as_bytes t @ g" and t: "is_str t"
        "t \<noteq> []" "length t \<le> 1024" "length g \<le> 65507" and sid: "sid = be_u16 [a, b]"
        and k: "k = 0" and b: "3 + length t + length g \<le> 65535"
        and w: "of_nat (3 + length t + length g) = be_u16 [c, d]"
        unfolding Data frame_wf.simps encode_frame.simps encode_udp_data_Inr_iff eq_commute [of bs]
        by (simp_all add: hdr del: of_nat_add)
      have "unat (be_u16 [c, d]) = 3 + length t + length g"
        unfolding w [symmetric] using b by (intro unat_u16_of_nat) simp
      with q t sid k show ?L by (auto simp: data_part_Inr_iff Data)
    qed
    finally show ?thesis .
  next
    case (Close sid)
    have "decode_udp_frame bs = Inr f \<longleftrightarrow>
        1 = be_u16 [c, d] \<and> k = 1 \<and> q = [] \<and> sid = be_u16 [a, b]"
      using unat_eq_iff1 [of "be_u16 [c, d]"]
      by (auto simp: bs decode_Cons Close data_part_Inr_iff split: if_splits)
    also have "\<dots> \<longleftrightarrow> encode_udp_close sid = bs"
      by (auto simp: encode_udp_close_def hdr udp_consts)
    finally show ?thesis by (simp add: Close)
  qed
qed

lemma encode_frame_split:
  assumes "encode_frame f = Inr b"
  shows "\<exists>h p. b = h @ p \<and> length h = 4 \<and> length p = unat (be_u16 [h ! 2, h ! 3])"
proof -
  have "\<exists>sid p. b = u16_be sid @ u16_be (of_nat (length p)) @ p \<and> length p < 65536"
  proof (cases f)
    case (Data sid t d)
    let ?p = "0 # u16_be (of_nat (length t)) @ as_bytes t @ d"
    have "b = u16_be sid @ u16_be (of_nat (length ?p)) @ ?p" "length ?p < 65536"
      using assms Data by (auto simp: encode_udp_data_Inr_iff ac_simps)
    then show ?thesis by blast
  next
    case (Close sid)
    then have "b = u16_be sid @ u16_be (of_nat (length [1::byte])) @ [1]"
      using assms by (auto simp: encode_udp_close_def udp_consts)
    moreover have "length [1::byte] < 65536" by simp
    ultimately show ?thesis by blast
  qed
  then obtain sid p where b: "b = u16_be sid @ u16_be (of_nat (length p)) @ p"
    and p: "length p < 65536" by blast
  obtain x y z w where xy: "u16_be sid = [x, y]" and zw: "u16_be (of_nat (length p)) = [z, w]"
    using u16_be_Cons by blast
  have "unat (be_u16 [z, w]) = length p" using p by (metis zw be_u16_u16_be unat_u16_of_nat)
  then show ?thesis
    by (intro exI [of _ "[x, y, z, w]"] exI [of _ p]) (simp add: b xy zw numeral_3_eq_3)
qed

lemma read_encode_frame:
  assumes "frame_wf f" "encode_frame f = Inr b"
  shows "read_udp_frame (b @ r) = Inr (f, r)"
proof -
  obtain h p where b: "b = h @ p" "length h = 4" "length p = unat (be_u16 [h ! 2, h ! 3])"
    using encode_frame_split [OF assms(2)] by blast
  moreover have "decode_udp_frame (h @ p) = Inr f"
    using assms b by (simp add: decode_udp_frame_Inr_iff)
  ultimately show ?thesis
    by (simp add: read_udp_frame_def udp_consts read_or_append Let_def)
qed

lemma encode_read_frame:
  assumes "read_udp_frame bs = Inr (f, r)"
  shows "frame_wf f \<and> (\<exists>b. encode_frame f = Inr b \<and> bs = b @ r)"
  using assms
  by (auto simp: read_udp_frame_def bind_res_Inr read_or_Inr_iff Let_def decode_udp_frame_Inr_iff)

interpretation udp_codec: stream_codec frame_wf encode_frame read_udp_frame
  by unfold_locales (rule read_encode_frame, assumption+, rule encode_read_frame)

section \<open>Properties\<close>

text \<open>
  C20: UDP frames survive the stream. Any sequence of data and close frames
  written back to back is read back frame by frame, whatever follows; and whatever
  sequence of frames the reader returns is the one whose encoding it consumed, byte
  for byte, so the two ends can never fall out of step on a stream that reads.
\<close>

theorem udp_frames_roundtrip:
  "(\<forall>fs b r. list_all frame_wf fs \<and> write_frames encode_frame fs = Inr b \<longrightarrow>
      read_frames (length fs) read_udp_frame (b @ r) = Inr (fs, r)) \<and>
   (\<forall>n bs fs r. read_frames n read_udp_frame bs = Inr (fs, r) \<longrightarrow>
      (\<exists>b. write_frames encode_frame fs = Inr b \<and> bs = b @ r))"
  using udp_codec.read_frames_write_frames udp_codec.write_frames_read_frames
  by blast

theorem udp_frames_roundtrip_witness:
  "\<exists>b. write_frames encode_frame [Data 7 ''h:1'' [1, 2], Close 7] = Inr b \<and>
     read_frames 2 read_udp_frame (b @ [9]) = Inr ([Data 7 ''h:1'' [1, 2], Close 7], [9])"
proof -
  let ?fs = "[Data 7 ''h:1'' [1, 2], Close 7]"
  have s: "list_all frame_wf ?fs"
    by (simp add: is_ascii_is_str is_ascii_def)
  have "is_ok (write_frames encode_frame ?fs)"
    by (simp add: encode_udp_data_def udp_consts as_bytes_def)
  then obtain b where b: "write_frames encode_frame ?fs = Inr b"
    by (cases "write_frames encode_frame ?fs") auto
  from udp_frames_roundtrip s b
  have "read_frames (length ?fs) read_udp_frame (b @ [9]) = Inr (?fs, [9])"
    by blast
  with b show ?thesis by (simp add: numeral_2_eq_2)
qed

text \<open>
  C18: decoding is strict and canonical. \<open>decode_udp_frame\<close> accepts a buffer exactly
  when it is the encoding of a frame within every limit, a data frame (target 1 to 1024 bytes of
  UTF-8, datagram at most 65507 bytes, payload at most 65535 bytes) or a close frame of five
  bytes, and returns that frame: no truncated, padded, oversized or misdeclared buffer decodes,
  and none has two readings.
\<close>

theorem decode_udp_frame_strict:
  "(decode_udp_frame bs = Inr fr) =
     (case fr of
        Data sid t d \<Rightarrow>
          is_str t \<and> t \<noteq> [] \<and> length t \<le> 1024 \<and> length d \<le> 65507 \<and>
          3 + length t + length d \<le> 65535 \<and>
          bs = u16_be sid @ u16_be (of_nat (3 + length t + length d)) @ [0] @
               u16_be (of_nat (length t)) @ as_bytes t @ d
      | Close sid \<Rightarrow> bs = u16_be sid @ u16_be 1 @ [1])"
  by (cases fr)
    (auto simp: decode_udp_frame_Inr_iff encode_udp_data_Inr_iff encode_udp_close_def udp_consts simp del: of_nat_add)

text \<open>
  building a data frame in a reused buffer is the same as building a new one. Whatever
  the buffer held, it ends up as exactly the bytes of \<open>encode_udp_data\<close>; when a limit is
  exceeded the same error comes back and the buffer is left as it was.
\<close>

theorem encode_udp_data_into_equiv:
  "encode_udp_data_into buf sid t d =
     (case encode_udp_data sid t d of
        Inl e \<Rightarrow> (Inl e, buf)
      | Inr b \<Rightarrow> (Inr (), b))"
  by (auto simp: encode_udp_data_into_def encode_udp_data_def Let_def)

end
