(* ===== verification/UdpNodeTable.thy ===== *)
theory UdpNodeTable
  imports Ssrf DnsAaaa UdpFrame
begin

text \<open>
  The parts of \<open>hydra-node/src/udp_relay.rs\<close> below the relay itself: the session table, the
  resolver cache of a connection, its resolution budget, and the resolution of a target. The
  clock is an argument in milliseconds; \<open>now_ms\<close> is the same clock as a 64-bit word. A
  handle's \<open>tx\<close> names the queue of its session task.
\<close>

definition UDP_RELAY_PREFIX :: string where "UDP_RELAY_PREFIX = ''@udp-relay/''"
definition UDP_MAX_SESSIONS :: nat where "UDP_MAX_SESSIONS = 256"
definition UDP_SESSION_IDLE_SECS :: nat where "UDP_SESSION_IDLE_SECS = 60"
definition UDP_CONN_IDLE_SECS :: nat where "UDP_CONN_IDLE_SECS = 300"
definition SESSION_QUEUE_DEPTH :: nat where "SESSION_QUEUE_DEPTH = 16"
definition DNS_TTL :: nat where "DNS_TTL = 60000"
definition DNS_MAX_ENTRIES :: nat where "DNS_MAX_ENTRIES = 128"
definition MAX_PER_SEC :: nat where "MAX_PER_SEC = 10"

lemmas relay_consts = UDP_MAX_SESSIONS_def UDP_SESSION_IDLE_SECS_def UDP_CONN_IDLE_SECS_def
  SESSION_QUEUE_DEPTH_def DNS_TTL_def DNS_MAX_ENTRIES_def MAX_PER_SEC_def

section \<open>The session table\<close>

record session_handle =
  tx :: nat
  last_active_ms :: u64
  h_target :: string

record session_table =
  sessions :: "(u16 \<times> session_handle) list"
  overlimit_drops :: nat

definition table_new :: session_table where
  "table_new = \<lparr> sessions = [], overlimit_drops = 0 \<rparr>"

definition is_full :: "session_table \<Rightarrow> bool" where
  "is_full t \<longleftrightarrow> UDP_MAX_SESSIONS \<le> length (sessions t)"

definition table_insert :: "u16 \<Rightarrow> session_handle \<Rightarrow> session_table \<Rightarrow> session_table option" where
  "table_insert s h t =
    (if is_full t then None else Some (t \<lparr> sessions := AList.update s h (sessions t) \<rparr>))"

definition table_get :: "u16 \<Rightarrow> session_table \<Rightarrow> session_handle option" where
  "table_get s t = map_of (sessions t) s"

definition table_remove :: "u16 \<Rightarrow> session_table \<Rightarrow> session_handle option \<times> session_table" where
  "table_remove s t = (map_of (sessions t) s, t \<lparr> sessions := AList.delete s (sessions t) \<rparr>)"

definition expired_at :: "u64 \<Rightarrow> nat \<Rightarrow> session_handle \<Rightarrow> bool" where
  "expired_at now idle h \<longleftrightarrow> of_nat idle \<le> now - last_active_ms h"

definition reap_expired :: "u64 \<Rightarrow> nat \<Rightarrow> session_table \<Rightarrow> u16 list \<times> session_table" where
  "reap_expired now idle t =
    (let expired = map fst (filter (\<lambda>(_, h). expired_at now idle h) (sessions t)) in
     (expired, t \<lparr> sessions := fold AList.delete expired (sessions t) \<rparr>))"

section \<open>The resolver cache of a connection\<close>

type_synonym udp_dns = "(string \<times> sock_addr \<times> nat) list"

definition udp_dns_get :: "nat \<Rightarrow> string \<Rightarrow> udp_dns \<Rightarrow> sock_addr option \<times> udp_dns" where
  "udp_dns_get now tgt d =
    (let d' = filter (\<lambda>(_, _, t). now - t < DNS_TTL) d in
     (map_option fst (map_of d' tgt), d'))"

definition udp_dns_put :: "nat \<Rightarrow> string \<Rightarrow> sock_addr \<Rightarrow> udp_dns \<Rightarrow> udp_dns" where
  "udp_dns_put now tgt a d =
    AList.update tgt (a, now) (if DNS_MAX_ENTRIES \<le> length d then [] else d)"

section \<open>The resolution budget\<close>

record budget =
  window_start :: nat
  used :: nat

definition budget_new :: "nat \<Rightarrow> budget" where
  "budget_new now = \<lparr> window_start = now, used = 0 \<rparr>"

definition try_take :: "nat \<Rightarrow> budget \<Rightarrow> bool \<times> budget" where
  "try_take now b =
    (let b = (if 1000 \<le> now - window_start b then \<lparr> window_start = now, used = 0 \<rparr> else b) in
     if MAX_PER_SEC \<le> used b then (False, b) else (True, b \<lparr> used := used b + 1 \<rparr>))"

section \<open>Resolving a target\<close>

definition resolve_udp_target :: "bool \<Rightarrow> string \<Rightarrow> lookup \<Rightarrow> sock_addr option" where
  "resolve_udp_target allowed tgt net =
    (case (case parse_sock_addr tgt of
             Some a \<Rightarrow> Some a
           | None \<Rightarrow>
              (case net of
                 LookupTimeout \<Rightarrow> None
               | LookupFailed \<Rightarrow> None
               | Resolved v \<Rightarrow>
                  (case find sock_is_ipv4 v of
                     Some a \<Rightarrow> Some a
                   | None \<Rightarrow> (case v of a # _ \<Rightarrow> Some a | [] \<Rightarrow> None)))) of
       None \<Rightarrow> None
     | Some addr \<Rightarrow>
         if \<not> allowed \<and> classify_blocked_ip (sock_ip addr) \<noteq> None then None
         else Some addr)"

section \<open>Facts\<close>

definition permitted :: "bool \<Rightarrow> sock_addr \<Rightarrow> bool" where
  "permitted allowed a \<longleftrightarrow> allowed \<or> classify_blocked_ip (sock_ip a) = None"

lemma resolve_udp_target_permitted:
  "resolve_udp_target allowed tgt net = Some a \<Longrightarrow> permitted allowed a"
  by (auto simp: resolve_udp_target_def permitted_def split: option.splits if_splits)

lemma fold_delete: "fold AList.delete ks t = filter (\<lambda>p. fst p \<notin> set ks) t"
  by (induction ks arbitrary: t) (auto simp: AList.delete_eq intro!: filter_cong)

lemma expired_keys:
  assumes "table_ok t" "(s, h) \<in> set t"
  shows "s \<in> fst ` set (filter (\<lambda>(_, h). P h) t) \<longleftrightarrow> P h"
  using assms by (force dest: eq_key_imp_eq_value)

lemma reap_expired_eq:
  assumes "table_ok (sessions t)"
  shows "reap_expired now idle t =
    (map fst (filter (\<lambda>(_, h). expired_at now idle h) (sessions t)),
     t \<lparr> sessions := filter (\<lambda>(_, h). \<not> expired_at now idle h) (sessions t) \<rparr>)"
proof -
  have "filter (\<lambda>p. fst p \<notin> set (map fst (filter (\<lambda>(_, h). expired_at now idle h) (sessions t)))) (sessions t)
      = filter (\<lambda>(_, h). \<not> expired_at now idle h) (sessions t)"
    using expired_keys [OF assms, of _ _ "expired_at now idle"]
    by (intro filter_cong) (simp_all only: set_map split_paired_all prod.case fst_conv)
  then show ?thesis by (simp add: reap_expired_def Let_def fold_delete)
qed

lemma expired_at_past:
  assumes "last_active_ms h \<le> now" "idle < 2 ^ 64"
  shows "expired_at now idle h \<longleftrightarrow> unat (last_active_ms h) + idle \<le> unat now"
  using assms unat_sub [OF assms(1)]
  by (auto simp: expired_at_def word_le_nat_alt unat_of_nat)

text \<open>A session stamped after the clock was read counts as idle for almost ever.\<close>

lemma expired_at_future:
  assumes "now < last_active_ms h" "unat (last_active_ms h) - unat now + idle \<le> 2 ^ 64"
  shows "expired_at now idle h"
proof -
  have less: "unat now < unat (last_active_ms h)" using assms(1) by (simp add: word_less_nat_alt)
  have "unat (last_active_ms h) < 2 ^ 64" using unsigned_less [of "last_active_ms h"] by simp
  have "unat (now - last_active_ms h) = 2 ^ 64 + unat now - unat (last_active_ms h)"
    using less by (simp add: unat_sub_if')
  moreover have "unat (of_nat idle :: u64) \<le> idle" by (simp add: unat_of_nat)
  ultimately show ?thesis using assms(2) less by (simp add: expired_at_def word_le_nat_alt)
qed

section \<open>Properties\<close>

text \<open>
  the sweep removes exactly the sessions that count as idle and reports each of them
  once. A session last active at or before the reading of the clock counts as idle exactly
  when it has been so for the whole threshold; one that a session task stamps between the
  reading of the clock and the comparison counts as idle too, because the difference wraps.
\<close>

theorem reap_expired_correct:
  assumes "table_ok (sessions t)" "idle < 2 ^ 63"
    and "reap_expired now idle t = (expired, t')"
    and get: "table_get s t = Some h"
  shows "distinct expired \<and> overlimit_drops t' = overlimit_drops t \<and>
    (if last_active_ms h \<le> now
     then (s \<in> set expired \<longleftrightarrow> unat (last_active_ms h) + idle \<le> unat now)
     else unat (last_active_ms h) - unat now \<le> 2 ^ 63 \<longrightarrow> s \<in> set expired) \<and>
    table_get s t' = (if s \<in> set expired then None else Some h)"
proof -
  let ?P = "\<lambda>h. expired_at now idle h"
  have e: "expired = map fst (filter (\<lambda>(_, h). ?P h) (sessions t))"
    "t' = t \<lparr> sessions := filter (\<lambda>(_, h). \<not> ?P h) (sessions t) \<rparr>"
    using assms(3) reap_expired_eq [OF assms(1)] by simp_all
  have d: "distinct expired" using assms(1) by (simp add: e distinct_map_filter)
  have mem: "(s, h) \<in> set (sessions t)" using get by (auto simp: table_get_def dest: map_of_SomeD)
  have iff: "s \<in> set expired \<longleftrightarrow> ?P h" using expired_keys [OF assms(1) mem, of ?P] by (simp add: e)
  have "map_of (filter (\<lambda>(_, h). \<not> ?P h) (sessions t)) s = (if ?P h then None else Some h)"
  proof (cases "?P h")
    case True
    then have "s \<notin> fst ` set (filter (\<lambda>(_, h). \<not> ?P h) (sessions t))"
      using expired_keys [OF assms(1) mem, of "\<lambda>h. \<not> ?P h"] by simp
    then show ?thesis using True by (simp add: map_of_eq_None_iff)
  next
    case False
    then have "(s, h) \<in> set (filter (\<lambda>(_, h). \<not> ?P h) (sessions t))" using mem by simp
    moreover have "table_ok (filter (\<lambda>(_, h). \<not> ?P h) (sessions t))"
      using assms(1) by (rule table_ok_filter)
    ultimately show ?thesis using False by simp
  qed
  moreover have "?P h" if "\<not> last_active_ms h \<le> now" "unat (last_active_ms h) - unat now \<le> 2 ^ 63"
    using that assms(2) by (intro expired_at_future) (auto simp: not_le)
  ultimately show ?thesis
    using expired_at_past [of h now idle] assms(2) d by (auto simp: iff table_get_def e(2))
qed

theorem reap_expired_correct_witness:
  "fst (reap_expired 60000 60000 \<lparr> sessions =
      [(2, \<lparr> tx = 1, last_active_ms = 1, h_target = ''b'' \<rparr>),
       (3, \<lparr> tx = 2, last_active_ms = 60001, h_target = ''c'' \<rparr>)], overlimit_drops = 0 \<rparr>) = [3] \<and>
   (3 :: u16) \<in> set (fst (reap_expired 60000 60000 \<lparr> sessions =
      [(2, \<lparr> tx = 1, last_active_ms = 1, h_target = ''b'' \<rparr>),
       (3, \<lparr> tx = 2, last_active_ms = 60001, h_target = ''c'' \<rparr>)], overlimit_drops = 0 \<rparr>))"
proof -
  let ?t = "\<lparr> sessions =
      [(2, \<lparr> tx = 1, last_active_ms = 1, h_target = ''b'' \<rparr>),
       (3, \<lparr> tx = 2, last_active_ms = 60001, h_target = ''c'' \<rparr>)], overlimit_drops = 0 \<rparr>"
  have ok: "table_ok (sessions ?t)" by simp
  have g: "table_get 3 ?t = Some \<lparr> tx = 2, last_active_ms = 60001, h_target = ''c'' \<rparr>"
    by (simp add: table_get_def)
  have "3 \<in> set (fst (reap_expired 60000 60000 ?t))"
    using reap_expired_correct [OF ok _ surjective_pairing g, of 60000 60000] by simp
  then show ?thesis by (simp add: reap_expired_def expired_at_def)
qed

fun take_all :: "nat list \<Rightarrow> budget \<Rightarrow> bool list \<times> budget" where
  "take_all [] b = ([], b)"
| "take_all (t # ts) b =
    (case try_take t b of (g, b1) \<Rightarrow> (case take_all ts b1 of (gs, b2) \<Rightarrow> (g # gs, b2)))"

abbreviation granted :: "nat list \<Rightarrow> budget \<Rightarrow> nat" where
  "granted ts b \<equiv> count_list (fst (take_all ts b)) True"

lemma granted_Cons: "granted (t # ts) b =
    (if fst (try_take t b) then 1 else 0) + granted ts (snd (try_take t b))"
  by (simp split: prod.split)

lemma granted_in_window:
  "\<forall>t\<in>set ts. t < window_start b + 1000 \<Longrightarrow> granted ts b \<le> 10 - used b"
proof (induction ts arbitrary: b)
  case (Cons t ts)
  have *: "try_take t b = (if 10 \<le> used b then (False, b) else (True, b \<lparr> used := used b + 1 \<rparr>))"
    using Cons.prems by (auto simp: try_take_def relay_consts)
  show ?case
    using Cons.IH [of "snd (try_take t b)"] Cons.prems unfolding granted_Cons *
    by (cases "10 \<le> used b") (auto simp del: take_all.simps)
qed simp

lemma granted_two_windows:
  "\<forall>t\<in>set ts. t0 \<le> t \<and> t < t0 + 1000 \<Longrightarrow> granted ts b \<le> (10 - used b) + 10"
proof (induction ts arbitrary: b)
  case (Cons t ts)
  show ?case
  proof (cases "1000 \<le> t - window_start b")
    case True
    then have *: "try_take t b = (True, \<lparr> window_start = t, used = 1 \<rparr>)"
      by (simp add: try_take_def relay_consts)
    have "granted ts \<lparr> window_start = t, used = 1 \<rparr> \<le> 10 - 1"
      using Cons.prems granted_in_window [of ts "\<lparr> window_start = t, used = 1 \<rparr>"] by force
    then show ?thesis unfolding granted_Cons by (simp add: * del: take_all.simps)
  next
    case False
    then have *: "try_take t b = (if 10 \<le> used b then (False, b) else (True, b \<lparr> used := used b + 1 \<rparr>))"
      by (simp add: try_take_def relay_consts)
    show ?thesis
      using Cons.IH [of "snd (try_take t b)"] Cons.prems unfolding granted_Cons *
      by (cases "10 \<le> used b") (auto simp del: take_all.simps)
  qed
qed simp

text \<open>
  however often a target has to be resolved, the budget lets at most twenty resolutions
  through in any stretch of less than a second, and at most ten inside a window; but the
  window is fixed, not sliding: two bursts of ten on either side of a reset, a millisecond
  apart, do get through.
\<close>

theorem resolve_budget_bound:
  assumes "\<forall>t\<in>set ts. t0 \<le> t \<and> t < t0 + 1000"
  shows "granted ts b \<le> 20 \<and> (window_start b = t0 \<longrightarrow> granted ts b \<le> 10) \<and>
    granted (replicate 10 999 @ replicate 10 1000) (budget_new 0) = 20"
proof -
  have "granted (replicate 10 999 @ replicate 10 1000) (budget_new 0) = 20" by code_simp
  then show ?thesis
    using granted_two_windows [OF assms, of b] granted_in_window [of ts b] assms by force
qed

theorem resolve_budget_bound_witness: "granted [5, 6] (budget_new 5) \<le> 10"
  using resolve_budget_bound [of "[5, 6]" 5 "budget_new 5"] by (simp add: budget_new_def)

end
