(* ===== verification/Signal.thy ===== *)
theory Signal
  imports Auth ProxyInput Tables Complex_Main
begin

text \<open>
  \<open>hydra-node/src/signal.rs\<close>: the signalling between peers that want a direct connection.
  The registry maps a peer to the queue of its connection; a queue is an entry of the store
  \<open>chans\<close>, named by its index, with what waits in it, what its writer has written and whether
  the writer still runs. \<open>serde_json\<close> is a pair of arguments. While a connection waits (for a
  byte, or for room in the queue of another) the rest of the node goes on: the operations it
  performs are arguments.
\<close>

definition MAX_PEERS :: nat where "MAX_PEERS = 1024"
definition SIGNAL_READ_TIMEOUT :: nat where "SIGNAL_READ_TIMEOUT = 90 * 1000"
definition MAX_LINE_LEN :: nat where "MAX_LINE_LEN = 4096"
definition DOWNLINK_CAP :: nat where "DOWNLINK_CAP = 32"
definition SIGNAL_RATE :: nat where "SIGNAL_RATE = 10"
definition SIGNAL_BURST :: nat where "SIGNAL_BURST = 20"

datatype signal_message =
    Register string string string
  | Invite string "string list"
  | Accept string "string list"

datatype down_message =
    Incoming string "string list"
  | Accepted string "string list"
  | SignalError string "string option"

record peer_entry =
  mapped :: sock_addr
  last_active :: nat
  downlink :: nat
  owner_proof :: string

type_synonym peers = "(string \<times> peer_entry) list"

section \<open>The registry\<close>

definition register_peer :: "string \<Rightarrow> sock_addr \<Rightarrow> string \<Rightarrow> nat \<Rightarrow> nat \<Rightarrow> peers \<Rightarrow> (string + unit) \<times> peers" where
  "register_peer peer_id addr proof now ch t =
    (let entry = \<lparr> mapped = addr, last_active = now, downlink = ch, owner_proof = proof \<rparr> in
     case map_of t peer_id of
       Some existing \<Rightarrow>
         if owner_proof existing \<noteq> proof then (Inl ''owner_proof_mismatch'', t)
         else (Inr (), AList.update peer_id entry t)
     | None \<Rightarrow>
         if length t \<ge> MAX_PEERS then (Inl ''registry full'', t)
         else (Inr (), AList.update peer_id entry t))"

definition remove_if_downlink :: "string \<Rightarrow> nat \<Rightarrow> peers \<Rightarrow> peers" where
  "remove_if_downlink peer_id ch t =
    (case map_of t peer_id of
       Some e \<Rightarrow> if downlink e = ch then AList.delete peer_id t else t
     | None \<Rightarrow> t)"

definition touch :: "string \<Rightarrow> nat \<Rightarrow> peers \<Rightarrow> peers" where
  "touch peer_id now t =
    map (\<lambda>(k, e). (k, if k = peer_id then e \<lparr> last_active := now \<rparr> else e)) t"

definition stale :: "nat \<Rightarrow> nat \<Rightarrow> peer_entry \<Rightarrow> bool" where
  "stale now ttl e \<longleftrightarrow> now - last_active e > ttl"

definition sweep :: "nat \<Rightarrow> nat \<Rightarrow> peers \<Rightarrow> string list \<times> peers" where
  "sweep now ttl t =
    (let expired = map fst (filter (\<lambda>(k, e). stale now ttl e) t) in
     (expired, fold AList.delete expired t))"

definition get_peer :: "string \<Rightarrow> peers \<Rightarrow> (sock_addr \<times> nat) option" where
  "get_peer peer_id t = map_option (\<lambda>e. (mapped e, downlink e)) (map_of t peer_id)"

section \<open>Queues\<close>

record channel =
  queue :: "byte list list"
  written :: "byte list"
  recv_open :: bool

record signals =
  reg :: peers
  chans :: "channel list"

definition signals_new :: signals where
  "signals_new = \<lparr> reg = [], chans = [] \<rparr>"

definition on_chan :: "nat \<Rightarrow> (channel \<Rightarrow> channel) \<Rightarrow> signals \<Rightarrow> signals" where
  "on_chan ch f s = (if ch < length (chans s) then s \<lparr> chans := (chans s)[ch := f (chans s ! ch)] \<rparr> else s)"

definition chan_is_open :: "nat \<Rightarrow> signals \<Rightarrow> bool" where
  "chan_is_open ch s \<longleftrightarrow> ch < length (chans s) \<and> recv_open (chans s ! ch)"

definition has_room :: "nat \<Rightarrow> signals \<Rightarrow> bool" where
  "has_room ch s \<longleftrightarrow> chan_is_open ch s \<and> length (queue (chans s ! ch)) < DOWNLINK_CAP"

definition push_line :: "nat \<Rightarrow> byte list \<Rightarrow> signals \<Rightarrow> signals" where
  "push_line ch l = on_chan ch (\<lambda>c. c \<lparr> queue := queue c @ [l] \<rparr>)"

text \<open>One round of the writer of a connection; a failed write ends it.\<close>

definition downlink_writer :: "nat \<Rightarrow> bool \<Rightarrow> signals \<Rightarrow> signals" where
  "downlink_writer ch ok =
    on_chan ch (\<lambda>c. case queue c of
        [] \<Rightarrow> c
      | l # q \<Rightarrow>
          if \<not> recv_open c then c
          else if ok then c \<lparr> queue := q, written := written c @ l \<rparr>
          else c \<lparr> queue := [], recv_open := False \<rparr>)"

definition close_chan :: "nat \<Rightarrow> signals \<Rightarrow> signals" where
  "close_chan ch = on_chan ch (\<lambda>c. c \<lparr> recv_open := False \<rparr>)"

definition open_chan :: "signals \<Rightarrow> nat \<times> signals" where
  "open_chan s =
    (length (chans s), s \<lparr> chans := chans s @ [\<lparr> queue = [], written = [], recv_open = True \<rparr>] \<rparr>)"

text \<open>What a connection does to the shared state in one go: everything between two waits.\<close>

datatype signal_op =
    OpRegister string string sock_addr string nat nat
  | OpTouch string nat
  | OpRemove string nat
  | OpSweep nat
  | OpPush nat "byte list"
  | OpWrite nat bool
  | OpOpen
  | OpClose nat


text \<open>A registration is only made with the identity of the connection, a valid proof and the
  queue of a connection.\<close>

fun signal_step :: "(byte list \<Rightarrow> byte list \<Rightarrow> byte list) \<Rightarrow> byte list \<Rightarrow> signal_op \<Rightarrow> signals \<Rightarrow> signals" where
  "signal_step hmac key (OpRegister my_id peer_id addr proof now ch) s =
    (if peer_id = my_id \<and> verify_p2p_owner_proof hmac key my_id proof \<and> ch < length (chans s)
     then s \<lparr> reg := snd (register_peer my_id addr proof now ch (reg s)) \<rparr> else s)"
| "signal_step hmac key (OpTouch p now) s = s \<lparr> reg := touch p now (reg s) \<rparr>"
| "signal_step hmac key (OpRemove p ch) s = s \<lparr> reg := remove_if_downlink p ch (reg s) \<rparr>"
| "signal_step hmac key (OpSweep now) s = s \<lparr> reg := snd (sweep now SIGNAL_READ_TIMEOUT (reg s)) \<rparr>"
| "signal_step hmac key (OpPush ch l) s = (if has_room ch s then push_line ch l s else s)"
| "signal_step hmac key (OpWrite ch ok) s = downlink_writer ch ok s"
| "signal_step hmac key OpOpen s = snd (open_chan s)"
| "signal_step hmac key (OpClose ch) s = close_chan ch s"


definition run_ops :: "(byte list \<Rightarrow> byte list \<Rightarrow> byte list) \<Rightarrow> byte list \<Rightarrow> signal_op list \<Rightarrow> signals \<Rightarrow> signals" where
  "run_ops hmac key ops = fold (signal_step hmac key) ops"

section \<open>One line\<close>

record serde =
  from_json :: "byte list \<Rightarrow> signal_message option"
  to_json :: "down_message \<Rightarrow> byte list option"

text \<open>A message for a queue; if the queue is full, \<open>env\<close> is what happens until there is room
  or five seconds have passed.\<close>

definition forward :: "serde \<Rightarrow> (signals \<Rightarrow> signals) \<Rightarrow> nat \<Rightarrow> down_message \<Rightarrow> signals \<Rightarrow> bool \<times> signals" where
  "forward sd env ch msg s =
    (case to_json sd msg of
       None \<Rightarrow> (False, s)
     | Some l \<Rightarrow>
         let line = l @ [0x0A];
             s1 = (if chan_is_open ch s \<and> \<not> has_room ch s then env s else s)
         in if has_room ch s1 then (True, push_line ch line s1) else (False, s1))"

definition send_error :: "serde \<Rightarrow> (signals \<Rightarrow> signals) \<Rightarrow> nat \<Rightarrow> string \<Rightarrow> string option \<Rightarrow> signals \<Rightarrow> signals" where
  "send_error sd env ch code peer s = snd (forward sd env ch (SignalError code peer) s)"

text \<open>What \<open>Invite\<close> and \<open>Accept\<close> do with the message for the other peer.\<close>

definition pass_on ::
  "serde \<Rightarrow> (signals \<Rightarrow> signals) \<Rightarrow> (signals \<Rightarrow> signals) \<Rightarrow> nat \<Rightarrow> string \<Rightarrow> down_message \<Rightarrow> signals \<Rightarrow> signals" where
  "pass_on sd env1 env2 my_ch peer out s =
    (case get_peer peer (reg s) of
       None \<Rightarrow> send_error sd env1 my_ch ''peer_offline'' (Some peer) s
     | Some (_, down) \<Rightarrow>
         (case forward sd env1 down out s of
            (True, s1) \<Rightarrow> s1
          | (False, s1) \<Rightarrow>
              send_error sd env2 my_ch ''peer_offline'' (Some peer)
                (s1 \<lparr> reg := remove_if_downlink peer down (reg s1) \<rparr>)))"

definition handle_line ::
  "(byte list \<Rightarrow> byte list \<Rightarrow> byte list) \<Rightarrow> byte list \<Rightarrow> serde \<Rightarrow> (signals \<Rightarrow> signals) \<Rightarrow> (signals \<Rightarrow> signals) \<Rightarrow>
   string \<Rightarrow> nat \<Rightarrow> nat \<Rightarrow> byte list \<Rightarrow> signals \<Rightarrow> bool \<times> signals" where
  "handle_line hmac key sd env1 env2 my_id my_ch now line s =
    (if line = [] then (True, s)
     else case from_json sd line of
       None \<Rightarrow> (False, s)
     | Some (Register peer_id addr proof) \<Rightarrow>
         if peer_id \<noteq> my_id then (False, send_error sd env1 my_ch ''peer_id_mismatch'' (Some peer_id) s)
         else if \<not> verify_p2p_owner_proof hmac key my_id proof then
           (False, send_error sd env1 my_ch ''owner_proof_invalid'' (Some my_id) s)
         else (case parse_sock_addr addr of
            None \<Rightarrow> (False, s)
          | Some a \<Rightarrow>
              (case register_peer my_id a proof now my_ch (reg s) of
                 (Inl e, _) \<Rightarrow> (False, send_error sd env1 my_ch e None s)
               | (Inr _, t) \<Rightarrow> (True, s \<lparr> reg := t \<rparr>)))
     | Some (Invite peer_id cand) \<Rightarrow>
         (True, pass_on sd env1 env2 my_ch peer_id (Incoming my_id cand) (s \<lparr> reg := touch my_id now (reg s) \<rparr>))
     | Some (Accept to cand) \<Rightarrow>
         (True, pass_on sd env1 env2 my_ch to (Accepted my_id cand) (s \<lparr> reg := touch my_id now (reg s) \<rparr>)))"

section \<open>A session\<close>

record sig_session =
  line_buf :: "byte list"
  tokens :: nat
  last_refill :: nat
  line_deadline :: nat

definition session_start :: "nat \<Rightarrow> sig_session" where
  "session_start now = \<lparr> line_buf = [], tokens = SIGNAL_BURST, last_refill = now,
     line_deadline = now + SIGNAL_READ_TIMEOUT \<rparr>"

text \<open>Elapsed time is a number of seconds.\<close>

definition refill_tokens :: "nat \<Rightarrow> real \<Rightarrow> nat" where
  "refill_tokens n elapsed_secs = min (nat \<lfloor>real n + elapsed_secs * real SIGNAL_RATE\<rfloor>) SIGNAL_BURST"

text \<open>A byte of the connection: a complete line, and the session unless it is to end.\<close>

definition on_byte :: "nat \<Rightarrow> byte \<Rightarrow> sig_session \<Rightarrow> byte list option \<times> sig_session option" where
  "on_byte now b ss =
    (if b = 0x0A then
       (let n = refill_tokens (tokens ss) (real (now - last_refill ss) / 1000);
            ss = ss \<lparr> last_refill := now, tokens := n, line_deadline := now + SIGNAL_READ_TIMEOUT \<rparr>
        in if n = 0 then (None, None)
           else (Some (line_buf ss), Some (ss \<lparr> tokens := n - 1, line_buf := [] \<rparr>)))
     else
       (let ss = ss \<lparr> line_buf := line_buf ss @ [b] \<rparr>
        in if length (line_buf ss) > MAX_LINE_LEN then (None, None) else (None, Some ss)))"

text \<open>What the rest of the node does during a round, and how long the round handles its line.\<close>

record pause =
  in_read :: "signal_op list"
  in_wait1 :: "signal_op list"
  in_wait2 :: "signal_op list"
  took :: nat

lemma read_by_shorter:
  "read_by dl n c = (Got (b # bs), c') \<Longrightarrow> length (concat (map snd (inbox c'))) < length (concat (map snd (inbox c)))"
  using read_by_unread [of dl n c "b # bs" c'] by simp

function serve_loop ::
  "(byte list \<Rightarrow> byte list \<Rightarrow> byte list) \<Rightarrow> byte list \<Rightarrow> serde \<Rightarrow> (nat \<Rightarrow> pause) \<Rightarrow> string \<Rightarrow> nat \<Rightarrow> nat \<Rightarrow>
   sig_session \<Rightarrow> client \<Rightarrow> signals \<Rightarrow> (nat \<times> byte list) list \<times> client \<times> signals" where
  "serve_loop hmac key sd w my_id ch k ss c s =
    (let s1 = run_ops hmac key (in_read (w k)) s in
     case read_by (max (clock c) (line_deadline ss)) 1 c of
       (Got (b # _), c1) \<Rightarrow>
         (case on_byte (clock c1) b ss of
            (_, None) \<Rightarrow> ([], c1, s1)
          | (None, Some ss') \<Rightarrow> serve_loop hmac key sd w my_id ch (Suc k) ss' c1 s1
          | (Some line, Some ss') \<Rightarrow>
              (case handle_line hmac key sd (run_ops hmac key (in_wait1 (w k))) (run_ops hmac key (in_wait2 (w k)))
                   my_id ch (clock c1) line
                   (s1 \<lparr> reg := snd (sweep (clock c1) SIGNAL_READ_TIMEOUT (reg s1)) \<rparr>) of
                 (False, s2) \<Rightarrow> ([(clock c1, line)], c1, s2)
               | (True, s2) \<Rightarrow>
                   (case serve_loop hmac key sd w my_id ch (Suc k) ss' (c1 \<lparr> clock := clock c1 + took (w k) \<rparr>) s2 of
                      (ls, r) \<Rightarrow> ((clock c1, line) # ls, r))))
     | (_, c1) \<Rightarrow> ([], c1, s1))"
  by pat_completeness auto
termination
  by (relation "measure (\<lambda>(_, _, _, _, _, _, _, _, c, _). length (concat (map snd (inbox c))))")
     (auto dest!: read_by_shorter [OF sym])

declare serve_loop.simps [simp del]

text \<open>The session: a queue with its writer, the loop, and the end, at which the entry of this
  connection goes and the writer ends within two seconds or is stopped.\<close>

definition serve_signal_stream ::
  "(byte list \<Rightarrow> byte list \<Rightarrow> byte list) \<Rightarrow> byte list \<Rightarrow> serde \<Rightarrow> (nat \<Rightarrow> pause) \<Rightarrow> signal_op list \<Rightarrow> string \<Rightarrow>
   client \<Rightarrow> signals \<Rightarrow> (nat \<times> byte list) list \<times> client \<times> signals" where
  "serve_signal_stream hmac key sd w closing my_id c s =
    (case open_chan s of (ch, s0) \<Rightarrow>
      (case serve_loop hmac key sd w my_id ch 0 (session_start (clock c)) c s0 of
         (ls, c1, s1) \<Rightarrow>
           (ls, c1, close_chan ch (run_ops hmac key closing
              (s1 \<lparr> reg := remove_if_downlink my_id ch (reg s1) \<rparr>)))))"


section \<open>The invariant of the registry\<close>

definition signals_inv :: "(byte list \<Rightarrow> byte list \<Rightarrow> byte list) \<Rightarrow> byte list \<Rightarrow> signals \<Rightarrow> bool" where
  "signals_inv hmac key s \<longleftrightarrow> table_ok (reg s) \<and> length (reg s) \<le> MAX_PEERS \<and>
    (\<forall>(k, e)\<in>set (reg s). verify_p2p_owner_proof hmac key k (owner_proof e) \<and> downlink e < length (chans s)) \<and>
    (\<forall>c\<in>set (chans s). length (queue c) \<le> DOWNLINK_CAP)"

lemma fst_touch [simp]: "map fst (touch p now t) = map fst t"
  by (induction t) (auto simp: touch_def)

lemma in_touch: "(k, e) \<in> set (touch p now t) \<Longrightarrow>
    \<exists>e'. (k, e') \<in> set t \<and> owner_proof e = owner_proof e' \<and> downlink e = downlink e'"
  by (auto simp: touch_def split: if_splits)

lemma length_touch [simp]: "length (touch p now t) = length t"
  by (simp add: touch_def)

lemma sweep_subset: "table_ok t \<Longrightarrow> table_ok (snd (sweep now ttl t)) \<and>
    set (snd (sweep now ttl t)) \<subseteq> set t \<and> length (snd (sweep now ttl t)) \<le> length t"
proof -
  have "table_ok t \<Longrightarrow> table_ok (fold AList.delete ks t) \<and> set (fold AList.delete ks t) \<subseteq> set t \<and>
      length (fold AList.delete ks t) \<le> length t" for ks
  proof (induction ks arbitrary: t)
    case (Cons k ks)
    from Cons.IH [OF table_ok_delete [OF Cons.prems, of k]] show ?case
      using length_delete_le [of k t] delete_subset [of k t] by auto
  qed simp
  then show "table_ok t \<Longrightarrow> ?thesis" by (simp add: sweep_def Let_def)
qed

lemma remove_subset: "table_ok t \<Longrightarrow> table_ok (remove_if_downlink p ch t) \<and>
    set (remove_if_downlink p ch t) \<subseteq> set t \<and> length (remove_if_downlink p ch t) \<le> length t"
  using length_delete_le [of p t] table_ok_delete [of t p] delete_subset [of p t]
  by (auto simp: remove_if_downlink_def split: option.split)

lemma register_entries:
  assumes "table_ok t" "length t \<le> MAX_PEERS"
  shows "table_ok (snd (register_peer p a proof now ch t)) \<and>
    length (snd (register_peer p a proof now ch t)) \<le> MAX_PEERS \<and>
    (\<forall>(k, e)\<in>set (snd (register_peer p a proof now ch t)).
       (k, e) \<in> set t \<or> (k = p \<and> owner_proof e = proof \<and> downlink e = ch))"
proof (cases "map_of t p")
  case None
  then have "p \<notin> fst ` set t" by (simp add: map_of_eq_None_iff)
  then show ?thesis using assms None
    by (auto simp: register_peer_def Let_def in_update_iff distinct_update length_update_new split: if_splits)
next
  case (Some e)
  then have "p \<in> fst ` set t" by (metis map_of_in_dom)
  then show ?thesis using assms Some
    by (auto simp: register_peer_def Let_def in_update_iff distinct_update length_update_old split: if_splits)
qed

lemma length_chans_mono: "length (chans s) \<le> length (chans (signal_step hmac key op s))"
  by (cases op) (auto simp: downlink_writer_def push_line_def close_chan_def on_chan_def open_chan_def)

lemma on_chan_queue:
  assumes "\<forall>c\<in>set (chans s). length (queue c) \<le> n"
    and "\<And>c. c \<in> set (chans s) \<Longrightarrow> c = chans s ! ch \<Longrightarrow> length (queue c) \<le> n \<Longrightarrow> length (queue (f c)) \<le> n"
  shows "\<forall>c\<in>set (chans (on_chan ch f s)). length (queue c) \<le> n"
proof (cases "ch < length (chans s)")
  case True
  then have "chans s ! ch \<in> set (chans s)" by simp
  with assms have "length (queue (f (chans s ! ch))) \<le> n" by blast
  with True assms(1) show ?thesis
    by (auto simp: on_chan_def dest!: subsetD [OF set_update_subset_insert])
qed (use assms in \<open>simp add: on_chan_def\<close>)

lemma on_chan_reg [simp]: "reg (on_chan ch f s) = reg s" "length (chans (on_chan ch f s)) = length (chans s)"
  by (simp_all add: on_chan_def)

lemma signals_inv_chans:
  assumes "signals_inv hmac key s" "\<And>c. length (queue c) \<le> DOWNLINK_CAP \<Longrightarrow> c = chans s ! ch \<Longrightarrow> length (queue (f c)) \<le> DOWNLINK_CAP"
  shows "signals_inv hmac key (on_chan ch f s)"
  using assms on_chan_queue [of s DOWNLINK_CAP ch f] by (auto simp: signals_inv_def)

lemma signals_inv_reg:
  assumes "signals_inv hmac key s" "table_ok t" "length t \<le> MAX_PEERS"
    and "\<And>k e. (k, e) \<in> set t \<Longrightarrow> (\<exists>e'. (k, e') \<in> set (reg s) \<and> owner_proof e = owner_proof e' \<and> downlink e = downlink e') \<or>
      (verify_p2p_owner_proof hmac key k (owner_proof e) \<and> downlink e < length (chans s))"
  shows "signals_inv hmac key (s \<lparr> reg := t \<rparr>)"
  using assms by (fastforce simp: signals_inv_def)

lemma signal_step_inv:
  assumes i: "signals_inv hmac key s"
  shows "signals_inv hmac key (signal_step hmac key op s)"
proof (cases op)
  case (OpRegister my_id peer_id a pf now ch)
  have t: "table_ok (reg s)" "length (reg s) \<le> MAX_PEERS" using i by (simp_all add: signals_inv_def)
  from register_entries [OF t, of my_id a pf now ch] OpRegister i show ?thesis
    by (auto intro!: signals_inv_reg)
next
  case (OpTouch p now)
  have "table_ok (touch p now (reg s))" "length (touch p now (reg s)) \<le> MAX_PEERS"
    using i by (simp_all add: signals_inv_def)
  with OpTouch in_touch show ?thesis by (auto intro!: signals_inv_reg [OF i])
next
  case (OpRemove p ch)
  then show ?thesis using i remove_subset [of "reg s" p ch]
    by (auto intro!: signals_inv_reg simp: signals_inv_def)
next
  case (OpSweep now)
  then show ?thesis using i sweep_subset [of "reg s" now SIGNAL_READ_TIMEOUT]
    by (auto intro!: signals_inv_reg simp: signals_inv_def)
next
  case (OpPush ch l)
  then show ?thesis using i
    by (auto simp: push_line_def has_room_def intro!: signals_inv_chans)
next
  case (OpWrite ch ok)
  then show ?thesis using i
    by (auto simp: downlink_writer_def intro!: signals_inv_chans split: list.split)
next
  case OpOpen
  then show ?thesis using i by (auto simp: signals_inv_def open_chan_def)
next
  case (OpClose ch)
  then show ?thesis using i by (auto simp: close_chan_def intro!: signals_inv_chans)
qed

interpretation signal: guarded_table signals_new "signal_step hmac key" "signals_inv hmac key" for hmac key
  by unfold_locales (simp add: signals_inv_def signals_new_def, rule signal_step_inv)


section \<open>A session is a run of atomic operations\<close>

lemma run_ops_append [simp]: "run_ops hmac key (a @ b) s = run_ops hmac key b (run_ops hmac key a s)"
  by (simp add: run_ops_def)

lemma run_ops_Nil [simp]: "run_ops hmac key [] s = s"
  by (simp add: run_ops_def)

lemma run_ops_single: "run_ops hmac key [op] s = signal_step hmac key op s"
  by (simp add: run_ops_def)

text \<open>The operations that others perform, and what they may not do: register the queue
  \<open>ch\<close> under another name than \<open>my_id\<close>.\<close>

definition spares :: "string \<Rightarrow> nat \<Rightarrow> signal_op list \<Rightarrow> bool" where
  "spares my_id ch ops \<longleftrightarrow> list_all (\<lambda>op. case op of OpRegister m p a pf now ch' \<Rightarrow> ch' = ch \<longrightarrow> m = my_id | _ \<Rightarrow> True) ops"

lemma spares_simps [simp]:
  "spares m ch []" "spares m ch (a @ b) \<longleftrightarrow> spares m ch a \<and> spares m ch b"
  by (simp_all add: spares_def)

lemma length_run_ops: "length (chans s) \<le> length (chans (run_ops hmac key ops s))"
  unfolding run_ops_def
  by (induction ops arbitrary: s) (auto intro: le_trans [OF length_chans_mono])

text \<open>\<open>does my_id ch ops0 f\<close>: the effect of \<open>f\<close> is a run of atomic operations that uses the queue
  \<open>ch\<close> only for \<open>my_id\<close>.\<close>

definition does :: "(byte list \<Rightarrow> byte list \<Rightarrow> byte list) \<Rightarrow> byte list \<Rightarrow> string \<Rightarrow> nat \<Rightarrow> signals \<Rightarrow> signals \<Rightarrow> bool" where
  "does hmac key my_id ch s s' \<longleftrightarrow> (\<exists>ops. spares my_id ch ops \<and> s' = run_ops hmac key ops s)"

lemma does_refl [simp]: "does hmac key m ch s s"
  unfolding does_def by (rule exI [of _ "[]"]) simp

lemma does_trans: "does hmac key m ch s s' \<Longrightarrow> does hmac key m ch s' s'' \<Longrightarrow> does hmac key m ch s s''"
  unfolding does_def by (metis run_ops_append spares_simps(2))

lemma does_run: "spares m ch ops \<Longrightarrow> does hmac key m ch s (run_ops hmac key ops s)"
  unfolding does_def by blast

lemma does_step:
  assumes "case op of OpRegister m' p a pf now ch' \<Rightarrow> ch' = ch \<longrightarrow> m' = m | _ \<Rightarrow> True"
    and "s' = signal_step hmac key op s"
  shows "does hmac key m ch s s'"
  unfolding does_def using assms by (intro exI [of _ "[op]"]) (simp add: spares_def run_ops_single)

lemma does_chans: "does hmac key m ch s s' \<Longrightarrow> n < length (chans s) \<Longrightarrow> n < length (chans s')"
  unfolding does_def using length_run_ops order_less_le_trans by blast

lemma forward_does:
  assumes "\<And>s. does hmac key m ch s (env s)"
  shows "does hmac key m ch s (snd (forward sd env d msg s))"
proof (cases "to_json sd msg")
  case (Some l)
  define s1 where "s1 = (if chan_is_open d s \<and> \<not> has_room d s then env s else s)"
  have 1: "does hmac key m ch s s1" using assms by (simp add: s1_def)
  have "does hmac key m ch s1 (push_line d (l @ [0x0A]) s1)" if "has_room d s1"
    using that by (intro does_step [where op = "OpPush d (l @ [0x0A])"]) simp_all
  with 1 show ?thesis by (auto simp: forward_def Some Let_def s1_def intro: does_trans)
qed (simp add: forward_def)

lemma send_error_does:
  assumes "\<And>s. does hmac key m ch s (env s)"
  shows "does hmac key m ch s (send_error sd env d code p s)"
  unfolding send_error_def by (rule forward_does [OF assms])

lemma pass_on_does:
  assumes "\<And>s. does hmac key m ch s (env1 s)" "\<And>s. does hmac key m ch s (env2 s)"
  shows "does hmac key m ch s (pass_on sd env1 env2 d p out s)"
proof (cases "get_peer p (reg s)")
  case None
  then show ?thesis using send_error_does [OF assms(1)] by (simp add: pass_on_def)
next
  case (Some x)
  obtain a down where x: "x = (a, down)" by fastforce
  obtain ok s1 where f: "forward sd env1 down out s = (ok, s1)" by fastforce
  have 1: "does hmac key m ch s s1" using forward_does [OF assms(1), where s = s and d = down and sd = sd and msg = out] f by simp
  have "does hmac key m ch s1 (s1 \<lparr> reg := remove_if_downlink p down (reg s1) \<rparr>)"
    by (intro does_step [where op = "OpRemove p down"]) simp_all
  then have "does hmac key m ch s (send_error sd env2 d ''peer_offline'' (Some p) (s1 \<lparr> reg := remove_if_downlink p down (reg s1) \<rparr>))"
    using 1 send_error_does [OF assms(2)] by (blast intro: does_trans)
  then show ?thesis using 1 f by (cases ok) (simp_all add: pass_on_def Some x)
qed

lemma handle_line_does:
  assumes "\<And>s. does hmac key m ch s (env1 s)" "\<And>s. does hmac key m ch s (env2 s)" "ch < length (chans s)"
  shows "does hmac key m ch s (snd (handle_line hmac key sd env1 env2 m ch now line s))"
proof (cases "line = [] \<or> from_json sd line = None")
  case True
  then show ?thesis by (auto simp: handle_line_def)
next
  case False
  then obtain msg where j: "line \<noteq> []" "from_json sd line = Some msg" by auto
  have t: "does hmac key m ch s (s \<lparr> reg := touch m now (reg s) \<rparr>)"
    by (intro does_step [where op = "OpTouch m now"]) simp_all
  show ?thesis
  proof (cases msg)
    case (Register p a pf)
    have "does hmac key m ch s (s \<lparr> reg := snd (register_peer m b pf now ch (reg s)) \<rparr>)"
      if "verify_p2p_owner_proof hmac key m pf" for b
      using that assms(3) by (intro does_step [where op = "OpRegister m m b pf now ch"]) simp_all
    moreover have "does hmac key m ch s (send_error sd env1 ch e q s)" for e q by (rule send_error_does [OF assms(1)])
    ultimately show ?thesis
      by (auto simp: handle_line_def j Register split: option.split prod.split sum.split)
         (metis snd_conv)
  qed (use j in \<open>auto simp: handle_line_def intro: does_trans [OF t pass_on_does [OF assms(1,2)]]\<close>)
qed


definition spares_all :: "string \<Rightarrow> nat \<Rightarrow> (nat \<Rightarrow> pause) \<Rightarrow> bool" where
  "spares_all m ch w \<longleftrightarrow> (\<forall>k. spares m ch (in_read (w k)) \<and> spares m ch (in_wait1 (w k)) \<and> spares m ch (in_wait2 (w k)))"

text \<open>The rounds of the loop: the end, a byte within a line, a line that ends the session, a
  line after which it goes on.\<close>

lemma serve_loop_end:
  assumes "read_by (max (clock c) (line_deadline ss)) 1 c = (x, c1)"
    and "\<And>b bs. x = Got (b # bs) \<Longrightarrow> snd (on_byte (clock c1) b ss) = None"
  shows "serve_loop hmac key sd w m ch k ss c s = ([], c1, run_ops hmac key (in_read (w k)) s)"
proof (cases "\<exists>b bs. x = Got (b # bs)")
  case True
  then obtain b bs ol where x: "x = Got (b # bs)" "on_byte (clock c1) b ss = (ol, None)"
    using assms(2) by (metis prod.collapse)
  show ?thesis by (subst serve_loop.simps) (simp only: Let_def assms(1) x timed.case list.case prod.case option.case, cases ol; simp)
next
  case False
  then show ?thesis using assms(1)
    by (subst serve_loop.simps) (auto simp only: Let_def prod.case split: timed.split list.split)
qed

lemma serve_loop_byte:
  assumes "read_by (max (clock c) (line_deadline ss)) 1 c = (Got (b # bs), c1)"
    and "on_byte (clock c1) b ss = (None, Some ss')"
  shows "serve_loop hmac key sd w m ch k ss c s =
    serve_loop hmac key sd w m ch (Suc k) ss' c1 (run_ops hmac key (in_read (w k)) s)"
  by (subst serve_loop.simps) (simp only: Let_def assms timed.case list.case prod.case option.case)

definition line_result where
  "line_result hmac key sd w m ch k c1 line s =
    (let s1 = run_ops hmac key (in_read (w k)) s in
     handle_line hmac key sd (run_ops hmac key (in_wait1 (w k))) (run_ops hmac key (in_wait2 (w k)))
       m ch (clock c1) line (s1 \<lparr> reg := snd (sweep (clock c1) SIGNAL_READ_TIMEOUT (reg s1)) \<rparr>))"

lemma serve_loop_line:
  assumes "read_by (max (clock c) (line_deadline ss)) 1 c = (Got (b # bs), c1)"
    and "on_byte (clock c1) b ss = (Some line, Some ss')"
    and "line_result hmac key sd w m ch k c1 line s = (ok, s2)"
  shows "serve_loop hmac key sd w m ch k ss c s =
    (if ok then (case serve_loop hmac key sd w m ch (Suc k) ss' (c1 \<lparr> clock := clock c1 + took (w k) \<rparr>) s2 of
        (ls, r) \<Rightarrow> ((clock c1, line) # ls, r))
     else ([(clock c1, line)], c1, s2))"
  using assms(3) unfolding line_result_def Let_def
  by (subst serve_loop.simps) (cases ok; simp only: Let_def assms(1,2) timed.case list.case prod.case option.case bool.case if_True if_False)

lemma line_result_does:
  assumes "spares_all m ch w" "ch < length (chans s)" "line_result hmac key sd w m ch k c1 line s = (ok, s2)"
  shows "does hmac key m ch s s2"
proof -
  define s1 where "s1 = run_ops hmac key (in_read (w k)) s"
  define s1' where "s1' = s1 \<lparr> reg := snd (sweep (clock c1) SIGNAL_READ_TIMEOUT (reg s1)) \<rparr>"
  have d1: "does hmac key m ch s s1" using assms(1) by (simp add: s1_def spares_all_def does_run)
  have d2: "does hmac key m ch s1 s1'"
    unfolding s1'_def by (intro does_step [where op = "OpSweep (clock c1)"]) simp_all
  have "does hmac key m ch s1' (snd (line_result hmac key sd w m ch k c1 line s))"
    unfolding line_result_def Let_def s1_def [symmetric] s1'_def [symmetric]
    using assms(1,2) d1 d2 by (intro handle_line_does) (auto simp: spares_all_def intro: does_run does_chans)
  then show ?thesis using d1 d2 assms(3) by (auto intro: does_trans)
qed

lemma serve_loop_does:
  "spares_all m ch w \<Longrightarrow> ch < length (chans s) \<Longrightarrow>
    does hmac key m ch s (snd (snd (serve_loop hmac key sd w m ch k ss c s)))"
proof (induction "length (concat (map snd (inbox c)))" arbitrary: k ss c s rule: less_induct)
  case less
  obtain x c1 where r: "read_by (max (clock c) (line_deadline ss)) 1 c = (x, c1)" by fastforce
  have d1: "does hmac key m ch s (run_ops hmac key (in_read (w k)) s)"
    using less(2) by (simp add: spares_all_def does_run)
  show ?case
  proof (cases "\<exists>b bs ol ss'. x = Got (b # bs) \<and> on_byte (clock c1) b ss = (ol, Some ss')")
    case False
    then have "serve_loop hmac key sd w m ch k ss c s = ([], c1, run_ops hmac key (in_read (w k)) s)"
      by (intro serve_loop_end [OF r]) (metis option.collapse prod.collapse)
    then show ?thesis using d1 by simp
  next
    case True
    then obtain b bs ol ss' where x: "x = Got (b # bs)" "on_byte (clock c1) b ss = (ol, Some ss')" by blast
    note r' = r [unfolded x(1)]
    have sh: "length (concat (map snd (inbox c1))) < length (concat (map snd (inbox c)))"
      by (rule read_by_shorter [OF r'])
    show ?thesis
    proof (cases ol)
      case None
      have "does hmac key m ch (run_ops hmac key (in_read (w k)) s)
          (snd (snd (serve_loop hmac key sd w m ch (Suc k) ss' c1 (run_ops hmac key (in_read (w k)) s))))"
        by (rule less(1) [OF sh less(2) does_chans [OF d1 less(3)]])
      then show ?thesis using d1 serve_loop_byte [OF r' x(2) [unfolded None]] by (auto intro: does_trans)
    next
      case (Some line)
      obtain ok s2 where l: "line_result hmac key sd w m ch k c1 line s = (ok, s2)" by fastforce
      have d2: "does hmac key m ch s s2" by (rule line_result_does [OF less(2,3) l])
      let ?c = "c1 \<lparr> clock := clock c1 + took (w k) \<rparr>"
      have "does hmac key m ch s2 (snd (snd (serve_loop hmac key sd w m ch (Suc k) ss' ?c s2)))"
        by (rule less(1) [OF _ less(2) does_chans [OF d2 less(3)]]) (simp add: sh)
      then show ?thesis using d2 serve_loop_line [OF r' x(2) [unfolded Some] l]
        by (auto intro: does_trans split: prod.split)
    qed
  qed
qed

section \<open>The rate of a session\<close>

lemma refill_tokens_le: "100 * refill_tokens n (real e / 1000) \<le> 100 * n + e"
proof -
  have "real n + real e / 1000 * real SIGNAL_RATE = (100 * real n + real e) / 100"
    by (simp add: SIGNAL_RATE_def)
  then have "nat \<lfloor>real n + real e / 1000 * real SIGNAL_RATE\<rfloor> = (100 * n + e) div 100"
    using floor_divide_of_nat_eq [of "100 * n + e" 100, where ?'a = real] by (simp only: of_nat_add of_nat_mult of_nat_numeral nat_int)
  then have "refill_tokens n (real e / 1000) \<le> n + e div 100" unfolding refill_tokens_def by (simp only: min.cobounded1)
  moreover have "100 * (e div 100) \<le> e" by simp
  ultimately show ?thesis by linarith
qed

lemma on_byte_line:
  assumes "on_byte now b ss = (Some line, Some ss')" "last_refill ss \<le> now"
  shows "line = line_buf ss \<and> line_buf ss' = [] \<and> last_refill ss' = now \<and>
    100 * (tokens ss' + 1) + last_refill ss \<le> 100 * tokens ss + now"
  using assms refill_tokens_le [of "tokens ss" "now - last_refill ss"]
  by (auto simp: on_byte_def Let_def split: if_splits)

lemma on_byte_more:
  assumes "on_byte now b ss = (None, Some ss')"
  shows "tokens ss' = tokens ss \<and> last_refill ss' = last_refill ss \<and> length (line_buf ss') \<le> MAX_LINE_LEN"
  using assms by (auto simp: on_byte_def Let_def split: if_splits)

lemma serve_loop_rate:
  assumes "serve_loop hmac key sd w m ch k ss c s = (ls, r)"
    and "last_refill ss \<le> clock c" "length (line_buf ss) \<le> MAX_LINE_LEN" "i < length ls"
  shows "100 * (i + 1) + last_refill ss \<le> 100 * tokens ss + fst (ls ! i) \<and> length (snd (ls ! i)) \<le> MAX_LINE_LEN"
  using assms
proof (induction "length (concat (map snd (inbox c)))" arbitrary: k ss c s ls r i rule: less_induct)
  case less
  obtain x c1 where rd: "read_by (max (clock c) (line_deadline ss)) 1 c = (x, c1)" by fastforce
  have t: "clock c \<le> clock c1" using read_by_keeps [OF rd] by simp
  show ?case
  proof (cases "\<exists>b bs ol ss'. x = Got (b # bs) \<and> on_byte (clock c1) b ss = (ol, Some ss')")
    case False
    then have "serve_loop hmac key sd w m ch k ss c s = ([], c1, run_ops hmac key (in_read (w k)) s)"
      by (intro serve_loop_end [OF rd]) (metis option.collapse prod.collapse)
    then show ?thesis using less.prems by simp
  next
    case True
    then obtain b bs ol ss' where x: "x = Got (b # bs)" "on_byte (clock c1) b ss = (ol, Some ss')" by blast
    note r' = rd [unfolded x(1)]
    have sh: "length (concat (map snd (inbox c1))) < length (concat (map snd (inbox c)))"
      by (rule read_by_shorter [OF r'])
    show ?thesis
    proof (cases ol)
      case None
      note m = on_byte_more [OF x(2) [unfolded None]]
      have e: "serve_loop hmac key sd w m ch (Suc k) ss' c1 (run_ops hmac key (in_read (w k)) s) = (ls, r)"
        using less.prems(1) serve_loop_byte [OF r' x(2) [unfolded None]] by simp
      have p: "last_refill ss' \<le> clock c1" "length (line_buf ss') \<le> MAX_LINE_LEN" using m less.prems(2) t by simp_all
      from less.hyps [OF sh e p less.prems(4)] m show ?thesis by (simp only:)
    next
      case (Some line)
      have "last_refill ss \<le> clock c1" using less.prems(2) t by simp
      note m = on_byte_line [OF x(2) [unfolded Some] this]
      obtain ok s2 where l: "line_result hmac key sd w m ch k c1 line s = (ok, s2)" by fastforce
      let ?c = "c1 \<lparr> clock := clock c1 + took (w k) \<rparr>"
      obtain ls' r1 where e: "serve_loop hmac key sd w m ch (Suc k) ss' ?c s2 = (ls', r1)" by (rule prod.exhaust)
      have ls: "ls = [(clock c1, line)] \<or> ls = (clock c1, line) # ls'"
        using less.prems(1) serve_loop_line [OF r' x(2) [unfolded Some] l] e by (auto split: if_splits)
      show ?thesis
      proof (cases i)
        case 0
        then show ?thesis using ls m less.prems(2,3) t by auto
      next
        case (Suc j)
        then have j: "ls = (clock c1, line) # ls'" "j < length ls'" using ls less.prems(4) by auto
        have p: "length (concat (map snd (inbox ?c))) < length (concat (map snd (inbox c)))"
          "last_refill ss' \<le> clock ?c" "length (line_buf ss') \<le> MAX_LINE_LEN" using sh m by simp_all
        have "100 * (j + 1) + clock c1 \<le> 100 * tokens ss' + fst (ls' ! j) \<and>
            length (snd (ls' ! j)) \<le> MAX_LINE_LEN" using less.hyps [OF p(1) e p(2,3) j(2)] m by (simp only:)
        with Suc j m less.prems(2) t show ?thesis by simp
      qed
    qed
  qed
qed

section \<open>The end of a session\<close>

definition all_entries :: "(string \<Rightarrow> nat \<Rightarrow> bool) \<Rightarrow> signals \<Rightarrow> bool" where
  "all_entries Q s \<longleftrightarrow> (\<forall>(k, e)\<in>set (reg s). Q k (downlink e))"

definition op_fits :: "(string \<Rightarrow> nat \<Rightarrow> bool) \<Rightarrow> signal_op \<Rightarrow> bool" where
  "op_fits Q op = (case op of OpRegister m p a pf now ch \<Rightarrow> Q m ch | _ \<Rightarrow> True)"

lemma all_entries_step:
  assumes "signals_inv hmac key s" "all_entries Q s" "op_fits Q op"
  shows "all_entries Q (signal_step hmac key op s)"
proof -
  have t: "table_ok (reg s)" "length (reg s) \<le> MAX_PEERS" using assms(1) by (simp_all add: signals_inv_def)
  show ?thesis
  proof (cases op)
    case (OpRegister m p a pf now ch)
    with assms(2,3) register_entries [OF t, of m a pf now ch] show ?thesis
      by (fastforce simp: all_entries_def op_fits_def)
  next
    case (OpTouch p now)
    with assms(2) in_touch show ?thesis by (fastforce simp: all_entries_def)
  next
    case (OpRemove p ch)
    with assms(2) remove_subset [OF t(1), of p ch] show ?thesis by (auto simp: all_entries_def)
  next
    case (OpSweep now)
    with assms(2) sweep_subset [OF t(1), of now SIGNAL_READ_TIMEOUT] show ?thesis by (auto simp: all_entries_def)
  qed (use assms(2) in \<open>auto simp: all_entries_def push_line_def downlink_writer_def open_chan_def close_chan_def\<close>)
qed

lemma all_entries_run:
  assumes "signals_inv hmac key s" "all_entries Q s" "list_all (op_fits Q) ops"
  shows "all_entries Q (run_ops hmac key ops s) \<and> signals_inv hmac key (run_ops hmac key ops s)"
  using assms unfolding run_ops_def
  by (induction ops arbitrary: s) (auto simp: all_entries_step signal_step_inv)

lemma spares_fits: "spares m ch ops = list_all (op_fits (\<lambda>k d. d = ch \<longrightarrow> k = m)) ops"
  unfolding spares_def op_fits_def by simp

text \<open>Operations that never register the queue \<open>ch\<close>.\<close>

definition avoids :: "nat \<Rightarrow> signal_op list \<Rightarrow> bool" where
  "avoids ch ops = list_all (op_fits (\<lambda>k d. d \<noteq> ch)) ops"

lemma avoids_spares: "avoids ch ops \<Longrightarrow> spares m ch ops"
  unfolding avoids_def spares_fits by (induction ops) (auto simp: op_fits_def split: signal_op.splits)

lemma remove_gone:
  assumes "all_entries (\<lambda>k d. d = ch \<longrightarrow> k = m) s" "table_ok (reg s)"
  shows "all_entries (\<lambda>k d. d \<noteq> ch) (s \<lparr> reg := remove_if_downlink m ch (reg s) \<rparr>)"
proof (cases "map_of (reg s) m")
  case None
  then have "\<And>e. (m, e) \<notin> set (reg s)" by (metis map_of_eq_None_iff fst_conv image_eqI)
  then show ?thesis using assms(1) None by (fastforce simp: all_entries_def remove_if_downlink_def)
next
  case (Some e)
  then have "\<And>e'. (m, e') \<in> set (reg s) \<Longrightarrow> e' = e" using assms(2) by simp
  then show ?thesis using assms(1) Some
    by (fastforce simp: all_entries_def remove_if_downlink_def AList.delete_eq)
qed

section \<open>Properties\<close>

text \<open>
  no client of the signalling can slow it down or fill it: the \<open>i\<close>-th line a session handles
  comes no sooner than the token bucket allows (twenty lines at once and one more per tenth
  of a second), and no line is longer than 4096 bytes, whatever bytes arrive when and whatever
  the rest of the node does.
\<close>

theorem signal_rate_bounded:
  "case serve_signal_stream hmac key sd w closing my_id c s of (ls, c', s') \<Rightarrow>
     \<forall>i<length ls. 100 * (i + 1) + clock c \<le> 2000 + fst (ls ! i) \<and> length (snd (ls ! i)) \<le> 4096"
proof -
  obtain ch s0 where o1: "open_chan s = (ch, s0)" by fastforce
  obtain ls c1 s1 where l: "serve_loop hmac key sd w my_id ch 0 (session_start (clock c)) c s0 = (ls, c1, s1)"
    by (rule prod_cases3)
  have "last_refill (session_start (clock c)) \<le> clock c" "length (line_buf (session_start (clock c))) \<le> MAX_LINE_LEN"
    by (simp_all add: session_start_def)
  from serve_loop_rate [OF l this] have "\<forall>i<length ls. 100 * (i + 1) + clock c \<le> 2000 + fst (ls ! i) \<and> length (snd (ls ! i)) \<le> 4096"
    by (simp add: session_start_def SIGNAL_BURST_def MAX_LINE_LEN_def)
  then show ?thesis by (simp add: serve_signal_stream_def o1 l)
qed

theorem signal_rate_bounded_witness:
  "case serve_signal_stream (\<lambda>k m. m) [] \<lparr> from_json = \<lambda>_. None, to_json = \<lambda>_. None \<rparr>
      (\<lambda>_. \<lparr> in_read = [], in_wait1 = [], in_wait2 = [], took = 0 \<rparr>) [] ''aa''
      \<lparr> clock = 0, inbox = [(5, [0x0A])], tail = None, writable = True, outbox = [], pending = [] \<rparr> signals_new of
    (ls, c', s') \<Rightarrow> \<not> (\<exists>i. i < length ls \<and> \<not> (100 * (i + 1) \<le> 2000 + fst (ls ! i) \<and> length (snd (ls ! i)) \<le> 4096))"
  using signal_rate_bounded [where hmac = "\<lambda>k m. m" and key = "[]" and sd = "\<lparr> from_json = \<lambda>_. None, to_json = \<lambda>_. None \<rparr>"
      and w = "\<lambda>_. \<lparr> in_read = [], in_wait1 = [], in_wait2 = [], took = 0 \<rparr>" and closing = "[]" and my_id = "''aa''"
      and c = "\<lparr> clock = 0, inbox = [(5, [0x0A])], tail = None, writable = True, outbox = [], pending = [] \<rparr>" and s = signals_new]
  by (simp split: prod.split)

text \<open>
  C32: after a session the registry holds no trace of its connection, and it is always well
  formed. Starting from any history of the node, and with the rest of the node working at every
  wait, a session that ends (in whatever way) leaves a table of at most 1024 distinct peers in
  which every entry carries an owner proof that verifies for its peer, and none points to the
  queue of the session: an invitation can no longer be lost in the queue of a closed connection.
\<close>

theorem session_leaves_no_entry:
  assumes "s = run_ops hmac key history signals_new"
    and "\<And>k. avoids (length (chans s)) (in_read (w k)) \<and> avoids (length (chans s)) (in_wait1 (w k)) \<and>
      avoids (length (chans s)) (in_wait2 (w k))"
    and "avoids (length (chans s)) closing"
  shows "case serve_signal_stream hmac key sd w closing my_id c s of (ls, c', s') \<Rightarrow>
    table_ok (reg s') \<and> length (reg s') \<le> 1024 \<and>
    (\<forall>(p, e)\<in>set (reg s'). verify_p2p_owner_proof hmac key p (owner_proof e) \<and> downlink e \<noteq> length (chans s))"
proof -
  let ?ch = "length (chans s)"
  define s0 where "s0 = snd (open_chan s)"
  have i: "signals_inv hmac key s" using assms(1) signal.inv_run by (simp add: run_ops_def)
  then have i0: "signals_inv hmac key s0"
    using signal_step_inv [OF i, of OpOpen] by (simp add: s0_def)
  have l0: "?ch < length (chans s0)" by (simp add: s0_def open_chan_def)
  have a0: "all_entries (\<lambda>k d. d = ?ch \<longrightarrow> k = my_id) s0"
    using i by (fastforce simp: all_entries_def s0_def open_chan_def signals_inv_def)
  obtain ls c1 s1 where l: "serve_loop hmac key sd w my_id ?ch 0 (session_start (clock c)) c s0 = (ls, c1, s1)"
    by (rule prod_cases3)
  have "spares_all my_id ?ch w" using assms(2) by (simp add: spares_all_def avoids_spares)
  from serve_loop_does [OF this l0, of hmac key sd 0 "session_start (clock c)" c] l
  obtain ops where o1: "list_all (op_fits (\<lambda>k d. d = ?ch \<longrightarrow> k = my_id)) ops" "s1 = run_ops hmac key ops s0"
    by (auto simp: does_def spares_fits)
  define s2 where "s2 = s1 \<lparr> reg := remove_if_downlink my_id ?ch (reg s1) \<rparr>"
  have 1: "all_entries (\<lambda>k d. d = ?ch \<longrightarrow> k = my_id) s1" "signals_inv hmac key s1"
    using all_entries_run [OF i0 a0 o1(1)] o1(2) by simp_all
  have i2: "signals_inv hmac key s2" using signal_step_inv [OF 1(2), of "OpRemove my_id ?ch"] by (simp add: s2_def)
  have "all_entries (\<lambda>k d. d \<noteq> ?ch) s2"
    unfolding s2_def using 1 by (intro remove_gone) (simp_all add: signals_inv_def)
  from all_entries_run [OF i2 this assms(3) [unfolded avoids_def]]
  have 3: "all_entries (\<lambda>k d. d \<noteq> ?ch) (run_ops hmac key closing s2)" "signals_inv hmac key (run_ops hmac key closing s2)"
    by simp_all
  have "signals_inv hmac key (close_chan ?ch (run_ops hmac key closing s2))"
    using signal_step_inv [OF 3(2), of "OpClose ?ch"] by simp
  moreover have "open_chan s = (?ch, s0)" by (simp add: s0_def open_chan_def)
  ultimately show ?thesis using 3(1) l
    by (auto simp: serve_signal_stream_def s2_def [symmetric] signals_inv_def MAX_PEERS_def all_entries_def close_chan_def)
qed

theorem session_leaves_no_entry_witness:
  "case serve_signal_stream (\<lambda>k m. m) [] \<lparr> from_json = \<lambda>_. None, to_json = \<lambda>_. None \<rparr>
      (\<lambda>_. \<lparr> in_read = [OpSweep 1], in_wait1 = [], in_wait2 = [], took = 0 \<rparr>) [OpTouch ''b'' 3] ''aa''
      \<lparr> clock = 0, inbox = [(5, [0x0A])], tail = None, writable = True, outbox = [], pending = [] \<rparr>
      (run_ops (\<lambda>k m. m) [] [OpOpen] signals_new) of
    (ls, c', s') \<Rightarrow> table_ok (reg s') \<and> length (reg s') \<le> 1024 \<and>
      list_all (\<lambda>(p, e). verify_p2p_owner_proof (\<lambda>k m. m) [] p (owner_proof e) \<and>
        downlink e \<noteq> length (chans (run_ops (\<lambda>k m. m) [] [OpOpen] signals_new))) (reg s')"
  using session_leaves_no_entry [OF refl, where hmac = "\<lambda>k m. m" and key = "[]" and history = "[OpOpen]"
      and sd = "\<lparr> from_json = \<lambda>_. None, to_json = \<lambda>_. None \<rparr>"
      and w = "\<lambda>_. \<lparr> in_read = [OpSweep 1], in_wait1 = [], in_wait2 = [], took = 0 \<rparr>" and closing = "[OpTouch ''b'' 3]"
      and my_id = "''aa''" and c = "\<lparr> clock = 0, inbox = [(5, [0x0A])], tail = None, writable = True, outbox = [], pending = [] \<rparr>"]
  by (simp add: list_all_iff avoids_def op_fits_def)

lemma map_of_touch: "map_of (touch a now t) p =
    map_option (\<lambda>e. if p = a then e \<lparr> last_active := now \<rparr> else e) (map_of t p)"
  by (induction t) (auto simp: touch_def)

text \<open>
  an invitation reaches the peer it names: when that peer is registered and its queue has
  room, one line goes to the end of its queue, the message it carries names the sender by the
  identity of its connection, and nothing else changes but the time of the sender's own entry.
  Nothing asks whether the sender ever registered, so its identity needs no owner proof here.
\<close>

theorem invite_reaches_peer:
  assumes "map_of (reg s) b = Some e" "has_room (downlink e) s" "line \<noteq> []"
    and "from_json sd line = Some (Invite b cand)" "to_json sd (Incoming a cand) = Some out"
  shows "handle_line hmac key sd env1 env2 a ch now line s =
    (True, push_line (downlink e) (out @ [0x0A]) (s \<lparr> reg := touch a now (reg s) \<rparr>))"
proof -
  let ?s = "s \<lparr> reg := touch a now (reg s) \<rparr>"
  have "get_peer b (reg ?s) = Some (mapped e, downlink e)"
    using assms(1) by (simp add: get_peer_def map_of_touch)
  moreover have "has_room (downlink e) ?s" using assms(2) by (simp add: has_room_def chan_is_open_def)
  ultimately show ?thesis
    using assms(3-5) by (simp add: handle_line_def pass_on_def forward_def Let_def)
qed

theorem invite_reaches_peer_witness:
  "let e = \<lparr> mapped = SockV4 1 2, last_active = 0, downlink = 0, owner_proof = [] \<rparr>;
       s = \<lparr> reg = [(''bb'', e)], chans = [\<lparr> queue = [], written = [], recv_open = True \<rparr>] \<rparr>;
       sd = \<lparr> from_json = \<lambda>_. Some (Invite ''bb'' []), to_json = \<lambda>_. Some [7] \<rparr>
   in handle_line (\<lambda>k m. m) [] sd id id ''aa'' 5 9 [1] s =
      (True, push_line 0 ([7] @ [0x0A]) (s \<lparr> reg := touch ''aa'' 9 (reg s) \<rparr>))"
proof -
  define e where "e = \<lparr> mapped = SockV4 1 2, last_active = 0, downlink = 0, owner_proof = [] \<rparr>"
  define s where "s = \<lparr> reg = [(''bb'', e)], chans = [\<lparr> queue = [], written = [], recv_open = True \<rparr>] \<rparr>"
  define sd where "sd = \<lparr> from_json = \<lambda>_. Some (Invite ''bb'' []), to_json = \<lambda>_. Some [7] \<rparr>"
  have "handle_line (\<lambda>k m. m) [] sd id id ''aa'' 5 9 [1] s =
      (True, push_line (downlink e) ([7] @ [0x0A]) (s \<lparr> reg := touch ''aa'' 9 (reg s) \<rparr>))"
    by (rule invite_reaches_peer) (simp_all add: s_def e_def sd_def has_room_def chan_is_open_def DOWNLINK_CAP_def)
  then show ?thesis by (simp add: Let_def s_def e_def sd_def)
qed

text \<open>The guard against taking over a peer only ever turns away another spelling of the very
  proof that is registered: both spellings verify.\<close>

lemma mismatch_is_respelling:
  assumes "signals_inv hmac key s" "map_of (reg s) p = Some e" "verify_p2p_owner_proof hmac key p pf"
  shows "fst (register_peer p a pf now ch (reg s)) = Inl ''owner_proof_mismatch'' \<longleftrightarrow> owner_proof e \<noteq> pf"
    and "hex_decode (trim (owner_proof e)) = hex_decode (trim pf)"
proof -
  have "(p, e) \<in> set (reg s)" using assms(2) by (rule map_of_SomeD)
  then have "verify_p2p_owner_proof hmac key p (owner_proof e)" using assms(1) by (auto simp: signals_inv_def)
  then show "hex_decode (trim (owner_proof e)) = hex_decode (trim pf)"
    using assms(3) by (simp add: verify_iff_decode)
  show "fst (register_peer p a pf now ch (reg s)) = Inl ''owner_proof_mismatch'' \<longleftrightarrow> owner_proof e \<noteq> pf"
    using assms(2) by (simp add: register_peer_def)
qed

end
