(* ===== verification/TcpServer.thy ===== *)
theory TcpServer
  imports TcpFrame Handshake Ssrf UdpNodeTable Signal NodeHttp TimedReader
begin

text \<open>
  \<open>hydra-node/src/tcp_server.rs\<close>: the listener with its two limits, the way of one TLS
  connection from the version byte to the target, and the two pumps that relay it. What TLS
  delivers is the timed stream \<open>client\<close>; the keying material of the TLS session, the random
  seed, the outcomes of the handshake's writes and the wall clock of a connection are the record
  \<open>conn_env\<close>; the resolver and the dialling of addresses are arguments as in \<open>Ssrf\<close>.
\<close>

section \<open>Settings\<close>

definition AUTH_TIMEOUT :: nat where "AUTH_TIMEOUT = 10 * 1000"
definition TLS_HANDSHAKE_TIMEOUT :: nat where "TLS_HANDSHAKE_TIMEOUT = 10 * 1000"
definition DEFAULT_IDLE_TIMEOUT_SECS :: nat where "DEFAULT_IDLE_TIMEOUT_SECS = 300"
definition DEFAULT_PER_IP_CONNECTIONS :: nat where "DEFAULT_PER_IP_CONNECTIONS = 256"
definition P2P_SIGNAL_PREFIX :: string where "P2P_SIGNAL_PREFIX = ''@hydra-p2p/''"

definition parse_var :: "nat \<Rightarrow> string option \<Rightarrow> nat option" where
  "parse_var w var = (case var of Some v \<Rightarrow> parse_uint w v | None \<Rightarrow> None)"

definition per_ip_limit :: "string option \<Rightarrow> nat" where
  "per_ip_limit var = (case parse_var 64 var of Some n \<Rightarrow> n | None \<Rightarrow> DEFAULT_PER_IP_CONNECTIONS)"

text \<open>Milliseconds, from a number of seconds between 30 and a day.\<close>

definition idle_timeout :: "string option \<Rightarrow> nat" where
  "idle_timeout var =
    (let secs = (case parse_var 64 var of Some n \<Rightarrow> n | None \<Rightarrow> DEFAULT_IDLE_TIMEOUT_SECS)
     in 1000 * max 30 (min secs 86400))"

definition effective_idle_timeout :: "nat option \<Rightarrow> string option \<Rightarrow> nat" where
  "effective_idle_timeout injected var = (case injected of Some t \<Rightarrow> t | None \<Rightarrow> idle_timeout var)"

definition validate_peer_id :: "string \<Rightarrow> bool" where
  "validate_peer_id p \<longleftrightarrow> p \<noteq> [] \<and> length p \<le> 64 \<and> list_all is_ascii_hexdigit p"

section \<open>The limits of the listener\<close>

definition per_ip_acquire :: "nat \<Rightarrow> ip_addr \<Rightarrow> (ip_addr \<times> nat) list \<Rightarrow> (ip_addr \<times> nat) list option" where
  "per_ip_acquire limit ip t =
    (let cnt = (case map_of t ip of Some n \<Rightarrow> n | None \<Rightarrow> 0) in
     if limit > 0 \<and> cnt \<ge> limit then None else Some (AList.update ip (cnt + 1) t))"

definition per_ip_drop :: "ip_addr \<Rightarrow> (ip_addr \<times> nat) list \<Rightarrow> (ip_addr \<times> nat) list" where
  "per_ip_drop ip t =
    (case map_of t ip of
       Some c \<Rightarrow> if c - 1 = 0 then AList.delete ip t else AList.update ip (c - 1) t
     | None \<Rightarrow> t)"

text \<open>The connections that are served, in the order they were let in, the counts per address
  and the counters of the process.\<close>

record listener =
  live :: "ip_addr list"
  per_ip_map :: "(ip_addr \<times> nat) list"
  stats :: metrics

definition listener_new :: listener where
  "listener_new = \<lparr> live = [], per_ip_map = [], stats = metrics_new \<rparr>"

definition reject_per_ip :: "metrics \<Rightarrow> metrics" where
  "reject_per_ip m = m \<lparr> conn_rejected := conn_rejected m + 1,
     rejected := (rejected m) \<lparr> per_ip := per_ip (rejected m) + 1 \<rparr> \<rparr>"

definition reject_capacity :: "metrics \<Rightarrow> metrics" where
  "reject_capacity m = m \<lparr> conn_rejected := conn_rejected m + 1,
     rejected := (rejected m) \<lparr> capacity := capacity (rejected m) + 1 \<rparr> \<rparr>"

definition reject_tls :: "metrics \<Rightarrow> metrics" where
  "reject_tls m = m \<lparr> conn_rejected := conn_rejected m + 1,
     rejected := (rejected m) \<lparr> tls := tls (rejected m) + 1 \<rparr> \<rparr>"

definition reject_auth :: "metrics \<Rightarrow> metrics" where
  "reject_auth m = m \<lparr> rejected := (rejected m) \<lparr> auth := auth (rejected m) + 1 \<rparr> \<rparr>"

definition accept_conn :: "nat \<Rightarrow> nat \<Rightarrow> ip_addr \<Rightarrow> listener \<Rightarrow> listener" where
  "accept_conn limit max_connections ip l =
    (let m = (stats l) \<lparr> conn_total := conn_total (stats l) + 1 \<rparr> in
     case per_ip_acquire limit ip (per_ip_map l) of
       None \<Rightarrow> l \<lparr> stats := reject_per_ip m \<rparr>
     | Some t \<Rightarrow>
         if length (live l) \<ge> max max_connections 1
         then l \<lparr> per_ip_map := per_ip_drop ip t, stats := reject_capacity m \<rparr>
         else l \<lparr> live := live l @ [ip], per_ip_map := t, stats := active_enter m \<rparr>)"

text \<open>The end of the \<open>i\<close>-th connection gives everything back.\<close>

definition end_conn :: "nat \<Rightarrow> listener \<Rightarrow> listener" where
  "end_conn i l =
    (if i < length (live l) then
       l \<lparr> live := take i (live l) @ drop (Suc i) (live l),
          per_ip_map := per_ip_drop (live l ! i) (per_ip_map l),
          stats := active_drop (stats l) \<rparr>
     else l)"

text \<open>A connection ends refused by TLS, refused by the authentication, or in another way.\<close>

datatype listener_op = Arrive ip_addr | TlsRefuses nat | AuthRefuses nat | Ends nat

fun listener_step :: "nat \<Rightarrow> nat \<Rightarrow> listener_op \<Rightarrow> listener \<Rightarrow> listener" where
  "listener_step limit maxc (Arrive ip) l = accept_conn limit maxc ip l"
| "listener_step limit maxc (TlsRefuses i) l =
    (if i < length (live l) then end_conn i (l \<lparr> stats := reject_tls (stats l) \<rparr>) else l)"
| "listener_step limit maxc (AuthRefuses i) l =
    (if i < length (live l) then end_conn i (l \<lparr> stats := reject_auth (stats l) \<rparr>) else l)"
| "listener_step limit maxc (Ends i) l = end_conn i l"

section \<open>The two pumps\<close>

text \<open>What a pump has written, why it ended and when; every end closes its writing side.\<close>

datatype pump_end = ByEof | ByPeer | ByAge | ByIdle | ByError

record pump_side =
  passed :: "byte list"
  total :: nat
  ended :: "(nat \<times> pump_end) option"

text \<open>Both pumps share the time of the last read and the mark of a failure.\<close>

record pumps =
  to_target :: pump_side
  to_client :: pump_side
  last_active_ms :: nat
  peer_done :: bool


definition side_of :: "bool \<Rightarrow> pumps \<Rightarrow> pump_side" where
  "side_of up p = (if up then to_target p else to_client p)"

definition set_side :: "bool \<Rightarrow> pump_side \<Rightarrow> pumps \<Rightarrow> pumps" where
  "set_side up x p = (if up then p \<lparr> to_target := x \<rparr> else p \<lparr> to_client := x \<rparr>)"

definition end_side :: "bool \<Rightarrow> nat \<Rightarrow> pump_end \<Rightarrow> pumps \<Rightarrow> pumps" where
  "end_side up now why p =
    (let p = set_side up ((side_of up p) \<lparr> ended := Some (now, why) \<rparr>) p
     in if why = ByError then p \<lparr> peer_done := True \<rparr> else p)"




text \<open>When both have ended the bytes are counted; a pump that failed counts none.\<close>

definition side_total :: "pump_side \<Rightarrow> u64" where
  "side_total x = (case ended x of Some (_, ByError) \<Rightarrow> 0 | _ \<Rightarrow> of_nat (total x))"

definition count_relay :: "pumps \<Rightarrow> metrics \<Rightarrow> metrics" where
  "count_relay p m = m \<lparr> bytes_in := bytes_in m + side_total (to_target p),
     bytes_out := bytes_out m + side_total (to_client p) \<rparr>"

section \<open>The invariant of the listener\<close>

definition live_count :: "ip_addr \<Rightarrow> ip_addr list \<Rightarrow> nat" where
  "live_count ip xs = length (filter (\<lambda>x. x = ip) xs)"

definition listener_inv :: "nat \<Rightarrow> nat \<Rightarrow> listener \<Rightarrow> bool" where
  "listener_inv limit maxc l \<longleftrightarrow> table_ok (per_ip_map l) \<and>
    (\<forall>ip. map_of (per_ip_map l) ip = (if live_count ip (live l) = 0 then None else Some (live_count ip (live l)))) \<and>
    length (live l) \<le> max maxc 1 \<and>
    (limit > 0 \<longrightarrow> (\<forall>ip. live_count ip (live l) \<le> limit)) \<and>
    conn_active (stats l) = of_nat (length (live l)) \<and>
    conn_rejected (stats l) = per_ip (rejected (stats l)) + capacity (rejected (stats l)) + tls (rejected (stats l))"

lemma live_count_simps [simp]:
  "live_count ip [] = 0"
  "live_count ip (xs @ ys) = live_count ip xs + live_count ip ys"
  "live_count ip (x # xs) = (if x = ip then 1 else 0) + live_count ip xs"
  by (simp_all add: live_count_def)

lemma live_count_remove:
  assumes "i < length xs"
  shows "live_count ip (take i xs @ drop (Suc i) xs) = live_count ip xs - (if xs ! i = ip then 1 else 0)"
    and "live_count (xs ! i) xs > 0"
proof -
  have e: "xs = take i xs @ xs ! i # drop (Suc i) xs" using assms by (rule id_take_nth_drop)
  then have "live_count ip xs = live_count ip (take i xs) + ((if xs ! i = ip then 1 else 0) + live_count ip (drop (Suc i) xs))" for ip
    by (metis live_count_simps(2,3))
  then show "live_count ip (take i xs @ drop (Suc i) xs) = live_count ip xs - (if xs ! i = ip then 1 else 0)"
    and "live_count (xs ! i) xs > 0" by simp_all
qed

lemma map_of_per_ip_drop:
  assumes "table_ok t"
  shows "table_ok (per_ip_drop ip t) \<and> map_of (per_ip_drop ip t) x =
    (if x = ip then (case map_of t ip of Some c \<Rightarrow> if c - 1 = 0 then None else Some (c - 1) | None \<Rightarrow> None) else map_of t x)"
  using assms
  by (auto simp: per_ip_drop_def update_conv' distinct_update table_ok_delete AList.delete_conv' split: option.split)

lemma map_of_per_ip_acquire:
  assumes "per_ip_acquire limit ip t = Some t'" "table_ok t"
  shows "table_ok t' \<and> map_of t' x = (if x = ip then Some ((case map_of t ip of Some n \<Rightarrow> n | None \<Rightarrow> 0) + 1) else map_of t x)"
  using assms by (auto simp: per_ip_acquire_def Let_def update_conv' distinct_update split: if_splits)

lemma end_conn_inv:
  assumes "listener_inv limit maxc l" shows "listener_inv limit maxc (end_conn i l)"
proof (cases "i < length (live l)")
  case True
  let ?xs = "take i (live l) @ drop (Suc i) (live l)"
  note inv = assms [unfolded listener_inv_def]
  note cnt = live_count_remove [OF True]
  have len: "length ?xs = length (live l) - 1" using True by simp
  have e: "end_conn i l = l \<lparr> live := ?xs, per_ip_map := per_ip_drop (live l ! i) (per_ip_map l),
      stats := active_drop (stats l) \<rparr>" using True by (simp add: end_conn_def)
  have m: "map_of (per_ip_drop (live l ! i) (per_ip_map l)) ip =
      (if live_count ip ?xs = 0 then None else Some (live_count ip ?xs))" for ip
    using inv cnt(2) map_of_per_ip_drop [of "per_ip_map l" "live l ! i" ip] unfolding cnt(1) [of ip] by auto
  have "live_count ip ?xs \<le> limit" if "limit > 0" for ip
  proof -
    have "live_count ip ?xs \<le> live_count ip (live l)" unfolding cnt(1) by simp
    then show ?thesis using inv that le_trans by blast
  qed
  moreover have "(of_nat (length ?xs) :: u64) = of_nat (length (live l)) - 1"
    unfolding len using True by (simp add: of_nat_diff)
  moreover have "table_ok (per_ip_drop (live l ! i) (per_ip_map l))"
    using inv map_of_per_ip_drop by blast
  moreover have "length ?xs \<le> max maxc 1" using inv unfolding len by linarith
  ultimately show ?thesis using inv unfolding e listener_inv_def
    by (simp add: m active_drop_def del: live_count_simps length_append)
qed (use assms in \<open>simp add: end_conn_def\<close>)


lemma per_ip_acquire_drop:
  assumes "per_ip_acquire limit ip t = Some t'" "table_ok t" "\<And>n. map_of t ip = Some n \<Longrightarrow> n > 0"
  shows "table_ok (per_ip_drop ip t') \<and> map_of (per_ip_drop ip t') = map_of t"
proof -
  note a = map_of_per_ip_acquire [OF assms(1,2)]
  have "map_of (per_ip_drop ip t') x = map_of t x" for x
    using a [of x] a [of ip] map_of_per_ip_drop [of t' ip x] assms(3) by (auto split: option.splits)
  moreover have "table_ok (per_ip_drop ip t')" using a map_of_per_ip_drop [of t' ip] by blast
  ultimately show ?thesis by (simp add: fun_eq_iff)
qed

lemma accept_conn_inv:
  assumes "listener_inv limit maxc l" shows "listener_inv limit maxc (accept_conn limit maxc ip l)"
proof (cases "per_ip_acquire limit ip (per_ip_map l)")
  case None
  then show ?thesis using assms by (simp add: accept_conn_def Let_def listener_inv_def reject_per_ip_def)
next
  case (Some t)
  note inv = assms [unfolded listener_inv_def]
  show ?thesis
  proof (cases "length (live l) \<ge> max maxc 1")
    case True
    have "table_ok (per_ip_drop ip t) \<and> map_of (per_ip_drop ip t) = map_of (per_ip_map l)"
    proof (rule per_ip_acquire_drop [OF Some])
      show "table_ok (per_ip_map l)" using inv by blast
      have "map_of (per_ip_map l) ip = (if live_count ip (live l) = 0 then None else Some (live_count ip (live l)))"
        using inv by blast
      then show "\<And>n. map_of (per_ip_map l) ip = Some n \<Longrightarrow> n > 0" by (simp only: split: if_splits) auto
    qed
    then show ?thesis using inv Some True
      by (simp add: accept_conn_def Let_def listener_inv_def reject_capacity_def)
  next
    case False
    note a = map_of_per_ip_acquire [OF Some]
    have "limit > 0 \<Longrightarrow> live_count ip (live l) < limit"
      using Some inv by (auto simp: per_ip_acquire_def Let_def split: if_splits)
    then have "limit > 0 \<Longrightarrow> live_count x (live l @ [ip]) \<le> limit" for x
      using inv by (auto simp: Suc_le_eq)
    moreover have "map_of t x = (if live_count x (live l @ [ip]) = 0 then None else Some (live_count x (live l @ [ip])))" for x
      using a [of x] inv by auto
    moreover have "table_ok t" using a inv by blast
    moreover have "length (live l @ [ip]) \<le> max maxc 1" using False unfolding length_append list.size by linarith
    ultimately show ?thesis using inv Some False
      by (simp add: accept_conn_def Let_def listener_inv_def active_enter_def add.commute
          del: live_count_simps max.bounded_iff)
  qed
qed

lemma listener_step_inv: "listener_inv limit maxc l \<Longrightarrow> listener_inv limit maxc (listener_step limit maxc op l)"
proof (cases op)
  case (TlsRefuses i)
  assume "listener_inv limit maxc l"
  then have "listener_inv limit maxc (l \<lparr> stats := reject_tls (stats l) \<rparr>)"
    by (simp add: listener_inv_def reject_tls_def)
  then show ?thesis using \<open>listener_inv limit maxc l\<close> TlsRefuses by (simp add: end_conn_inv)
next
  case (AuthRefuses i)
  assume "listener_inv limit maxc l"
  then have "listener_inv limit maxc (l \<lparr> stats := reject_auth (stats l) \<rparr>)"
    by (simp add: listener_inv_def reject_auth_def)
  then show ?thesis using \<open>listener_inv limit maxc l\<close> AuthRefuses by (simp add: end_conn_inv)
qed (simp_all add: accept_conn_inv end_conn_inv)

interpretation listener: guarded_table listener_new "listener_step limit maxc" "listener_inv limit maxc" for limit maxc
  by unfold_locales
     (simp add: listener_inv_def listener_new_def metrics_new_def, rule listener_step_inv)

section \<open>One connection\<close>

record 'h node_cfg =
  mode :: auth_mode
  auth_key :: "byte list"
  fingerprint :: "byte list"
  crypt :: "'h crypto"
  p2p_signal :: bool
  fallback_page :: bool
  page :: string
  idle :: nat

record conn_env =
  exporter :: "byte list option"
  seed :: "byte list"
  hs_io :: "bool \<times> bool"
  wall :: nat

text \<open>What becomes of a connection: it is closed, it becomes a signalling session of a peer or a
  UDP relay, or it is relayed to a target.\<close>

datatype 's service = Closed | SignalSession string | UdpSession | Relaying string 's

definition give_page :: "'h node_cfg \<Rightarrow> conn_env \<Rightarrow> client \<Rightarrow> client" where
  "give_page cfg e c =
    (if fallback_page cfg
     then c \<lparr> outbox := snd (http_serve_fallback (writable c) (page cfg) (wall e) (outbox c)) \<rparr> else c)"

definition reply_to :: "byte \<Rightarrow> client \<Rightarrow> bool \<times> client" where
  "reply_to code c =
    (case write_reply (writable c) (outbox c) code of
       Inr out \<Rightarrow> (True, c \<lparr> outbox := out \<rparr>)
     | Inl _ \<Rightarrow> (False, c))"

definition hs_starved :: "byte list res \<times> byte list \<Rightarrow> bool" where
  "hs_starved r = (fst r \<in> {Inl (ProtocolError ''recv msg1''), Inl (ProtocolError ''recv confirm_c'')})"

definition hs_reader :: "'h node_cfg \<Rightarrow> conn_env \<Rightarrow> byte list \<Rightarrow> byte list \<Rightarrow> (byte list res \<times> byte list) \<times> byte list" where
  "hs_reader cfg e ex recv =
    (case server_side (crypt cfg) (seed e) (hs_io e) recv (auth_key cfg) (fingerprint cfg) ex of
       (r, sent, rest) \<Rightarrow> ((r, sent), rest))"

definition target_starved :: "string res \<Rightarrow> bool" where
  "target_starved r = (r \<in> {Inl (ProtocolError ''read target len''), Inl (ProtocolError ''read target'')})"

definition target_reader :: "byte list \<Rightarrow> string res \<times> byte list" where
  "target_reader recv = (case read_target recv of Inl e \<Rightarrow> (Inl e, []) | Inr (s, rest) \<Rightarrow> (Inr s, rest))"

text \<open>Steps 5 to 7: the reserved prefixes, the connection to the target and the reply.\<close>

definition serve_target ::
  "'h node_cfg \<Rightarrow> bool \<Rightarrow> dns_answer \<Rightarrow> 's dialer \<Rightarrow> bool \<Rightarrow> string \<Rightarrow> client \<Rightarrow> metrics \<Rightarrow>
   's service \<times> client \<times> metrics" where
  "serve_target cfg allowed answer dial tie tgt c m =
    (case (if p2p_signal cfg then strip_prefix P2P_SIGNAL_PREFIX tgt else None) of
       Some peer_id \<Rightarrow>
         if \<not> validate_peer_id peer_id then (Closed, c, m)
         else (case reply_to REPLY_OK c of
                 (True, c1) \<Rightarrow> (SignalSession peer_id, c1, m)
               | (False, c1) \<Rightarrow> (Closed, c1, m))
     | None \<Rightarrow>
         if strip_prefix UDP_RELAY_PREFIX tgt \<noteq> None then
           (case reply_to REPLY_OK c of
              (True, c1) \<Rightarrow> (UdpSession, c1, m)
            | (False, c1) \<Rightarrow> (Closed, c1, m))
         else
           (case resolve_and_connect allowed answer dial tie (clock c) tgt of
              (_, now, Inr s) \<Rightarrow>
                (case reply_to REPLY_OK (c \<lparr> clock := now \<rparr>) of
                   (True, c1) \<Rightarrow> (Relaying tgt s, c1, m \<lparr> target_ok := target_ok m + 1 \<rparr>)
                 | (False, c1) \<Rightarrow> (Closed, c1, m \<lparr> target_ok := target_ok m + 1 \<rparr>))
            | (_, now, Inl (code, _)) \<Rightarrow>
                (Closed,
                 snd (reply_to (if code = ERR_DNS_FAIL then REPLY_DNS_FAIL else REPLY_TARGET_FAIL) (c \<lparr> clock := now \<rparr>)),
                 m \<lparr> target_fail := target_fail m + 1 \<rparr>)))"

definition handle_tls_stream ::
  "'h node_cfg \<Rightarrow> conn_env \<Rightarrow> bool \<Rightarrow> dns_answer \<Rightarrow> 's dialer \<Rightarrow> bool \<Rightarrow> client \<Rightarrow> metrics \<Rightarrow>
   's service \<times> client \<times> metrics" where
  "handle_tls_stream cfg e allowed answer dial tie c m =
    (case read_exact_by (clock c + AUTH_TIMEOUT) 1 c of (v, c1) \<Rightarrow>
     if v \<noteq> Got [HANDSHAKE_VERSION_BYTE] \<or> \<not> accepts_v3 (mode cfg)
     then (Closed, give_page cfg e c1, reject_auth m)
     else case exporter e of
       None \<Rightarrow> (Closed, c1, m)
     | Some ex \<Rightarrow>
         (case run_by (clock c1 + AUTH_TIMEOUT) (hs_reader cfg e ex) hs_starved c1 of
            ((r, sent), late, c2) \<Rightarrow>
              let c2 = c2 \<lparr> outbox := outbox c2 @ sent \<rparr> in
              if late then (Closed, c2, m)
              else (case r of
                 Inl _ \<Rightarrow> (Closed, c2, reject_auth m)
               | Inr _ \<Rightarrow>
                   let m = m \<lparr> hs_noise := observe (real (clock c2 - clock c1) / 1000) (hs_noise m) \<rparr> in
                   (case run_by (clock c2 + idle cfg) target_reader target_starved c2 of
                      (Inr tgt, False, c3) \<Rightarrow> serve_target cfg allowed answer dial tie tgt c3 m
                    | (_, _, c3) \<Rightarrow> (Closed, give_page cfg e c3, m)))))"


section \<open>What the steps consume\<close>

lemma reply_to_outbox: "reply_to code c = (ok, c') \<Longrightarrow>
    inbox c' = inbox c \<and> clock c' = clock c \<and> writable c' = writable c \<and> ok = writable c \<and>
    outbox c' = (if writable c then outbox c @ encode_reply code else outbox c)"
  by (auto simp: reply_to_def write_reply_def split: sum.splits if_splits)

text \<open>The bytes of a client that completes the handshake of this connection.\<close>

definition confirms :: "'h node_cfg \<Rightarrow> conn_env \<Rightarrow> byte list \<Rightarrow> byte list \<Rightarrow> byte list \<Rightarrow> bool" where
  "confirms cfg e m1 cc sent \<longleftrightarrow>
    (\<exists>ex r r1 r2 m2 cs. exporter e = Some ex \<and> length m1 = 48 \<and> length (auth_key cfg) = 32 \<and>
       noise_build (crypt cfg) (auth_key cfg) False (seed e) = Some r \<and> noise_read (crypt cfg) r m1 = Some r1 \<and>
       noise_write (crypt cfg) r1 = Some (r2, m2) \<and>
       derive_confirm (crypt cfg) (noise_hash (crypt cfg) r2) (fingerprint cfg) ex INFO_C2S = Inr cc \<and>
       derive_confirm (crypt cfg) (noise_hash (crypt cfg) r2) (fingerprint cfg) ex INFO_S2C = Inr cs \<and>
       sent = m2 @ cs)"

lemma hs_phase:
  assumes "exporter e = Some ex" "run_by dl (hs_reader cfg e ex) hs_starved c = ((r, sent), late, c')"
  shows "outbox c' = outbox c \<and> writable c' = writable c \<and>
    (case r of
       Inr hh \<Rightarrow> \<not> late \<and> (\<exists>m1 cc. arrivals c = m1 @ cc @ arrivals c' \<and> confirms cfg e m1 cc sent)
     | Inl _ \<Rightarrow> sent = [] \<or> (\<exists>r1 r2. noise_write (crypt cfg) r1 = Some (r2, sent)))"
proof -
  obtain r' sent' rest where s: "server_side (crypt cfg) (seed e) (hs_io e) (arrived dl c) (auth_key cfg) (fingerprint cfg) ex = (r', sent', rest)"
    by (rule prod_cases3)
  then have f: "hs_reader cfg e ex (arrived dl c) = ((r', sent'), rest)" by (simp add: hs_reader_def)
  then have e: "r = r'" "sent = sent'" "outbox c' = outbox c" "writable c' = writable c"
    using assms(2) by (auto simp: run_by_def Let_def split: if_splits)
  note res = server_side_result [where cr = "crypt cfg" and seed = "seed e" and io = "hs_io e" and recv = "arrived dl c"
      and psk = "auth_key cfg" and fp = "fingerprint cfg" and ex = ex, unfolded s]
  show ?thesis
  proof (cases r)
    case (Inl x)
    then show ?thesis using e res by simp
  next
    case (Inr hh)
    then obtain m1 cc r0 r1 r2 m2 cs where a: "arrived dl c = m1 @ cc @ rest" "length m1 = 48" "length (auth_key cfg) = 32"
      "noise_build (crypt cfg) (auth_key cfg) False (seed e) = Some r0" "noise_read (crypt cfg) r0 m1 = Some r1"
      "noise_write (crypt cfg) r1 = Some (r2, m2)" "hh = noise_hash (crypt cfg) r2"
      "derive_confirm (crypt cfg) hh (fingerprint cfg) ex INFO_C2S = Inr cc"
      "derive_confirm (crypt cfg) hh (fingerprint cfg) ex INFO_S2C = Inr cs" "sent = m2 @ cs"
      using res e by auto
    have d: "\<not> late \<and> arrivals c' = rest @ later dl c"
      using run_by_done [OF assms(2) f, of "m1 @ cc"] a(1) Inr by (auto simp: hs_starved_def)
    have "confirms cfg e m1 cc sent" unfolding confirms_def using assms(1) a by blast
    moreover have "arrivals c = m1 @ cc @ arrivals c'" using arrived_later [of c dl] a(1) d by simp
    ultimately have "\<exists>m1 cc. arrivals c = m1 @ cc @ arrivals c' \<and> confirms cfg e m1 cc sent" by blast
    then show ?thesis using d e(3,4) unfolding Inr sum.case by blast
  qed
qed


lemma target_phase:
  assumes "run_by dl target_reader target_starved c = (Inr tgt, late, c')"
  shows "\<not> late \<and> outbox c' = outbox c \<and> writable c' = writable c \<and>
    (\<exists>frame. is_str tgt \<and> encode_target tgt = Inr frame \<and> arrivals c = frame @ arrivals c')"
proof (cases "read_target (arrived dl c)")
  case (Inl x)
  then show ?thesis using assms by (auto simp: run_by_def Let_def target_reader_def split: if_splits)
next
  case (Inr p)
  obtain s rest where p: "p = (s, rest)" by fastforce
  from encode_read_target [OF Inr [unfolded p]] obtain frame where
    f: "is_str s" "encode_target s = Inr frame" "arrived dl c = frame @ rest" by blast
  have "target_reader (arrived dl c) = (Inr s, rest)" using Inr p by (simp add: target_reader_def)
  from run_by_done [OF assms this f(3)] have "tgt = s" "\<not> late \<and> outbox c' = outbox c \<and> writable c' = writable c"
    "arrivals c' = rest @ later dl c" by (auto simp: target_starved_def)
  moreover from this(3) have "arrivals c = frame @ arrivals c'" using arrived_later [of c dl] f(3) by simp
  ultimately show ?thesis using f(1,2) by blast
qed

text \<open>What a caller that did not confirm may have been sent.\<close>

definition prober_sees :: "'h node_cfg \<Rightarrow> conn_env \<Rightarrow> byte list \<Rightarrow> bool" where
  "prober_sees cfg e bs \<longleftrightarrow> bs = [] \<or>
    (fallback_page cfg \<and> bs = as_bytes (fallback_response (page cfg) (wall e))) \<or>
    (\<exists>r1 r2. noise_write (crypt cfg) r1 = Some (r2, bs))"

lemma give_page_outbox: "\<exists>bs. outbox (give_page cfg e c) = outbox c @ bs \<and>
    (bs = [] \<or> (fallback_page cfg \<and> bs = as_bytes (fallback_response (page cfg) (wall e))))"
  by (auto simp: give_page_def http_serve_fallback_def)

text \<open>A relay goes to the named target.\<close>

definition serves :: "'s service \<Rightarrow> string \<Rightarrow> bool" where
  "serves sv tgt = (case sv of Relaying t _ \<Rightarrow> t = tgt | _ \<Rightarrow> True)"

text \<open>
  C3: a node serves nobody who has not proved the key. A connection is only given to a
  target, to a UDP relay or to the signalling if it sent the version byte, a first message the
  Noise responder accepts, the confirmation of exactly this handshake (which binds the key, the
  certificate and this TLS session) and then a well-formed address frame. Everybody else is
  closed after at most the second Noise message or the page, and changes nothing but the count
  of refusals.
\<close>

theorem node_serves_only_confirmed:
  "case handle_tls_stream cfg e allowed answer dial tie c m of (sv, c', m') \<Rightarrow>
     (\<exists>m1 cc sent rest. accepts_v3 (mode cfg) \<and> confirms cfg e m1 cc sent \<and>
        arrivals c = HANDSHAKE_VERSION_BYTE # m1 @ cc @ rest \<and>
        (sv = Closed \<or> (\<exists>tgt frame. encode_target tgt = Inr frame \<and> rest = frame @ arrivals c' \<and> serves sv tgt))) \<or>
     (sv = Closed \<and> (m' = m \<or> m' = reject_auth m) \<and>
      (\<exists>bs. outbox c' = outbox c @ bs \<and> prober_sees cfg e bs))"
proof -
  obtain v c1 where v: "read_exact_by (clock c + AUTH_TIMEOUT) 1 c = (v, c1)" by fastforce
  have o1: "outbox c1 = outbox c" using read_exact_by_keeps [OF v] by simp
  show ?thesis
  proof (cases "v = Got [HANDSHAKE_VERSION_BYTE] \<and> accepts_v3 (mode cfg) \<and> exporter e \<noteq> None")
    case False
    then have "\<exists>c2 m'. handle_tls_stream cfg e allowed answer dial tie c m = (Closed, c2, m') \<and>
        (c2 = c1 \<or> c2 = give_page cfg e c1) \<and> (m' = m \<or> m' = reject_auth m)"
      by (cases "exporter e") (auto simp: handle_tls_stream_def v simp del: One_nat_def)
    then show ?thesis using give_page_outbox [of cfg e c1] o1 by (fastforce simp: prober_sees_def)
  next
    case True
    then obtain ex where ex: "exporter e = Some ex" by blast
    obtain r sent late c2 where h: "run_by (clock c1 + AUTH_TIMEOUT) (hs_reader cfg e ex) hs_starved c1 = ((r, sent), late, c2)"
      by (metis surj_pair)
    note hp = hs_phase [OF ex h]
    have arr: "arrivals c = HANDSHAKE_VERSION_BYTE # arrivals c1"
      using read_exact_by_arrivals [of "clock c + AUTH_TIMEOUT" 1 c "[HANDSHAKE_VERSION_BYTE]" c1] v True by simp
    show ?thesis
    proof (cases r)
      case (Inl x)
      then have "handle_tls_stream cfg e allowed answer dial tie c m =
          (Closed, c2 \<lparr> outbox := outbox c2 @ sent \<rparr>, if late then m else reject_auth m)"
        using True by (simp add: handle_tls_stream_def v ex h Let_def del: One_nat_def)
      then show ?thesis using hp o1 Inl by (auto simp: prober_sees_def)
    next
      case (Inr hh)
      then obtain m1 cc where cf: "arrivals c1 = m1 @ cc @ arrivals c2" "confirms cfg e m1 cc sent" "\<not> late"
        using hp by auto
      define c2' where "c2' = c2 \<lparr> outbox := outbox c2 @ sent \<rparr>"
      define m2 where "m2 = m \<lparr> hs_noise := observe (real (clock c2 - clock c1) / 1000) (hs_noise m) \<rparr>"
      obtain r2 late2 c3 where t: "run_by (clock c2' + idle cfg) target_reader target_starved c2' = (r2, late2, c3)"
        by (rule prod_cases3)
      have e: "handle_tls_stream cfg e allowed answer dial tie c m =
          (case (r2, late2) of (Inr tgt, False) \<Rightarrow> serve_target cfg allowed answer dial tie tgt c3 m2
           | _ \<Rightarrow> (Closed, give_page cfg e c3, m2))"
        using True cf(3) Inr t
        by (auto simp: handle_tls_stream_def v ex h Let_def c2'_def m2_def simp del: One_nat_def split: sum.split bool.split)
      obtain sv c' m' where res: "handle_tls_stream cfg e allowed answer dial tie c m = (sv, c', m')"
        by (rule prod_cases3)
      have "\<exists>tgt frame. encode_target tgt = Inr frame \<and> arrivals c2 = frame @ arrivals c' \<and> serves sv tgt"
        if "sv \<noteq> Closed"
      proof -
        from that res e obtain tgt where tgt: "r2 = Inr tgt" "serve_target cfg allowed answer dial tie tgt c3 m2 = (sv, c', m')"
          by (auto split: sum.splits bool.splits)
        have "arrivals c2' = arrivals c2" by (simp add: c2'_def arrivals_def)
        moreover have "inbox c' = inbox c3 \<and> serves sv tgt"
          using tgt(2) that
          by (auto simp: serve_target_def serves_def dest!: reply_to_outbox split: option.splits if_splits prod.splits bool.splits sum.splits)
        ultimately show ?thesis using target_phase [OF t [unfolded tgt(1)]] by (auto simp: arrivals_def)
      qed
      moreover have "arrivals c = HANDSHAKE_VERSION_BYTE # m1 @ cc @ arrivals c2" using arr cf(1) by simp
      ultimately show ?thesis unfolding res prod.case using True cf(2)
        by (intro disjI1 exI [of _ m1] exI [of _ cc] exI [of _ sent] exI [of _ "arrivals c2"]) blast
    qed
  qed
qed


text \<open>
  C30: the limits of the listener hold at every moment. After any arrivals and ends of
  connections in any order, at most \<open>max_connections\<close> are served, at most \<open>limit\<close> from one
  address unless the limit is off, the table of addresses holds exactly the addresses with a live
  connection and their exact number (so nothing leaks when a connection is refused or ends),
  and the gauge of active connections is their number.
\<close>

theorem listener_limits:
  "let l = fold (listener_step limit maxc) ops listener_new in
     length (live l) \<le> max maxc 1 \<and> (limit = 0 \<or> live_count ip (live l) \<le> limit) \<and>
     table_ok (per_ip_map l) \<and>
     map_of (per_ip_map l) ip = (if live_count ip (live l) = 0 then None else Some (live_count ip (live l))) \<and>
     conn_active (stats l) = of_nat (length (live l))"
  using listener.inv_run [of limit maxc ops] by (auto simp: listener_inv_def Let_def)

text \<open>A refusal by the authentication is counted under its reason but not in the total, so the
  total is not the sum of the four reasons.\<close>

lemma auth_refusals_not_in_total:
  "let m = stats (fold (listener_step 0 1) [Arrive ip, AuthRefuses 0] listener_new) in
     conn_rejected m = 0 \<and> auth (rejected m) = 1"
  by (simp add: accept_conn_def Let_def per_ip_acquire_def listener_new_def metrics_new_def end_conn_def
      reject_auth_def active_enter_def active_drop_def)

text \<open>
  Client and node understand each other. If both hold the same key, certificate
  fingerprint and exporter and the bytes the client writes arrive in time, the client's handshake
  with the address frame sent along completes, and the node goes on to exactly the target the
  client named, with everything the client sends afterwards still to be relayed, having written
  exactly the two messages on which the client finished.
\<close>

lemma node_follows_client:
  assumes "length (auth_key cfg) = 32" "noise_correct (crypt cfg) (auth_key cfg) seed_c (seed e)" "hkdf_total (crypt cfg)"
    and "exporter e = Some ex" "hs_io e = (True, True)" "accepts_v3 (mode cfg)"
    and "is_str tgt" "encode_target tgt = Inr frame" "AUTH_TIMEOUT \<le> idle cfg"
  shows "\<exists>hh m1 m2 cc cs.
    (\<forall>more_s. client_side_with_payload (crypt cfg) seed_c (True, True) (m2 @ cs @ more_s) (auth_key cfg) (fingerprint cfg) ex (Some frame)
      = (Inr hh, HANDSHAKE_VERSION_BYTE # m1 @ cc @ frame, more_s)) \<and>
    (\<forall>c extra m. prompt_by (clock c + AUTH_TIMEOUT) c \<and> arrivals c = HANDSHAKE_VERSION_BYTE # m1 @ cc @ frame @ extra \<longrightarrow>
      (\<exists>c' m'. handle_tls_stream cfg e allowed answer dial tie c m = serve_target cfg allowed answer dial tie tgt c' m' \<and>
        arrivals c' = extra \<and> outbox c' = outbox c @ m2 @ cs \<and> writable c' = writable c))"
proof -
  from honest_handshake [OF assms(1-3), where payload = frame and fp = "fingerprint cfg" and ex = ex]
  obtain hh m1 m2 cc cs where
    cl: "\<And>more_s. client_side_with_payload (crypt cfg) seed_c (True, True) (m2 @ cs @ more_s) (auth_key cfg) (fingerprint cfg) ex (Some frame)
      = (Inr hh, HANDSHAKE_VERSION_BYTE # m1 @ cc @ frame, more_s)"
    and svm: "\<And>extra. server_side (crypt cfg) (seed e) (True, True) (m1 @ cc @ frame @ extra) (auth_key cfg) (fingerprint cfg) ex
      = (Inr hh, m2 @ cs, frame @ extra)"
    by blast
  have "\<exists>c' m'. handle_tls_stream cfg e allowed answer dial tie c m = serve_target cfg allowed answer dial tie tgt c' m' \<and>
        arrivals c' = extra \<and> outbox c' = outbox c @ m2 @ cs \<and> writable c' = writable c"
    if pr: "prompt_by (clock c + AUTH_TIMEOUT) c" and ar: "arrivals c = HANDSHAKE_VERSION_BYTE # m1 @ cc @ frame @ extra" for c extra m
  proof -
    let ?dl = "clock c + AUTH_TIMEOUT"
    obtain c1 where c1: "read_exact_by ?dl 1 c = (Got [HANDSHAKE_VERSION_BYTE], c1)" "arrivals c1 = m1 @ cc @ frame @ extra"
      "list_all (\<lambda>(t, _). t \<le> ?dl) (inbox c1)" "clock c \<le> clock c1" "outbox c1 = outbox c" "writable c1 = writable c"
      using read_version [OF pr ar] by blast
    have t1: "list_all (\<lambda>(t, _). t \<le> clock c1 + AUTH_TIMEOUT) (inbox c1)"
      using c1(3,4) by (auto simp: list_all_iff)
    have f1: "hs_reader cfg e ex (arrived (clock c1 + AUTH_TIMEOUT) c1) = ((Inr hh, m2 @ cs), frame @ extra)"
      using arrived_all [OF t1] c1(2) svm assms(5) by (simp add: hs_reader_def)
    define c2 where "c2 = consume (length (m1 @ cc)) c1"
    have h: "run_by (clock c1 + AUTH_TIMEOUT) (hs_reader cfg e ex) hs_starved c1 = ((Inr hh, m2 @ cs), False, c2)"
      using f1 arrived_all [OF t1] c1(2) by (simp add: run_by_def Let_def hs_starved_def c2_def)
    define c2' where "c2' = c2 \<lparr> outbox := outbox c2 @ m2 @ cs \<rparr>"
    have a2: "arrivals c2' = frame @ extra" using arrivals_consume [of "length (m1 @ cc)" c1] c1(2)
      by (simp add: c2'_def c2_def arrivals_def)
    have "clock c1 \<le> clock c2'" "list_all (\<lambda>(t, _). t \<le> ?dl) (inbox c2')"
      using consume_times [OF c1(3), of "length (m1 @ cc)"] by (simp_all add: c2'_def c2_def)
    then have t2: "list_all (\<lambda>(t, _). t \<le> clock c2' + idle cfg) (inbox c2')"
      using c1(4) assms(9) by (auto simp: list_all_iff)
    have f2: "target_reader (arrived (clock c2' + idle cfg) c2') = (Inr tgt, extra)"
      using arrived_all [OF t2] a2 read_target_encode [OF assms(7,8), of extra] by (simp add: target_reader_def)
    define c3 where "c3 = consume (length frame) c2'"
    have t: "run_by (clock c2' + idle cfg) target_reader target_starved c2' = (Inr tgt, False, c3)"
      using f2 arrived_all [OF t2] a2 by (simp add: run_by_def Let_def target_starved_def c3_def)
    have cl2: "clock c2' = clock c2" by (simp add: c2'_def)
    have "handle_tls_stream cfg e allowed answer dial tie c m = serve_target cfg allowed answer dial tie tgt c3
        (m \<lparr> hs_noise := observe (real (clock c2 - clock c1) / 1000) (hs_noise m) \<rparr>)"
      using c1(1) assms(4,6) h t [unfolded cl2]
      by (simp add: handle_tls_stream_def Let_def c2'_def [symmetric] del: One_nat_def)
    moreover have "arrivals c3 = extra" using arrivals_consume [of "length frame" c2'] a2 by (simp add: c3_def)
    moreover have "outbox c3 = outbox c @ m2 @ cs" "writable c3 = writable c"
      using c1(5,6) by (simp_all add: c3_def c2'_def c2_def)
    ultimately show ?thesis by blast
  qed
  then show ?thesis using cl by blast
qed


section \<open>What the pumps forward\<close>

lemma side_simps [simp]:
  "side_of up (set_side up x p) = x" "up \<noteq> up' \<Longrightarrow> side_of up (set_side up' x p) = side_of up p"
  "side_of up (p \<lparr> last_active_ms := t \<rparr>) = side_of up p" "side_of up (p \<lparr> peer_done := d \<rparr>) = side_of up p"
  "last_active_ms (set_side up x p) = last_active_ms p" "peer_done (set_side up x p) = peer_done p"
  by (auto simp: side_of_def set_side_def)

lemma end_side_simps [simp]:
  "side_of up (end_side up now why p) = (side_of up p) \<lparr> ended := Some (now, why) \<rparr>"
  "up \<noteq> up' \<Longrightarrow> side_of up (end_side up' now why p) = side_of up p"
  "last_active_ms (end_side up now why p) = last_active_ms p"
  "peer_done (end_side up now why p) = (peer_done p \<or> why = ByError)"
  by (auto simp: end_side_def Let_def)














end
