(* ===== verification/ClientNode.thy ===== *)
theory ClientNode
  imports TcpServer TcpTransport
begin

text \<open>
  A client and a node together: \<open>connect_target\<close> of \<open>hydra-core/src/tcp_transport.rs\<close> on one
  end of a TLS connection and \<open>handle_tls_stream\<close> of \<open>hydra-node/src/tcp_server.rs\<close> on the
  other, with the same key, certificate and keying material.
\<close>

section \<open>The client against an honest node\<close>

text \<open>The result of a reply.\<close>

definition reply_result :: "byte \<Rightarrow> unit res" where
  "reply_result code =
    (if code = REPLY_OK then Inr ()
     else if code = REPLY_TARGET_FAIL then Inl (TargetUnreachable ''target failed'')
     else if code = REPLY_DNS_FAIL then Inl (TargetUnreachable ''dns failed'')
     else Inl (ProtocolError ''reply code''))"

lemma reply_by_code:
  assumes "arrivals c = encode_reply code @ rest" "list_all (\<lambda>(t, _). t \<le> clock c + limit) (inbox c)"
  shows "\<exists>c'. reply_by limit c = (reply_result code, c') \<and> outbox c' = outbox c \<and> arrivals c' = rest"
proof -
  have a: "arrived (clock c + limit) c = encode_reply code @ rest" using arrived_all [OF assms(2)] assms(1) by simp
  have f: "reply_reader (encode_reply code @ rest) = (reply_result code, rest)"
  proof -
    have "drop REPLY_LEN (encode_reply c @ rest) = rest" for c by (simp add: encode_reply_def frame_consts)
    then show ?thesis unfolding reply_reader_def read_reply_encode by (simp add: reply_result_def del: drop_append)
  qed
  have "\<not> reply_starved (reply_result code)" by (simp add: reply_starved_def reply_result_def)
  then have r: "run_by (clock c + limit) reply_reader reply_starved c = (reply_result code, False, consume 2 c)"
    using a f by (simp add: run_by_def Let_def encode_reply_def)
  have "arrivals (consume 2 c) = rest" using arrivals_consume [of 2 c] assms(1) by (simp add: encode_reply_def)
  then show ?thesis using r by (simp add: reply_by_def)
qed

lemma connect_target_honest:
  assumes "encode_target tgt = Inr frame" "tls_connect_for_node env a sni t now cache = (Inr s, reach, n1, c1)"
    and "channel_binding (sha env) t s = Inr (ex, leaf)"
    and "client_side_with_payload cr (ephemeral a) (hello_io a) (m2 @ cs @ encode_reply code @ rest) key (cert_fingerprint cr leaf) ex (Some frame)
      = (Inr hh, sent, encode_reply code @ rest)"
    and "arrivals (stream s) = m2 @ cs @ encode_reply code @ rest"
    and "list_all (\<lambda>(t, _). t \<le> clock (stream s) + CONNECT_TIMEOUT) (inbox (stream s))"
  shows "\<exists>c'. connect_target cr env a sni t key tgt now cache = (reply_result code, OnStream c', clock c', c1) \<and>
    outbox c' = outbox (stream s) @ sent \<and> arrivals c' = rest"
proof -
  let ?c = "stream s" and ?dl = "clock (stream s) + CONNECT_TIMEOUT"
  define c2 where "c2 = consume (length (m2 @ cs)) ?c"
  have f: "client_reader cr a key (cert_fingerprint cr leaf) ex (Some frame) (arrived ?dl ?c) = ((Inr hh, sent), encode_reply code @ rest)"
    using arrived_all [OF assms(6)] assms(4,5) by (simp add: client_reader_def)
  have "run_by ?dl (client_reader cr a key (cert_fingerprint cr leaf) ex (Some frame)) client_starved ?c = ((Inr hh, sent), False, c2)"
    using f arrived_all [OF assms(6)] assms(5) by (simp add: run_by_def Let_def client_starved_def c2_def)
  then have n: "noise_by cr a key (cert_fingerprint cr leaf) ex (Some frame) ?c = (Inr (), c2 \<lparr> outbox := outbox c2 @ sent \<rparr>)"
    by (simp add: noise_by_def)
  let ?c2 = "c2 \<lparr> outbox := outbox c2 @ sent \<rparr>"
  have a2: "arrivals ?c2 = encode_reply code @ rest"
    using arrivals_consume [of "length (m2 @ cs)" ?c] assms(5) by (simp add: c2_def arrivals_def)
  have "list_all (\<lambda>(t, _). t \<le> clock ?c2 + RESPONSE_TIMEOUT) (inbox ?c2)"
    using consume_times [OF assms(6), of "length (m2 @ cs)"]
    by (auto simp: c2_def list_all_iff CONNECT_TIMEOUT_def RESPONSE_TIMEOUT_def)
  from reply_by_code [OF a2 this] obtain c' where
    "reply_by RESPONSE_TIMEOUT ?c2 = (reply_result code, c')" "outbox c' = outbox ?c2" "arrivals c' = rest" by blast
  then show ?thesis using assms(1-3) n by (simp add: connect_target_def c2_def)
qed

section \<open>The reply of the node\<close>

lemma serve_ordinary:
  assumes "strip_prefix P2P_SIGNAL_PREFIX tgt = None" "strip_prefix UDP_RELAY_PREFIX tgt = None" "writable c"
  shows "\<exists>code sv c' m'. serve_target cfg allowed answer dial tie tgt c m = (sv, c', m') \<and>
    outbox c' = outbox c @ encode_reply code \<and> arrivals c' = arrivals c \<and>
    ((code = REPLY_OK \<and> (\<exists>s. sv = Relaying tgt s)) \<or> (code \<in> {REPLY_TARGET_FAIL, REPLY_DNS_FAIL} \<and> sv = Closed))"
proof -
  obtain x now q where q: "resolve_and_connect allowed answer dial tie (clock c) tgt = (x, now, q)" by (rule prod_cases3)
  show ?thesis
  proof (cases q)
    case (Inl p)
    obtain code w where p: "p = (code, w)" by fastforce
    obtain ok c' where r: "reply_to (if code = ERR_DNS_FAIL then REPLY_DNS_FAIL else REPLY_TARGET_FAIL) (c \<lparr> clock := now \<rparr>) = (ok, c')"
      by fastforce
    show ?thesis using assms q Inl p r reply_to_outbox [OF r]
      by (auto simp: serve_target_def arrivals_def)
  next
    case (Inr s)
    obtain ok c' where r: "reply_to REPLY_OK (c \<lparr> clock := now \<rparr>) = (ok, c')" by fastforce
    show ?thesis using assms q Inr r reply_to_outbox [OF r]
      by (auto simp: serve_target_def arrivals_def)
  qed
qed


section \<open>Both together\<close>

text \<open>The node, given on a connection the client's messages, the address frame and anything
  after it, writes its own messages and a reply, and the reply is \<open>REPLY_OK\<close> exactly when it
  relays to the target.\<close>

definition node_answers ::
  "'h node_cfg \<Rightarrow> conn_env \<Rightarrow> bool \<Rightarrow> dns_answer \<Rightarrow> 's dialer \<Rightarrow> bool \<Rightarrow> string \<Rightarrow> byte list \<Rightarrow> byte list \<Rightarrow> bool" where
  "node_answers cfg e allowed answer dial tie tgt request answered \<longleftrightarrow>
    (\<forall>c extra m. prompt_by (clock c + AUTH_TIMEOUT) c \<and> writable c \<and> arrivals c = request @ extra \<longrightarrow>
      (\<exists>code sv c' m'. handle_tls_stream cfg e allowed answer dial tie c m = (sv, c', m') \<and>
        outbox c' = outbox c @ answered @ encode_reply code \<and> arrivals c' = extra \<and>
        ((code = REPLY_OK \<and> (\<exists>s. sv = Relaying tgt s)) \<or> (code \<in> {REPLY_TARGET_FAIL, REPLY_DNS_FAIL} \<and> sv = Closed))))"

text \<open>The client, given that answer in time on a TLS session with this certificate and keying
  material, writes the request and returns the result the reply stands for, at the first byte
  after it.\<close>

definition client_asks ::
  "'h crypto \<Rightarrow> attempt \<Rightarrow> byte list \<Rightarrow> byte list \<Rightarrow> byte list \<Rightarrow> string \<Rightarrow> byte list \<Rightarrow> byte list \<Rightarrow> bool" where
  "client_asks cr a key ex leaf tgt request answered \<longleftrightarrow>
    (\<forall>env sni t now cache s reach n1 c1 code rest.
      tls_connect_for_node env a sni t now cache = (Inr s, reach, n1, c1) \<and> channel_binding (sha env) t s = Inr (ex, leaf) \<and>
      arrivals (stream s) = answered @ encode_reply code @ rest \<and>
      list_all (\<lambda>(t, _). t \<le> clock (stream s) + CONNECT_TIMEOUT) (inbox (stream s)) \<longrightarrow>
      (\<exists>c'. connect_target cr env a sni t key tgt now cache = (reply_result code, OnStream c', clock c', c1) \<and>
        outbox c' = outbox (stream s) @ request \<and> arrivals c' = rest))"

text \<open>
  C1: client and node work together. With the same key, certificate and keying material the
  client's whole request (handshake, confirmation and address frame) and the node's whole answer
  fit: on that request the node answers and relays to exactly the target the client named, or
  reports why not; on that answer the client sends exactly the request and succeeds if and only
  if the node relays, with a refusal by the target told apart from a failure of the node. What
  either side sends afterwards is left for the relay.
\<close>

theorem client_and_node_agree:
  assumes "length (auth_key cfg) = 32" "noise_correct (crypt cfg) (auth_key cfg) (ephemeral a) (seed e)" "hkdf_total (crypt cfg)"
    and "exporter e = Some ex" "hs_io e = (True, True)" "accepts_v3 (mode cfg)" "AUTH_TIMEOUT \<le> idle cfg"
    and "is_str tgt" "encode_target tgt = Inr frame"
    and "strip_prefix P2P_SIGNAL_PREFIX tgt = None" "strip_prefix UDP_RELAY_PREFIX tgt = None"
    and "hello_io a = (True, True)" "fingerprint cfg = cert_fingerprint (crypt cfg) leaf"
  shows "\<exists>request answered. node_answers cfg e allowed answer dial tie tgt request answered \<and>
    client_asks (crypt cfg) a (auth_key cfg) ex leaf tgt request answered"
proof -
  from node_follows_client [OF assms(1-6) assms(8,9,7), where allowed = allowed and answer = answer and dial = dial and tie = tie]
  obtain hh m1 m2 cc cs where
    cl: "\<And>more_s. client_side_with_payload (crypt cfg) (ephemeral a) (True, True) (m2 @ cs @ more_s) (auth_key cfg) (fingerprint cfg) ex (Some frame)
      = (Inr hh, HANDSHAKE_VERSION_BYTE # m1 @ cc @ frame, more_s)"
    and sv: "\<And>c extra m. prompt_by (clock c + AUTH_TIMEOUT) c \<Longrightarrow> arrivals c = HANDSHAKE_VERSION_BYTE # m1 @ cc @ frame @ extra \<Longrightarrow>
      \<exists>c' m'. handle_tls_stream cfg e allowed answer dial tie c m = serve_target cfg allowed answer dial tie tgt c' m' \<and>
        arrivals c' = extra \<and> outbox c' = outbox c @ m2 @ cs \<and> writable c' = writable c"
    by blast
  have "node_answers cfg e allowed answer dial tie tgt (HANDSHAKE_VERSION_BYTE # m1 @ cc @ frame) (m2 @ cs)"
    unfolding node_answers_def
  proof (intro allI impI, elim conjE)
    fix c extra m
    assume c: "prompt_by (clock c + AUTH_TIMEOUT) c" "writable c" "arrivals c = (HANDSHAKE_VERSION_BYTE # m1 @ cc @ frame) @ extra"
    from sv [OF c(1), of extra m] c(3) obtain c1 m1' where
      s: "handle_tls_stream cfg e allowed answer dial tie c m = serve_target cfg allowed answer dial tie tgt c1 m1'"
      "arrivals c1 = extra" "outbox c1 = outbox c @ m2 @ cs" "writable c1 = writable c" by auto
    from serve_ordinary [OF assms(10,11), of c1 cfg allowed answer dial tie m1'] c(2) s
    show "\<exists>code sv c' m'. handle_tls_stream cfg e allowed answer dial tie c m = (sv, c', m') \<and>
        outbox c' = outbox c @ (m2 @ cs) @ encode_reply code \<and> arrivals c' = extra \<and>
        ((code = REPLY_OK \<and> (\<exists>s. sv = Relaying tgt s)) \<or> (code \<in> {REPLY_TARGET_FAIL, REPLY_DNS_FAIL} \<and> sv = Closed))"
      by simp
  qed
  moreover have "client_asks (crypt cfg) a (auth_key cfg) ex leaf tgt (HANDSHAKE_VERSION_BYTE # m1 @ cc @ frame) (m2 @ cs)"
    unfolding client_asks_def
  proof (intro allI impI, elim conjE)
    fix env sni t now cache s reach n1 c1 code rest
    assume c: "tls_connect_for_node env a sni t now cache = (Inr s, reach, n1, c1)" "channel_binding (sha env) t s = Inr (ex, leaf)"
      "arrivals (stream s) = (m2 @ cs) @ encode_reply code @ rest"
      "list_all (\<lambda>(t, _). t \<le> clock (stream s) + CONNECT_TIMEOUT) (inbox (stream s))"
    show "\<exists>c'. connect_target (crypt cfg) env a sni t (auth_key cfg) tgt now cache = (reply_result code, OnStream c', clock c', c1) \<and>
        outbox c' = outbox (stream s) @ HANDSHAKE_VERSION_BYTE # m1 @ cc @ frame \<and> arrivals c' = rest"
      by (rule connect_target_honest [OF assms(9) c(1,2) _ _ c(4)]) (use cl c(3) assms(12,13) in auto)
  qed
  ultimately show ?thesis by blast
qed

theorem client_and_node_agree_witness:
  "\<exists>request answered.
    node_answers \<lparr> mode = Auto, auth_key = replicate 32 1, fingerprint = cert_fingerprint demo_crypto [7], crypt = demo_crypto,
        p2p_signal = False, fallback_page = False, page = [], idle = 300000 \<rparr>
      \<lparr> exporter = Some [3], seed = replicate 32 9, hs_io = (True, True), wall = 0 \<rparr> False (0, None) (\<lambda>_ _. (0, Inr ())) True ''a:1'' request answered \<and>
    client_asks demo_crypto \<lparr> tcp_time = 5, tcp_up = True, tls_time = 5, tls_peer = (\<lambda>_ _. None), hello_io = (True, True),
        ephemeral = replicate 32 5 \<rparr> (replicate 32 1) [3] [7] ''a:1'' request answered"
proof -
  define cfg where "cfg = \<lparr> mode = Auto, auth_key = replicate 32 1, fingerprint = cert_fingerprint demo_crypto [7], crypt = demo_crypto,
        p2p_signal = False, fallback_page = False, page = [], idle = 300000 \<rparr>"
  define e where "e = \<lparr> exporter = Some [3], seed = replicate 32 9, hs_io = (True, True), wall = 0 \<rparr>"
  define a where "a = \<lparr> tcp_time = 5, tcp_up = True, tls_time = 5, tls_peer = (\<lambda>_ _. None :: tls_session option), hello_io = (True, True),
        ephemeral = replicate 32 5 \<rparr>"
  have f: "auth_key cfg = replicate 32 1" "crypt cfg = demo_crypto" "idle cfg = 300000" "mode cfg = Auto"
    "fingerprint cfg = cert_fingerprint demo_crypto [7]" "seed e = replicate 32 9" "exporter e = Some [3]" "hs_io e = (True, True)"
    "ephemeral a = replicate 32 5" "hello_io a = (True, True)"
    by (simp_all add: cfg_def e_def a_def)
  have n: "noise_correct (crypt cfg) (auth_key cfg) (ephemeral a) (seed e)"
    unfolding f by (rule demo_crypto_ok) simp_all
  have h: "hkdf_total (crypt cfg)" unfolding f by (rule demo_hkdf_total)
  have "encode_target ''a:1'' = Inr (u16_be 3 @ as_bytes ''a:1'')" by (simp add: encode_target_def Let_def frame_consts as_bytes_def)
  moreover have "is_str ''a:1''" by (simp add: is_ascii_is_str is_ascii_def)
  moreover have "strip_prefix P2P_SIGNAL_PREFIX ''a:1'' = None" "strip_prefix UDP_RELAY_PREFIX ''a:1'' = None" by code_simp+
  moreover have "length (auth_key cfg) = 32" "accepts_v3 (mode cfg)" "AUTH_TIMEOUT \<le> idle cfg"
    unfolding f by (simp_all add: accepts_v3_def AUTH_TIMEOUT_def)
  ultimately have "\<exists>request answered. node_answers cfg e False (0, None) (\<lambda>_ _. (0, Inr ())) True ''a:1'' request answered \<and>
    client_asks (crypt cfg) a (auth_key cfg) [3] [7] ''a:1'' request answered"
    using n h f(7,8,10) f(5) [folded f(2)] by (intro client_and_node_agree)
  then show ?thesis unfolding f cfg_def [symmetric] e_def [symmetric] a_def [symmetric] .
qed

end
