(* ===== verification/Stun.thy ===== *)
theory Stun
  imports NetAddr StreamCodec
begin

text \<open>
  \<open>hydra-protocol/src/stun.rs\<close>: STUN Binding messages over TCP and the classification
  of the NAT from two mapped addresses. The transaction id is drawn from \<open>ring\<close>'s
  random generator and is an argument. The attribute loop of the parser advances an
  offset; it is the recursive \<open>attr_loop\<close> over that offset, with a termination proof.
\<close>

definition MAGIC_COOKIE :: u32 where "MAGIC_COOKIE = 0x2112A442"
definition BINDING_REQUEST :: u16 where "BINDING_REQUEST = 0x0001"
definition BINDING_SUCCESS :: u16 where "BINDING_SUCCESS = 0x0101"
definition ATTR_XOR_MAPPED :: u16 where "ATTR_XOR_MAPPED = 0x0020"
definition ATTR_MAPPED :: u16 where "ATTR_MAPPED = 0x0001"
definition ATTR_FINGERPRINT :: u16 where "ATTR_FINGERPRINT = 0x8028"
definition TX_ID_LEN :: nat where "TX_ID_LEN = 12"
definition HEADER_LEN :: nat where "HEADER_LEN = 20"
definition MAX_MSG_LEN :: nat where "MAX_MSG_LEN = 2048"

lemmas stun_consts = MAGIC_COOKIE_def BINDING_REQUEST_def BINDING_SUCCESS_def ATTR_XOR_MAPPED_def
  ATTR_MAPPED_def ATTR_FINGERPRINT_def TX_ID_LEN_def HEADER_LEN_def MAX_MSG_LEN_def

datatype nat_type = Eim | Symmetric

section \<open>Requests, addresses and checksums\<close>

definition build_binding_request :: "byte list \<Rightarrow> byte list \<times> byte list" where
  "build_binding_request tx_id =
    (u16_be BINDING_REQUEST @ u16_be 0 @ u32_be MAGIC_COOKIE @ tx_id, tx_id)"

definition xor_bytes :: "byte list \<Rightarrow> byte list \<Rightarrow> byte list" where
  "xor_bytes a b = map2 (XOR) a b"

definition parse_mapped_address :: "byte list \<Rightarrow> bool \<Rightarrow> byte list \<Rightarrow> sock_addr option" where
  "parse_mapped_address val xor_mode tx_id =
    (if length val < 4 then None
     else
       let family = val ! 1;
           xport = be_u16 [val ! 2, val ! 3];
           port = (if xor_mode then xport XOR ucast (drop_bit 16 MAGIC_COOKIE) else xport) in
       if family = 0x01 then
         if length val < 8 then None
         else
           let oct = take 4 (drop 4 val);
               oct = (if xor_mode then xor_bytes oct (u32_be MAGIC_COOKIE) else oct)
           in Some (mk_sock (IpV4 (v4_of_octets oct)) port)
       else if family = 0x02 then
         if length val < 20 then None
         else
           let oct = take 16 (drop 4 val);
               oct = (if xor_mode then xor_bytes oct (u32_be MAGIC_COOKIE @ tx_id) else oct)
           in Some (mk_sock (IpV6 (v6_of_octets oct)) port)
       else None)"

definition crc_step :: "u32 \<Rightarrow> u32" where
  "crc_step crc = (let mask = - (crc AND 1) in drop_bit 1 crc XOR (0xEDB88320 AND mask))"

definition crc32_ieee :: "byte list \<Rightarrow> u32" where
  "crc32_ieee data =
    NOT (fold (\<lambda>b crc. (crc_step ^^ 8) (crc XOR ucast b)) data 0xFFFFFFFF)"

section \<open>The response parser\<close>

definition div_ceil4 :: "nat \<Rightarrow> nat" where
  "div_ceil4 n = (n + 3) div 4"

function attr_loop ::
  "byte list \<Rightarrow> byte list \<Rightarrow> byte list \<Rightarrow> nat \<Rightarrow> sock_addr option \<Rightarrow> sock_addr option res" where
  "attr_loop buf body tx_id off mapped =
    (if off + 4 \<le> length body then
       let attr_type = be_u16 [body ! off, body ! (off + 1)];
           attr_len = unat (be_u16 [body ! (off + 2), body ! (off + 3)]);
           val_off = off + 4 in
       if val_off + attr_len > length body then Inr mapped
       else
         let val = take attr_len (drop val_off body);
             mapped' = (if attr_type = ATTR_XOR_MAPPED \<or> attr_type = ATTR_MAPPED then
                          (case parse_mapped_address val (attr_type = ATTR_XOR_MAPPED) tx_id of
                             Some addr \<Rightarrow> Some addr | None \<Rightarrow> mapped)
                        else mapped) in
         if attr_type = ATTR_FINGERPRINT \<and> attr_len = 4 \<and>
            crc32_ieee (take (HEADER_LEN + off) buf) XOR 0x5354554E \<noteq> be_u32 val
         then Inl (ProtocolError ''fingerprint'')
         else attr_loop buf body tx_id (val_off + div_ceil4 attr_len * 4) mapped'
     else Inr mapped)"
  by pat_completeness auto
termination
  by (relation "measure (\<lambda>(buf, body, tx_id, off, mapped). length body - off)") auto

declare attr_loop.simps [simp del]

definition parse_binding_response :: "byte list \<Rightarrow> byte list \<Rightarrow> sock_addr res" where
  "parse_binding_response buf tx_id =
    (if length buf < HEADER_LEN then Inl (ProtocolError ''stun too short'')
     else if be_u16 [buf ! 0, buf ! 1] \<noteq> BINDING_SUCCESS then Inl (ProtocolError ''stun type'')
     else let msg_len = unat (be_u16 [buf ! 2, buf ! 3]) in
       if length buf < HEADER_LEN + msg_len then Inl (ProtocolError ''stun incomplete'')
       else if take 4 (drop 4 buf) \<noteq> u32_be MAGIC_COOKIE then Inl (ProtocolError ''stun cookie'')
       else if take TX_ID_LEN (drop 8 buf) \<noteq> tx_id then Inl (ProtocolError ''stun tx id'')
       else
         (case attr_loop buf (take msg_len (drop HEADER_LEN buf)) tx_id 0 None of
            Inl e \<Rightarrow> Inl e
          | Inr None \<Rightarrow> Inl (ProtocolError ''stun no mapped address'')
          | Inr (Some a) \<Rightarrow> Inr a))"

definition classify :: "sock_addr \<Rightarrow> sock_addr \<Rightarrow> nat_type" where
  "classify mapped_a mapped_b = (if mapped_a = mapped_b then Eim else Symmetric)"

definition read_stun_message :: "byte list \<Rightarrow> (byte list \<times> byte list) res" where
  "read_stun_message r =
    bind_res (read_or (IoError ''stun header'') HEADER_LEN r) (\<lambda>(header, r).
      let msg_len = unat (be_u16 [header ! 2, header ! 3]) in
      if msg_len > MAX_MSG_LEN then Inl (IoError ''stun msg_len too long'')
      else bind_res (read_or (IoError ''stun body'') msg_len r) (\<lambda>(body, r).
        Inr (header @ body, r)))"

section \<open>The other side: what a STUN server sends\<close>

text \<open>The response RFC 5389 prescribes: the header, an XOR-MAPPED-ADDRESS attribute and, if
  \<open>fp\<close>, a FINGERPRINT over everything before it. It is the specification the parser is
  checked against.\<close>

fun xor_mapped_value :: "byte list \<Rightarrow> sock_addr \<Rightarrow> byte list" where
  "xor_mapped_value tx (SockV4 a p) =
     [0, 1] @ u16_be (p XOR 0x2112) @ xor_bytes (v4_octets a) (u32_be 0x2112A442)"
| "xor_mapped_value tx (SockV6 a p sc) =
     [0, 2] @ u16_be (p XOR 0x2112) @ xor_bytes (v6_octets a) (u32_be 0x2112A442 @ tx)"

definition stun_attr :: "u16 \<Rightarrow> byte list \<Rightarrow> byte list" where
  "stun_attr t v = u16_be t @ u16_be (of_nat (length v)) @ v"

definition stun_header :: "nat \<Rightarrow> byte list \<Rightarrow> byte list" where
  "stun_header n tx = u16_be 0x0101 @ u16_be (of_nat n) @ u32_be 0x2112A442 @ tx"

definition stun_response :: "bool \<Rightarrow> byte list \<Rightarrow> sock_addr \<Rightarrow> byte list" where
  "stun_response fp tx a =
    (let m = stun_attr 0x0020 (xor_mapped_value tx a);
         h = stun_header (length m + (if fp then 8 else 0)) tx;
         f = stun_attr 0x8028 (u32_be (crc32_ieee (h @ m) XOR 0x5354554E))
     in h @ m @ (if fp then f else []))"

section \<open>Facts about the parser\<close>

lemma xor_bytes_twice: "length a \<le> length b \<Longrightarrow> xor_bytes (xor_bytes a b) b = a"
  by (induction a b rule: list_induct2') (auto simp: xor_bytes_def xor.assoc)

lemma length_xor_bytes [simp]: "length (xor_bytes a b) = min (length a) (length b)"
  by (simp add: xor_bytes_def)

lemma u16_be_two: "\<exists>a b. u16_be w = [a, b] \<and> be_u16 [a, b] = w"
  by (metis be_u16_u16_be length_0_conv length_Suc_conv length_u16_be numeral_2_eq_2)

lemma cookie_high [simp]: "ucast (drop_bit 16 (0x2112A442 :: u32)) = (0x2112 :: u16)"
  by simp

lemma parse_mapped_value:
  assumes "length tx = 12" "a = mk_sock i p"
  shows "parse_mapped_address (xor_mapped_value tx a) True tx = Some a"
proof -
  obtain x y where xy: "u16_be (p XOR 0x2112) = [x, y]" "be_u16 [x, y] = p XOR 0x2112"
    using u16_be_two by blast
  show ?thesis
    using assms xy
    by (cases i) (simp_all add: parse_mapped_address_def stun_consts xor_bytes_twice xor.assoc)
qed

lemma attr_step:
  assumes "length v < 65536" "length v mod 4 = 0"
    and body: "body = pre @ stun_attr t v @ post" and off: "off = length pre"
  shows "attr_loop buf body tx off m =
    (if t = ATTR_FINGERPRINT \<and> length v = 4 \<and>
        crc32_ieee (take (HEADER_LEN + off) buf) XOR 0x5354554E \<noteq> be_u32 v
     then Inl (ProtocolError ''fingerprint'')
     else attr_loop buf body tx (off + 4 + length v)
       (if t = ATTR_XOR_MAPPED \<or> t = ATTR_MAPPED then
          (case parse_mapped_address v (t = ATTR_XOR_MAPPED) tx of
             Some addr \<Rightarrow> Some addr | None \<Rightarrow> m)
        else m))"
proof -
  obtain a b where ab: "u16_be t = [a, b]" "be_u16 [a, b] = t" using u16_be_two by blast
  obtain c d where cd: "u16_be (of_nat (length v)) = [c, d]" "be_u16 [c, d] = of_nat (length v)"
    using u16_be_two by blast
  have len: "unat (be_u16 [c, d]) = length v" using cd assms(1) by simp
  have b: "body = pre @ a # b # c # d # v @ post"
    by (simp add: body stun_attr_def ab cd)
  have nths: "body ! off = a" "body ! (off + 1) = b" "body ! (off + 2) = c" "body ! (off + 3) = d"
    "off + 4 \<le> length body" "off + 4 + length v \<le> length body"
    "take (length v) (drop (off + 4) body) = v"
    by (simp_all add: b off nth_append)
  have c: "(off + 4 \<le> length body) = True" "(length body < off + 4 + length v) = False"
    using nths(5,6) by simp_all
  have al: "div_ceil4 (length v) * 4 = length v"
    using assms(2) by (auto simp: div_ceil4_def elim!: dvdE simp: mod_eq_0_iff_dvd)
  show ?thesis
    by (subst attr_loop.simps, unfold Let_def nths ab len al) (simp only: c if_True if_False)
qed

lemma attr_end: "length body < off + 4 \<Longrightarrow> attr_loop buf body tx off m = Inr m"
  by (subst attr_loop.simps) simp

lemma length_xor_mapped_value:
  "length tx = 12 \<Longrightarrow> length (xor_mapped_value tx a) = (if sock_is_ipv4 a then 8 else 20)"
  by (cases a) auto

lemma parse_header:
  assumes "length tx = 12" "length body < 65536"
  shows "parse_binding_response (stun_header (length body) tx @ body) tx =
    (case attr_loop (stun_header (length body) tx @ body) body tx 0 None of
       Inl e \<Rightarrow> Inl e
     | Inr None \<Rightarrow> Inl (ProtocolError ''stun no mapped address'')
     | Inr (Some a) \<Rightarrow> Inr a)"
proof -
  obtain a b where ab: "u16_be 0x0101 = [a, b]" "be_u16 [a, b] = 0x0101" using u16_be_two by blast
  obtain c d where cd: "u16_be (of_nat (length body)) = [c, d]" "be_u16 [c, d] = of_nat (length body)"
    using u16_be_two by blast
  have len: "unat (be_u16 [c, d]) = length body" using cd assms(2) by simp
  show ?thesis
    by (simp add: parse_binding_response_def stun_header_def ab cd(1) len stun_consts assms(1)
        numeral_3_eq_3 numeral_2_eq_2 Let_def)
qed

section \<open>Properties\<close>

text \<open>
  the mapped address a standard server reports is the address the client learns,
  for IPv4 and IPv6, with and without the optional fingerprint, whose checksum is
  verified over exactly the bytes that precede it.
\<close>

theorem stun_response_parsed:
  assumes "length tx = 12"
  shows "parse_binding_response (stun_response fp tx (mk_sock ip port)) tx = Inr (mk_sock ip port)"
proof -
  let ?a = "mk_sock ip port"
  let ?v = "xor_mapped_value tx ?a"
  define m where "m = stun_attr 0x0020 ?v"
  define h where "h = stun_header (length m + (if fp then 8 else 0)) tx"
  define w where "w = u32_be (crc32_ieee (h @ m) XOR 0x5354554E)"
  define body where "body = m @ (if fp then stun_attr 0x8028 w else [])"
  have v: "length ?v < 65536" "length ?v mod 4 = 0"
    using assms by (simp_all add: length_xor_mapped_value)
  have lm: "length m = 4 + length ?v" by (simp add: m_def stun_attr_def)
  have lb: "length body = length m + (if fp then 8 else 0)" "length w = 4"
    by (simp_all add: body_def stun_attr_def w_def)
  then have resp: "stun_response fp tx ?a = stun_header (length body) tx @ body"
    by (simp add: stun_response_def Let_def m_def h_def w_def body_def)
  have hb: "h = stun_header (length body) tx" by (simp add: h_def lb)
  have lh: "length h = 20" by (simp add: h_def stun_header_def assms)
  have 1: "attr_loop (h @ body) body tx 0 None = attr_loop (h @ body) body tx (length m) (Some ?a)"
    using attr_step [OF v, where body = body and pre = "[]" and t = "0x0020" and off = 0 and tx = tx
        and post = "if fp then stun_attr 0x8028 w else []" and buf = "h @ body" and m = None]
    by (simp add: body_def m_def [symmetric] lm stun_consts
        parse_mapped_value [OF assms refl, unfolded stun_consts])
  have 2: "attr_loop (h @ body) body tx (length m) (Some ?a) = Inr (Some ?a)"
  proof (cases fp)
    case True
    have "take (HEADER_LEN + length m) (h @ body) = h @ m"
      by (simp add: stun_consts lh body_def)
    with attr_step [where v = w and body = body and pre = m and t = "0x8028" and post = "[]"
        and off = "length m" and buf = "h @ body" and tx = tx and m = "Some ?a"] show ?thesis
      using True lb by (simp add: body_def w_def attr_end stun_consts)
  next
    case False
    then show ?thesis by (simp add: attr_end lb)
  qed
  have "length body < 65536"
    using lb lm assms by (simp add: length_xor_mapped_value)
  with 1 2 show ?thesis
    by (simp add: resp parse_header assms hb)
qed

theorem stun_response_parsed_witness:
  "parse_binding_response (stun_response True (replicate 12 7) (mk_sock (IpV4 0x01020304) 80))
     (replicate 12 7) = Inr (mk_sock (IpV4 0x01020304) 80)"
  by (rule stun_response_parsed) simp

text \<open>
  nothing but a complete answer to this very request is believed. An accepted
  buffer has the success type, the magic cookie and the transaction id that was sent, and
  holds all the attribute bytes it declares.
\<close>

theorem stun_response_authentic:
  "(case parse_binding_response buf tx of
      Inl e \<Rightarrow> True
    | Inr a \<Rightarrow>
        take 2 buf = u16_be 0x0101 \<and> take 4 (drop 4 buf) = u32_be 0x2112A442 \<and>
        take 12 (drop 8 buf) = tx \<and>
        20 + unat (be_u16 (take 2 (drop 2 buf))) \<le> length buf)"
proof (cases "parse_binding_response buf tx")
  case (Inr a)
  then have len: "20 \<le> length buf"
    by (auto simp: parse_binding_response_def stun_consts split: if_splits)
  then obtain x y z w r where b: "buf = x # y # z # w # r"
    by (auto simp: numeral_eq_Suc Suc_le_length_iff)
  from Inr have t: "be_u16 [x, y] = 0x0101" and "take 4 (drop 4 buf) = u32_be 0x2112A442"
    "take 12 (drop 8 buf) = tx" "20 + unat (be_u16 [z, w]) \<le> length buf"
    by (auto simp: parse_binding_response_def stun_consts Let_def b split: if_splits)
  moreover have "[x, y] = u16_be 0x0101"
    using u16_be_be_u16 [of "[x, y]"] t by simp
  ultimately show ?thesis using Inr by (simp add: b numeral_2_eq_2)
qed simp

text \<open>
  reading a message off the stream is bounded and exact. A message is at most 2068
  bytes, is a prefix of the stream whose length is the 20 bytes of header plus the length it
  declares, and the stream goes on right behind it; a declared length over 2048 is
  refused before its body is read.
\<close>

theorem read_stun_message_exact:
  "read_stun_message r = Inr (msg, rest) \<longleftrightarrow>
     r = msg @ rest \<and> 20 \<le> length msg \<and> length msg \<le> 2068 \<and>
     length msg = 20 + unat (be_u16 [msg ! 2, msg ! 3])"
proof
  assume "read_stun_message r = Inr (msg, rest)"
  then obtain h b where "r = h @ b @ rest" "msg = h @ b" "length h = 20"
    "length b = unat (be_u16 [h ! 2, h ! 3])" "length b \<le> 2048"
    by (auto simp: read_stun_message_def bind_res_Inr read_or_Inr_iff stun_consts Let_def
        split: if_splits)
  then show "r = msg @ rest \<and> 20 \<le> length msg \<and> length msg \<le> 2068 \<and>
     length msg = 20 + unat (be_u16 [msg ! 2, msg ! 3])"
    by (simp add: nth_append)
next
  assume a: "r = msg @ rest \<and> 20 \<le> length msg \<and> length msg \<le> 2068 \<and>
     length msg = 20 + unat (be_u16 [msg ! 2, msg ! 3])"
  define h b where "h = take 20 msg" and "b = drop 20 msg"
  have "msg = h @ b" "length h = 20" using a by (auto simp: h_def b_def)
  then show "read_stun_message r = Inr (msg, rest)"
    using a by (simp add: read_stun_message_def read_or_append stun_consts Let_def nth_append)
qed

end
