(* ===== verification/Routing.thy ===== *)
theory Routing
  imports Tables NetAddr
begin

text \<open>
  \<open>hydra-core/src/routing.rs\<close>: whether a domain target goes out directly. A
  \<open>HashSet<String>\<close> is a list read through membership. The environment variables and
  the file they name are arguments; the two process-wide caches are the state
  \<open>route_cache\<close>, filled by the first call that needs them.
\<close>

definition BUILTIN_CN_SUFFIXES :: "string list" where
  "BUILTIN_CN_SUFFIXES =
   [''baidu.com'', ''bdstatic.com'', ''bdimg.com'', ''baidubce.com'', ''bcebos.com'',
    ''baidupcs.com'', ''so.com'', ''360.com'', ''qihoo.com'', ''qhres.com'', ''360safe.com'',
    ''sohu.com'', ''itc.cn'', ''sogou.com'', ''sina.com'', ''weibo.com'', ''weibocdn.com'',
    ''qq.com'', ''tencent.com'', ''gtimg.com'', ''qcloud.com'', ''myqcloud.com'',
    ''tencentcloudapi.com'', ''weixin.com'', ''wechat.com'', ''zhihu.com'', ''zhimg.com'',
    ''douban.com'', ''xiaohongshu.com'', ''xhscdn.com'', ''toutiao.com'', ''bytedance.com'',
    ''douyin.com'', ''douyinpic.com'', ''douyinstatic.com'', ''douyinvod.com'', ''zjcdn.com'',
    ''ixigua.com'', ''pstatp.com'', ''snssdk.com'', ''feishu.cn'', ''taobao.com'',
    ''tmall.com'', ''tbcdn.cn'', ''1688.com'', ''alibaba.com'', ''aliyun.com'',
    ''aliyuncs.com'', ''alicdn.com'', ''alipay.com'', ''alipayobjects.com'',
    ''aliyundrive.com'', ''jd.com'', ''360buyimg.com'', ''jdcloud.com'', ''jingxi.com'',
    ''pinduoduo.com'', ''yangkeduo.com'', ''pddpic.com'', ''vip.com'', ''vipshop.com'',
    ''dangdang.com'', ''cainiao.com'', ''bilibili.com'', ''hdslb.com'', ''bilivideo.com'',
    ''biliapi.net'', ''biliapi.com'', ''b23.tv'', ''iqiyi.com'', ''iqiyipic.com'', ''qy.net'',
    ''youku.com'', ''ykimg.com'', ''mgtv.com'', ''kuaishou.com'', ''gifshow.com'',
    ''yximgs.com'', ''huya.com'', ''douyu.com'', ''meituan.com'', ''meituan.net'',
    ''dianping.com'', ''dpfile.com'', ''ele.me'', ''58.com'', ''ganji.com'', ''anjuke.com'',
    ''lianjia.com'', ''ke.com'', ''ctrip.com'', ''qunar.com'', ''12306.cn'', ''zhipin.com'',
    ''xiaomi.com'', ''mi.com'', ''miui.com'', ''xiaomiyoupin.com'', ''huawei.com'',
    ''huaweicloud.com'', ''vmall.com'', ''hicloud.com'', ''hihonor.com'', ''163.com'',
    ''126.com'', ''netease.com'', ''netease.im'', ''yodao.com'', ''csdn.net'', ''gitee.com'',
    ''oschina.net'', ''segmentfault.com'', ''juejin.cn'', ''xueqiu.com'', ''eastmoney.com'',
    ''10jqka.com.cn'', ''smzdm.com'', ''xunlei.com'', ''acfun.cn'']"

definition LOOPBACK_NAMES :: "string list" where
  "LOOPBACK_NAMES = [''localhost'', ''localhost.localdomain'', ''ip6-localhost'', ''ip6-loopback'']"

section \<open>The switch\<close>

record route_cache =
  split_state :: "bool option"
  suffix_cache :: "string list option"

definition split_flag_from_env :: "string option \<Rightarrow> bool" where
  "split_flag_from_env val =
    (case val of Some v \<Rightarrow> eq_ignore_ascii_case (trim v) ''cn'' | None \<Rightarrow> False)"

definition split_enabled :: "string option \<Rightarrow> route_cache \<Rightarrow> bool \<times> route_cache" where
  "split_enabled env c =
    (case split_state c of
       Some b \<Rightarrow> (b, c)
     | None \<Rightarrow> let enabled = split_flag_from_env env
               in (enabled, c \<lparr> split_state := Some enabled \<rparr>))"

section \<open>Domains\<close>

definition normalize_domain :: "string \<Rightarrow> string" where
  "normalize_domain d =
    (let s = trim_end_char (CHR ''.'') (to_ascii_lowercase (trim d)) in
     case strip_prefix ''*.'' s of Some rest \<Rightarrow> rest | None \<Rightarrow> s)"

function suffix_match :: "string list \<Rightarrow> string \<Rightarrow> bool" where
  "suffix_match table rest =
    (if rest = [] \<or> starts_with rest ''.'' then False
     else if rest \<in> set table then True
     else (case split_once (CHR ''.'') rest of
             Some (_, tail) \<Rightarrow> suffix_match table tail
           | None \<Rightarrow> False))"
  by pat_completeness auto
termination
  by (relation "measure (\<lambda>(t, r). length r)") (auto simp: split_once_Some_iff)

declare suffix_match.simps [simp del]

definition load_domain_file :: "string \<Rightarrow> string list" where
  "load_domain_file content =
    filter (\<lambda>l. l \<noteq> [] \<and> \<not> starts_with l ''#'') (map normalize_domain (str_lines content))"

text \<open>\<open>file\<close> is the content of the file the variable names: \<open>None\<close> when the variable is
  not set, \<open>Some None\<close> when the file cannot be read as UTF-8.\<close>

definition all_suffixes :: "string option option \<Rightarrow> route_cache \<Rightarrow> string list \<times> route_cache" where
  "all_suffixes file c =
    (case suffix_cache c of
       Some t \<Rightarrow> (t, c)
     | None \<Rightarrow>
         let t = (case file of
                    Some (Some content) \<Rightarrow> BUILTIN_CN_SUFFIXES @ load_domain_file content
                  | _ \<Rightarrow> BUILTIN_CN_SUFFIXES)
         in (t, c \<lparr> suffix_cache := Some t \<rparr>))"

definition is_direct_normalized :: "string list \<Rightarrow> string \<Rightarrow> bool" where
  "is_direct_normalized sfx d =
    (if d = [] then False
     else if d \<in> set LOOPBACK_NAMES \<or> ends_with d ''.localhost'' then True
     else if d = ''cn'' \<or> ends_with d ''.cn'' then True
     else suffix_match sfx d)"

definition is_direct :: "string list \<Rightarrow> string \<Rightarrow> bool" where
  "is_direct sfx domain = is_direct_normalized sfx (normalize_domain domain)"

definition host_part :: "string \<Rightarrow> string option" where
  "host_part target =
    (let host = (case rsplit_once (CHR '':'') target of
                   Some (h, _) \<Rightarrow> if h \<noteq> [] then h else target
                 | None \<Rightarrow> target);
         host = trim_end_char (CHR '']'') (trim_start_char (CHR ''['') host) in
     if host = [] \<or> parse_ip host \<noteq> None then None else Some host)"

definition is_direct_target ::
  "string option \<Rightarrow> string option option \<Rightarrow> string \<Rightarrow> route_cache \<Rightarrow> bool \<times> route_cache" where
  "is_direct_target env file target c =
    (case split_enabled env c of
       (enabled, c) \<Rightarrow>
         if \<not> enabled then (False, c)
         else (case host_part target of
                 None \<Rightarrow> (False, c)
               | Some host \<Rightarrow>
                   (case all_suffixes file c of (t, c) \<Rightarrow> (is_direct t host, c))))"

section \<open>What a suffix match is\<close>

text \<open>A name lies at or below an entry: it is the entry, or non-empty labels and a dot
  before it.\<close>

definition below :: "string \<Rightarrow> string \<Rightarrow> bool" where
  "below s d \<longleftrightarrow> d = s \<or> (\<exists>p. d = p @ CHR ''.'' # s \<and> [] \<notin> set (split_on (CHR ''.'') p))"

lemma below_step:
  assumes "h \<noteq> []" "CHR ''.'' \<notin> set h" "s \<noteq> h @ CHR ''.'' # t"
    and "s \<noteq> []" "hd s \<noteq> CHR ''.''"
  shows "below s (h @ CHR ''.'' # t) \<longleftrightarrow> below s t"
proof
  assume "below s t"
  then consider "t = s" | p where "t = p @ CHR ''.'' # s" "[] \<notin> set (split_on (CHR ''.'') p)"
    by (auto simp: below_def)
  then show "below s (h @ CHR ''.'' # t)"
  proof cases
    case 1
    then show ?thesis
      unfolding below_def using assms by (intro disjI2 exI [of _ h]) (simp add: split_on_none)
  next
    case 2
    then show ?thesis
      unfolding below_def using assms
      by (intro disjI2 exI [of _ "h @ CHR ''.'' # p"]) (simp add: split_on_append_sep)
  qed
next
  assume "below s (h @ CHR ''.'' # t)"
  then obtain p where p: "h @ CHR ''.'' # t = p @ CHR ''.'' # s"
    "[] \<notin> set (split_on (CHR ''.'') p)"
    using assms(3) by (auto simp: below_def)
  show "below s t"
  proof (cases "CHR ''.'' \<in> set p")
    case False
    then have "h = p \<and> t = s"
      using p(1) assms(2) by (metis split_once_append option.inject prod.inject)
    then show ?thesis by (simp add: below_def)
  next
    case True
    then obtain a b where ab: "p = a @ CHR ''.'' # b" "CHR ''.'' \<notin> set a"
      by (meson split_list_first)
    then have "h @ CHR ''.'' # t = a @ CHR ''.'' # (b @ CHR ''.'' # s)"
      using p(1) by simp
    then have "h = a \<and> t = b @ CHR ''.'' # s"
      using ab(2) assms(2) by (metis split_once_append option.inject prod.inject)
    then have "h = a" "t = b @ CHR ''.'' # s" by simp_all
    moreover have "[] \<notin> set (split_on (CHR ''.'') b)"
      using p(2) ab by (simp add: split_on_append_sep)
    ultimately show ?thesis by (auto simp: below_def)
  qed
qed

lemma suffix_match_iff:
  "suffix_match table d \<longleftrightarrow>
     (\<exists>s\<in>set table. s \<noteq> [] \<and> hd s \<noteq> CHR ''.'' \<and> below s d)"
proof (induction table d rule: suffix_match.induct)
  case (1 table d)
  have dot: "starts_with d ''.'' \<longleftrightarrow> d \<noteq> [] \<and> hd d = CHR ''.''"
    by (cases d) (auto simp: starts_with_def)
  show ?case
  proof (cases "d = [] \<or> starts_with d ''.''")
    case True
    have "\<not> below s d" if "s \<noteq> []" "hd s \<noteq> CHR ''.''" for s
    proof
      assume "below s d"
      then consider "d = s" | p where "d = p @ CHR ''.'' # s" "[] \<notin> set (split_on (CHR ''.'') p)"
        by (auto simp: below_def)
      then show False
      proof cases
        case 2
        then have "p \<noteq> [] \<and> hd p = CHR ''.''" using True dot by (cases p) auto
        then have "[] \<in> set (split_on (CHR ''.'') p)" by (cases p) auto
        with 2 show False by simp
      qed (use that True dot in auto)
    qed
    with True show ?thesis by (subst suffix_match.simps) auto
  next
    case False
    then have d: "d \<noteq> []" "hd d \<noteq> CHR ''.''" using dot by auto
    show ?thesis
    proof (cases "d \<in> set table")
      case True
      then show ?thesis using False d
        by (subst suffix_match.simps) (auto simp: below_def)
    next
      case nin: False
      show ?thesis
      proof (cases "split_once (CHR ''.'') d")
        case None
        then have "CHR ''.'' \<notin> set d" by (simp add: split_once_None_iff)
        then have "below s d \<longleftrightarrow> d = s" for s by (auto simp: below_def)
        then show ?thesis using False nin None by (subst suffix_match.simps) auto
      next
        case (Some q)
        obtain h t where q: "q = (h, t)" by (cases q)
        then have ht: "d = h @ CHR ''.'' # t" "CHR ''.'' \<notin> set h"
          using Some by (auto simp: split_once_Some_iff)
        then have hn: "h \<noteq> []" using d by auto
        have "suffix_match table d = suffix_match table t"
          using False nin Some q by (subst suffix_match.simps) simp
        also have "\<dots> \<longleftrightarrow> (\<exists>s\<in>set table. s \<noteq> [] \<and> hd s \<noteq> CHR ''.'' \<and> below s t)"
          using 1 False nin Some q by simp
        also have "\<dots> \<longleftrightarrow> (\<exists>s\<in>set table. s \<noteq> [] \<and> hd s \<noteq> CHR ''.'' \<and> below s d)"
        proof (rule bex_cong [OF refl])
          fix s assume "s \<in> set table"
          then have "s \<noteq> h @ CHR ''.'' # t" using nin ht(1) by auto
          then show "(s \<noteq> [] \<and> hd s \<noteq> CHR ''.'' \<and> below s t) =
              (s \<noteq> [] \<and> hd s \<noteq> CHR ''.'' \<and> below s d)"
            using below_step [OF hn ht(2)] ht(1) by auto
        qed
        finally show ?thesis .
      qed
    qed
  qed
qed

lemma set_join: "c \<in> set (join sep ps) \<Longrightarrow> c \<in> set sep \<or> (\<exists>p\<in>set ps. c \<in> set p)"
  by (cases ps) (auto simp: join_def split: if_splits)

lemma show_ipv4_chars:
  "c \<in> set (show_ipv4 a) \<Longrightarrow> c = CHR ''.'' \<or> 48 \<le> (of_char c :: nat) \<and> of_char c \<le> (57 :: nat)"
  unfolding show_ipv4_def using show_nat_digits by (fastforce dest!: set_join)

lemma show_ipv4_not_Nil: "show_ipv4 a \<noteq> []"
proof -
  have "v4_octets a \<noteq> []" using length_octets(1) [of a] by (metis list.size(3) zero_neq_numeral)
  then show ?thesis by (cases "v4_octets a") (auto simp: show_ipv4_def join_def)
qed

lemma host_part_show_v4: "host_part (show_sock (SockV4 a p)) = None"
proof -
  have c: "CHR '':'' \<notin> set (show_nat (unat p))" by (rule show_nat_notin) simp
  have n: "CHR ''['' \<notin> set (show_ipv4 a)" "CHR '']'' \<notin> set (show_ipv4 a)"
    using show_ipv4_chars [of _ a] by force+
  have "trim_start_char (CHR ''['') (show_ipv4 a) = show_ipv4 a"
    using n(1) by (cases "show_ipv4 a") (auto simp: trim_start_char_def)
  moreover have "trim_end_char (CHR '']'') (show_ipv4 a) = show_ipv4 a"
    using n(2) by (cases "rev (show_ipv4 a)") (auto simp: trim_end_char_def)
  ultimately show ?thesis
    using rsplit_once_append [OF c, of "show_ipv4 a"] show_ipv4_not_Nil parse_ip_show_v4 [of a]
    by (simp add: host_part_def Let_def)
qed

section \<open>Properties\<close>

text \<open>
  a domain goes out directly exactly when it should: it is a loopback name, lies
  under \<open>.localhost\<close> or \<open>.cn\<close>, or lies at or below a table entry on a label boundary. A
  name that merely ends in the letters of an entry (\<open>evil-baidu.com\<close>) and a name with
  an empty label before the entry are never taken for it.
\<close>

theorem is_direct_normalized_iff:
  "is_direct_normalized table d \<longleftrightarrow>
    d \<noteq> [] \<and>
    (d \<in> set LOOPBACK_NAMES \<or> suffix ''.localhost'' d \<or> d = ''cn'' \<or> suffix ''.cn'' d \<or>
     (\<exists>s\<in>set table. s \<noteq> [] \<and> hd s \<noteq> CHR ''.'' \<and> below s d))"
  by (auto simp: is_direct_normalized_def ends_with_def suffix_match_iff)

text \<open>
  privacy is the default. Unless the variable says \<open>cn\<close>, no target ever leaves the
  encrypted path, whatever the tables hold, and the answer is fixed by the first call: later
  changes of the environment do not alter it. An IPv4 literal is never sent direct.
\<close>

theorem direct_only_when_enabled:
  "(split_state c = None \<and> fst (is_direct_target env file t c) \<longrightarrow>
     (\<exists>v. env = Some v \<and> to_ascii_lowercase (trim v) = ''cn'') \<and>
     split_state (snd (is_direct_target env file t c)) = Some True) \<and>
   (split_state c = Some b \<longrightarrow>
     fst (is_direct_target env file t c) = fst (is_direct_target env' file t c)) \<and>
   \<not> fst (is_direct_target env file (show_sock (SockV4 ip port)) c)"
proof -
  have cn: "to_ascii_lowercase ''cn'' = ''cn''"
    by (simp add: to_ascii_lowercase_def to_lower_def)
  have "\<exists>v. env = Some v \<and> to_ascii_lowercase (trim v) = ''cn''"
    "split_state (snd (is_direct_target env file t c)) = Some True"
    if "split_state c = None" "fst (is_direct_target env file t c)"
    using that cn
    by (cases env; cases "host_part t"; cases "suffix_cache c";
        auto simp: is_direct_target_def split_enabled_def split_flag_from_env_def all_suffixes_def
          eq_ignore_ascii_case_def Let_def split: if_splits)+
  moreover have "fst (is_direct_target env file t c) = fst (is_direct_target env' file t c)"
    if "split_state c = Some b"
    using that by (simp add: is_direct_target_def split_enabled_def)
  moreover have "\<not> fst (is_direct_target env file (show_sock (SockV4 ip port)) c)"
    unfolding is_direct_target_def by (simp add: host_part_show_v4 del: show_sock.simps split: prod.split)
  ultimately show ?thesis by blast
qed

theorem direct_only_when_enabled_witness:
  "fst (is_direct_target (Some ''cn'') None ''www.baidu.com:443''
      \<lparr>split_state = Some True, suffix_cache = Some [''baidu.com'']\<rparr>) =
   fst (is_direct_target None None ''www.baidu.com:443''
      \<lparr>split_state = Some True, suffix_cache = Some [''baidu.com'']\<rparr>) \<and>
   \<not> fst (is_direct_target (Some ''cn'') None (show_sock (SockV4 1 80))
      \<lparr>split_state = Some True, suffix_cache = Some [''baidu.com'']\<rparr>)"
  using direct_only_when_enabled [of "\<lparr>split_state = Some True, suffix_cache = Some [''baidu.com'']\<rparr>"
      "Some ''cn''" None "''www.baidu.com:443''" True None 1 80]
  by (simp del: show_sock.simps)

end
