(* ===== verification/RoutingRules.thy ===== *)
theory RoutingRules
  imports Routing
begin

text \<open>
  \<open>hydra-core/src/routing_rules.rs\<close>: the rule engine. The embedded GeoIP file is an
  argument (its bytes are data, not code); what \<open>from_bytes\<close> makes of it is modelled.
  The v4 and v6 halves of the engine are the same code at two widths; the parts that
  are literally repeated are defined once over words and given both names.
\<close>

datatype decision = Direct | Proxy

section \<open>The GeoIP table\<close>

definition GEOIP_MAGIC :: "byte list" where
  "GEOIP_MAGIC = as_bytes ''HGI1''"

record geo_tables =
  geo_v4 :: "(u32 \<times> u32) list"
  geo_v6 :: "(u128 \<times> u128) list"

text \<open>Checked \<open>usize\<close> arithmetic on a 64-bit machine.\<close>

definition checked :: "nat \<Rightarrow> nat option" where
  "checked n = (if n < 2 ^ 64 then Some n else None)"

definition seg_le :: "'w::len word \<times> 'w word \<Rightarrow> 'w word \<times> 'w word \<Rightarrow> bool" where
  "seg_le a b = (fst a < fst b \<or> (fst a = fst b \<and> snd a \<le> snd b))"

fun read_segs :: "nat \<Rightarrow> nat \<Rightarrow> byte list \<Rightarrow> string + ('w::len word \<times> 'w word) list" where
  "read_segs w 0 bs = Inr []"
| "read_segs w (Suc n) bs =
    (let s = of_nat (be_nat (take w bs)); e = of_nat (be_nat (take w (drop w bs))) in
     if e < s then Inl ''geoip segment end<start''
     else map_sum id (\<lambda>r. (s, e) # r) (read_segs w n (drop (2 * w) bs)))"

definition geo_be32 :: "byte list \<Rightarrow> nat \<Rightarrow> string + nat" where
  "geo_be32 dat off =
    (if off + 4 \<le> length dat then Inr (be_nat (take 4 (drop off dat))) else Inl ''geoip truncated'')"

definition geo_from_bytes :: "byte list \<Rightarrow> string + geo_tables" where
  "geo_from_bytes dat =
    (if length dat < 8 \<or> take 4 dat \<noteq> GEOIP_MAGIC then Inl ''geoip magic''
     else (case geo_be32 dat 4 of Inl e \<Rightarrow> Inl e | Inr n4 \<Rightarrow>
      (case Option.bind (checked (n4 * 8)) (\<lambda>v. checked (8 + v)) of
         None \<Rightarrow> Inl ''geoip count overflow''
       | Some v4_end \<Rightarrow>
          if length dat < v4_end + 4 then Inl ''geoip truncated v4''
          else (case read_segs 4 n4 (drop 8 dat) of Inl e \<Rightarrow> Inl e | Inr v4 \<Rightarrow>
           (case geo_be32 dat v4_end of Inl e \<Rightarrow> Inl e | Inr n6 \<Rightarrow>
            (case Option.bind (checked (v4_end + 4)) (\<lambda>v. Option.bind (checked (n6 * 32)) (\<lambda>x. checked (v + x))) of
               None \<Rightarrow> Inl ''geoip length overflow''
             | Some need \<Rightarrow>
                if length dat < need then Inl ''geoip truncated v6''
                else (case read_segs 16 n6 (drop (v4_end + 4) dat) of Inl e \<Rightarrow> Inl e | Inr v6 \<Rightarrow>
                  Inr \<lparr> geo_v4 = sort_by seg_le v4, geo_v6 = sort_by seg_le v6 \<rparr>)))))))"

text \<open>\<open>slice::partition_point\<close> of a slice on which the test holds exactly for a prefix.\<close>

definition partition_point :: "('a \<Rightarrow> bool) \<Rightarrow> 'a list \<Rightarrow> nat" where
  "partition_point P xs = length (takeWhile P xs)"

definition contains_seg :: "('w::len word \<times> 'w word) list \<Rightarrow> 'w word \<Rightarrow> bool" where
  "contains_seg segs ip =
    (let idx = partition_point (\<lambda>(s, _). s \<le> ip) segs in
     idx > 0 \<and> snd (segs ! (idx - 1)) \<ge> ip)"

definition contains_v4 :: "geo_tables \<Rightarrow> u32 \<Rightarrow> bool" where
  "contains_v4 t ip = contains_seg (geo_v4 t) ip"

definition contains_v6 :: "geo_tables \<Rightarrow> u128 \<Rightarrow> bool" where
  "contains_v6 t ip = contains_seg (geo_v6 t) ip"

fun geo_contains :: "geo_tables \<Rightarrow> ip_addr \<Rightarrow> bool" where
  "geo_contains t (IpV4 v4) = contains_v4 t v4"
| "geo_contains t (IpV6 v6) = contains_v6 t v6"

definition geo_len :: "geo_tables \<Rightarrow> nat \<times> nat" where
  "geo_len t = (length (geo_v4 t), length (geo_v6 t))"

definition geo_is_empty :: "geo_tables \<Rightarrow> bool" where
  "geo_is_empty t = (geo_v4 t = [] \<and> geo_v6 t = [])"

text \<open>The lazily parsed embedded table; a broken file degrades to an empty one.\<close>

definition geoip_cn_tables :: "byte list \<Rightarrow> geo_tables" where
  "geoip_cn_tables dat =
    (case geo_from_bytes dat of Inr t \<Rightarrow> t | Inl _ \<Rightarrow> \<lparr> geo_v4 = [], geo_v6 = [] \<rparr>)"

section \<open>Rules\<close>

datatype action = ADirect | AProxy

definition action_parse :: "string \<Rightarrow> action option" where
  "action_parse s =
    (let t = to_ascii_uppercase (trim s) in
     if t = ''DIRECT'' then Some ADirect else if t = ''PROXY'' then Some AProxy else None)"

fun action_decision :: "action \<Rightarrow> decision" where
  "action_decision ADirect = Direct"
| "action_decision AProxy = Proxy"

definition CIDR_BINARY_SEARCH_THRESHOLD :: nat where
  "CIDR_BINARY_SEARCH_THRESHOLD = 16"

type_synonym 'w rule_seg = "'w word \<times> 'w word \<times> action \<times> u32"
type_synonym 'w merged_seg = "'w word \<times> 'w word \<times> action"

record rule_engine =
  port_rules :: "(u16 \<times> action) list"
  cidr4 :: "32 rule_seg list"
  cidr6 :: "128 rule_seg list"
  cidr4_sorted :: "32 merged_seg list option"
  cidr6_sorted :: "128 merged_seg list option"
  geoip_on :: bool
  domain_full :: "(string \<times> action) list"
  domain_suffix :: "(string \<times> action) list"
  domain_keyword :: "(string \<times> action) list"
  skipped_lines :: nat

definition builtin_cn :: rule_engine where
  "builtin_cn = \<lparr> port_rules = [], cidr4 = [], cidr6 = [], cidr4_sorted = None,
     cidr6_sorted = None, geoip_on = True, domain_full = [], domain_suffix = [],
     domain_keyword = [], skipped_lines = 0 \<rparr>"

definition normalize_rule_domain :: "string \<Rightarrow> string" where
  "normalize_rule_domain d =
    (let s = trim_end_char (CHR ''.'') (to_ascii_lowercase (trim d)) in
     case strip_prefix ''*.'' s of Some rest \<Rightarrow> rest | None \<Rightarrow> s)"

datatype cidr = CidrV4 u32 u32 | CidrV6 u128 u128

definition host_mask :: "nat \<Rightarrow> u32" where
  "host_mask plen = (if plen \<ge> 32 then 0 else drop_bit plen (- 1))"

text \<open>\<open>1u128 << n\<close> as a release build computes it, without overflow checks: the amount is taken modulo
  the width. \<open>cidr_overflows\<close> are the rules on which this matters, an IPv6 prefix of length 0, where a
  build with overflow checks panics instead.\<close>

definition u128_shl_one :: "nat \<Rightarrow> u128" where
  "u128_shl_one n = push_bit (n mod 128) 1"

definition cidr_overflows :: "string \<Rightarrow> bool" where
  "cidr_overflows s =
    (case split_once (CHR ''/'') s of
       None \<Rightarrow> False
     | Some (addr, plen) \<Rightarrow>
         parse_uint 32 (trim plen) = Some 0 \<and> (case parse_ip (trim addr) of Some (IpV6 _) \<Rightarrow> True | _ \<Rightarrow> False))"

definition parse_cidr :: "string \<Rightarrow> cidr option" where
  "parse_cidr s =
    (case split_once (CHR ''/'') s of None \<Rightarrow> None | Some (addr, plen) \<Rightarrow>
     (case parse_uint 32 (trim plen) of None \<Rightarrow> None | Some plen \<Rightarrow>
      (case parse_ip (trim addr) of
         None \<Rightarrow> None
       | Some (IpV4 v) \<Rightarrow>
           if plen > 32 then None
           else let mask = host_mask plen; start = v AND NOT mask
                in Some (CidrV4 start (start OR mask))
       | Some (IpV6 v) \<Rightarrow>
           if plen > 128 then None
           else let mask = (if plen \<ge> 128 then - 1 else u128_shl_one (128 - plen) - 1);
                    start = v AND NOT mask
                in Some (CidrV6 start (start OR mask)))))"

text \<open>\<open>parse_line\<close> returns the engine with the rule added, or \<open>None\<close> for a line that is skipped.\<close>

definition parse_line :: "rule_engine \<Rightarrow> string \<Rightarrow> rule_engine option" where
  "parse_line eng line =
    (let parts = map trim (split_on (CHR '','') line) in
     if length parts < 2 then None
     else
       let kind = to_ascii_uppercase (parts ! 0) in
       case action_parse (last parts) of None \<Rightarrow> None | Some action \<Rightarrow>
       if kind = ''IP-CIDR'' then
         if length parts \<noteq> 3 then None
         else (case parse_cidr (parts ! 1) of
                 None \<Rightarrow> None
               | Some (CidrV4 s e) \<Rightarrow>
                   Some (eng \<lparr> cidr4 := cidr4 eng @ [(s, e, action, of_nat (length (cidr4 eng)))] \<rparr>)
               | Some (CidrV6 s e) \<Rightarrow>
                   Some (eng \<lparr> cidr6 := cidr6 eng @ [(s, e, action, of_nat (length (cidr6 eng)))] \<rparr>))
       else if kind = ''GEOIP'' then
         if length parts \<noteq> 3 \<or> \<not> eq_ignore_ascii_case (parts ! 1) ''CN'' then None
         else if action \<noteq> ADirect then None
         else Some (eng \<lparr> geoip_on := True \<rparr>)
       else if kind = ''DST-PORT'' then
         if length parts \<noteq> 3 then None
         else (case parse_u16 (parts ! 1) of
                 Some p \<Rightarrow> Some (eng \<lparr> port_rules := port_rules eng @ [(p, action)] \<rparr>)
               | None \<Rightarrow> None)
       else if kind = ''DOMAIN'' \<or> kind = ''DOMAIN-SUFFIX'' \<or> kind = ''DOMAIN-KEYWORD'' then
         if length parts \<noteq> 3 then None
         else let d = normalize_rule_domain (parts ! 1) in
           if d = [] then None
           else if kind = ''DOMAIN''
             then Some (eng \<lparr> domain_full := domain_full eng @ [(d, action)] \<rparr>)
           else if kind = ''DOMAIN-SUFFIX''
             then Some (eng \<lparr> domain_suffix := domain_suffix eng @ [(d, action)] \<rparr>)
           else Some (eng \<lparr> domain_keyword := domain_keyword eng @ [(d, action)] \<rparr>)
       else None)"

section \<open>Index of address ranges\<close>

definition rule_seg_le :: "'w::len rule_seg \<Rightarrow> 'w rule_seg \<Rightarrow> bool" where
  "rule_seg_le a b =
    (case a of (s, e, _, i) \<Rightarrow> case b of (s', e', _, i') \<Rightarrow>
       s < s' \<or> (s = s' \<and> (e < e' \<or> (e = e' \<and> i \<le> i'))))"

definition sat_succ :: "'w::len word \<Rightarrow> 'w word" where
  "sat_succ w = (if w = - 1 then w else w + 1)"

fun merge_push :: "'w::len merged_seg list \<Rightarrow> 'w rule_seg \<Rightarrow> 'w merged_seg list" where
  "merge_push out (s, e, a, _) =
    (case rev out of
       (ls, le, la) # front \<Rightarrow>
         if s \<le> le then
           if la = a then (if e > le then rev front @ [(ls, e, la)] else out)
           else if e > le then out @ [(sat_succ le, e, a)]
           else out
         else out @ [(s, e, a)]
     | [] \<Rightarrow> out @ [(s, e, a)])"

definition merge_cidr :: "'w::len rule_seg list \<Rightarrow> 'w merged_seg list" where
  "merge_cidr segs = foldl merge_push [] (sort_by rule_seg_le segs)"

definition merge_cidr4 :: "32 rule_seg list \<Rightarrow> 32 merged_seg list" where
  "merge_cidr4 segs = merge_cidr segs"

definition merge_cidr6 :: "128 rule_seg list \<Rightarrow> 128 merged_seg list" where
  "merge_cidr6 segs = merge_cidr segs"

definition lookup_sorted :: "'w::len merged_seg list \<Rightarrow> 'w word \<Rightarrow> action option" where
  "lookup_sorted segs ip =
    (let idx = partition_point (\<lambda>(s, _, _). s \<le> ip) segs in
     if idx > 0 then
       (case segs ! (idx - 1) of (s, e, a) \<Rightarrow> if e \<ge> ip \<and> s \<le> ip then Some a else None)
     else None)"

definition build_indexes :: "rule_engine \<Rightarrow> rule_engine" where
  "build_indexes eng =
    (let eng = (if length (cidr4 eng) \<ge> CIDR_BINARY_SEARCH_THRESHOLD
                then eng \<lparr> cidr4_sorted := Some (merge_cidr4 (cidr4 eng)),
                           cidr4 := sort_by rule_seg_le (cidr4 eng) \<rparr> else eng)
     in if length (cidr6 eng) \<ge> CIDR_BINARY_SEARCH_THRESHOLD
        then eng \<lparr> cidr6_sorted := Some (merge_cidr6 (cidr6 eng)),
                   cidr6 := sort_by rule_seg_le (cidr6 eng) \<rparr> else eng)"

definition rules_line :: "rule_engine \<Rightarrow> byte list \<Rightarrow> rule_engine" where
  "rules_line eng raw =
    (let raw = (case strip_suffix [0x0D] raw of Some r \<Rightarrow> r | None \<Rightarrow> raw);
         skip = eng \<lparr> skipped_lines := skipped_lines eng + 1 \<rparr> in
     case from_utf8 raw of
       None \<Rightarrow> skip
     | Some s \<Rightarrow>
         let line = trim (hd (split_on (CHR ''#'') s)) in
         if line = [] then eng
         else (case parse_line eng line of Some eng' \<Rightarrow> eng' | None \<Rightarrow> skip))"

definition parse_rules :: "byte list \<Rightarrow> rule_engine" where
  "parse_rules bytes =
    (let body = (case strip_prefix [0xEF, 0xBB, 0xBF] bytes of Some b \<Rightarrow> b | None \<Rightarrow> bytes)
     in foldl rules_line builtin_cn (split_on 0x0A body))"

definition rules_from_bytes :: "byte list \<Rightarrow> rule_engine" where
  "rules_from_bytes bytes = build_indexes (parse_rules bytes)"

definition from_rule_file :: "byte list option \<Rightarrow> string + rule_engine" where
  "from_rule_file file =
    (case file of None \<Rightarrow> Inl ''rule file unreadable'' | Some bytes \<Rightarrow> Inr (rules_from_bytes bytes))"

section \<open>Decisions\<close>

definition is_builtin_direct :: "ip_addr \<Rightarrow> bool" where
  "is_builtin_direct ip =
    (case ip of
       IpV4 v4 \<Rightarrow>
         (let o0 = v4_octets v4 ! 0; o1 = v4_octets v4 ! 1 in
          o0 = 127 \<or> o0 = 10 \<or> (o0 = 172 \<and> 16 \<le> o1 \<and> o1 \<le> 31) \<or> (o0 = 192 \<and> o1 = 168)
          \<or> (o0 = 169 \<and> o1 = 254) \<or> (o0 = 100 \<and> 64 \<le> o1 \<and> o1 \<le> 127))
     | IpV6 v6 \<Rightarrow>
         v6_is_loopback v6 \<or> (v6_segments v6 ! 0) AND 0xfe00 = 0xfc00
         \<or> (v6_segments v6 ! 0) AND 0xffc0 = 0xfe80)"

definition linear_hit :: "'w::len rule_seg list \<Rightarrow> 'w word \<Rightarrow> action option" where
  "linear_hit rules ip =
    map_option (\<lambda>(s, e, a, _). a) (find (\<lambda>(s, e, _, _). ip \<ge> s \<and> ip \<le> e) rules)"

definition cidr_hit :: "rule_engine \<Rightarrow> ip_addr \<Rightarrow> action option" where
  "cidr_hit eng ip =
    (case ip of
       IpV4 v4 \<Rightarrow> (case cidr4_sorted eng of
                     Some segs \<Rightarrow> lookup_sorted segs v4 | None \<Rightarrow> linear_hit (cidr4 eng) v4)
     | IpV6 v6 \<Rightarrow> (case cidr6_sorted eng of
                     Some segs \<Rightarrow> lookup_sorted segs v6 | None \<Rightarrow> linear_hit (cidr6 eng) v6))"

definition port_hit :: "rule_engine \<Rightarrow> u16 \<Rightarrow> action option" where
  "port_hit eng port = map_option snd (find (\<lambda>(p, _). p = port) (port_rules eng))"

definition decide :: "geo_tables \<Rightarrow> rule_engine \<Rightarrow> sock_addr \<Rightarrow> decision" where
  "decide geo eng dst =
    (if is_builtin_direct (sock_ip dst) then Direct
     else case port_hit eng (sock_port dst) of
       Some a \<Rightarrow> action_decision a
     | None \<Rightarrow>
       (case cidr_hit eng (sock_ip dst) of
          Some a \<Rightarrow> action_decision a
        | None \<Rightarrow>
            if geoip_on eng \<and> geo_contains geo (sock_ip dst) then Direct else Proxy))"

definition suffix_hit :: "string \<Rightarrow> string \<times> action \<Rightarrow> bool" where
  "suffix_hit h r = (let sfx = fst r in
     sfx = h \<or> (length h > length sfx \<and> ends_with h sfx \<and>
                h ! (length h - length sfx - 1) = CHR ''.''))"

definition decide_domain :: "string list \<Rightarrow> rule_engine \<Rightarrow> string \<Rightarrow> u16 \<Rightarrow> decision" where
  "decide_domain cn eng host port =
    (let h = normalize_rule_domain host in
     if h = ''localhost'' \<or> ends_with h ''.localhost'' then Direct
     else case find (\<lambda>(d, _). d = h) (domain_full eng) of
       Some r \<Rightarrow> action_decision (snd r)
     | None \<Rightarrow>
       let has_empty_label = ([] \<in> set (split_on (CHR ''.'') h)) in
       (case (if \<not> has_empty_label then find (suffix_hit h) (domain_suffix eng) else None) of
          Some r \<Rightarrow> action_decision (snd r)
        | None \<Rightarrow>
          (case find (\<lambda>(kw, _). contains kw h) (domain_keyword eng) of
             Some r \<Rightarrow> action_decision (snd r)
           | None \<Rightarrow>
             (case port_hit eng port of
                Some a \<Rightarrow> action_decision a
              | None \<Rightarrow> if is_direct_normalized cn h then Direct else Proxy))))"

definition port53_proxy_rule_exists :: "rule_engine \<Rightarrow> bool" where
  "port53_proxy_rule_exists eng = list_ex (\<lambda>(p, a). p = 53 \<and> a = AProxy) (port_rules eng)"

definition port_rule_count :: "rule_engine \<Rightarrow> nat" where
  "port_rule_count eng = length (port_rules eng)"

definition cidr4_count :: "rule_engine \<Rightarrow> nat" where
  "cidr4_count eng = length (cidr4 eng)"

definition cidr6_count :: "rule_engine \<Rightarrow> nat" where
  "cidr6_count eng = length (cidr6 eng)"

definition domain_rule_count :: "rule_engine \<Rightarrow> nat" where
  "domain_rule_count eng =
    length (domain_full eng) + length (domain_suffix eng) + length (domain_keyword eng)"

section \<open>The merged ranges answer like the rules\<close>

definition in_rule :: "'w::len word \<Rightarrow> 'w rule_seg \<Rightarrow> bool" where
  "in_rule ip r = (case r of (s, e, _, _) \<Rightarrow> s \<le> ip \<and> ip \<le> e)"

definition rule_end :: "'w::len rule_seg \<Rightarrow> 'w word" where
  "rule_end r = fst (snd r)"

definition hit :: "'w::len merged_seg list \<Rightarrow> 'w word \<Rightarrow> action option" where
  "hit out ip = map_option (\<lambda>(s, e, a). a) (find (\<lambda>(s, e, _). s \<le> ip \<and> ip \<le> e) out)"

definition ranges_ok :: "'w::len merged_seg list \<Rightarrow> bool" where
  "ranges_ok out \<longleftrightarrow> sorted_wrt (\<lambda>(_, e, _) (s', _, _). e < s') out \<and> (\<forall>(s, e, _) \<in> set out. s \<le> e)"

lemma find_append: "find P (xs @ ys) = (case find P xs of Some x \<Rightarrow> Some x | None \<Rightarrow> find P ys)"
  by (induction xs) auto

lemma hit_append: "hit (xs @ ys) ip = (case hit xs ip of Some a \<Rightarrow> Some a | None \<Rightarrow> hit ys ip)"
  by (auto simp: hit_def find_append split: option.splits)

lemma hit_single [simp]: "hit [(s, e, a)] ip = (if s \<le> ip \<and> ip \<le> e then Some a else None)"
  by (simp add: hit_def)

lemma hit_None_iff: "hit out ip = None \<longleftrightarrow> (\<forall>(s, e, _) \<in> set out. \<not> (s \<le> ip \<and> ip \<le> e))"
  by (auto simp: hit_def find_None_iff)

lemma linear_hit_snoc:
  "linear_hit (rs @ [(s, e, a, i)]) ip =
     (case linear_hit rs ip of Some b \<Rightarrow> Some b | None \<Rightarrow> if s \<le> ip \<and> ip \<le> e then Some a else None)"
  by (auto simp: linear_hit_def find_append split: option.splits)

lemma linear_hit_None_iff: "linear_hit rs ip = None \<longleftrightarrow> (\<forall>r\<in>set rs. \<not> in_rule ip r)"
  by (auto simp: linear_hit_def find_None_iff in_rule_def)

lemma linear_hit_SomeD: "linear_hit rs ip = Some a \<Longrightarrow> \<exists>s e i. (s, e, a, i) \<in> set rs \<and> s \<le> ip \<and> ip \<le> e"
  by (auto simp: linear_hit_def dest: find_Some_iff [THEN iffD1] nth_mem)
     (metis (no_types, lifting) case_prod_conv find_Some_iff nth_mem)

lemma lookup_sorted_hit: "ranges_ok segs \<Longrightarrow> lookup_sorted segs ip = hit segs ip"
proof (induction segs)
  case Nil
  then show ?case by (simp add: lookup_sorted_def partition_point_def hit_def)
next
  case (Cons x rest)
  obtain s e a where x: "x = (s, e, a)" by (cases x)
  from Cons.prems have ok: "ranges_ok rest" and se: "s \<le> e"
    and lt: "\<And>s' e' a'. (s', e', a') \<in> set rest \<Longrightarrow> e < s'"
    by (auto simp: ranges_ok_def x)
  show ?case
  proof (cases "s \<le> ip \<and> rest \<noteq> [] \<and> fst (hd rest) \<le> ip")
    case True
    then obtain s' e' a' r where r: "rest = (s', e', a') # r" "s' \<le> ip"
      by (cases rest) auto
    have "\<not> ip \<le> e" using lt [of s' e' a'] r by auto
    then have "hit (x # rest) ip = hit rest ip" by (simp add: hit_def x)
    moreover have "lookup_sorted (x # rest) ip = lookup_sorted rest ip"
      using True r by (simp add: lookup_sorted_def partition_point_def x)
    ultimately show ?thesis using Cons.IH [OF ok] by simp
  next
    case False
    have none: "hit rest ip = None" if "s \<le> ip"
    proof (cases rest)
      case (Cons y r)
      then have y: "\<not> fst y \<le> ip" using False that by auto
      have "\<not> s' \<le> ip" if "(s', e', a') \<in> set rest" for s' e' a'
      proof -
        have "s' = fst y \<or> fst (snd y) < s'"
          using ok that Cons by (auto simp: ranges_ok_def)
        moreover have "fst y \<le> fst (snd y)" using ok Cons by (auto simp: ranges_ok_def)
        ultimately show ?thesis using y by auto
      qed
      then show ?thesis by (auto simp: hit_None_iff)
    qed (simp add: hit_def)
    show ?thesis
    proof (cases "s \<le> ip")
      case True
      then have "takeWhile (\<lambda>(s, _, _). s \<le> ip) (x # rest) = [x]"
        using False by (cases rest) (auto simp: x)
      then show ?thesis
        using none True hit_append [of "[x]" rest ip]
        by (auto simp: lookup_sorted_def partition_point_def x)
    next
      case nle: False
      have "hit rest ip = None"
      proof -
        have "\<not> s' \<le> ip" if "(s', e', a') \<in> set rest" for s' e' a'
          using lt [OF that] se nle by auto
        then show ?thesis by (auto simp: hit_None_iff)
      qed
      then show ?thesis
        using nle hit_append [of "[x]" rest ip]
        by (simp add: lookup_sorted_def partition_point_def x)
    qed
  qed
qed

definition merge_inv :: "'w::len rule_seg list \<Rightarrow> 'w merged_seg list \<Rightarrow> bool" where
  "merge_inv done out \<longleftrightarrow> ranges_ok out \<and> (\<forall>ip. hit out ip = linear_hit done ip) \<and>
     (done = [] \<longleftrightarrow> out = []) \<and>
     (out \<noteq> [] \<longrightarrow> (\<forall>d\<in>set done. rule_end d \<le> fst (snd (last out))) \<and>
       (\<exists>d\<in>set done. rule_end d = fst (snd (last out))))"

lemma ranges_ok_snoc:
  "ranges_ok (front @ [(s, e, a)]) \<longleftrightarrow>
     ranges_ok front \<and> (\<forall>(s', e', _) \<in> set front. e' < s) \<and> s \<le> e"
  by (auto simp: ranges_ok_def sorted_wrt_append)

lemma word_succ_le:
  fixes w :: "'w::len word"
  assumes "w \<noteq> - 1"
  shows "w + 1 \<le> x \<longleftrightarrow> w < x"
proof -
  have "1 + w \<noteq> 0" using assms by (metis add_eq_0_iff2 add.commute)
  then have "unat (w + 1) = Suc (unat w)" by (simp add: unatSuc add.commute)
  then show ?thesis by (simp add: word_le_nat_alt word_less_nat_alt Suc_le_eq)
qed

lemma merge_push_inv:
  assumes inv: "merge_inv done out" and se: "s \<le> e"
    and starts: "\<And>d. d \<in> set done \<Longrightarrow> fst d \<le> s"
  shows "merge_inv (done @ [(s, e, a, i)]) (merge_push out (s, e, a, i))"
proof (cases "out = []")
  case True
  with inv show ?thesis
    by (auto simp: merge_inv_def linear_hit_snoc linear_hit_def ranges_ok_def rule_end_def se)
next
  case False
  then obtain front ls le la where out: "out = front @ [(ls, le, la)]"
    by (metis append_butlast_last_id prod_cases3)
  have ok: "ranges_ok front" "\<And>s' e' a'. (s', e', a') \<in> set front \<Longrightarrow> e' < ls" "ls \<le> le"
    and hits: "\<And>ip. hit out ip = linear_hit done ip"
    and ends: "\<And>d. d \<in> set done \<Longrightarrow> rule_end d \<le> le"
    using inv by (auto simp: merge_inv_def out ranges_ok_snoc)
  obtain d where d: "d \<in> set done" "rule_end d = le" using inv by (auto simp: merge_inv_def out)
  have cov: "linear_hit done ip \<noteq> None" if "s \<le> ip" "ip \<le> le" for ip
    using starts [OF d(1)] d that by (auto simp: linear_hit_None_iff in_rule_def rule_end_def intro!: bexI [of _ d])
  have above: "hit out ip = None" if "le < ip" for ip
    using ok that by (fastforce simp: hit_None_iff out)
  let ?done' = "done @ [(s, e, a, i)]"
  have lin: "linear_hit ?done' ip =
      (case hit out ip of Some b \<Rightarrow> Some b | None \<Rightarrow> if s \<le> ip \<and> ip \<le> e then Some a else None)" for ip
    by (simp add: linear_hit_snoc hits)
  consider (gap) "le < s" | (grow) "s \<le> le" "la = a" "le < e" | (clip) "s \<le> le" "la \<noteq> a" "le < e"
    | (drop) "s \<le> le" "e \<le> le"
    by force
  then show ?thesis
  proof cases
    case gap
    then have push: "merge_push out (s, e, a, i) = out @ [(s, e, a)]" by (auto simp: out)
    have "\<forall>(s', e', _) \<in> set out. e' < s" using ok gap by (fastforce simp: out)
    then have "ranges_ok (out @ [(s, e, a)])"
      using inv se by (simp add: ranges_ok_snoc merge_inv_def)
    moreover have "\<forall>ip. hit (out @ [(s, e, a)]) ip = linear_hit ?done' ip"
      by (simp add: lin hit_append split: option.split)
    moreover have "rule_end c \<le> e" if "c \<in> set done" for c using ends [OF that] gap se by order
    ultimately show ?thesis unfolding merge_inv_def push by (auto simp: rule_end_def)
  next
    case grow
    then have push: "merge_push out (s, e, a, i) = front @ [(ls, e, la)]" by (auto simp: out)
    have "ranges_ok (front @ [(ls, e, la)])" using ok grow by (auto simp: ranges_ok_snoc)
    moreover have "hit (front @ [(ls, e, la)]) ip = linear_hit ?done' ip" for ip
    proof (cases "ip \<le> le")
      case True
      then have "hit (front @ [(ls, e, la)]) ip = hit out ip"
        using grow by (auto simp: out hit_append split: option.split)
      moreover have "hit out ip \<noteq> None" if "s \<le> ip" using cov [OF that True] hits by simp
      ultimately show ?thesis by (auto simp: lin split: option.split)
    next
      case False
      then have l: "le < ip" by simp
      from above [OF this] have "hit front ip = None" "hit out ip = None"
        by (simp_all add: hit_None_iff out)
      then show ?thesis
        using l grow ok(3) by (auto simp: lin hit_append)
    qed
    moreover have "rule_end c \<le> e" if "c \<in> set done" for c using ends [OF that] grow by order
    ultimately show ?thesis unfolding merge_inv_def push by (auto simp: rule_end_def)
  next
    case clip
    have nm: "le \<noteq> - 1" using clip(3) by (metis word_order.extremum_strict)
    have iff: "le + 1 \<le> ip \<longleftrightarrow> le < ip" for ip by (rule word_succ_le [OF nm])
    have ss: "sat_succ le = le + 1" "le < le + 1"
      using nm iff [of "le + 1"] by (simp_all add: sat_succ_def)
    from clip have push: "merge_push out (s, e, a, i) = out @ [(le + 1, e, a)]"
      by (auto simp: out ss)
    have "\<forall>(s', e', _) \<in> set out. e' < le + 1" using ok ss by (fastforce simp: out)
    then have "ranges_ok (out @ [(le + 1, e, a)])"
      using inv clip iff by (simp add: ranges_ok_snoc merge_inv_def)
    moreover have "hit (out @ [(le + 1, e, a)]) ip = linear_hit ?done' ip" for ip
    proof (cases "ip \<le> le")
      case True
      then have "\<not> le + 1 \<le> ip" using iff by simp
      then have "hit (out @ [(le + 1, e, a)]) ip = hit out ip"
        by (cases "hit out ip") (simp_all only: hit_append hit_single simp_thms if_False option.case)
      moreover have "hit out ip \<noteq> None" if "s \<le> ip" using cov [OF that True] hits by simp
      ultimately show ?thesis by (auto simp: lin split: option.split)
    next
      case False
      then have l: "le < ip" by simp
      then have s: "le + 1 \<le> ip" "s \<le> ip" using iff clip(1) by auto
      from above [OF l] s show ?thesis by (simp add: lin hit_append)
    qed
    moreover have "rule_end c \<le> e" if "c \<in> set done" for c using ends [OF that] clip by order
    ultimately show ?thesis unfolding merge_inv_def push by (auto simp: rule_end_def)
  next
    case drop
    then have push: "merge_push out (s, e, a, i) = out" by (auto simp: out)
    have "hit out ip = linear_hit ?done' ip" for ip
    proof -
      have "hit out ip \<noteq> None" if "s \<le> ip" "ip \<le> e"
        using cov [of ip] that drop hits by auto
      then show ?thesis by (auto simp: lin split: option.split)
    qed
    then show ?thesis
      using inv drop by (auto simp: merge_inv_def push rule_end_def out)
  qed
qed

lemma merge_fold_inv:
  "sorted_wrt rule_seg_le xs \<Longrightarrow> \<forall>(s, e, _, _) \<in> set xs. s \<le> e \<Longrightarrow>
   merge_inv xs (foldl merge_push [] xs)"
proof (induction xs rule: rev_induct)
  case Nil
  then show ?case by (simp add: merge_inv_def ranges_ok_def hit_def linear_hit_def)
next
  case (snoc x xs)
  obtain s e a i where x: "x = (s, e, a, i)" by (cases x)
  have "fst d \<le> s" if "d \<in> set xs" for d
    using snoc.prems(1) that
    by (cases d) (force simp: sorted_wrt_append x rule_seg_le_def)
  with snoc merge_push_inv [of xs "foldl merge_push [] xs" s e a i] show ?case
    by (auto simp: x sorted_wrt_append)
qed

lemma rule_seg_total: "rule_seg_le a b \<or> rule_seg_le b a"
  by (auto simp: rule_seg_le_def split: prod.splits)

lemma rule_seg_trans: "rule_seg_le a b \<Longrightarrow> rule_seg_le b c \<Longrightarrow> rule_seg_le a c"
  by (auto simp: rule_seg_le_def split: prod.splits)

lemma sorted_rules: "sorted_wrt rule_seg_le (sort_by rule_seg_le rs)"
  by (rule sorted_sort_by) (use rule_seg_total rule_seg_trans in blast)+

lemma merge_lookup:
  assumes "\<forall>(s, e, _, _) \<in> set rs. s \<le> e"
  shows "lookup_sorted (merge_cidr rs) ip = linear_hit (sort_by rule_seg_le rs) ip"
proof -
  have "merge_inv (sort_by rule_seg_le rs) (merge_cidr rs)"
    unfolding merge_cidr_def by (rule merge_fold_inv [OF sorted_rules]) (use assms in simp)
  then show ?thesis by (simp add: merge_inv_def lookup_sorted_hit)
qed

lemma linear_hit_agree:
  assumes "set rs = set rs'"
    and "\<And>x y. x \<in> set rs \<Longrightarrow> y \<in> set rs \<Longrightarrow> in_rule ip x \<Longrightarrow> in_rule ip y \<Longrightarrow>
      fst (snd (snd x)) = fst (snd (snd y))"
  shows "linear_hit rs ip = linear_hit rs' ip"
proof (cases "linear_hit rs ip")
  case None
  then have "linear_hit rs' ip = None" using assms(1) by (simp add: linear_hit_None_iff)
  with None show ?thesis by simp
next
  case (Some a)
  then obtain s e i where 1: "(s, e, a, i) \<in> set rs" "in_rule ip (s, e, a, i)"
    using linear_hit_SomeD [OF Some] by (auto simp: in_rule_def)
  then have "linear_hit rs' ip \<noteq> None" using assms(1) by (auto simp: linear_hit_None_iff)
  then obtain b where b: "linear_hit rs' ip = Some b" by auto
  obtain s' e' i' where "(s', e', b, i') \<in> set rs" "in_rule ip (s', e', b, i')"
    using linear_hit_SomeD [OF b] assms(1) by (auto simp: in_rule_def)
  with 1 assms(2) have "a = b" by fastforce
  with Some b show ?thesis by simp
qed

section \<open>Engines built from a file\<close>

lemma host_mask_eq: "p \<le> 32 \<Longrightarrow> host_mask p = mask (32 - p)"
  by (rule bit_word_eqI) (auto simp: host_mask_def bit_simps)

lemma u128_mask_eq: "0 < p \<Longrightarrow> p \<le> 128 \<Longrightarrow> u128_shl_one (128 - p) - 1 = mask (128 - p)"
  by (cases "p = 128") (simp_all add: u128_shl_one_def mask_eq_exp_minus_1)

text \<open>What a rule's range holds, with the address and the length it was written with. For IPv6 the two
  extreme lengths are the wrong way round: 128, which should be one address, covers them all, and 0
  covers one.\<close>

definition cidr_parts :: "string \<Rightarrow> ip_addr \<Rightarrow> nat \<Rightarrow> bool" where
  "cidr_parts s a p \<longleftrightarrow> (\<exists>addr q. split_once (CHR ''/'') s = Some (addr, q) \<and> parse_ip (trim addr) = Some a \<and>
     parse_uint 32 (trim q) = Some p)"

lemma parse_cidr_v4:
  assumes "cidr_parts s (IpV4 v) p" "p \<le> 32"
  shows "\<exists>a b. parse_cidr s = Some (CidrV4 a b) \<and> (\<forall>x. a \<le> x \<and> x \<le> b \<longleftrightarrow> drop_bit (32 - p) x = drop_bit (32 - p) v)"
  using assms masked_block [of v "32 - p"] by (auto simp: cidr_parts_def parse_cidr_def host_mask_eq Let_def)

lemma parse_cidr_v6:
  assumes "cidr_parts s (IpV6 v) p" "p \<le> 128"
  shows "\<exists>a b. parse_cidr s = Some (CidrV6 a b) \<and> (\<forall>x. a \<le> x \<and> x \<le> b \<longleftrightarrow>
    (if p = 128 then True else if p = 0 then x = v else drop_bit (128 - p) x = drop_bit (128 - p) v))"
proof -
  consider "p = 128" | "p = 0" | "0 < p" "p < 128" using assms(2) by linarith
  then show ?thesis
  proof cases
    case 3
    then show ?thesis using assms(1) masked_block [of v "128 - p"] u128_mask_eq [of p]
      by (auto simp: cidr_parts_def parse_cidr_def Let_def)
  qed (use assms(1) in \<open>auto simp: cidr_parts_def parse_cidr_def u128_shl_one_def Let_def\<close>)
qed

text \<open>What parsing keeps: every range runs upwards and no index is built yet.\<close>

definition eng_ok :: "rule_engine \<Rightarrow> bool" where
  "eng_ok eng \<longleftrightarrow> (\<forall>(s, e, _, _) \<in> set (cidr4 eng). s \<le> e) \<and> (\<forall>(s, e, _, _) \<in> set (cidr6 eng). s \<le> e) \<and>
     cidr4_sorted eng = None \<and> cidr6_sorted eng = None"

lemma parse_cidr_le:
  "parse_cidr s = Some (CidrV4 a b) \<Longrightarrow> a \<le> b"
  "parse_cidr s = Some (CidrV6 c d) \<Longrightarrow> c \<le> d"
  by (auto simp: parse_cidr_def Let_def word_le_or
      split: option.splits prod.splits ip_addr.splits if_splits)

lemma parse_line_ok: "eng_ok eng \<Longrightarrow> parse_line eng l = Some eng' \<Longrightarrow> eng_ok eng'"
  unfolding parse_line_def Let_def
  by (auto simp: eng_ok_def parse_cidr_le split: if_splits option.splits cidr.splits)

lemma rules_line_ok: "eng_ok eng \<Longrightarrow> eng_ok (rules_line eng raw)"
  by (auto simp: rules_line_def Let_def eng_ok_def
      dest: parse_line_ok [unfolded eng_ok_def, rotated] split: option.splits)

lemma rules_fold_ok: "eng_ok eng \<Longrightarrow> eng_ok (foldl rules_line eng ls)"
  by (induction ls arbitrary: eng) (auto simp: rules_line_ok)

lemma parse_rules_ok: "eng_ok (parse_rules bytes)"
  unfolding parse_rules_def Let_def
  by (rule rules_fold_ok) (simp add: eng_ok_def builtin_cn_def)

lemma cidr_hit_build:
  assumes "eng_ok eng"
  shows "cidr_hit (build_indexes eng) (IpV4 x) =
      linear_hit (if 16 \<le> length (cidr4 eng) then sort_by rule_seg_le (cidr4 eng) else cidr4 eng) x"
    and "cidr_hit (build_indexes eng) (IpV6 y) =
      linear_hit (if 16 \<le> length (cidr6 eng) then sort_by rule_seg_le (cidr6 eng) else cidr6 eng) y"
  using assms
  by (simp_all add: cidr_hit_def build_indexes_def Let_def CIDR_BINARY_SEARCH_THRESHOLD_def
      merge_cidr4_def merge_cidr6_def merge_lookup eng_ok_def)

section \<open>The GeoIP table\<close>

lemma contains_seg_lookup:
  "contains_seg segs ip \<longleftrightarrow> lookup_sorted (map (\<lambda>(s, e). (s, e, ADirect)) segs) ip \<noteq> None"
proof -
  let ?f = "\<lambda>(s, e). (s, e, ADirect)"
  have tw: "takeWhile (\<lambda>(s, _, _). s \<le> ip) (map ?f segs) = map ?f (takeWhile (\<lambda>(s, _). s \<le> ip) segs)"
    by (induction segs) auto
  let ?t = "takeWhile (\<lambda>(s, _). s \<le> ip) segs"
  show ?thesis
  proof (cases "?t = []")
    case True
    then show ?thesis by (simp add: contains_seg_def lookup_sorted_def partition_point_def tw)
  next
    case False
    let ?i = "length ?t - 1"
    have i: "?i < length ?t" using False by (cases ?t) auto
    have lt: "?i < length segs" using i length_takeWhile_le [of "\<lambda>(s, _). s \<le> ip" segs] by linarith
    have "segs ! ?i = ?t ! ?i" by (rule takeWhile_nth [symmetric, OF i])
    then have "fst (segs ! ?i) \<le> ip" using i nth_mem [OF i] set_takeWhileD [of "?t ! ?i"]
      by (metis (no_types, lifting) case_prod_unfold)
    then show ?thesis
      using False lt by (auto simp: contains_seg_def lookup_sorted_def partition_point_def tw Let_def
          split: prod.split)
  qed
qed

lemma contains_seg_iff:
  assumes "\<forall>(s, e) \<in> set segs. s \<le> e" "sorted_wrt (\<lambda>a b. snd a < fst b) segs"
  shows "contains_seg segs ip \<longleftrightarrow> (\<exists>(s, e) \<in> set segs. s \<le> ip \<and> ip \<le> e)"
proof -
  have "ranges_ok (map (\<lambda>(s, e). (s, e, ADirect)) segs)"
    using assms by (auto simp: ranges_ok_def sorted_wrt_map case_prod_unfold)
  then show ?thesis
    by (auto simp: contains_seg_lookup lookup_sorted_hit hit_None_iff case_prod_unfold)
qed

lemma read_segs_facts: "read_segs w n bs = Inr segs \<Longrightarrow> length segs = n \<and> (\<forall>(s, e) \<in> set segs. s \<le> e)"
proof (induction n arbitrary: bs segs)
  case (Suc n)
  then obtain r where r: "read_segs w n (drop (2 * w) bs) = Inr r"
    and segs: "segs = (of_nat (be_nat (take w bs)), of_nat (be_nat (take w (drop w bs)))) # r"
    and le: "(of_nat (be_nat (take w bs)) :: 'a word) \<le> of_nat (be_nat (take w (drop w bs)))"
    by (cases "read_segs w n (drop (2 * w) bs) :: string + ('a word \<times> 'a word) list")
       (auto simp: Let_def not_less split: if_splits)
  from Suc.IH [OF r] le show ?case by (simp add: segs)
qed simp

lemma seg_sorted: "sorted_wrt seg_le (sort_by seg_le xs)"
  by (rule sorted_sort_by) (auto simp: seg_le_def)

lemma checked_Some: "checked n = Some m \<longleftrightarrow> m = n \<and> n < 2 ^ 64"
  by (auto simp: checked_def)

lemma geo_from_bytes_facts:
  assumes "geo_from_bytes dat = Inr t"
  shows "sorted_wrt seg_le (geo_v4 t) \<and> sorted_wrt seg_le (geo_v6 t) \<and>
    (\<forall>(s, e) \<in> set (geo_v4 t). s \<le> e) \<and> (\<forall>(s, e) \<in> set (geo_v6 t). s \<le> e) \<and>
    length (geo_v4 t) = be_nat (take 4 (drop 4 dat)) \<and>
    8 * length (geo_v4 t) + 32 * length (geo_v6 t) + 12 \<le> length dat"
proof -
  have bind: "Option.bind (checked a) (\<lambda>v. checked (k + v)) = Some r \<Longrightarrow> r = k + a"
    "Option.bind (checked a) (\<lambda>v. Option.bind (checked b) (\<lambda>x. checked (v + x))) = Some r \<Longrightarrow> r = a + b"
    for a b k r
    by (auto simp: Option.bind_eq_Some_conv checked_Some)
  have be: "geo_be32 dat off = Inr n \<Longrightarrow> n = be_nat (take 4 (drop off dat))" for off n
    by (simp add: geo_be32_def split: if_splits)
  from assms obtain n4 v4_end v4 n6 need v6 where
    1: "geo_be32 dat 4 = Inr n4" "Option.bind (checked (n4 * 8)) (\<lambda>v. checked (8 + v)) = Some v4_end"
      "read_segs 4 n4 (drop 8 dat) = Inr v4"
      "Option.bind (checked (v4_end + 4)) (\<lambda>v. Option.bind (checked (n6 * 32)) (\<lambda>x. checked (v + x))) = Some need"
      "need \<le> length dat" "read_segs 16 n6 (drop (v4_end + 4) dat) = Inr v6"
      "t = \<lparr> geo_v4 = sort_by seg_le v4, geo_v6 = sort_by seg_le v6 \<rparr>"
    unfolding geo_from_bytes_def
    by (simp add: not_less split: if_splits sum.splits option.splits)
  have "v4_end = 8 + n4 * 8" "need = v4_end + 4 + n6 * 32"
    using bind(1) [OF 1(2)] bind(2) [OF 1(4)] by simp_all
  with read_segs_facts [OF 1(3)] read_segs_facts [OF 1(6)] be [OF 1(1)] 1(5,7)
  show ?thesis by (simp add: seg_sorted)
qed

text \<open>The blocks the header of \<open>is_builtin_direct\<close> lists, as ranges of addresses.\<close>

definition private_blocks :: "(nat \<times> nat) list" where
  "private_blocks =
    [(0x7F000000, 0x7FFFFFFF), (0x0A000000, 0x0AFFFFFF), (0xAC100000, 0xAC1FFFFF),
     (0xC0A80000, 0xC0A8FFFF), (0xA9FE0000, 0xA9FEFFFF), (0x64400000, 0x647FFFFF)]"

section \<open>Properties\<close>

text \<open>Two rules of one start that disagree, the wider first, before fourteen others: the file says
  proxy, the index says direct.\<close>

definition same_start_rules :: "32 rule_seg list" where
  "same_start_rules = [(0x17000000, 0x17FFFFFF, AProxy, 0), (0x17000000, 0x1700FFFF, ADirect, 1)] @
     map (\<lambda>i. (of_nat i * 256, of_nat i * 256 + 255, ADirect, of_nat i)) [2 ..< 16]"

lemma index_leaves_file_order:
  "linear_hit same_start_rules 0x17000001 = Some AProxy"
  "cidr_hit (build_indexes (builtin_cn \<lparr> cidr4 := same_start_rules \<rparr>)) (IpV4 0x17000001) = Some ADirect"
proof -
  show "linear_hit same_start_rules 0x17000001 = Some AProxy"
    by (simp add: linear_hit_def same_start_rules_def)
  have "eng_ok (builtin_cn \<lparr> cidr4 := same_start_rules \<rparr>)"
    by (simp add: eng_ok_def builtin_cn_def same_start_rules_def upt_rec)
  then show "cidr_hit (build_indexes (builtin_cn \<lparr> cidr4 := same_start_rules \<rparr>)) (IpV4 0x17000001) = Some ADirect"
    unfolding cidr_hit_build(1) [OF \<open>eng_ok (builtin_cn \<lparr> cidr4 := same_start_rules \<rparr>)\<close>]
    by (simp add: same_start_rules_def upt_rec linear_hit_def sort_by_def rule_seg_le_def builtin_cn_def)
qed

text \<open>
  C19: the index over address rules is exact. From sixteen rules on the engine merges them
  into disjoint ranges and searches those; for every address the answer is that of the first
  rule containing it, in the order (start, end, position in the file); below sixteen it is
  that of the first rule in the file. So the order of the file decides among many rules only
  between equal ranges; the documentation, which has it decide between all ranges of one start,
  says otherwise (\<open>index_leaves_file_order\<close>). The range of a rule holds the addresses that agree
  with the one it names in the bits of its prefix, but for the two extreme lengths of IPv6: of
  length 128 it holds every address, and of length 0, in a build without overflow checks, only
  the one it names (a build with them panics).
\<close>

theorem rules_index_correct:
  "cidr_hit (rules_from_bytes f) (IpV4 x) =
     linear_hit (if 16 \<le> length (cidr4 (parse_rules f))
                 then sort_by rule_seg_le (cidr4 (parse_rules f)) else cidr4 (parse_rules f)) x \<and>
   cidr_hit (rules_from_bytes f) (IpV6 y) =
     linear_hit (if 16 \<le> length (cidr6 (parse_rules f))
                 then sort_by rule_seg_le (cidr6 (parse_rules f)) else cidr6 (parse_rules f)) y \<and>
   (cidr_parts s (IpV4 v) p \<and> p \<le> 32 \<longrightarrow>
      (\<exists>a b. parse_cidr s = Some (CidrV4 a b) \<and>
        (\<forall>x. a \<le> x \<and> x \<le> b \<longleftrightarrow> drop_bit (32 - p) x = drop_bit (32 - p) v))) \<and>
   (cidr_parts s (IpV6 w) p \<and> p \<le> 128 \<longrightarrow>
      (\<exists>a b. parse_cidr s = Some (CidrV6 a b) \<and>
        (\<forall>y. a \<le> y \<and> y \<le> b \<longleftrightarrow>
          (if p = 128 then True else if p = 0 then y = w else drop_bit (128 - p) y = drop_bit (128 - p) w))))"
  unfolding rules_from_bytes_def
  by (intro conjI impI cidr_hit_build parse_rules_ok) (use parse_cidr_v4 parse_cidr_v6 in blast)+

lemma demo_cidr: "cidr_parts ''0.0.0.0/8'' (IpV4 0) 8"
proof -
  have z: "show_nat 0 = ''0''" by code_simp
  have "be_bytes n 0 = replicate n 0" for n by (induction n) simp_all
  then have "v4_octets 0 = [0, 0, 0, 0]" by (simp add: v4_octets_def numeral_eq_Suc)
  then have "show_ipv4 0 = ''0.0.0.0''" by (simp add: show_ipv4_def z join_def)
  then have "parse_ip ''0.0.0.0'' = Some (IpV4 0)" using parse_ip_show_v4 [of 0] by simp
  moreover have "split_once CHR ''/'' ''0.0.0.0/8'' = Some (''0.0.0.0'', ''8'')"
    "trim ''0.0.0.0'' = ''0.0.0.0''" "trim ''8'' = ''8''" "show_nat 8 = ''8''" by code_simp+
  ultimately show ?thesis using parse_show_nat [of 8 32] by (simp add: cidr_parts_def)
qed

theorem rules_index_correct_witness:
  "\<exists>a b. parse_cidr ''0.0.0.0/8'' = Some (CidrV4 a b) \<and> (\<forall>x. a \<le> x \<and> x \<le> b \<longleftrightarrow> drop_bit 24 x = 0)"
proof -
  have "\<exists>a b. parse_cidr ''0.0.0.0/8'' = Some (CidrV4 a b) \<and>
      (\<forall>x. a \<le> x \<and> x \<le> b \<longleftrightarrow> drop_bit (32 - 8) x = drop_bit (32 - 8) (0 :: u32))"
    using rules_index_correct [of "[]" 0 0 "''0.0.0.0/8''" 0 8 0] demo_cidr by (simp only: simp_thms)
  then show ?thesis by simp
qed

text \<open>
  when the order of rules cannot matter it does not. If no two rules that cover an
  address disagree, the engine decides for it as the file reads from top to bottom, whether
  or not it built the index.
\<close>

theorem index_keeps_file_order:
  assumes "eng_ok eng"
    and "\<And>r r'. r \<in> set (cidr4 eng) \<Longrightarrow> r' \<in> set (cidr4 eng) \<Longrightarrow> in_rule x r \<Longrightarrow> in_rule x r' \<Longrightarrow>
      fst (snd (snd r)) = fst (snd (snd r'))"
  shows "cidr_hit (build_indexes eng) (IpV4 x) = linear_hit (cidr4 eng) x"
proof -
  have "linear_hit (sort_by rule_seg_le (cidr4 eng)) x = linear_hit (cidr4 eng) x"
    by (rule linear_hit_agree) (simp, metis assms(2) set_sort_by)
  then show ?thesis by (subst cidr_hit_build(1) [OF assms(1)]) simp
qed

theorem index_keeps_file_order_witness:
  "cidr_hit (build_indexes (builtin_cn \<lparr> cidr4 :=
      map (\<lambda>i. (of_nat (i * 256), of_nat (i * 256 + 255), ADirect, of_nat i)) (rev [0 ..< 16]) \<rparr>))
     (IpV4 700) = Some ADirect"
proof -
  let ?eng = "builtin_cn \<lparr> cidr4 :=
      map (\<lambda>i. (of_nat (i * 256), of_nat (i * 256 + 255), ADirect, of_nat i)) (rev [0 ..< 16]) \<rparr>"
  have "eng_ok ?eng" by (simp add: eng_ok_def builtin_cn_def upt_rec)
  then have "cidr_hit (build_indexes ?eng) (IpV4 700) = linear_hit (cidr4 ?eng) 700"
    by (rule index_keeps_file_order) auto
  also have "\<dots> = Some ADirect" by (simp add: linear_hit_def upt_rec)
  finally show ?thesis .
qed

text \<open>
  a GeoIP file that parses gives sorted tables whose ranges all run upwards, as many
  as the header says and all inside the file; and while the ranges are disjoint, as the
  generator makes them, the binary search finds an address exactly when some range holds it.
\<close>

theorem geo_table_correct:
  assumes "geo_from_bytes dat = Inr t"
  shows "sorted_wrt seg_le (geo_v4 t) \<and> sorted_wrt seg_le (geo_v6 t) \<and>
    length (geo_v4 t) = be_nat (take 4 (drop 4 dat)) \<and>
    8 * length (geo_v4 t) + 32 * length (geo_v6 t) + 12 \<le> length dat \<and>
    (sorted_wrt (\<lambda>a b. snd a < fst b) (geo_v4 t) \<longrightarrow>
       geo_contains t (IpV4 x) = (\<exists>(s, e) \<in> set (geo_v4 t). s \<le> x \<and> x \<le> e)) \<and>
    (sorted_wrt (\<lambda>a b. snd a < fst b) (geo_v6 t) \<longrightarrow>
       geo_contains t (IpV6 y) = (\<exists>(s, e) \<in> set (geo_v6 t). s \<le> y \<and> y \<le> e))"
  using geo_from_bytes_facts [OF assms]
  by (simp add: contains_v4_def contains_v6_def contains_seg_iff)

theorem geo_table_correct_witness:
  "geo_contains \<lparr> geo_v4 = [(1, 2)], geo_v6 = [] \<rparr> (IpV4 2)"
proof -
  let ?t = "\<lparr> geo_v4 = [(1, 2)], geo_v6 = [] \<rparr>"
  have "geo_from_bytes (as_bytes ''HGI1'' @ [0,0,0,1, 0,0,0,1, 0,0,0,2, 0,0,0,0]) = Inr ?t"
    by (simp add: geo_from_bytes_def GEOIP_MAGIC_def geo_be32_def checked_def as_bytes_def
        sort_by_def Let_def)
  from geo_table_correct [OF this, of 2 0] show ?thesis by simp
qed

text \<open>
  the addresses that always go out directly are exactly the loopback, private,
  link-local and carrier-grade NAT blocks, and for them no rule, port or table is ever
  consulted; the broadcast, multicast and unspecified addresses are not among them.
\<close>

theorem builtin_direct_blocks:
  "(is_builtin_direct (IpV4 a) \<longleftrightarrow> (\<exists>(lo, hi) \<in> set private_blocks. lo \<le> unat a \<and> unat a \<le> hi)) \<and>
   (is_builtin_direct (sock_ip dst) \<longrightarrow> decide geo eng dst = Direct) \<and>
   \<not> is_builtin_direct (IpV4 0) \<and> \<not> is_builtin_direct (IpV4 0xFFFFFFFF) \<and>
   \<not> is_builtin_direct (IpV4 0xE0000001)"
proof -
  let ?n = "unat a"
  have r: "(31 :: nat) < 256" "(127 :: nat) < 256" by simp_all
  have iff: "is_builtin_direct (IpV4 a) \<longleftrightarrow>
      ?n div 16777216 = 127 \<or> ?n div 16777216 = 10 \<or>
      (?n div 16777216 = 172 \<and> 16 \<le> ?n div 65536 mod 256 \<and> ?n div 65536 mod 256 \<le> 31) \<or>
      (?n div 16777216 = 192 \<and> ?n div 65536 mod 256 = 168) \<or>
      (?n div 16777216 = 169 \<and> ?n div 65536 mod 256 = 254) \<or>
      (?n div 16777216 = 100 \<and> 64 \<le> ?n div 65536 mod 256 \<and> ?n div 65536 mod 256 \<le> 127)"
    by (simp add: is_builtin_direct_def octet_range Let_def)
  have "is_builtin_direct (IpV4 a) \<longleftrightarrow> (\<exists>(lo, hi) \<in> set private_blocks. lo \<le> ?n \<and> ?n \<le> hi)"
    unfolding iff block_range [where j = 31 and k = 172, OF r(1)]
      block_range [where j = 127 and k = 100, OF r(2)]
      block16 [of ?n 192] block16 [of ?n 169]
    unfolding block8 by (simp add: private_blocks_def)
  moreover have "\<not> is_builtin_direct (IpV4 0)" "\<not> is_builtin_direct (IpV4 0xFFFFFFFF)"
    "\<not> is_builtin_direct (IpV4 0xE0000001)"
    by (simp_all add: is_builtin_direct_def octet_range Let_def)
  ultimately show ?thesis by (simp add: decide_def)
qed

text \<open>
  the engine without user rules decides a domain exactly as the domain router does,
  so mounting it changes nothing for a user who wrote no rules; and a loopback name goes
  out directly whatever the rules say.
\<close>

theorem builtin_engine_is_router:
  "decide_domain cn builtin_cn host port = (if is_direct cn host then Direct else Proxy) \<and>
   (normalize_domain host = ''localhost'' \<or> suffix ''.localhost'' (normalize_domain host) \<longrightarrow>
      decide_domain cn eng host port = Direct)"
proof -
  have "normalize_rule_domain host = normalize_domain host"
    by (simp add: normalize_rule_domain_def normalize_domain_def)
  then show ?thesis
    by (auto simp: decide_domain_def builtin_cn_def port_hit_def is_direct_def Let_def
        is_direct_normalized_def ends_with_def LOOPBACK_NAMES_def)
qed

end
