(* ===== verification/UdpChannel.thy ===== *)
theory UdpChannel
  imports UdpFrame Tables
begin

text \<open>
  \<open>hydra-core/src/udp_relay.rs\<close>: the client's UDP channel over one authenticated
  stream. The stream halves are the bytes still to be read (\<open>rd\<close>) and the bytes written
  so far (\<open>wr\<close>); \<open>io\<close> holds the outcomes of the coming writes (of \<open>write_all\<close> and of
  \<open>flush\<close>), with success once it is used up. The clock is an argument \<open>now\<close>. Opening the
  channel dials the node (the transport) and is the record \<open>open_udp_channel\<close> starts from.
\<close>

definition UDP_RELAY_TARGET :: string where "UDP_RELAY_TARGET = ''@udp-relay/v1''"
definition UDP_MAX_LOCAL_SESSIONS :: nat where "UDP_MAX_LOCAL_SESSIONS = 4096"

record session_entry =
  sid :: u16
  last_used :: nat

record channel =
  rd :: "byte list"
  wr :: "byte list"
  io :: "(bool \<times> bool) list"
  sessions :: "(string \<times> session_entry) list"
  next_sid :: u16
  max_sessions :: nat
  pending_closes :: "u16 list"
  frame_buf :: "byte list"
  keyed_buf :: string

definition open_udp_channel :: "byte list res \<Rightarrow> channel res" where
  "open_udp_channel stream =
    bind_res stream (\<lambda>inc. Inr \<lparr> rd = inc, wr = [], io = [], sessions = [], next_sid = 1,
      max_sessions = UDP_MAX_LOCAL_SESSIONS, pending_closes = [], frame_buf = [], keyed_buf = [] \<rparr>)"

definition chan_write :: "byte list \<Rightarrow> channel \<Rightarrow> unit res \<times> channel" where
  "chan_write frame ch =
    (case io ch of
       [] \<Rightarrow> (case write_udp_frame True True (wr ch) frame of (r, w) \<Rightarrow> (r, ch \<lparr> wr := w \<rparr>))
     | (wo, fo) # os \<Rightarrow> (case write_udp_frame wo fo (wr ch) frame of (r, w) \<Rightarrow>
                           (r, ch \<lparr> wr := w, io := os \<rparr>)))"

section \<open>Sessions\<close>

definition session_for :: "nat \<Rightarrow> string \<Rightarrow> channel \<Rightarrow> u16 res \<times> channel" where
  "session_for now tgt ch =
    (case map_of (sessions ch) tgt of
       Some entry \<Rightarrow>
         (Inr (sid entry),
          ch \<lparr> sessions := AList.update tgt (entry \<lparr> last_used := now \<rparr>) (sessions ch) \<rparr>)
     | None \<Rightarrow>
        if length (sessions ch) < max_sessions ch \<and> (next_sid ch \<noteq> 0xFFFF \<or> sessions ch = []) then
          let s = next_sid ch; has_next = (s \<noteq> 0xFFFF) in
          (Inr s, ch \<lparr> sessions := AList.update tgt \<lparr> sid = s, last_used = now \<rparr> (sessions ch),
                      next_sid := (if has_next then next_sid ch + 1 else next_sid ch) \<rparr>)
        else
          (case min_by (\<lambda>(_, e). last_used e) (sessions ch) of
             None \<Rightarrow> (Inl (ProtocolError ''udp sids exhausted''), ch)
           | Some (victim_target, victim) \<Rightarrow>
               (Inr (sid victim),
                ch \<lparr> sessions := AList.update tgt \<lparr> sid = sid victim, last_used = now \<rparr>
                                   (AList.delete victim_target (sessions ch)),
                    pending_closes := pending_closes ch @ [sid victim] \<rparr>)))"

definition keyed :: "string \<Rightarrow> string \<Rightarrow> string" where
  "keyed session_key tgt = session_key @ [CHR 0x1F] @ tgt"

definition session_for_keyed :: "nat \<Rightarrow> string \<Rightarrow> string \<Rightarrow> channel \<Rightarrow> u16 res \<times> channel" where
  "session_for_keyed now session_key tgt ch =
    (let k = keyed session_key tgt in
     case session_for now k (ch \<lparr> keyed_buf := [] \<rparr>) of (r, ch) \<Rightarrow> (r, ch \<lparr> keyed_buf := k \<rparr>))"

section \<open>Sending\<close>

fun flush_list :: "u16 list \<Rightarrow> channel \<Rightarrow> channel" where
  "flush_list [] ch = ch"
| "flush_list (s # ss) ch =
    (case chan_write (encode_udp_close s) ch of
       (Inl _, ch) \<Rightarrow> ch \<lparr> pending_closes := [] \<rparr>
     | (Inr _, ch) \<Rightarrow> flush_list ss ch)"

definition flush_pending_closes :: "channel \<Rightarrow> channel" where
  "flush_pending_closes ch = flush_list (pending_closes ch) (ch \<lparr> pending_closes := [] \<rparr>)"

text \<open>What both sends do once they have a session id.\<close>

definition send_frame :: "u16 \<Rightarrow> string \<Rightarrow> byte list \<Rightarrow> channel \<Rightarrow> unit res \<times> channel" where
  "send_frame s tgt dgram ch =
    (case encode_udp_data_into (frame_buf ch) s tgt dgram of
       (Inl e, buf) \<Rightarrow> (Inl e, ch \<lparr> frame_buf := buf \<rparr>)
     | (Inr _, buf) \<Rightarrow>
         (let ch = flush_pending_closes (ch \<lparr> frame_buf := buf \<rparr>)
          in chan_write (frame_buf ch) ch))"

definition send_to :: "nat \<Rightarrow> string \<Rightarrow> byte list \<Rightarrow> channel \<Rightarrow> unit res \<times> channel" where
  "send_to now tgt dgram ch =
    (case session_for now tgt ch of
       (Inl e, ch) \<Rightarrow> (Inl e, ch)
     | (Inr s, ch) \<Rightarrow> send_frame s tgt dgram ch)"

definition send_to_ext ::
  "nat \<Rightarrow> string \<Rightarrow> string \<Rightarrow> byte list \<Rightarrow> channel \<Rightarrow> u16 res \<times> channel" where
  "send_to_ext now session_key tgt dgram ch =
    (case session_for_keyed now session_key tgt ch of
       (Inl e, ch) \<Rightarrow> (Inl e, ch)
     | (Inr s, ch) \<Rightarrow>
        (case send_frame s tgt dgram ch of
           (Inl e, ch) \<Rightarrow> (Inl e, ch)
         | (Inr _, ch) \<Rightarrow> (Inr s, ch)))"

text \<open>Both ways to close: remove the mapping under a key, then write a close frame.\<close>

definition close_key :: "string \<Rightarrow> channel \<Rightarrow> bool res \<times> channel" where
  "close_key k ch =
    (case map_of (sessions ch) k of
       None \<Rightarrow> (Inr False, ch)
     | Some entry \<Rightarrow>
        (case chan_write (encode_udp_close (sid entry))
                (ch \<lparr> sessions := AList.delete k (sessions ch) \<rparr>) of
           (Inl e, ch) \<Rightarrow> (Inl e, ch)
         | (Inr _, ch) \<Rightarrow> (Inr True, ch)))"

definition close_session_ext :: "string \<Rightarrow> string \<Rightarrow> channel \<Rightarrow> bool res \<times> channel" where
  "close_session_ext session_key tgt ch = close_key (keyed session_key tgt) ch"

definition close_target :: "string \<Rightarrow> channel \<Rightarrow> bool res \<times> channel" where
  "close_target tgt ch = close_key tgt ch"

section \<open>Receiving\<close>

datatype udp_rx = RxData u16 string "byte list" | RxClosed u16

definition bound_target :: "string \<Rightarrow> string" where
  "bound_target k = (let ps = split_on (CHR 0x1F) k in if length ps \<ge> 2 then ps ! 1 else k)"

definition find_sid :: "u16 \<Rightarrow> channel \<Rightarrow> (string \<times> session_entry) option" where
  "find_sid s ch = find (\<lambda>(_, e). sid e = s) (sessions ch)"

lemma read_udp_frame_shorter: "read_udp_frame bs = Inr (f, r) \<Longrightarrow> length r < length bs"
proof -
  assume "read_udp_frame bs = Inr (f, r)"
  then obtain b where "encode_frame f = Inr b" "bs = b @ r" using encode_read_frame by blast
  then show ?thesis by (cases f) (auto simp: encode_udp_data_Inr_iff encode_udp_close_def)
qed

function recv_from_ext :: "nat \<Rightarrow> channel \<Rightarrow> udp_rx res \<times> channel" where
  "recv_from_ext now ch =
    (case read_udp_frame (rd ch) of
       Inl e \<Rightarrow> (Inl e, ch \<lparr> rd := [] \<rparr>)
     | Inr (Data s tgt dgram, rest) \<Rightarrow>
        (let ch' = ch \<lparr> rd := rest \<rparr> in
         case find_sid s ch of
           Some (k, e) \<Rightarrow>
             if bound_target k = tgt then
               (Inr (RxData s tgt dgram),
                ch' \<lparr> sessions := AList.update k (e \<lparr> last_used := now \<rparr>) (sessions ch) \<rparr>)
             else recv_from_ext now ch'
         | None \<Rightarrow> recv_from_ext now ch')
     | Inr (Close s, rest) \<Rightarrow>
        (let ch' = ch \<lparr> rd := rest \<rparr> in
         case find_sid s ch of
           Some (k, e) \<Rightarrow> (Inr (RxClosed s), ch' \<lparr> sessions := AList.delete k (sessions ch) \<rparr>)
         | None \<Rightarrow> (Inr (RxClosed s), ch')))"
  by pat_completeness auto
termination
  by (relation "measure (\<lambda>(n, ch). length (rd ch))") (auto dest!: read_udp_frame_shorter)

declare recv_from_ext.simps [simp del]

text \<open>What one call does, frames that are dropped on the way included.\<close>

definition rx_effect :: "nat \<Rightarrow> channel \<Rightarrow> udp_rx res \<Rightarrow> channel \<Rightarrow> bool" where
  "rx_effect now ch r ch' \<longleftrightarrow>
    (case r of
       Inl e \<Rightarrow> ch' = ch \<lparr> rd := [] \<rparr>
     | Inr (RxData s t d) \<Rightarrow>
         (\<exists>k e rest. find_sid s ch = Some (k, e) \<and> bound_target k = t \<and> length rest < length (rd ch) \<and>
            ch' = ch \<lparr> rd := rest, sessions := AList.update k (e \<lparr> last_used := now \<rparr>) (sessions ch) \<rparr>)
     | Inr (RxClosed s) \<Rightarrow>
         (\<exists>rest. length rest < length (rd ch) \<and>
            ch' = ch \<lparr> rd := rest, sessions := (case find_sid s ch of
                Some (k, e) \<Rightarrow> AList.delete k (sessions ch) | None \<Rightarrow> sessions ch) \<rparr>))"

lemma rx_effect_skip:
  assumes "rx_effect now (ch \<lparr> rd := rest \<rparr>) r ch'" "length rest < length (rd ch)"
  shows "rx_effect now ch r ch'"
proof -
  have f: "find_sid s (ch \<lparr> rd := rest \<rparr>) = find_sid s ch" for s by (simp add: find_sid_def)
  have ss: "sessions (ch \<lparr> rd := rest \<rparr>) = sessions ch" by simp
  from assms show ?thesis
    unfolding rx_effect_def f ss
    by (cases r rule: sum.exhaust; cases "projr r") (auto intro: less_trans)
qed

lemma recv_from_ext_effect: "recv_from_ext now ch = (r, ch') \<Longrightarrow> rx_effect now ch r ch'"
proof (induction now ch rule: recv_from_ext.induct)
  case (1 now ch)
  note eq = 1(3)
  show ?case
  proof (cases "read_udp_frame (rd ch)")
    case (Inl e)
    then show ?thesis using eq by (auto simp: recv_from_ext.simps [of now ch] rx_effect_def)
  next
    case (Inr q)
    then obtain f rest where q: "read_udp_frame (rd ch) = Inr (f, rest)" by (cases q) auto
    note less = read_udp_frame_shorter [OF q]
    show ?thesis
    proof (cases f)
      case (Close s)
      then show ?thesis
        using eq q less
        by (cases "find_sid s ch")
           (auto simp: recv_from_ext.simps [of now ch] Let_def rx_effect_def)
    next
      case (Data s t d)
      have skip: ?thesis if "recv_from_ext now (ch \<lparr> rd := rest \<rparr>) = (r, ch')"
        "recv_from_ext now (ch \<lparr> rd := rest \<rparr>) = (r, ch') \<Longrightarrow> rx_effect now (ch \<lparr> rd := rest \<rparr>) r ch'"
        using that rx_effect_skip less by blast
      show ?thesis
      proof (cases "find_sid s ch")
        case None
        then have "recv_from_ext now (ch \<lparr> rd := rest \<rparr>) = (r, ch')"
          using eq q Data by (simp add: recv_from_ext.simps [of now ch] Let_def)
        then show ?thesis
          by (rule skip) (rule 1(1) [OF q refl Data refl None])
      next
        case (Some p)
        obtain k e where p: "p = (k, e)" by (cases p)
        show ?thesis
        proof (cases "bound_target k = t")
          case True
          then show ?thesis
            using eq q less Data Some p
            by (auto simp: recv_from_ext.simps [of now ch] Let_def rx_effect_def)
        next
          case False
          then have "recv_from_ext now (ch \<lparr> rd := rest \<rparr>) = (r, ch')"
            using eq q Data Some p by (simp add: recv_from_ext.simps [of now ch] Let_def)
          then show ?thesis
            by (rule skip) (rule 1(2) [OF q refl Data refl Some p [symmetric] False])
        qed
      qed
    qed
  qed
qed

lemma recv_from_ext_shorter:
  "recv_from_ext now ch = (Inr x, ch') \<Longrightarrow> length (rd ch') < length (rd ch)"
  by (drule recv_from_ext_effect) (auto simp: rx_effect_def split: udp_rx.splits option.splits)

function recv_from :: "nat \<Rightarrow> channel \<Rightarrow> (string \<times> byte list) res \<times> channel" where
  "recv_from now ch =
    (case recv_from_ext now ch of
       (Inl e, ch) \<Rightarrow> (Inl e, ch)
     | (Inr (RxData s tgt dgram), ch) \<Rightarrow> (Inr (tgt, dgram), ch)
     | (Inr (RxClosed s), ch') \<Rightarrow> recv_from now ch')"
  by pat_completeness auto
termination
  by (relation "measure (\<lambda>(n, ch). length (rd ch))") (auto dest: recv_from_ext_shorter [OF sym])

declare recv_from.simps [simp del]

definition active_sessions :: "channel \<Rightarrow> nat" where
  "active_sessions ch = length (sessions ch)"

section \<open>The invariant of a channel\<close>

definition sids :: "(string \<times> session_entry) list \<Rightarrow> u16 list" where
  "sids t = map (\<lambda>p. sid (snd p)) t"

text \<open>One session per key, one key per session id, ids from 1 up to the counter, and no
  more sessions than the limit.\<close>

definition chan_inv :: "channel \<Rightarrow> bool" where
  "chan_inv ch \<longleftrightarrow> table_ok (sessions ch) \<and> distinct (sids (sessions ch)) \<and>
     (\<forall>s\<in>set (sids (sessions ch)). 0 < s \<and> (s < next_sid ch \<or> next_sid ch = 0xFFFF)) \<and>
     0 < next_sid ch \<and> length (sessions ch) \<le> max_sessions ch"

datatype chan_op =
    SendTo nat string "byte list"
  | SendToExt nat string string "byte list"
  | CloseTarget string
  | CloseExt string string
  | RecvExt nat
  | Recv nat
  | Arrive "byte list"
  | Outcomes "(bool \<times> bool) list"

fun chan_step :: "chan_op \<Rightarrow> channel \<Rightarrow> channel" where
  "chan_step (SendTo now t d) ch = snd (send_to now t d ch)"
| "chan_step (SendToExt now k t d) ch = snd (send_to_ext now k t d ch)"
| "chan_step (CloseTarget t) ch = snd (close_target t ch)"
| "chan_step (CloseExt k t) ch = snd (close_session_ext k t ch)"
| "chan_step (RecvExt now) ch = snd (recv_from_ext now ch)"
| "chan_step (Recv now) ch = snd (recv_from now ch)"
| "chan_step (Arrive bs) ch = ch \<lparr> rd := rd ch @ bs \<rparr>"
| "chan_step (Outcomes os) ch = ch \<lparr> io := os \<rparr>"

definition chan_init :: channel where
  "chan_init = projr (open_udp_channel (Inr []))"

lemma update_dom_map:
  "map_of t k = Some e \<Longrightarrow> g e' = g e \<Longrightarrow>
   map (\<lambda>p. g (snd p)) (AList.update k e' t) = map (\<lambda>p. g (snd p)) t"
  by (induction t) auto

lemma sids_refresh:
  "map_of t k = Some e \<Longrightarrow> sids (AList.update k (e \<lparr> last_used := n \<rparr>) t) = sids t"
  unfolding sids_def by (rule update_dom_map) simp_all

lemma length_sids [simp]: "length (sids t) = length t"
  by (simp add: sids_def)

lemma length_refresh: "map_of t k = Some e \<Longrightarrow> length (AList.update k e' t) = length t"
  by (metis length_update_old map_of_in_dom)

lemma sids_delete: "set (sids (AList.delete k t)) \<subseteq> set (sids t)"
  by (auto simp: sids_def AList.delete_eq)

lemma distinct_sids_delete: "distinct (sids t) \<Longrightarrow> distinct (sids (AList.delete k t))"
  by (simp add: sids_def AList.delete_eq distinct_map_filter)

lemma find_sid_SomeD:
  "find_sid s ch = Some (k, e) \<Longrightarrow> (k, e) \<in> set (sessions ch) \<and> sid e = s"
  by (auto simp: find_sid_def find_Some_iff in_set_conv_nth)

lemma chan_write_frame [simp]:
  "sessions (snd (chan_write f ch)) = sessions ch"
  "next_sid (snd (chan_write f ch)) = next_sid ch"
  "max_sessions (snd (chan_write f ch)) = max_sessions ch"
  "pending_closes (snd (chan_write f ch)) = pending_closes ch"
  by (auto simp: chan_write_def split: list.split prod.split)

lemma chan_inv_cong:
  "sessions a = sessions b \<Longrightarrow> next_sid a = next_sid b \<Longrightarrow> max_sessions a = max_sessions b \<Longrightarrow>
   chan_inv a = chan_inv b"
  by (simp add: chan_inv_def)

lemma flush_list_frame [simp]:
  "sessions (flush_list ss ch) = sessions ch"
  "next_sid (flush_list ss ch) = next_sid ch"
  "max_sessions (flush_list ss ch) = max_sessions ch"
proof (induction ss arbitrary: ch)
  case (Cons s ss)
  case 1 show ?case
    using Cons chan_write_frame [of "encode_udp_close s" ch]
    by (cases "chan_write (encode_udp_close s) ch"; cases "fst (chan_write (encode_udp_close s) ch)") auto
  case 2 show ?case
    using Cons chan_write_frame [of "encode_udp_close s" ch]
    by (cases "chan_write (encode_udp_close s) ch"; cases "fst (chan_write (encode_udp_close s) ch)") auto
  case 3 show ?case
    using Cons chan_write_frame [of "encode_udp_close s" ch]
    by (cases "chan_write (encode_udp_close s) ch"; cases "fst (chan_write (encode_udp_close s) ch)") auto
qed simp_all

lemma send_frame_frame [simp]:
  "sessions (snd (send_frame s t d ch)) = sessions ch"
  "next_sid (snd (send_frame s t d ch)) = next_sid ch"
  "max_sessions (snd (send_frame s t d ch)) = max_sessions ch"
  by (auto simp: send_frame_def flush_pending_closes_def Let_def split: prod.split sum.split)

section \<open>Getting a session id\<close>

lemma session_for_cases:
  assumes "session_for now t ch = (r, ch')"
  obtains (hit) e where "map_of (sessions ch) t = Some e" "r = Inr (sid e)"
      "ch' = ch \<lparr> sessions := AList.update t (e \<lparr> last_used := now \<rparr>) (sessions ch) \<rparr>"
  | (fresh) "map_of (sessions ch) t = None" "length (sessions ch) < max_sessions ch"
      "next_sid ch \<noteq> 0xFFFF \<or> sessions ch = []" "r = Inr (next_sid ch)"
      "ch' = ch \<lparr> sessions := sessions ch @ [(t, \<lparr> sid = next_sid ch, last_used = now \<rparr>)],
                  next_sid := (if next_sid ch \<noteq> 0xFFFF then next_sid ch + 1 else next_sid ch) \<rparr>"
  | (reuse) k v where "map_of (sessions ch) t = None" "(k, v) \<in> set (sessions ch)"
      "\<forall>p\<in>set (sessions ch). last_used v \<le> last_used (snd p)" "r = Inr (sid v)"
      "max_sessions ch \<le> length (sessions ch) \<or> next_sid ch = 0xFFFF"
      "ch' = ch \<lparr> sessions := AList.delete k (sessions ch) @ [(t, \<lparr> sid = sid v, last_used = now \<rparr>)],
                  pending_closes := pending_closes ch @ [sid v] \<rparr>"
  | (none) "sessions ch = []" "r = Inl (ProtocolError ''udp sids exhausted'')" "ch' = ch"
      "max_sessions ch = 0"
proof (cases "map_of (sessions ch) t")
  case (Some e)
  then show ?thesis using assms by (intro hit [of e]) (auto simp: session_for_def)
next
  case None
  show ?thesis
  proof (cases "length (sessions ch) < max_sessions ch \<and> (next_sid ch \<noteq> 0xFFFF \<or> sessions ch = [])")
    case True
    then show ?thesis
      using assms None by (intro fresh) (auto simp: session_for_def Let_def update_new)
  next
    case False
    show ?thesis
    proof (cases "min_by (\<lambda>(_, e). last_used e) (sessions ch)")
      case nm: None
      then show ?thesis using assms None False
        by (intro none) (auto simp: session_for_def min_by_None)
    next
      case (Some p)
      obtain k v where p: "p = (k, v)" by (cases p)
      have m: "(k, v) \<in> set (sessions ch)" "\<forall>q\<in>set (sessions ch). last_used v \<le> last_used (snd q)"
        using min_by_mem [OF Some] p by (auto simp: case_prod_unfold)
      have "map_of (AList.delete k (sessions ch)) t = None"
        using None by (simp add: delete_conv')
      then have "AList.update t \<lparr> sid = sid v, last_used = now \<rparr> (AList.delete k (sessions ch))
          = AList.delete k (sessions ch) @ [(t, \<lparr> sid = sid v, last_used = now \<rparr>)]"
        by (rule update_new)
      with m show ?thesis
        using assms None False Some p by (intro reuse [of k v]) (auto simp: session_for_def)
    qed
  qed
qed

lemma sids_snoc: "sids (t @ [(k, e)]) = sids t @ [sid e]"
  by (simp add: sids_def)

lemma table_ok_snoc: "map_of t k = None \<Longrightarrow> table_ok (t @ [(k, e)]) = table_ok t"
  by (auto simp: map_of_eq_None_iff)

lemma sid_gone:
  assumes "table_ok t" "distinct (sids t)" "(k, v) \<in> set t"
  shows "sid v \<notin> set (sids (AList.delete k t))"
  using assms
proof (induction t)
  case (Cons p t)
  then show ?case
    by (cases p) (auto simp: sids_def AList.delete_eq image_iff rev_image_eqI)
qed simp

lemma next_sid_step: "s < (n :: u16) \<Longrightarrow> n \<noteq> 0xFFFF \<Longrightarrow> s < n + 1"
  "n \<noteq> 0xFFFF \<Longrightarrow> 0 < n + 1" "n \<noteq> 0xFFFF \<Longrightarrow> n < n + 1"
proof -
  have s: "unat (n + 1) = unat n + 1" if "n \<noteq> 0xFFFF"
  proof -
    have "(- 1 :: u16) = 0xFFFF" by simp
    then have "1 + n \<noteq> 0" using that by (metis add_eq_0_iff2 add.commute)
    then show ?thesis by (simp add: unatSuc add.commute)
  qed
  then show "s < n \<Longrightarrow> n \<noteq> 0xFFFF \<Longrightarrow> s < n + 1" "n \<noteq> 0xFFFF \<Longrightarrow> 0 < n + 1" "n \<noteq> 0xFFFF \<Longrightarrow> n < n + 1"
    by (simp_all add: word_less_nat_alt)
qed

lemma session_for_inv:
  assumes "session_for now t ch = (r, ch')" "chan_inv ch"
  shows "chan_inv ch'"
  using assms(1)
proof (cases rule: session_for_cases)
  case (hit e)
  then show ?thesis
    using assms(2) by (auto simp: chan_inv_def sids_refresh length_refresh distinct_update)
next
  case fresh
  let ?n = "next_sid ch"
  have "?n \<notin> set (sids (sessions ch))"
    using assms(2) fresh(3) by (auto simp: chan_inv_def sids_def)
  moreover have "0 < s \<and> (s < next_sid ch' \<or> next_sid ch' = 0xFFFF)"
    if "s \<in> set (sids (sessions ch'))" for s
    using that assms(2) fresh next_sid_step(1) [of s ?n] next_sid_step(3) [of ?n]
    by (auto simp: chan_inv_def sids_snoc)
  moreover have "0 < next_sid ch'"
    using assms(2) fresh(5) next_sid_step(2) [of ?n] by (auto simp: chan_inv_def)
  ultimately show ?thesis
    using assms(2) fresh(1,2) table_ok_snoc [OF fresh(1)]
    by (simp add: fresh(5) chan_inv_def sids_snoc)
next
  case (reuse k v)
  let ?t = "AList.delete k (sessions ch)"
  have inv: "table_ok (sessions ch)" "distinct (sids (sessions ch))" using assms(2) by (auto simp: chan_inv_def)
  have "map_of ?t t = None" using reuse(1) by (simp add: delete_conv')
  moreover have "sid v \<in> set (sids (sessions ch))" using reuse(2) by (force simp: sids_def)
  moreover have "Suc (length ?t) = length (sessions ch)"
    using inv(1) reuse(2) by (intro length_delete_old) (auto intro: rev_image_eqI)
  ultimately show ?thesis
    using assms(2) reuse(6) sid_gone [OF inv reuse(2)] sids_delete [of k "sessions ch"]
    by (auto simp: chan_inv_def sids_snoc table_ok_snoc table_ok_delete distinct_sids_delete)
next
  case none
  then show ?thesis using assms(2) by simp
qed

lemma delete_inv: "chan_inv ch \<Longrightarrow> chan_inv (ch \<lparr> sessions := AList.delete k (sessions ch) \<rparr>)"
  using sids_delete [of k "sessions ch"] length_delete_le [of k "sessions ch"]
  by (auto simp: chan_inv_def table_ok_delete distinct_sids_delete)

lemma rx_effect_inv: "rx_effect now ch r ch' \<Longrightarrow> chan_inv ch \<Longrightarrow> chan_inv ch'"
proof -
  assume eff: "rx_effect now ch r ch'" and inv: "chan_inv ch"
  show "chan_inv ch'"
  proof (cases r)
    case (Inl e)
    then show ?thesis using eff inv by (simp add: rx_effect_def chan_inv_def)
  next
    case (Inr x)
    show ?thesis
    proof (cases x)
      case (RxData s t d)
      then obtain k e rest where f: "find_sid s ch = Some (k, e)" and
        ch': "ch' = ch \<lparr> rd := rest, sessions := AList.update k (e \<lparr> last_used := now \<rparr>) (sessions ch) \<rparr>"
        using eff Inr by (auto simp: rx_effect_def)
      have "map_of (sessions ch) k = Some e"
        using find_sid_SomeD [OF f] inv by (simp add: chan_inv_def)
      then show ?thesis
        using inv by (auto simp: ch' chan_inv_def sids_refresh length_refresh distinct_update)
    next
      case (RxClosed s)
      then obtain rest where ch': "ch' = ch \<lparr> rd := rest, sessions := (case find_sid s ch of
                Some (k, e) \<Rightarrow> AList.delete k (sessions ch) | None \<Rightarrow> sessions ch) \<rparr>"
        using eff Inr by (auto simp: rx_effect_def)
      show ?thesis
        using delete_inv [OF inv] inv
        by (cases "find_sid s ch") (auto simp: ch' chan_inv_def)
    qed
  qed
qed

lemma recv_from_ext_inv: "chan_inv ch \<Longrightarrow> chan_inv (snd (recv_from_ext now ch))"
  using rx_effect_inv recv_from_ext_effect by (metis prod.collapse)

lemma recv_from_inv: "chan_inv ch \<Longrightarrow> chan_inv (snd (recv_from now ch))"
proof (induction now ch rule: recv_from.induct)
  case (1 now ch)
  obtain r ch' where r: "recv_from_ext now ch = (r, ch')" by fastforce
  have inv: "chan_inv ch'" using recv_from_ext_inv [OF 1(2), of now] r by simp
  show ?case
  proof (cases r)
    case (Inl e)
    then show ?thesis using r inv by (subst recv_from.simps) simp
  next
    case (Inr x)
    then show ?thesis
      using r inv 1(1) [OF r [symmetric] Inr]
      by (cases x) (subst recv_from.simps, simp)+
  qed
qed

lemma session_for_keyed_inv:
  "session_for_keyed now k t ch = (r, ch') \<Longrightarrow> chan_inv ch \<Longrightarrow> chan_inv ch'"
proof -
  assume a: "session_for_keyed now k t ch = (r, ch')" "chan_inv ch"
  obtain c where c: "session_for now (keyed k t) (ch \<lparr> keyed_buf := [] \<rparr>) = (r, c)"
    "ch' = c \<lparr> keyed_buf := keyed k t \<rparr>"
    using a(1) by (auto simp: session_for_keyed_def Let_def split: prod.splits)
  have "chan_inv (ch \<lparr> keyed_buf := [] \<rparr>)" using a(2) by (simp add: chan_inv_def)
  from session_for_inv [OF c(1) this] show "chan_inv ch'" by (simp add: c(2) chan_inv_def)
qed

lemma close_key_inv: "chan_inv ch \<Longrightarrow> chan_inv (snd (close_key k ch))"
proof (cases "map_of (sessions ch) k")
  case (Some e)
  assume "chan_inv ch"
  then have "chan_inv (snd (chan_write (encode_udp_close (sid e))
      (ch \<lparr> sessions := AList.delete k (sessions ch) \<rparr>)))"
    using delete_inv [of ch k] by (simp add: chan_inv_def)
  with Some show ?thesis by (auto simp: close_key_def split: prod.splits sum.splits)
qed (simp add: close_key_def)

lemma send_frame_inv: "chan_inv ch \<Longrightarrow> chan_inv (snd (send_frame s t d ch))"
  by (simp add: chan_inv_def)

lemma chan_inv_step: "chan_inv ch \<Longrightarrow> chan_inv (chan_step op ch)"
proof (induction op)
  case (SendTo now t d)
  obtain r c where r: "session_for now t ch = (r, c)" by fastforce
  from session_for_inv [OF r SendTo] have "chan_inv c" .
  then show ?case using r send_frame_inv by (cases r) (auto simp: send_to_def)
next
  case (SendToExt now k t d)
  obtain r c where r: "session_for_keyed now k t ch = (r, c)" by fastforce
  from session_for_keyed_inv [OF r SendToExt] have c: "chan_inv c" .
  show ?case
  proof (cases r)
    case (Inr s)
    obtain r' c' where "send_frame s t d c = (r', c')" by fastforce
    with Inr r send_frame_inv [OF c, of s t d] show ?thesis
      by (cases r') (auto simp: send_to_ext_def)
  qed (use r c in \<open>simp add: send_to_ext_def\<close>)
qed (auto simp: close_target_def close_session_ext_def close_key_inv recv_from_ext_inv recv_from_inv
    chan_inv_def [of "_ \<lparr> rd := _ \<rparr>"] chan_inv_def [of "_ \<lparr> io := _ \<rparr>"], auto simp: chan_inv_def)

interpretation chan: guarded_table chan_init chan_step chan_inv
  by unfold_locales
     (simp add: chan_init_def open_udp_channel_def chan_inv_def sids_def, rule chan_inv_step)

section \<open>What goes out\<close>

lemma chan_write_ok: "io ch = [] \<Longrightarrow> chan_write f ch = (Inr (), ch \<lparr> wr := wr ch @ f \<rparr>)"
  by (simp add: chan_write_def write_udp_frame_def)

lemma flush_list_ok:
  "io ch = [] \<Longrightarrow> flush_list ss ch = ch \<lparr> wr := wr ch @ concat (map encode_udp_close ss) \<rparr>"
  by (induction ss arbitrary: ch) (simp_all add: chan_write_ok)

lemma send_frame_ok:
  assumes "io ch = []" "encode_udp_data s t d = Inr b"
  shows "send_frame s t d ch = (Inr (), ch \<lparr> frame_buf := b, pending_closes := [],
     wr := wr ch @ concat (map encode_udp_close (pending_closes ch)) @ b \<rparr>)"
proof -
  have "encode_udp_data_into (frame_buf ch) s t d = (Inr (), b)"
    using assms(2) by (auto simp: encode_udp_data_into_def encode_udp_data_def Let_def split: if_splits)
  then show ?thesis
    using assms(1) by (simp add: send_frame_def flush_pending_closes_def flush_list_ok chan_write_ok Let_def)
qed

lemma write_frames_append:
  "write_frames enc (xs @ ys) =
     bind_res (write_frames enc xs) (\<lambda>b. bind_res (write_frames enc ys) (\<lambda>c. Inr (b @ c)))"
  by (induction xs) (auto simp: bind_res_def split: sum.splits)

lemma write_closes: "write_frames encode_frame (map Close ss) = Inr (concat (map encode_udp_close ss))"
  by (induction ss) auto

lemma closes_then_data_read:
  assumes "is_str t" "encode_udp_data s t d = Inr b"
  shows "read_frames (Suc (length ss)) read_udp_frame (concat (map encode_udp_close ss) @ b @ r) =
     Inr (map Close ss @ [Data s t d], r)"
proof -
  have "write_frames encode_frame (map Close ss @ [Data s t d]) =
      Inr (concat (map encode_udp_close ss) @ b)"
    using assms(2) by (simp add: write_frames_append write_closes)
  moreover have "list_all frame_wf (map Close ss @ [Data s t d])"
    using assms(1) by (simp add: list_all_iff)
  ultimately show ?thesis
    using udp_codec.read_frames_write_frames [of "map Close ss @ [Data s t d]" "concat (map encode_udp_close ss) @ b" r]
    by simp
qed

lemma sid_owner:
  assumes "distinct (sids t)" "(k, e) \<in> set t" "(k', e') \<in> set t" "sid e = sid e'"
  shows "k = k'"
  using assms unfolding sids_def distinct_map inj_on_def by force

section \<open>The id counter at its end\<close>

definition stuck :: "nat \<Rightarrow> channel \<Rightarrow> bool" where
  "stuck n ch \<longleftrightarrow> chan_inv ch \<and> next_sid ch = 0xFFFF \<and> length (sessions ch) \<le> max 1 n"

lemma session_for_stuck:
  assumes "session_for now t ch = (r, ch')" "stuck n ch"
  shows "stuck n ch'"
  using assms(1)
proof (cases rule: session_for_cases)
  case (reuse k v)
  have "Suc (length (AList.delete k (sessions ch))) = length (sessions ch)"
    using assms(2) reuse(2)
    by (intro length_delete_old) (auto simp: stuck_def chan_inv_def intro: rev_image_eqI)
  then show ?thesis
    using reuse assms session_for_inv by (auto simp: stuck_def)
qed (use assms session_for_inv in \<open>auto simp: stuck_def length_refresh\<close>)

lemma stuck_frame:
  assumes "stuck n ch" "chan_inv ch'" "next_sid ch' = next_sid ch"
    "length (sessions ch') \<le> length (sessions ch)"
  shows "stuck n ch'"
  using assms by (simp add: stuck_def)

lemma rx_effect_stuck: "rx_effect now ch r ch' \<Longrightarrow> stuck n ch \<Longrightarrow> stuck n ch'"
proof -
  assume eff: "rx_effect now ch r ch'" and st: "stuck n ch"
  then have inv: "chan_inv ch'" using rx_effect_inv by (auto simp: stuck_def)
  have "next_sid ch' = next_sid ch \<and> length (sessions ch') \<le> length (sessions ch)"
  proof (cases r)
    case (Inr x)
    show ?thesis
    proof (cases x)
      case (RxData s t d)
      then obtain k e rest where f: "find_sid s ch = Some (k, e)" and
        ch': "ch' = ch \<lparr> rd := rest, sessions := AList.update k (e \<lparr> last_used := now \<rparr>) (sessions ch) \<rparr>"
        using eff Inr by (auto simp: rx_effect_def)
      have "map_of (sessions ch) k = Some e"
        using find_sid_SomeD [OF f] st by (simp add: stuck_def chan_inv_def)
      then show ?thesis by (simp add: ch' length_refresh)
    next
      case (RxClosed s)
      then show ?thesis
        using eff Inr by (auto simp: rx_effect_def length_delete_le split: option.splits)
    qed
  qed (use eff in \<open>simp add: rx_effect_def\<close>)
  with st inv show "stuck n ch'" by (auto intro: stuck_frame)
qed

lemma recv_from_stuck: "stuck n ch \<Longrightarrow> stuck n (snd (recv_from now ch))"
proof (induction now ch rule: recv_from.induct)
  case (1 now ch)
  obtain r ch' where r: "recv_from_ext now ch = (r, ch')" by fastforce
  have st: "stuck n ch'" using rx_effect_stuck [OF recv_from_ext_effect [OF r] 1(2)] .
  show ?case
  proof (cases r)
    case (Inl e)
    then show ?thesis using r st by (subst recv_from.simps) simp
  next
    case (Inr x)
    then show ?thesis
      using r st 1(1) [OF r [symmetric] Inr]
      by (cases x) (subst recv_from.simps, simp)+
  qed
qed

lemma session_for_keyed_stuck:
  assumes "session_for_keyed now k t ch = (r, ch')" "stuck n ch"
  shows "stuck n ch'"
proof -
  obtain c where c: "session_for now (keyed k t) (ch \<lparr> keyed_buf := [] \<rparr>) = (r, c)"
    "ch' = c \<lparr> keyed_buf := keyed k t \<rparr>"
    using assms(1) by (auto simp: session_for_keyed_def Let_def split: prod.splits)
  have "stuck n (ch \<lparr> keyed_buf := [] \<rparr>)" using assms(2) by (simp add: stuck_def chan_inv_def)
  from session_for_stuck [OF c(1) this] show ?thesis by (simp add: c(2) stuck_def chan_inv_def)
qed

lemma send_frame_stuck: "stuck n c \<Longrightarrow> stuck n (snd (send_frame s t d c))"
  by (simp add: stuck_def chan_inv_def)

lemma close_key_frame:
  "sessions (snd (close_key k ch)) = AList.delete k (sessions ch)"
  "next_sid (snd (close_key k ch)) = next_sid ch"
proof -
  have snd_case: "snd (case p of (Inl e, c) \<Rightarrow> (Inl e, c) | (Inr _, c) \<Rightarrow> (Inr True, c)) = snd p"
    for p :: "unit res \<times> channel"
    by (auto split: prod.split sum.split)
  show "sessions (snd (close_key k ch)) = AList.delete k (sessions ch)"
    "next_sid (snd (close_key k ch)) = next_sid ch"
    by (auto simp: close_key_def snd_case map_of_eq_None_iff split: option.split)
qed

lemma close_key_stuck: "stuck n ch \<Longrightarrow> stuck n (snd (close_key k ch))"
  by (rule stuck_frame [of n ch])
     (auto simp: close_key_frame length_delete_le stuck_def close_key_inv)

lemma stuck_step: "stuck n ch \<Longrightarrow> stuck n (chan_step op ch)"
proof (induction op)
  case (SendTo now t d)
  obtain r c where r: "session_for now t ch = (r, c)" by fastforce
  from session_for_stuck [OF r SendTo] have "stuck n c" .
  then show ?case using r send_frame_stuck by (cases r) (auto simp: send_to_def)
next
  case (SendToExt now k t d)
  obtain r c where r: "session_for_keyed now k t ch = (r, c)" by fastforce
  from session_for_keyed_stuck [OF r SendToExt] have c: "stuck n c" .
  show ?case
  proof (cases r)
    case (Inr s)
    obtain r' c' where "send_frame s t d c = (r', c')" by fastforce
    with Inr r send_frame_stuck [OF c, of s t d] show ?thesis
      by (cases r') (auto simp: send_to_ext_def)
  qed (use r c in \<open>simp add: send_to_ext_def\<close>)
next
  case (RecvExt now)
  obtain r c where "recv_from_ext now ch = (r, c)" by fastforce
  with RecvExt rx_effect_stuck [OF recv_from_ext_effect] show ?case by simp
qed (auto simp: close_target_def close_session_ext_def close_key_stuck recv_from_stuck,
    auto simp: stuck_def chan_inv_def)

lemma stuck_run: "stuck n ch \<Longrightarrow> stuck n (fold chan_step ops ch)"
  by (induction ops arbitrary: ch) (auto simp: stuck_step)

section \<open>Properties\<close>

text \<open>
  C21: whatever is sent, received, closed or lost on a channel, one key never has two
  sessions and one session id never two keys, ids are never 0, and the sessions never exceed
  the limit; so an answer can always be traced to one flow.
\<close>

theorem channel_invariant:
  "chan_inv (fold chan_step ops chan_init)"
  by (rule chan.inv_run)

text \<open>
  C22: a session id is reused safely. When a send goes out, the stream gains exactly the
  close frames still owed, among them the one for the flow whose id was taken over, and
  then the data frame; the node reads them in that order, so it drops the old binding
  before it sees the new one, and no other flow is left with that id.
\<close>

theorem send_closes_before_data:
  assumes "chan_inv ch" "io ch = []" "is_str t" "send_to now t d ch = (Inr (), ch')"
  shows "\<exists>s closes out.
    wr ch' = wr ch @ out \<and> pending_closes ch' = [] \<and>
    closes = pending_closes ch @
      (if map_of (sessions ch) t = None \<and> s \<in> set (sids (sessions ch)) then [s] else []) \<and>
    (\<forall>r. read_frames (Suc (length closes)) read_udp_frame (out @ r) =
           Inr (map Close closes @ [Data s t d], r)) \<and>
    (\<forall>k e. (k, e) \<in> set (sessions ch') \<and> sid e = s \<longrightarrow> k = t)"
proof -
  obtain s c where r: "session_for now t ch = (Inr s, c)" and f: "send_frame s t d c = (Inr (), ch')"
    using assms(4) by (auto simp: send_to_def split: prod.splits sum.splits)
  let ?p = "pending_closes ch @
      (if map_of (sessions ch) t = None \<and> s \<in> set (sids (sessions ch)) then [s] else [])"
  have all: "io c = [] \<and> wr c = wr ch \<and> pending_closes c = ?p \<and>
      (\<exists>e. (t, e) \<in> set (sessions c) \<and> sid e = s)"
    using r
  proof (cases rule: session_for_cases)
    case (hit e)
    have "(t, e \<lparr> last_used := now \<rparr>) \<in> set (AList.update t (e \<lparr> last_used := now \<rparr>) (sessions ch))"
      by (intro map_of_SomeD) (simp add: update_conv')
    with hit show ?thesis using assms(2) by force
  next
    case fresh
    then have "s \<notin> set (sids (sessions ch))" using assms(1) by (auto simp: chan_inv_def sids_def)
    with fresh assms(2) show ?thesis by auto
  next
    case (reuse k v)
    then have "s \<in> set (sids (sessions ch))" by (force simp: sids_def)
    with reuse assms(2) show ?thesis by auto
  qed simp
  then have io: "io c = []" and w: "wr c = wr ch" and p: "pending_closes c = ?p"
    and own: "\<exists>e. (t, e) \<in> set (sessions c) \<and> sid e = s" by blast+
  have "is_ok (encode_udp_data s t d)"
    using f by (auto simp: send_frame_def encode_udp_data_into_def encode_udp_data_def Let_def
        split: if_splits)
  then obtain b where b: "encode_udp_data s t d = Inr b" by (cases "encode_udp_data s t d") auto
  have ch': "ch' = c \<lparr> frame_buf := b, pending_closes := [],
     wr := wr c @ concat (map encode_udp_close (pending_closes c)) @ b \<rparr>"
    using send_frame_ok [OF io b] f by simp
  have inv: "chan_inv c" using session_for_inv [OF r assms(1)] .
  have own_all: "\<forall>k e. (k, e) \<in> set (sessions ch') \<and> sid e = s \<longrightarrow> k = t"
  proof (intro allI impI)
    fix k e assume "(k, e) \<in> set (sessions ch') \<and> sid e = s"
    moreover obtain e' where "(t, e') \<in> set (sessions c)" "sid e' = s" using own by blast
    ultimately show "k = t"
      using inv sid_owner [of "sessions c" k e t e'] by (simp add: ch' chan_inv_def)
  qed
  show ?thesis
  proof (intro exI conjI)
    show "wr ch' = wr ch @ (concat (map encode_udp_close (pending_closes c)) @ b)"
      by (simp add: ch' w)
    show "pending_closes ch' = []" by (simp add: ch')
    show "pending_closes c = ?p" by (rule p)
    show "\<forall>r. read_frames (Suc (length (pending_closes c))) read_udp_frame
        ((concat (map encode_udp_close (pending_closes c)) @ b) @ r) =
        Inr (map Close (pending_closes c) @ [Data s t d], r)"
      unfolding append_assoc by (intro allI closes_then_data_read [OF assms(3) b])
  qed (rule own_all)
qed

theorem send_closes_before_data_witness:
  "\<exists>s closes out.
    wr (snd (send_to 5 ''h:1'' [1] chan_init)) = [] @ out \<and>
    (\<forall>r. read_frames (Suc (length closes)) read_udp_frame (out @ r) =
           Inr (map Close closes @ [Data s ''h:1'' [1]], r))"
proof -
  have "chan_inv chan_init" "io chan_init = []" "wr chan_init = []"
    by (simp_all add: chan_init_def open_udp_channel_def chan_inv_def sids_def)
  moreover have "is_str ''h:1''" by (simp add: is_ascii_is_str is_ascii_def)
  moreover have "send_to 5 ''h:1'' [1] chan_init = (Inr (), snd (send_to 5 ''h:1'' [1] chan_init))"
    by (simp add: send_to_def session_for_def chan_init_def open_udp_channel_def
        UDP_MAX_LOCAL_SESSIONS_def send_frame_def encode_udp_data_into_def udp_consts as_bytes_def
        flush_pending_closes_def chan_write_def write_udp_frame_def Let_def)
  ultimately show ?thesis
    using send_closes_before_data [of chan_init "''h:1''" 5 "[1]" "snd (send_to 5 ''h:1'' [1] chan_init)"]
    by fastforce
qed

text \<open>
  a datagram is only delivered to the flow it belongs to. What \<open>recv_from_ext\<close>
  returns as data names a session that is mapped, and its address is the one that session
  was opened for; frames of unknown sessions and frames that name another address are
  dropped; a close frame removes the mapping and is reported.
\<close>

theorem recv_only_bound:
  "(case recv_from_ext now ch of
      (Inr (RxData s t d), ch') \<Rightarrow> \<exists>k e. (k, e) \<in> set (sessions ch) \<and> sid e = s \<and> bound_target k = t
    | (Inr (RxClosed s), ch') \<Rightarrow>
        (case find_sid s ch of Some (k, _) \<Rightarrow> map_of (sessions ch') k = None
         | None \<Rightarrow> sessions ch' = sessions ch)
    | (Inl _, ch') \<Rightarrow> sessions ch' = sessions ch)"
proof -
  obtain r ch' where r: "recv_from_ext now ch = (r, ch')" by fastforce
  from recv_from_ext_effect [OF r] show ?thesis
    by (auto simp: r rx_effect_def delete_conv' dest: find_sid_SomeD
        split: sum.splits udp_rx.splits option.splits)
qed

text \<open>
  the counter of session ids is never wound back. Once it has reached 65535 a channel
  can never again have more sessions than it had then (or one), whatever is closed and
  whatever traffic follows, although thousands of ids are free: every close, from either
  side, shrinks the channel for good.
\<close>

theorem exhausted_ids_never_recover:
  assumes "chan_inv ch" "next_sid ch = 0xFFFF"
  shows "active_sessions (fold chan_step ops ch) \<le> max 1 (active_sessions ch) \<and>
    next_sid (fold chan_step ops ch) = 0xFFFF"
proof -
  have "stuck (active_sessions ch) ch"
    using assms by (simp add: stuck_def active_sessions_def)
  from stuck_run [OF this, of ops] show ?thesis by (simp add: stuck_def active_sessions_def)
qed

theorem exhausted_ids_never_recover_witness:
  "active_sessions (fold chan_step [SendTo 1 ''a:1'' [], SendTo 2 ''b:1'' []]
     (chan_init \<lparr> next_sid := 0xFFFF \<rparr>)) \<le> 1"
proof -
  let ?ch = "chan_init \<lparr> next_sid := 0xFFFF \<rparr>"
  have ch: "chan_inv ?ch" "next_sid ?ch = 0xFFFF" "active_sessions ?ch = 0"
    by (simp_all add: chan_init_def open_udp_channel_def chan_inv_def sids_def active_sessions_def)
  from exhausted_ids_never_recover [OF ch(1,2), of "[SendTo 1 ''a:1'' [], SendTo 2 ''b:1'' []]"] ch(3)
  show ?thesis by linarith
qed

end
