(* ===== verification/Pool.thy ===== *)
theory Pool
  imports Complex_Main Tables NetAddr
begin

text \<open>
  \<open>hydra-core/src/pool.rs\<close>: the pool of pre-warmed connections. A connection is an
  element of any type; dropping it is leaving it out. Both mutex-guarded maps are fields
  of one record, the clock is in milliseconds, the averages are exact reals. The two locks
  of one call are taken one after the other, never around each other, so a call is one step.
\<close>

definition IDLE_CAP_BASE :: nat where "IDLE_CAP_BASE = 2"
definition IDLE_CAP_MAX :: nat where "IDLE_CAP_MAX = 8"
definition IDLE_TTL :: nat where "IDLE_TTL = 60000"

lemmas pool_consts = IDLE_CAP_BASE_def IDLE_CAP_MAX_def IDLE_TTL_def

record 's entry =
  stream :: 's
  warmed_at :: nat

record 's pool =
  inner :: "(sock_addr \<times> 's entry list) list"
  peak :: "(sock_addr \<times> real) list"

definition pool_new :: "'s pool" where
  "pool_new = \<lparr> inner = [], peak = [] \<rparr>"

definition cap_for :: "sock_addr \<Rightarrow> 's pool \<Rightarrow> nat" where
  "cap_for node p =
    (let pk = (case map_of (peak p) node of Some x \<Rightarrow> x | None \<Rightarrow> 0)
     in nat \<lfloor>min (max (real IDLE_CAP_BASE) (of_int \<lceil>pk\<rceil>)) (real IDLE_CAP_MAX)\<rfloor>)"

definition note_miss :: "sock_addr \<Rightarrow> 's pool \<Rightarrow> 's pool" where
  "note_miss node p =
    (let cur = (case map_of (peak p) node of Some x \<Rightarrow> x | None \<Rightarrow> 0)
     in p \<lparr> peak := AList.update node (cur * (1/2) + (cur + 1) * (1/2)) (peak p) \<rparr>)"

definition note_hit :: "sock_addr \<Rightarrow> 's pool \<Rightarrow> 's pool" where
  "note_hit node p =
    (case map_of (peak p) node of
       None \<Rightarrow> p
     | Some cur \<Rightarrow>
         let new = max (cur - real IDLE_CAP_BASE) 0 * (95/100) + real IDLE_CAP_BASE in
         if new \<le> real IDLE_CAP_BASE + 1/10 then p \<lparr> peak := AList.delete node (peak p) \<rparr>
         else p \<lparr> peak := AList.update node new (peak p) \<rparr>)"

definition entry_fresh :: "nat \<Rightarrow> 's entry \<Rightarrow> bool" where
  "entry_fresh now e = (now - warmed_at e < IDLE_TTL)"

definition checkout :: "nat \<Rightarrow> sock_addr \<Rightarrow> 's pool \<Rightarrow> 's option \<times> 's pool" where
  "checkout now node p =
    (case map_of (inner p) node of
       None \<Rightarrow> (None, note_miss node p)
     | Some slot \<Rightarrow>
         (let m = AList.delete node (inner p);
              slot = dropWhile (\<lambda>e. \<not> entry_fresh now e) slot;
              out = (case slot of [] \<Rightarrow> None | e # _ \<Rightarrow> Some (stream e));
              slot = (case slot of [] \<Rightarrow> [] | _ # r \<Rightarrow> r);
              m = (if slot \<noteq> [] then AList.update node slot m else m)
          in (out, note_hit node (p \<lparr> inner := m \<rparr>))))"

definition checkin :: "nat \<Rightarrow> sock_addr \<Rightarrow> 's \<Rightarrow> 's pool \<Rightarrow> 's pool" where
  "checkin now node s p =
    (let cap = cap_for node p;
         slot = (case map_of (inner p) node of Some x \<Rightarrow> x | None \<Rightarrow> []) in
     if length slot \<ge> cap then p \<lparr> inner := AList.update node slot (inner p) \<rparr>
     else p \<lparr> inner := AList.update node (slot @ [\<lparr> stream = s, warmed_at = now \<rparr>]) (inner p) \<rparr>)"

definition idle_len :: "sock_addr \<Rightarrow> 's pool \<Rightarrow> nat" where
  "idle_len node p = (case map_of (inner p) node of Some s \<Rightarrow> length s | None \<Rightarrow> 0)"

definition evict_expired :: "nat \<Rightarrow> 's pool \<Rightarrow> nat \<times> 's pool" where
  "evict_expired now p =
    (let kept = map (\<lambda>(n, slot). (n, filter (entry_fresh now) slot)) (inner p);
         removed = sum_list (map (\<lambda>(n, slot). length slot - length (filter (entry_fresh now) slot)) (inner p))
     in (removed, p \<lparr> inner := filter (\<lambda>(n, slot). slot \<noteq> []) kept \<rparr>))"

definition total_idle :: "'s pool \<Rightarrow> nat" where
  "total_idle p = sum_list (map (\<lambda>(n, slot). length slot) (inner p))"

section \<open>Invariant\<close>

definition slot_of :: "sock_addr \<Rightarrow> 's pool \<Rightarrow> 's entry list" where
  "slot_of n p = (case map_of (inner p) n of Some s \<Rightarrow> s | None \<Rightarrow> [])"

text \<open>At most eight connections per node, warmed in the order they are kept and never in
  the future of the clock \<open>now\<close>.\<close>

definition slot_ok :: "nat \<Rightarrow> 's entry list \<Rightarrow> bool" where
  "slot_ok now slot \<longleftrightarrow> length slot \<le> IDLE_CAP_MAX \<and> sorted (map warmed_at slot) \<and>
     (\<forall>e\<in>set slot. warmed_at e \<le> now)"

definition pool_inv :: "nat \<Rightarrow> 's pool \<Rightarrow> bool" where
  "pool_inv now p \<longleftrightarrow> table_ok (inner p) \<and> table_ok (peak p) \<and>
     (\<forall>(n, slot) \<in> set (inner p). slot_ok now slot)"

lemma cap_for_range: "IDLE_CAP_BASE \<le> cap_for n p" "cap_for n p \<le> IDLE_CAP_MAX"
proof -
  define pk where "pk = (case map_of (peak p) n of Some x \<Rightarrow> x | None \<Rightarrow> 0)"
  define c where "c = min (max 2 \<lceil>pk\<rceil>) 8"
  have "min (max (real IDLE_CAP_BASE) (of_int \<lceil>pk\<rceil>)) (real IDLE_CAP_MAX) = of_int c"
    by (simp add: pool_consts c_def of_int_min of_int_max)
  then have "cap_for n p = nat c" by (simp add: cap_for_def pk_def [symmetric])
  moreover have "2 \<le> c" "c \<le> 8" by (auto simp: c_def)
  ultimately show "IDLE_CAP_BASE \<le> cap_for n p" "cap_for n p \<le> IDLE_CAP_MAX"
    by (simp_all add: pool_consts)
qed

lemma note_inner [simp]: "inner (note_hit n p) = inner p" "inner (note_miss n p) = inner p"
  by (auto simp: note_hit_def note_miss_def Let_def split: option.split)

lemma note_peak_ok: "table_ok (peak p) \<Longrightarrow> table_ok (peak (note_hit n p)) \<and> table_ok (peak (note_miss n p))"
  by (auto simp: note_hit_def note_miss_def Let_def distinct_update AList.delete_eq distinct_map_filter
      split: option.split)

lemma pool_inv_peak: "pool_inv now p \<Longrightarrow> pool_inv now (note_hit n p)" "pool_inv now p \<Longrightarrow> pool_inv now (note_miss n p)"
  using note_peak_ok [of p n] by (simp_all add: pool_inv_def)

lemma pool_inv_set_slot:
  assumes "pool_inv now p" "slot_ok now slot"
  shows "pool_inv now (p \<lparr> inner := AList.update n slot (inner p) \<rparr>)"
  using assms by (auto simp: pool_inv_def distinct_update in_update_iff split: if_splits)

lemma pool_inv_delete: "pool_inv now p \<Longrightarrow> pool_inv now (p \<lparr> inner := AList.delete n (inner p) \<rparr>)"
  by (auto simp: pool_inv_def AList.delete_eq distinct_map_filter)

lemma pool_inv_slot:
  "pool_inv now p \<Longrightarrow> map_of (inner p) n = Some slot \<Longrightarrow> slot_ok now slot"
  by (auto simp: pool_inv_def dest!: map_of_SomeD bspec)

lemma pool_inv_later: "pool_inv now p \<Longrightarrow> now \<le> now' \<Longrightarrow> pool_inv now' p"
  by (fastforce simp: pool_inv_def slot_ok_def)

lemma slot_ok_rest:
  assumes "slot_ok now slot" "dropWhile P slot = e # r"
  shows "slot_ok now r"
proof -
  obtain pre where s: "slot = pre @ e # r"
    using takeWhile_dropWhile_id [of P slot] assms(2) by metis
  show ?thesis using assms(1) by (auto simp: s slot_ok_def sorted_append)
qed

lemma slot_ok_filter: "slot_ok now slot \<Longrightarrow> slot_ok now (filter P slot)"
  by (auto simp: slot_ok_def intro: le_trans [OF length_filter_le] sorted_filter)

lemma checkout_inv: "pool_inv now p \<Longrightarrow> pool_inv now (snd (checkout now n p))"
proof (cases "map_of (inner p) n")
  case (Some slot)
  assume inv: "pool_inv now p"
  note sl = pool_inv_slot [OF inv Some]
  note del = pool_inv_delete [OF inv, of n]
  show ?thesis
  proof (cases "dropWhile (\<lambda>e. \<not> entry_fresh now e) slot")
    case (Cons e r)
    then have "slot_ok now r" using sl slot_ok_rest by blast
    then show ?thesis
      using pool_inv_set_slot [OF del, of r n] del
      by (cases "r = []") (auto simp: checkout_def Some Cons Let_def intro!: pool_inv_peak)
  next
    case Nil
    then have "checkout now n p = (None, note_hit n (p \<lparr> inner := AList.delete n (inner p) \<rparr>))"
      by (simp only: checkout_def Some Let_def option.case list.case) simp
    then show ?thesis using del by (simp add: pool_inv_peak)
  qed
qed (simp add: checkout_def pool_inv_peak)

lemma checkin_inv: "pool_inv now p \<Longrightarrow> pool_inv now (checkin now n s p)"
proof -
  assume inv: "pool_inv now p"
  have slot: "slot_ok now (slot_of n p)"
    using pool_inv_slot [OF inv, of n] by (auto simp: slot_of_def slot_ok_def split: option.split)
  have eq: "checkin now n s p = p \<lparr> inner := AList.update n
      (if cap_for n p \<le> length (slot_of n p) then slot_of n p
       else slot_of n p @ [\<lparr> stream = s, warmed_at = now \<rparr>]) (inner p) \<rparr>"
    by (simp add: checkin_def slot_of_def Let_def)
  show ?thesis
    unfolding eq
    by (rule pool_inv_set_slot [OF inv])
       (use slot cap_for_range(2) [of n p] in \<open>auto simp: slot_ok_def sorted_append\<close>)
qed

lemma map_fst_filter_map:
  "table_ok t \<Longrightarrow> table_ok (filter P (map (\<lambda>(n, s). (n, f s)) t))"
  by (induction t) (auto simp: image_iff)

lemma evict_inv: "pool_inv now p \<Longrightarrow> pool_inv now (snd (evict_expired now p))"
  by (fastforce simp: pool_inv_def evict_expired_def Let_def map_fst_filter_map intro: slot_ok_filter)

datatype 's pool_op = CheckOut sock_addr | CheckIn sock_addr 's | Evict

fun pool_step :: "nat \<Rightarrow> 's pool_op \<Rightarrow> 's pool \<Rightarrow> 's pool" where
  "pool_step now (CheckOut n) p = snd (checkout now n p)"
| "pool_step now (CheckIn n s) p = checkin now n s p"
| "pool_step now Evict p = snd (evict_expired now p)"

text \<open>A run carries its clock; an operation comes with the time that passed before it.\<close>

fun pool_timed :: "nat \<times> 's pool_op \<Rightarrow> nat \<times> 's pool \<Rightarrow> nat \<times> 's pool" where
  "pool_timed (dt, op) (now, p) = (now + dt, pool_step (now + dt) op p)"

lemma pool_step_inv: "pool_inv now p \<Longrightarrow> pool_inv now (pool_step now op p)"
  by (cases op) (simp_all add: checkout_inv checkin_inv evict_inv)

interpretation pool: guarded_table "(0, pool_new)" pool_timed "\<lambda>(now, p). pool_inv now p"
proof
  show "case (0, pool_new) of (now, p) \<Rightarrow> pool_inv now p"
    by (simp add: pool_inv_def pool_new_def)
next
  fix s :: "nat \<times> 'a pool" and op :: "nat \<times> 'a pool_op"
  assume "case s of (now, p) \<Rightarrow> pool_inv now p"
  then show "case pool_timed op s of (now, p) \<Rightarrow> pool_inv now p"
    by (cases s; cases op) (auto intro!: pool_step_inv elim: pool_inv_later)
qed

section \<open>What the operations return\<close>

lemma slot_of_simps [simp]:
  "slot_of m (note_hit n p) = slot_of m p" "slot_of m (note_miss n p) = slot_of m p"
  by (simp_all add: slot_of_def)

lemma slot_of_update: "slot_of m (p \<lparr> inner := AList.update n x t \<rparr>) =
    (if m = n then x else slot_of m (p \<lparr> inner := t \<rparr>))"
  by (simp add: slot_of_def update_conv')

lemma slot_of_delete: "slot_of m (p \<lparr> inner := AList.delete n (inner p) \<rparr>) =
    (if m = n then [] else slot_of m p)"
  by (simp add: slot_of_def delete_conv')

text \<open>When every connection of a node has expired, the checkout that finds none records a
  delivery, not a miss.\<close>

lemma stale_checkout_counts_as_hit:
  assumes "map_of (inner p) n = Some slot" "\<forall>e\<in>set slot. \<not> entry_fresh now e"
  shows "checkout now n p = (None, note_hit n (p \<lparr> inner := AList.delete n (inner p) \<rparr>))"
proof -
  have "dropWhile (\<lambda>e. \<not> entry_fresh now e) slot = []" using assms(2) by simp
  then show ?thesis by (simp only: checkout_def assms(1) Let_def option.case list.case) simp
qed

lemma checkout_spec:
  "case checkout now n p of (out, p') \<Rightarrow>
    \<exists>gone. slot_of n p = gone @ (case out of None \<Rightarrow> [] | Some s \<Rightarrow>
        [\<lparr> stream = s, warmed_at = warmed_at (hd (drop (length gone) (slot_of n p))) \<rparr>]) @ slot_of n p' \<and>
      (\<forall>e\<in>set gone. \<not> entry_fresh now e) \<and>
      (out \<noteq> None \<longrightarrow> entry_fresh now (hd (drop (length gone) (slot_of n p)))) \<and>
      (out = None \<longrightarrow> slot_of n p' = []) \<and>
      (\<forall>m. m \<noteq> n \<longrightarrow> slot_of m p' = slot_of m p)"
proof (cases "map_of (inner p) n")
  case None
  then show ?thesis by (simp add: checkout_def) (simp add: slot_of_def)
next
  case (Some slot)
  let ?P = "\<lambda>e. \<not> entry_fresh now e"
  have sl: "slot_of n p = slot" using Some by (simp add: slot_of_def)
  show ?thesis
  proof (cases "dropWhile ?P slot")
    case Nil
    then have "\<forall>e\<in>set slot. ?P e" by (simp add: dropWhile_eq_Nil_conv)
    then show ?thesis
      by (auto simp: stale_checkout_counts_as_hit [OF Some] slot_of_delete sl)
  next
    case (Cons e r)
    let ?gone = "takeWhile ?P slot"
    have s: "slot = ?gone @ e # r" using takeWhile_dropWhile_id [of ?P slot] Cons by simp
    have d: "drop (length ?gone) slot = e # r" using Cons by (metis dropWhile_eq_drop)
    have fresh: "entry_fresh now e" using hd_dropWhile [of ?P slot] Cons by simp
    have gone: "\<forall>x\<in>set ?gone. ?P x" by (auto dest: set_takeWhileD)
    obtain p' where co: "checkout now n p = (Some (stream e), p')"
      "slot_of n p' = r" "\<forall>m. m \<noteq> n \<longrightarrow> slot_of m p' = slot_of m p"
      by (cases "r = []") (auto simp: checkout_def Some Cons Let_def slot_of_update slot_of_delete)
    show ?thesis
      unfolding co(1) prod.case
      by (rule exI [of _ ?gone], cases e) (use s d fresh gone co(2,3) sl in simp)
  qed
qed

section \<open>Properties\<close>

text \<open>
  C25: however the pool is used, a node never holds more than eight idle connections, each
  node has one slot, and a slot keeps its connections in the order they were warmed.
\<close>

theorem pool_invariant:
  "case fold pool_timed ops (0, pool_new) of (now, p) \<Rightarrow> pool_inv now p"
  by (rule pool.inv_run)

text \<open>
  C26: a checkout hands out the first connection that is still fresh and forgets exactly it
  and the expired ones before it: none is handed out twice, none that has expired is handed
  out, other nodes keep theirs, and nothing is handed out only when nothing fresh is left at
  the front.
\<close>

theorem checkout_correct:
  "case checkout now n p of (out, p') \<Rightarrow>
    \<exists>gone front. slot_of n p = gone @ front @ slot_of n p' \<and>
      (\<forall>e\<in>set gone. \<not> entry_fresh now e) \<and> (\<forall>e\<in>set front. entry_fresh now e) \<and>
      map stream front = (case out of None \<Rightarrow> [] | Some s \<Rightarrow> [s]) \<and>
      (out = None \<longrightarrow> slot_of n p' = []) \<and>
      (\<forall>m. m \<noteq> n \<longrightarrow> slot_of m p' = slot_of m p)"
proof -
  obtain out p' where co: "checkout now n p = (out, p')" by fastforce
  from checkout_spec [where now = now and n = n and p = p] co obtain gone where g:
    "slot_of n p = gone @ (case out of None \<Rightarrow> [] | Some s \<Rightarrow>
        [\<lparr> stream = s, warmed_at = warmed_at (hd (drop (length gone) (slot_of n p))) \<rparr>]) @ slot_of n p'"
    "\<forall>e\<in>set gone. \<not> entry_fresh now e"
    "out \<noteq> None \<longrightarrow> entry_fresh now (hd (drop (length gone) (slot_of n p)))"
    "out = None \<longrightarrow> slot_of n p' = []" "\<forall>m. m \<noteq> n \<longrightarrow> slot_of m p' = slot_of m p"
    by auto
  define front where "front = (case out of None \<Rightarrow> [] | Some s \<Rightarrow>
        [\<lparr> stream = s, warmed_at = warmed_at (hd (drop (length gone) (slot_of n p))) \<rparr>])"
  have "map stream front = (case out of None \<Rightarrow> [] | Some s \<Rightarrow> [s])"
    by (simp add: front_def split: option.split)
  moreover have "\<forall>e\<in>set front. entry_fresh now e"
    using g(3) by (auto simp: front_def entry_fresh_def split: option.splits)
  ultimately show ?thesis
    unfolding co prod.case using g front_def by blast
qed

theorem checkout_correct_witness:
  "let p = pool_new \<lparr> inner := [(SockV4 2 2, [\<lparr> stream = (1 :: nat), warmed_at = 0 \<rparr>,
             \<lparr> stream = 2, warmed_at = 20000 \<rparr>, \<lparr> stream = 3, warmed_at = 30000 \<rparr>])] \<rparr>;
       p' = snd (checkout 70000 (SockV4 2 2) p) in
   fst (checkout 70000 (SockV4 2 2) p) = Some 2 \<and>
   (\<exists>gone front. slot_of (SockV4 2 2) p = gone @ front @ slot_of (SockV4 2 2) p' \<and> map stream front = [2])"
proof -
  define p where "p = pool_new \<lparr> inner := [(SockV4 2 2, [\<lparr> stream = (1 :: nat), warmed_at = 0 \<rparr>,
             \<lparr> stream = 2, warmed_at = 20000 \<rparr>, \<lparr> stream = 3, warmed_at = 30000 \<rparr>])] \<rparr>"
  have "fst (checkout 70000 (SockV4 2 2) p) = Some 2"
    by (simp add: p_def checkout_def entry_fresh_def pool_consts pool_new_def Let_def)
  then obtain p' where c: "checkout 70000 (SockV4 2 2) p = (Some 2, p')"
    by (cases "checkout 70000 (SockV4 2 2) p") simp
  have all: "\<exists>gone front. slot_of (SockV4 2 2) p = gone @ front @ slot_of (SockV4 2 2) p' \<and>
      (\<forall>e\<in>set gone. \<not> entry_fresh 70000 e) \<and> (\<forall>e\<in>set front. entry_fresh 70000 e) \<and>
      map stream front = [2] \<and> (Some (2 :: nat) = None \<longrightarrow> slot_of (SockV4 2 2) p' = []) \<and>
      (\<forall>m. m \<noteq> SockV4 2 2 \<longrightarrow> slot_of m p' = slot_of m p)"
    using checkout_correct [where now = 70000 and n = "SockV4 2 2" and p = p]
    unfolding c prod.case option.case .
  have "\<exists>gone front. slot_of (SockV4 2 2) p = gone @ front @ slot_of (SockV4 2 2) p' \<and>
      map stream front = [2]"
    by (rule all [THEN exE], erule exE, (erule conjE)+, intro exI conjI, assumption, assumption)
  then show ?thesis unfolding Let_def p_def [symmetric] c fst_conv snd_conv by blast
qed

text \<open>
  the periodic sweep leaves exactly the fresh connections of every node and reports how
  many it dropped.
\<close>

theorem evict_expired_correct:
  assumes "pool_inv now p"
  shows "slot_of m (snd (evict_expired now p)) = filter (entry_fresh now) (slot_of m p) \<and>
    total_idle (snd (evict_expired now p)) + fst (evict_expired now p) = total_idle p"
proof
  have ok: "table_ok (inner p)" using assms by (simp add: pool_inv_def)
  have "map_of (filter (\<lambda>(n, s). s \<noteq> []) (map (\<lambda>(n, s). (n, f s)) t)) m =
      (case map_of t m of Some s \<Rightarrow> if f s = [] then None else Some (f s) | None \<Rightarrow> None)"
    if "table_ok t" for t :: "(sock_addr \<times> 'a entry list) list" and f
    using that
    by (induction t) (auto simp: map_of_eq_None_iff [THEN iffD2] split: option.splits
        dest: map_of_SomeD intro: rev_image_eqI)
  from this [OF ok, of "filter (entry_fresh now)"]
  show "slot_of m (snd (evict_expired now p)) = filter (entry_fresh now) (slot_of m p)"
    by (auto simp: slot_of_def evict_expired_def Let_def case_prod_unfold split: option.splits)
  have "sum_list (map (\<lambda>(n, s). length s) (filter (\<lambda>(n, s). s \<noteq> []) (map (\<lambda>(n, s). (n, f s)) t))) +
      sum_list (map (\<lambda>(n, s). length s - length (f s)) t) = sum_list (map (\<lambda>(n, s). length s) t)"
    if "\<And>s. length (f s) \<le> length s" for t :: "(sock_addr \<times> 'a entry list) list" and f
  proof (induction t)
    case (Cons q t)
    obtain k y where q: "q = (k, y)" by (cases q)
    have "length (f y) \<le> length y" by (rule that)
    with Cons show ?case by (auto simp: q)
  qed simp
  from this [of "filter (entry_fresh now)" "inner p"]
  show "total_idle (snd (evict_expired now p)) + fst (evict_expired now p) = total_idle p"
    by (simp add: evict_expired_def total_idle_def Let_def)
qed

theorem evict_expired_correct_witness:
  "slot_of (SockV4 2 2) (snd (evict_expired 70000
     (pool_new \<lparr> inner := [(SockV4 2 2, [\<lparr> stream = False, warmed_at = 0 \<rparr>,
                                       \<lparr> stream = True, warmed_at = 20000 \<rparr>])] \<rparr>)))
   = [\<lparr> stream = True, warmed_at = 20000 \<rparr>]"
proof -
  let ?p = "pool_new \<lparr> inner := [(SockV4 2 2, [\<lparr> stream = False, warmed_at = 0 \<rparr>,
                                       \<lparr> stream = True, warmed_at = 20000 \<rparr>])] \<rparr>"
  have "pool_inv 70000 ?p"
    by (simp add: pool_inv_def slot_ok_def pool_new_def pool_consts)
  from evict_expired_correct [OF this, of "SockV4 2 2"] show ?thesis
    by (simp add: slot_of_def entry_fresh_def pool_consts)
qed

end
