(* ===== verification/UdpRelayNode.thy ===== *)
theory UdpRelayNode
  imports UdpNodeTable
begin

text \<open>
  \<open>hydra-node/src/udp_relay.rs\<close>: the relay of one connection, its session tasks and its
  reaper. \<open>up\<close> are the bytes of the client still to be read, \<open>down\<close> the bytes written to it,
  \<open>io\<close> the outcomes of the coming writes (success once used up), \<open>sent\<close> the datagrams that
  left the node with the address their socket is connected to. \<open>tasks\<close> are the session
  tasks that run; a task is named by its queue, which holds the datagrams not yet taken and
  whether a sender is left (\<open>t_open\<close>). \<open>dead\<close> are the notifications not yet taken.

  The relay handles one frame at a time; while it waits for a resolution or a socket the
  other tasks go on: these are the arguments \<open>env1\<close> and \<open>env2\<close> of the definitions.
\<close>

record task =
  t_sid :: u16
  t_target :: string
  t_peer :: sock_addr
  t_queue :: "byte list list"
  t_open :: bool
  t_buf :: nat

record relay =
  up :: "byte list"
  down :: "byte list"
  io :: "(bool \<times> bool) list"
  tab :: session_table
  dns :: udp_dns
  bud :: budget
  tasks :: "(nat \<times> task) list"
  next_tx :: nat
  dead :: "u16 list"
  sent :: "(sock_addr \<times> byte list) list"
  reaper :: bool
  running :: bool
  aaaa_local_replies :: nat

section \<open>Shared steps\<close>

definition down_write :: "byte list \<Rightarrow> relay \<Rightarrow> bool \<times> relay" where
  "down_write frame c =
    (let (wo, fo) = (case io c of [] \<Rightarrow> (True, True) | o1 # _ \<Rightarrow> o1) in
     case write_udp_frame wo fo (down c) frame of
       (r, w) \<Rightarrow> (is_ok r, c \<lparr> down := w, io := tl (io c) \<rparr>))"

definition upd_task :: "nat \<Rightarrow> (task \<Rightarrow> task) \<Rightarrow> relay \<Rightarrow> relay" where
  "upd_task k f c = c \<lparr> tasks := map (\<lambda>(i, t). (i, if i = k then f t else t)) (tasks c) \<rparr>"

definition end_task :: "nat \<Rightarrow> relay \<Rightarrow> relay" where
  "end_task k c = c \<lparr> tasks := AList.delete k (tasks c) \<rparr>"

text \<open>Removing a session drops its handle and with it the last sender of the queue.\<close>

definition drop_session :: "u16 \<Rightarrow> relay \<Rightarrow> bool \<times> relay" where
  "drop_session s c =
    (case table_remove s (tab c) of
       (None, t) \<Rightarrow> (False, c \<lparr> tab := t \<rparr>)
     | (Some h, t) \<Rightarrow> (True, upd_task (tx h) (\<lambda>t. t \<lparr> t_open := False \<rparr>) (c \<lparr> tab := t \<rparr>)))"

definition count_drop :: "relay \<Rightarrow> relay" where
  "count_drop c = c \<lparr> tab := (tab c) \<lparr> overlimit_drops := overlimit_drops (tab c) + 1 \<rparr> \<rparr>"

section \<open>The session task\<close>

text \<open>Taking the next datagram of the queue; \<open>ok\<close> is the outcome of sending it.\<close>

definition task_send :: "nat \<Rightarrow> bool \<Rightarrow> relay \<Rightarrow> relay" where
  "task_send k ok c =
    (case map_of (tasks c) k of
       None \<Rightarrow> c
     | Some t \<Rightarrow>
        (case t_queue t of
           dg # q \<Rightarrow>
             if ok then
               upd_task k (\<lambda>t. t \<lparr> t_queue := q \<rparr>) (c \<lparr> sent := sent c @ [(t_peer t, dg)] \<rparr>)
             else end_task k (c \<lparr> dead := dead c @ [t_sid t] \<rparr>)
         | [] \<Rightarrow> if t_open t then c else end_task k c))"

definition touch_tx :: "nat \<Rightarrow> nat \<Rightarrow> relay \<Rightarrow> relay" where
  "touch_tx k now c =
    c \<lparr> tab := (tab c) \<lparr> sessions := map (\<lambda>(s, h).
          (s, if tx h = k then h \<lparr> last_active_ms := of_nat now \<rparr> else h)) (sessions (tab c)) \<rparr> \<rparr>"

text \<open>Receiving: a datagram from the socket (cut at the size of the buffer) or an error.\<close>

definition task_recv :: "nat \<Rightarrow> byte list option \<Rightarrow> nat \<Rightarrow> relay \<Rightarrow> relay" where
  "task_recv k r now c =
    (case map_of (tasks c) k of
       None \<Rightarrow> c
     | Some t \<Rightarrow>
        (case r of
           None \<Rightarrow> end_task k (c \<lparr> dead := dead c @ [t_sid t] \<rparr>)
         | Some dg \<Rightarrow>
             let received = take (t_buf t) dg;
                 c1 = touch_tx k now c;
                 c2 = (if length received = t_buf t \<and> t_buf t < MAX_DATAGRAM_LEN
                       then upd_task k (\<lambda>t. t \<lparr> t_buf := min (t_buf t * 2) MAX_DATAGRAM_LEN \<rparr>) c1
                       else c1) in
             (case encode_udp_data (t_sid t) (t_target t) received of
                Inl _ \<Rightarrow> c2
              | Inr frame \<Rightarrow>
                  (case down_write frame c2 of
                     (True, c3) \<Rightarrow> c3
                   | (False, c3) \<Rightarrow> end_task k (c3 \<lparr> dead := dead c3 @ [t_sid t] \<rparr>)))))"

section \<open>The reaper\<close>

fun reap_writes :: "u16 list \<Rightarrow> relay \<Rightarrow> relay" where
  "reap_writes [] c = c"
| "reap_writes (s # ss) c =
    (case down_write (encode_udp_close s) c of
       (True, c1) \<Rightarrow> reap_writes ss c1
     | (False, c1) \<Rightarrow> c1 \<lparr> reaper := False \<rparr>)"

definition reap :: "nat \<Rightarrow> nat \<Rightarrow> relay \<Rightarrow> relay" where
  "reap idle now c =
    (if \<not> reaper c then c
     else case reap_expired (of_nat now) idle (tab c) of
       (expired, t) \<Rightarrow>
         let gone = map tx (map snd (filter (\<lambda>(_, h). expired_at (of_nat now) idle h) (sessions (tab c))));
             c1 = fold (\<lambda>k. upd_task k (\<lambda>t. t \<lparr> t_open := False \<rparr>)) gone (c \<lparr> tab := t \<rparr>) in
         reap_writes expired c1)"

datatype bg_op = TaskSend nat bool | TaskRecv nat "byte list option" nat | Reap nat

fun bg_step :: "nat \<Rightarrow> bg_op \<Rightarrow> relay \<Rightarrow> relay" where
  "bg_step idle (TaskSend k ok) c = task_send k ok c"
| "bg_step idle (TaskRecv k r now) c = task_recv k r now c"
| "bg_step idle (Reap now) c = reap idle now c"

section \<open>A datagram of the client\<close>

text \<open>The address a datagram for a new target goes to, from the cache or the resolver.\<close>

definition target_addr ::
    "bool \<Rightarrow> nat \<Rightarrow> lookup \<Rightarrow> nat \<Rightarrow> (relay \<Rightarrow> relay) \<Rightarrow> u16 \<Rightarrow> string \<Rightarrow> relay \<Rightarrow> sock_addr option \<times> relay" where
  "target_addr allowed now net now1 env1 s tgt c =
    (case udp_dns_get now tgt (dns c) of
       (Some a, d) \<Rightarrow> (Some a, c \<lparr> dns := d \<rparr>)
     | (None, d) \<Rightarrow>
        (case try_take now (bud c) of
           (False, b) \<Rightarrow> (None, count_drop (c \<lparr> dns := d, bud := b \<rparr>))
         | (True, b) \<Rightarrow>
             let c1 = env1 (c \<lparr> dns := d, bud := b \<rparr>) in
             (case resolve_udp_target allowed tgt net of
                None \<Rightarrow> (None, snd (drop_session s (count_drop c1)))
              | Some addr \<Rightarrow> (Some addr, c1 \<lparr> dns := udp_dns_put now1 tgt addr (dns c1) \<rparr>))))"

text \<open>Binding the session to a new address; \<open>bind_ok\<close> is the outcome of opening the socket.\<close>

definition establish ::
    "bool \<Rightarrow> nat \<Rightarrow> (relay \<Rightarrow> relay) \<Rightarrow> u16 \<Rightarrow> string \<Rightarrow> sock_addr \<Rightarrow> relay \<Rightarrow> bool \<times> relay" where
  "establish bind_ok now2 env2 s tgt addr c =
    (let c1 = snd (drop_session s c) in
     if is_full (tab c1) then (False, snd (down_write (encode_udp_close s) (count_drop c1)))
     else
       let c2 = env2 c1 in
       if \<not> bind_ok then (False, count_drop c2)
       else if is_full (tab c2) then (False, count_drop c2)
       else (case table_insert s \<lparr> tx = next_tx c2, last_active_ms = of_nat now2, h_target = tgt \<rparr> (tab c2) of
          None \<Rightarrow> (False, c2)
        | Some t \<Rightarrow>
            (True, c2 \<lparr> tab := t,
               tasks := (next_tx c2, \<lparr> t_sid = s, t_target = tgt, t_peer = addr, t_queue = [],
                                      t_open = True, t_buf = 8192 \<rparr>) # tasks c2,
               next_tx := next_tx c2 + 1 \<rparr>)))"

text \<open>Handing the datagram to the session task.\<close>

definition deliver :: "nat \<Rightarrow> u16 \<Rightarrow> byte list \<Rightarrow> relay \<Rightarrow> relay" where
  "deliver now s dg c =
    (case table_get s (tab c) of
       None \<Rightarrow> count_drop c
     | Some h \<Rightarrow>
         let c1 = touch_tx (tx h) now c in
         (case map_of (tasks c1) (tx h) of
            None \<Rightarrow>
              (case drop_session s c1 of
                 (True, c2) \<Rightarrow> snd (down_write (encode_udp_close s) c2)
               | (False, c2) \<Rightarrow> c2)
          | Some t \<Rightarrow>
              if length (t_queue t) < SESSION_QUEUE_DEPTH
              then upd_task (tx h) (\<lambda>t. t \<lparr> t_queue := t_queue t @ [dg] \<rparr>) c1
              else c1))"

text \<open>The times: when the frame is handled, when its target is resolved, when the socket is
  open.\<close>

record uplink_env =
  now0 :: nat
  answer :: lookup
  now1 :: nat
  env1 :: "relay \<Rightarrow> relay"
  bind_ok :: bool
  now2 :: nat
  env2 :: "relay \<Rightarrow> relay"

definition uplink_data :: "bool \<Rightarrow> bool \<Rightarrow> uplink_env \<Rightarrow> u16 \<Rightarrow> string \<Rightarrow> byte list \<Rightarrow> relay \<Rightarrow> bool \<times> relay" where
  "uplink_data allowed aaaa_filter e s tgt dg c =
    (case (if aaaa_filter \<and> target_port tgt = Some 53 then aaaa_query_question_end dg else None) of
       Some q_end \<Rightarrow>
         (case encode_udp_data s tgt (synthesize_nodata dg q_end) of
            Inr frame \<Rightarrow> down_write frame c
          | Inl _ \<Rightarrow> (False, c))
     | None \<Rightarrow>
         if map_option h_target (table_get s (tab c)) = Some tgt then (False, deliver (now0 e) s dg c)
         else (case target_addr allowed (now0 e) (answer e) (now1 e) (env1 e) s tgt c of
            (None, c1) \<Rightarrow> (False, c1)
          | (Some addr, c1) \<Rightarrow>
              (case establish (bind_ok e) (now2 e) (env2 e) s tgt addr c1 of
                 (False, c2) \<Rightarrow> (False, c2)
               | (True, c2) \<Rightarrow> (False, deliver (now2 e) s dg c2))))"

section \<open>The loop\<close>

definition conn_idle :: "nat \<Rightarrow> nat" where
  "conn_idle idle = max idle (UDP_CONN_IDLE_SECS * 1000)"

definition timeout_dur :: "nat \<Rightarrow> nat option \<Rightarrow> nat \<Rightarrow> nat" where
  "timeout_dur idle age_deadline now =
    (case age_deadline of
       Some dl \<Rightarrow> min (conn_idle idle) (dl - now)
     | None \<Rightarrow> conn_idle idle)"

definition close_relay :: "relay \<Rightarrow> relay" where
  "close_relay c =
    c \<lparr> running := False, reaper := False, tab := (tab c) \<lparr> sessions := [] \<rparr>,
        tasks := map (\<lambda>(k, t). (k, t \<lparr> t_open := False \<rparr>)) (tasks c) \<rparr>"

text \<open>What the loop wakes up for: a notification, a frame to read, no frame in time.\<close>

datatype loop_event = EDead | EFrame uplink_env | ETimeout

fun serve_step :: "bool \<Rightarrow> bool \<Rightarrow> loop_event \<Rightarrow> relay \<Rightarrow> relay" where
  "serve_step allowed aaaa_filter EDead c =
    (case dead c of
       [] \<Rightarrow> c
     | s # ds \<Rightarrow>
        (case drop_session s (c \<lparr> dead := ds \<rparr>) of
           (True, c1) \<Rightarrow> snd (down_write (encode_udp_close s) c1)
         | (False, c1) \<Rightarrow> c1))"
| "serve_step allowed aaaa_filter (EFrame e) c =
    (case read_udp_frame (up c) of
       Inl _ \<Rightarrow> close_relay c
     | Inr (Close s, rest) \<Rightarrow> snd (drop_session s (c \<lparr> up := rest \<rparr>))
     | Inr (Data s tgt dg, rest) \<Rightarrow>
        (case uplink_data allowed aaaa_filter e s tgt dg (c \<lparr> up := rest \<rparr>) of
           (True, c1) \<Rightarrow> c1 \<lparr> aaaa_local_replies := aaaa_local_replies c1 + 1 \<rparr>
         | (False, c1) \<Rightarrow> c1))"
| "serve_step allowed aaaa_filter ETimeout c = close_relay c"

definition relay_start :: "nat \<Rightarrow> byte list \<Rightarrow> (bool \<times> bool) list \<Rightarrow> relay" where
  "relay_start now incoming outcomes =
    \<lparr> up = incoming, down = [], io = outcomes, tab = table_new, dns = [], bud = budget_new now,
      tasks = [], next_tx = 0, dead = [], sent = [], reaper = True, running = True,
      aaaa_local_replies = 0 \<rparr>"

section \<open>Invariant\<close>

text \<open>
  Sessions and tasks correspond: a session's task, while it runs, is its own and keeps its
  queue open; and a queue that is open belongs to a session, so a task without one ends as
  soon as it has sent what is queued.
\<close>

definition linked :: "(u16 \<times> session_handle) list \<Rightarrow> (nat \<times> task) list \<Rightarrow> nat \<Rightarrow> bool" where
  "linked S T n \<longleftrightarrow> distinct (map (\<lambda>p. tx (snd p)) S) \<and>
     (\<forall>(s, h) \<in> set S. tx h < n \<and>
        (\<forall>t. (tx h, t) \<in> set T \<longrightarrow> t_sid t = s \<and> t_target t = h_target h \<and> t_open t)) \<and>
     (\<forall>(k, t) \<in> set T. t_open t \<longrightarrow> (\<exists>(s, h) \<in> set S. tx h = k))"

definition task_ok :: "bool \<Rightarrow> nat \<Rightarrow> nat \<times> task \<Rightarrow> bool" where
  "task_ok allowed n p \<longleftrightarrow> fst p < n \<and> permitted allowed (t_peer (snd p)) \<and>
     length (t_queue (snd p)) \<le> SESSION_QUEUE_DEPTH \<and> 0 < t_buf (snd p) \<and> t_buf (snd p) \<le> 65507"

definition relay_inv :: "bool \<Rightarrow> relay \<Rightarrow> bool" where
  "relay_inv allowed c \<longleftrightarrow>
     table_ok (sessions (tab c)) \<and> length (sessions (tab c)) \<le> 256 \<and>
     linked (sessions (tab c)) (tasks c) (next_tx c) \<and>
     table_ok (tasks c) \<and> (\<forall>p\<in>set (tasks c). task_ok allowed (next_tx c) p) \<and>
     table_ok (dns c) \<and> length (dns c) \<le> 128 \<and> (\<forall>(_, a, _) \<in> set (dns c). permitted allowed a) \<and>
     (\<forall>(a, _) \<in> set (sent c). permitted allowed a) \<and> used (bud c) \<le> 10"

lemma relay_inv_cong:
  "sessions (tab a) = sessions (tab b) \<Longrightarrow> tasks a = tasks b \<Longrightarrow> next_tx a = next_tx b \<Longrightarrow>
   dns a = dns b \<Longrightarrow> sent a = sent b \<Longrightarrow> bud a = bud b \<Longrightarrow> relay_inv allowed a = relay_inv allowed b"
  by (simp add: relay_inv_def)

definition map_task :: "nat set \<Rightarrow> (task \<Rightarrow> task) \<Rightarrow> (nat \<times> task) list \<Rightarrow> (nat \<times> task) list" where
  "map_task K f T = map (\<lambda>(k, t). (k, if k \<in> K then f t else t)) T"

lemma tasks_upd_task [simp]: "tasks (upd_task k f c) = map_task {k} f (tasks c)"
  by (simp add: upd_task_def map_task_def)

lemma upd_task_frame [simp]:
  "tab (upd_task k f c) = tab c" "next_tx (upd_task k f c) = next_tx c" "dns (upd_task k f c) = dns c"
  "sent (upd_task k f c) = sent c" "bud (upd_task k f c) = bud c" "down (upd_task k f c) = down c"
  by (simp_all add: upd_task_def)

lemma map_task_dom [simp]: "map fst (map_task K f T) = map fst T"
  by (simp add: map_task_def comp_def case_prod_unfold)

lemma mem_map_task: "(k, t') \<in> set (map_task K f T) \<longleftrightarrow>
    (\<exists>t. (k, t) \<in> set T \<and> t' = (if k \<in> K then f t else t))"
  by (force simp: map_task_def image_iff)

lemma map_task_map_task: "map_task {k} f (map_task K f T) = map_task (insert k K) f T"
  if "\<And>t. f (f t) = f t"
  using that by (auto simp: map_task_def)

lemma map_task_empty: "map_task {} f T = T"
  by (simp add: map_task_def)

abbreviation shut :: "task \<Rightarrow> task" where "shut t \<equiv> t \<lparr> t_open := False \<rparr>"

lemma task_ok_shut [simp]: "task_ok allowed n (k, shut t) = task_ok allowed n (k, t)"
  by (simp add: task_ok_def)

lemma linkedI:
  assumes "distinct (map (\<lambda>p. tx (snd p)) S)"
    "\<And>s h. (s, h) \<in> set S \<Longrightarrow> tx h < n"
    "\<And>s h t. (s, h) \<in> set S \<Longrightarrow> (tx h, t) \<in> set T \<Longrightarrow> t_sid t = s \<and> t_target t = h_target h \<and> t_open t"
    "\<And>k t. (k, t) \<in> set T \<Longrightarrow> t_open t \<Longrightarrow> \<exists>s h. (s, h) \<in> set S \<and> tx h = k"
  shows "linked S T n"
  using assms by (fastforce simp: linked_def)

lemma linkedD:
  assumes "linked S T n"
  shows "distinct (map (\<lambda>p. tx (snd p)) S)"
    "(s, h) \<in> set S \<Longrightarrow> tx h < n"
    "(s, h) \<in> set S \<Longrightarrow> (tx h, t) \<in> set T \<Longrightarrow> t_sid t = s \<and> t_target t = h_target h \<and> t_open t"
    "(k, t) \<in> set T \<Longrightarrow> t_open t \<Longrightarrow> \<exists>s h. (s, h) \<in> set S \<and> tx h = k"
  using assms by (auto 4 4 simp: linked_def)

lemma linked_filter:
  assumes L: "linked S T n"
  shows "linked (filter P S) (map_task (tx ` snd ` set (filter (\<lambda>p. \<not> P p) S)) shut T) n"
proof -
  let ?K = "tx ` snd ` set (filter (\<lambda>p. \<not> P p) S)"
  have inj: "inj_on (\<lambda>p. tx (snd p)) (set S)" using linkedD(1) [OF L] by (simp add: distinct_map)
  have not_K: "tx h \<notin> ?K" if "(s, h) \<in> set S" "P (s, h)" for s h
  proof
    assume "tx h \<in> ?K"
    then obtain q where "q \<in> set S" "\<not> P q" "tx (snd q) = tx h" by auto
    with inj_onD [OF inj, of q "(s, h)"] that show False by auto
  qed
  show ?thesis
  proof (rule linkedI)
    show "distinct (map (\<lambda>p. tx (snd p)) (filter P S))"
      using linkedD(1) [OF L] by (simp add: distinct_map_filter)
  next
    fix s h assume "(s, h) \<in> set (filter P S)"
    then show "tx h < n" using linkedD(2) [OF L] by auto
  next
    fix s h t
    assume a: "(s, h) \<in> set (filter P S)" "(tx h, t) \<in> set (map_task ?K shut T)"
    then have "(tx h, t) \<in> set T" using not_K [of s h] by (simp add: mem_map_task)
    then show "t_sid t = s \<and> t_target t = h_target h \<and> t_open t" using a linkedD(3) [OF L] by auto
  next
    fix k t
    assume a: "(k, t) \<in> set (map_task ?K shut T)" "t_open t"
    have k: "k \<notin> ?K"
    proof
      assume "k \<in> ?K"
      then have "\<exists>t0. t = shut t0" using a(1) by (auto simp: mem_map_task)
      with a(2) show False by auto
    qed
    with a have "(k, t) \<in> set T" by (simp add: mem_map_task)
    with a(2) obtain s h where "(s, h) \<in> set S" "tx h = k" using linkedD(4) [OF L] by blast
    with k show "\<exists>s h. (s, h) \<in> set (filter P S) \<and> tx h = k" by force
  qed
qed

lemma linked_map_task:
  assumes L: "linked S T n"
    and f: "\<And>t. t_sid (f t) = t_sid t \<and> t_target (f t) = t_target t \<and> t_open (f t) = t_open t"
  shows "linked S (map_task K f T) n"
proof (rule linkedI)
  fix s h t
  assume a: "(s, h) \<in> set S" "(tx h, t) \<in> set (map_task K f T)"
  then obtain t0 where "(tx h, t0) \<in> set T" "t = t0 \<or> t = f t0" by (auto simp: mem_map_task)
  with linkedD(3) [OF L a(1)] f [of t0] show "t_sid t = s \<and> t_target t = h_target h \<and> t_open t" by auto
next
  fix k t
  assume a: "(k, t) \<in> set (map_task K f T)" "t_open t"
  then obtain t0 where "(k, t0) \<in> set T" "t = t0 \<or> t = f t0" by (auto simp: mem_map_task)
  with linkedD(4) [OF L, of k t0] f [of t0] a(2) show "\<exists>s h. (s, h) \<in> set S \<and> tx h = k" by auto
qed (use linkedD(1,2) [OF L] in auto)

lemma linked_delete_task: "linked S T n \<Longrightarrow> linked S (AList.delete k T) n"
  by (rule linkedI) (auto simp: AList.delete_eq dest: linkedD)

lemma linked_touch:
  assumes L: "linked S T n"
  shows "linked (map (\<lambda>(s, h). (s, if tx h = k then h \<lparr> last_active_ms := m \<rparr> else h)) S) T n"
    (is "linked (map ?f S) T n")
proof (rule linkedI)
  have "(\<lambda>p. tx (snd p)) \<circ> ?f = (\<lambda>p. tx (snd p))" by (auto simp: fun_eq_iff)
  then show "distinct (map (\<lambda>p. tx (snd p)) (map ?f S))" using linkedD(1) [OF L] by simp
next
  fix s h assume "(s, h) \<in> set (map ?f S)"
  then show "tx h < n" using linkedD(2) [OF L] by (auto split: if_splits)
next
  fix s h t assume a: "(s, h) \<in> set (map ?f S)" "(tx h, t) \<in> set T"
  then obtain h0 where "(s, h0) \<in> set S" "tx h0 = tx h" "h_target h0 = h_target h"
    by (auto split: if_splits)
  with a(2) show "t_sid t = s \<and> t_target t = h_target h \<and> t_open t"
    using linkedD(3) [OF L, of s h0 t] by simp
next
  fix k' t assume "(k', t) \<in> set T" "t_open t"
  then obtain s h where "(s, h) \<in> set S" "tx h = k'" using linkedD(4) [OF L] by blast
  then show "\<exists>s h. (s, h) \<in> set (map ?f S) \<and> tx h = k'" by (force split: if_splits)
qed

lemma linked_insert:
  assumes L: "linked S T n" and new: "s \<notin> fst ` set S" "tx h = n" "t_sid t = s" "t_target t = h_target h" "t_open t"
    and fresh: "\<And>k t. (k, t) \<in> set T \<Longrightarrow> k < n"
  shows "linked (S @ [(s, h)]) ((n, t) # T) (n + 1)"
proof (rule linkedI)
  show "distinct (map (\<lambda>p. tx (snd p)) (S @ [(s, h)]))"
    using linkedD(1) [OF L] linkedD(2) [OF L] new(2) by force
next
  fix s' h' assume "(s', h') \<in> set (S @ [(s, h)])"
  then show "tx h' < n + 1" using linkedD(2) [OF L, of s' h'] new(2) by auto
next
  fix s' h' t' assume "(s', h') \<in> set (S @ [(s, h)])" "(tx h', t') \<in> set ((n, t) # T)"
  then show "t_sid t' = s' \<and> t_target t' = h_target h' \<and> t_open t'"
    using linkedD(2,3) [OF L, of s' h'] fresh [of "tx h'" t'] new by auto
next
  fix k t' assume "(k, t') \<in> set ((n, t) # T)" "t_open t'"
  then show "\<exists>s' h'. (s', h') \<in> set (S @ [(s, h)]) \<and> tx h' = k"
    using linkedD(4) [OF L, of k t'] new(2) by auto
qed

section \<open>The steps keep the invariant\<close>

lemma down_write_frame [simp]:
  "tab (snd (down_write f c)) = tab c" "tasks (snd (down_write f c)) = tasks c"
  "next_tx (snd (down_write f c)) = next_tx c" "dns (snd (down_write f c)) = dns c"
  "sent (snd (down_write f c)) = sent c" "bud (snd (down_write f c)) = bud c"
  by (simp_all add: down_write_def split: prod.split)

lemma down_write_inv [simp]: "relay_inv allowed (snd (down_write f c)) = relay_inv allowed c"
  by (rule relay_inv_cong) simp_all

lemma count_drop_inv [simp]: "relay_inv allowed (count_drop c) = relay_inv allowed c"
  by (rule relay_inv_cong) (simp_all add: count_drop_def)

lemma dead_inv [simp]: "relay_inv allowed (c \<lparr> dead := ds \<rparr>) = relay_inv allowed c"
  "relay_inv allowed (c \<lparr> reaper := b \<rparr>) = relay_inv allowed c"
  "relay_inv allowed (c \<lparr> up := u \<rparr>) = relay_inv allowed c"
  "relay_inv allowed (c \<lparr> io := os \<rparr>) = relay_inv allowed c"
  "relay_inv allowed (c \<lparr> aaaa_local_replies := n \<rparr>) = relay_inv allowed c"
  by (rule relay_inv_cong; simp)+

lemma filter_sessions_inv:
  assumes "relay_inv allowed c"
  shows "relay_inv allowed (c \<lparr> tab := (tab c) \<lparr> sessions := filter P (sessions (tab c)) \<rparr>,
    tasks := map_task (tx ` snd ` set (filter (\<lambda>p. \<not> P p) (sessions (tab c)))) shut (tasks c) \<rparr>)"
proof -
  have L: "linked (sessions (tab c)) (tasks c) (next_tx c)" using assms by (simp add: relay_inv_def)
  have "\<forall>p\<in>set (map_task K shut (tasks c)). task_ok allowed (next_tx c) p" for K
    using assms by (auto simp: relay_inv_def mem_map_task)
  then show ?thesis
    using assms linked_filter [OF L, of P] le_trans [OF length_filter_le, of "sessions (tab c)" 256 P]
    by (simp add: relay_inv_def table_ok_filter)
qed

lemma drop_session_eq:
  assumes "relay_inv allowed c"
  shows "drop_session s c = (table_get s (tab c) \<noteq> None,
    c \<lparr> tab := (tab c) \<lparr> sessions := filter (\<lambda>p. fst p \<noteq> s) (sessions (tab c)) \<rparr>,
        tasks := map_task (tx ` snd ` set (filter (\<lambda>p. \<not> fst p \<noteq> s) (sessions (tab c)))) shut (tasks c) \<rparr>)"
proof -
  let ?S = "sessions (tab c)"
  have ok: "table_ok ?S" using assms by (simp add: relay_inv_def)
  have del: "AList.delete s ?S = filter (\<lambda>p. fst p \<noteq> s) ?S"
    by (auto simp: AList.delete_eq intro!: filter_cong)
  show ?thesis
  proof (cases "map_of ?S s")
    case None
    then have "filter (\<lambda>p. \<not> fst p \<noteq> s) ?S = []" by (auto simp: filter_empty_conv map_of_eq_None_iff)
    then show ?thesis
      by (simp add: drop_session_def table_remove_def table_get_def None del map_task_empty)
  next
    case (Some h)
    then have "set (filter (\<lambda>p. \<not> fst p \<noteq> s) ?S) = {(s, h)}"
      using ok by (auto dest: map_of_SomeD eq_key_imp_eq_value)
    then show ?thesis
      by (simp add: drop_session_def table_remove_def table_get_def Some del upd_task_def map_task_def)
  qed
qed

lemma drop_session_inv: "relay_inv allowed c \<Longrightarrow> relay_inv allowed (snd (drop_session s c))"
  using filter_sessions_inv [of allowed c "\<lambda>p. fst p \<noteq> s"] by (simp add: drop_session_eq)

lemma drop_session_dom:
  "relay_inv allowed c \<Longrightarrow> fst ` set (sessions (tab (snd (drop_session s c)))) = fst ` set (sessions (tab c)) - {s}"
  by (auto simp: drop_session_eq)

lemma set_delete_sub: "set (AList.delete k t) \<subseteq> set t"
  by (auto simp: AList.delete_eq)

lemma end_task_inv: "relay_inv allowed c \<Longrightarrow> relay_inv allowed (end_task k c)"
  using set_delete_sub [of k "tasks c"]
  by (auto simp: relay_inv_def end_task_def linked_delete_task table_ok_delete)

lemma upd_task_inv:
  assumes "relay_inv allowed c"
    and "\<And>t. t_sid (f t) = t_sid t \<and> t_target (f t) = t_target t \<and> t_open (f t) = t_open t"
    and "\<And>t. task_ok allowed (next_tx c) (k, t) \<Longrightarrow> (k, t) \<in> set (tasks c) \<Longrightarrow> task_ok allowed (next_tx c) (k, f t)"
  shows "relay_inv allowed (upd_task k f c)"
proof -
  have "linked (sessions (tab c)) (map_task {k} f (tasks c)) (next_tx c)"
    using assms(1,2) by (intro linked_map_task) (auto simp: relay_inv_def)
  moreover have "\<forall>p\<in>set (map_task {k} f (tasks c)). task_ok allowed (next_tx c) p"
    using assms(1,3) by (auto simp: relay_inv_def mem_map_task)
  ultimately show ?thesis using assms(1) by (simp add: relay_inv_def)
qed

lemma touch_tx_inv: "relay_inv allowed c \<Longrightarrow> relay_inv allowed (touch_tx k now c)"
proof -
  assume "relay_inv allowed c"
  moreover have "fst \<circ> (\<lambda>(s :: u16, h :: session_handle). (s, if tx h = k then h \<lparr> last_active_ms := of_nat now \<rparr> else h)) = fst"
    by (auto simp: fun_eq_iff)
  ultimately show ?thesis
    using linked_touch [of "sessions (tab c)" "tasks c" "next_tx c" k "of_nat now"]
    by (simp add: relay_inv_def touch_tx_def)
qed

lemma map_of_task_mem:
  "relay_inv allowed c \<Longrightarrow> map_of (tasks c) k = Some t \<Longrightarrow> task_ok allowed (next_tx c) (k, t)"
  by (auto simp: relay_inv_def dest!: map_of_SomeD)

lemma task_send_inv: "relay_inv allowed c \<Longrightarrow> relay_inv allowed (task_send k ok c)"
proof (cases "map_of (tasks c) k")
  case (Some t)
  assume inv: "relay_inv allowed c"
  have t: "task_ok allowed (next_tx c) (k, t)" using map_of_task_mem [OF inv Some] .
  show ?thesis
  proof (cases "t_queue t")
    case (Cons d q)
    have "relay_inv allowed (c \<lparr> sent := sent c @ [(t_peer t, d)] \<rparr>)"
      using inv t by (auto simp: relay_inv_def task_ok_def)
    moreover have "length q \<le> SESSION_QUEUE_DEPTH" using t Cons by (simp add: task_ok_def)
    ultimately have "relay_inv allowed (upd_task k (\<lambda>t. t \<lparr> t_queue := q \<rparr>) (c \<lparr> sent := sent c @ [(t_peer t, d)] \<rparr>))"
      by (intro upd_task_inv) (auto simp: task_ok_def)
    then show ?thesis using inv by (simp add: task_send_def Some Cons end_task_inv)
  qed (use inv in \<open>simp add: task_send_def Some end_task_inv\<close>)
qed (simp add: task_send_def)

lemma recv_tail_inv:
  assumes "relay_inv allowed c2"
  shows "relay_inv allowed (case e of
                Inl (_ :: hydra_error) \<Rightarrow> c2
              | Inr frame \<Rightarrow>
                  (case down_write frame c2 of
                     (True, c3) \<Rightarrow> c3
                   | (False, c3) \<Rightarrow> end_task k (c3 \<lparr> dead := dead c3 @ [s] \<rparr>)))"
proof (cases e)
  case (Inr frame)
  obtain b c3 where d: "down_write frame c2 = (b, c3)" by fastforce
  then have "relay_inv allowed c3" using assms down_write_inv [of allowed frame c2] by simp
  then show ?thesis by (cases b) (simp_all add: Inr d end_task_inv)
qed (use assms in simp)

lemma task_recv_inv: "relay_inv allowed c \<Longrightarrow> relay_inv allowed (task_recv k r now c)"
proof (cases "map_of (tasks c) k")
  case (Some t)
  assume inv: "relay_inv allowed c"
  show ?thesis
  proof (cases r)
    case None
    then show ?thesis using inv by (simp add: task_recv_def Some end_task_inv)
  next
    case (Some dg)
    define c2 where "c2 = (if length (take (t_buf t) dg) = t_buf t \<and> t_buf t < MAX_DATAGRAM_LEN
         then upd_task k (\<lambda>t. t \<lparr> t_buf := min (t_buf t * 2) MAX_DATAGRAM_LEN \<rparr>) (touch_tx k now c)
         else touch_tx k now c)"
    have "relay_inv allowed c2"
      using touch_tx_inv [OF inv, of k now]
      by (auto simp: c2_def udp_consts task_ok_def intro!: upd_task_inv)
    then have "relay_inv allowed (case encode_udp_data (t_sid t) (t_target t) (take (t_buf t) dg) of
                Inl _ \<Rightarrow> c2
              | Inr frame \<Rightarrow>
                  (case down_write frame c2 of
                     (True, c3) \<Rightarrow> c3
                   | (False, c3) \<Rightarrow> end_task k (c3 \<lparr> dead := dead c3 @ [t_sid t] \<rparr>)))"
      by (rule recv_tail_inv)
    then show ?thesis
      by (simp only: task_recv_def \<open>map_of (tasks c) k = Some t\<close> Some option.case Let_def c2_def)
  qed
qed (simp add: task_recv_def)

lemma reap_writes_inv: "relay_inv allowed (reap_writes ss c) = relay_inv allowed c"
proof (induction ss arbitrary: c)
  case (Cons s ss)
  obtain b c1 where d: "down_write (encode_udp_close s) c = (b, c1)" by fastforce
  then have "relay_inv allowed c1 = relay_inv allowed c"
    using down_write_inv [of allowed "encode_udp_close s" c] by simp
  with Cons [of c1] show ?case by (cases b) (simp_all add: d)
qed simp

lemma fold_shut: "fold (\<lambda>k. upd_task k shut) ks c = c \<lparr> tasks := map_task (set ks) shut (tasks c) \<rparr>"
proof (induction ks arbitrary: c)
  case (Cons k ks)
  have "map_task (set ks) shut (map_task {k} shut T) = map_task (insert k (set ks)) shut T" for T
    by (auto simp: map_task_def)
  with Cons show ?case by (simp add: upd_task_def map_task_def [symmetric])
      (simp add: map_task_def)
qed (simp add: map_task_empty)

lemma reap_inv: "relay_inv allowed c \<Longrightarrow> relay_inv allowed (reap idle now c)"
proof -
  assume inv: "relay_inv allowed c"
  let ?P = "\<lambda>(_, h). \<not> expired_at (of_nat now) idle h"
  have ok: "table_ok (sessions (tab c))" using inv by (simp add: relay_inv_def)
  have neg: "(\<lambda>p. \<not> ?P p) = (\<lambda>(_, h). expired_at (of_nat now) idle h)" by auto
  show ?thesis
    using filter_sessions_inv [OF inv, of ?P]
    by (simp add: reap_def reap_expired_eq [OF ok] fold_shut Let_def reap_writes_inv inv neg image_image)
qed

lemma bg_step_inv: "relay_inv allowed c \<Longrightarrow> relay_inv allowed (bg_step idle op c)"
  by (cases op) (simp_all add: task_send_inv task_recv_inv reap_inv)

lemma bg_steps_inv: "relay_inv allowed c \<Longrightarrow> relay_inv allowed (fold (bg_step idle) ops c)"
  by (induction ops arbitrary: c) (simp_all add: bg_step_inv)

text \<open>The other tasks only ever remove sessions.\<close>

abbreviation sids :: "relay \<Rightarrow> u16 set" where
  "sids c \<equiv> fst ` set (sessions (tab c))"

lemma sids_touch [simp]: "sids (touch_tx k now c) = sids c"
  by (force simp: touch_tx_def image_iff split: if_splits)

lemma reap_writes_tab [simp]: "tab (reap_writes ss c) = tab c"
proof (induction ss arbitrary: c)
  case (Cons s ss)
  obtain b c1 where d: "down_write (encode_udp_close s) c = (b, c1)" by fastforce
  then have "tab c1 = tab c" using down_write_frame(1) [of "encode_udp_close s" c] by simp
  with Cons [of c1] show ?case by (cases b) (simp_all add: d)
qed simp

lemma end_task_tab [simp]: "tab (end_task k c) = tab c"
  by (simp add: end_task_def)

lemma bg_step_sids: "sids (bg_step idle op c) \<subseteq> sids c"
proof (cases op)
  case (TaskSend k ok)
  then show ?thesis by (simp add: task_send_def split: option.split list.split)
next
  case (TaskRecv k r now)
  have "tab (case down_write frame c2 of (True, c3) \<Rightarrow> c3
      | (False, c3) \<Rightarrow> end_task k (c3 \<lparr> dead := dead c3 @ [s] \<rparr>)) = tab c2" for frame c2 s
    using down_write_frame(1) [of frame c2] by (cases "down_write frame c2"; cases "fst (down_write frame c2)") auto
  then have "tab (task_recv k r now c) = tab c \<or> tab (task_recv k r now c) = tab (touch_tx k now c)"
    by (simp add: task_recv_def Let_def split: option.split sum.split)
  then show ?thesis using TaskRecv by (metis bg_step.simps(2) sids_touch subset_refl)
next
  case (Reap now)
  have "sids (reap idle now c) \<subseteq> sids c"
    by (auto simp: reap_def reap_expired_def Let_def fold_shut fold_delete)
  then show ?thesis by (simp add: Reap)
qed

lemma bg_steps_sids: "sids (fold (bg_step idle) ops c) \<subseteq> sids c"
proof (induction ops arbitrary: c)
  case (Cons op ops)
  have "sids (fold (bg_step idle) ops (bg_step idle op c)) \<subseteq> sids (bg_step idle op c)" by (rule Cons)
  also have "\<dots> \<subseteq> sids c" by (rule bg_step_sids)
  finally show ?case by simp
qed simp

lemma try_take_used: "used b \<le> 10 \<Longrightarrow> used (snd (try_take now b)) \<le> 10"
  by (auto simp: try_take_def relay_consts Let_def)

lemma udp_dns_get_facts:
  assumes "udp_dns_get now tgt d = (r, d')" "table_ok d" "length d \<le> 128"
    "\<forall>(_, a, _) \<in> set d. permitted allowed a"
  shows "table_ok d' \<and> length d' \<le> 128 \<and> (\<forall>(_, a, _) \<in> set d'. permitted allowed a) \<and>
    (\<forall>a. r = Some a \<longrightarrow> permitted allowed a)"
proof -
  have d': "d' = filter (\<lambda>(_, _, t). now - t < DNS_TTL) d" "r = map_option fst (map_of d' tgt)"
    using assms(1) by (auto simp: udp_dns_get_def Let_def)
  have "length d' \<le> 128" using le_trans [OF length_filter_le assms(3)] by (simp add: d'(1))
  moreover have "\<forall>(_, a, _) \<in> set d'. permitted allowed a" using assms(4) by (auto simp: d'(1))
  ultimately show ?thesis using assms(2) by (auto simp: d' table_ok_filter dest!: map_of_SomeD)
qed

lemma udp_dns_put_facts:
  assumes "table_ok d" "length d \<le> 128" "\<forall>(_, a, _) \<in> set d. permitted allowed a" "permitted allowed a"
  shows "table_ok (udp_dns_put now tgt a d) \<and> length (udp_dns_put now tgt a d) \<le> 128 \<and>
    (\<forall>(_, a, _) \<in> set (udp_dns_put now tgt a d). permitted allowed a)"
  using assms length_update_le [of tgt "(a, now)" d]
  by (auto simp: udp_dns_put_def relay_consts distinct_update in_update_iff split: if_splits)

lemma target_addr_inv:
  assumes "relay_inv allowed c" "\<And>c. relay_inv allowed c \<Longrightarrow> relay_inv allowed (env c)"
    and "target_addr allowed now net t1 env s tgt c = (r, c')"
  shows "relay_inv allowed c' \<and> (\<forall>a. r = Some a \<longrightarrow> permitted allowed a)"
proof -
  obtain q d where g: "udp_dns_get now tgt (dns c) = (q, d)" by fastforce
  have df: "table_ok d \<and> length d \<le> 128 \<and> (\<forall>(_, a, _) \<in> set d. permitted allowed a) \<and>
      (\<forall>a. q = Some a \<longrightarrow> permitted allowed a)"
    by (rule udp_dns_get_facts [OF g]) (use assms(1) in \<open>simp_all add: relay_inv_def\<close>)
  show ?thesis
  proof (cases q)
    case (Some a)
    then show ?thesis using assms(1,3) df by (auto simp: target_addr_def g relay_inv_def)
  next
    case None
    obtain ok b where t: "try_take now (bud c) = (ok, b)" by fastforce
    have "used b \<le> 10" using try_take_used [of "bud c" now] assms(1) t by (simp add: relay_inv_def)
    then have i1: "relay_inv allowed (c \<lparr> dns := d, bud := b \<rparr>)"
      using assms(1) df by (simp add: relay_inv_def)
    show ?thesis
    proof (cases ok)
      case False
      then show ?thesis using assms(3) i1 by (simp add: target_addr_def g None t) (metis count_drop_inv)
    next
      case True
      define c1 where "c1 = env (c \<lparr> dns := d, bud := b \<rparr>)"
      have i2: "relay_inv allowed c1" unfolding c1_def by (rule assms(2) [OF i1])
      have eq: "target_addr allowed now net t1 env s tgt c = (case resolve_udp_target allowed tgt net of
                None \<Rightarrow> (None, snd (drop_session s (count_drop c1)))
              | Some addr \<Rightarrow> (Some addr, c1 \<lparr> dns := udp_dns_put t1 tgt addr (dns c1) \<rparr>))"
        unfolding c1_def by (simp add: target_addr_def g None t True Let_def)
      show ?thesis
      proof (cases "resolve_udp_target allowed tgt net")
        case None
        then have "r = None" "c' = snd (drop_session s (count_drop c1))" using assms(3) eq by simp_all
        then show ?thesis using drop_session_inv [of allowed "count_drop c1" s] i2 by simp
      next
        case (Some addr)
        then have rc: "r = Some addr" "c' = c1 \<lparr> dns := udp_dns_put t1 tgt addr (dns c1) \<rparr>"
          using assms(3) eq by simp_all
        have p: "permitted allowed addr" using resolve_udp_target_permitted [OF Some] .
        then show ?thesis
          using udp_dns_put_facts [of "dns c1" allowed addr t1 tgt] i2 by (auto simp: rc relay_inv_def)
      qed
    qed
  qed
qed

lemma establish_inv:
  assumes "relay_inv allowed c" "\<And>c. relay_inv allowed c \<Longrightarrow> relay_inv allowed (env c)"
    and "\<And>c. sids (env c) \<subseteq> sids c" and "permitted allowed addr"
  shows "relay_inv allowed (snd (establish ok t2 env s tgt addr c))"
proof -
  define c1 where "c1 = snd (drop_session s c)"
  have i1: "relay_inv allowed c1" unfolding c1_def by (rule drop_session_inv [OF assms(1)])
  define c2 where "c2 = env c1"
  have i2: "relay_inv allowed c2" unfolding c2_def by (rule assms(2) [OF i1])
  have new: "s \<notin> sids c2"
    using drop_session_dom [OF assms(1), of s] assms(3) [of c1] by (auto simp: c1_def c2_def)
  show ?thesis
  proof (cases "is_full (tab c1) \<or> \<not> ok \<or> is_full (tab c2)")
    case True
    then show ?thesis using i1 i2
      by (auto simp: establish_def Let_def c1_def [symmetric] c2_def [symmetric])
  next
    case False
    define h where "h = \<lparr> tx = next_tx c2, last_active_ms = of_nat t2, h_target = tgt \<rparr>"
    define t where "t = \<lparr> t_sid = s, t_target = tgt, t_peer = addr, t_queue = [], t_open = True, t_buf = 8192 \<rparr>"
    have up: "AList.update s h (sessions (tab c2)) = sessions (tab c2) @ [(s, h)]"
      using new by (intro update_new) (simp add: map_of_eq_None_iff)
    have eq: "snd (establish ok t2 env s tgt addr c) =
        c2 \<lparr> tab := (tab c2) \<lparr> sessions := sessions (tab c2) @ [(s, h)] \<rparr>, tasks := (next_tx c2, t) # tasks c2,
          next_tx := next_tx c2 + 1 \<rparr>"
      using False up by (simp add: establish_def Let_def c1_def [symmetric] c2_def [symmetric]
          table_insert_def h_def t_def)
    have fresh: "k < next_tx c2" if "(k, u) \<in> set (tasks c2)" for k u
      using i2 that by (auto simp: relay_inv_def task_ok_def)
    have L: "linked (sessions (tab c2) @ [(s, h)]) ((next_tx c2, t) # tasks c2) (next_tx c2 + 1)"
      using i2 new fresh by (intro linked_insert) (auto simp: relay_inv_def h_def t_def)
    have "\<forall>p\<in>set ((next_tx c2, t) # tasks c2). task_ok allowed (next_tx c2 + 1) p"
      using i2 assms(4) by (auto simp: relay_inv_def task_ok_def t_def relay_consts)
    moreover have "table_ok ((next_tx c2, t) # tasks c2)" using i2 fresh by (fastforce simp: relay_inv_def)
    moreover have "length (sessions (tab c2)) < 256" using False by (simp add: is_full_def relay_consts)
    ultimately show ?thesis using i2 L new unfolding eq by (auto simp: relay_inv_def)
  qed
qed

lemma deliver_inv:
  assumes "relay_inv allowed c"
  shows "relay_inv allowed (deliver now s dg c)"
proof (cases "table_get s (tab c)")
  case None
  then show ?thesis using assms by (simp add: deliver_def)
next
  case (Some h)
  define c1 where "c1 = touch_tx (tx h) now c"
  have i1: "relay_inv allowed c1" unfolding c1_def by (rule touch_tx_inv [OF assms])
  show ?thesis
  proof (cases "map_of (tasks c1) (tx h)")
    case None
    obtain b c2 where d: "drop_session s c1 = (b, c2)" by fastforce
    then have "relay_inv allowed c2" using drop_session_inv [OF i1, of s] by simp
    then show ?thesis
      by (cases b) (simp_all add: deliver_def Some Let_def c1_def [symmetric] None d)
  next
    case t: (Some t)
    have "relay_inv allowed (upd_task (tx h) (\<lambda>t. t \<lparr> t_queue := t_queue t @ [dg] \<rparr>) c1)"
      if "length (t_queue t) < SESSION_QUEUE_DEPTH"
    proof (rule upd_task_inv [OF i1])
      fix u assume "task_ok allowed (next_tx c1) (tx h, u)" "(tx h, u) \<in> set (tasks c1)"
      moreover have "u = t" using i1 t \<open>(tx h, u) \<in> set (tasks c1)\<close> by (simp add: relay_inv_def)
      ultimately show "task_ok allowed (next_tx c1) (tx h, u \<lparr> t_queue := t_queue u @ [dg] \<rparr>)"
        using that by (simp add: task_ok_def)
    qed simp
    then show ?thesis using i1 by (simp add: deliver_def Some Let_def c1_def [symmetric] t)
  qed
qed

definition env_ok :: "bool \<Rightarrow> uplink_env \<Rightarrow> bool" where
  "env_ok allowed e \<longleftrightarrow> (\<forall>c. relay_inv allowed c \<longrightarrow> relay_inv allowed (env1 e c) \<and> relay_inv allowed (env2 e c)) \<and>
     (\<forall>c. sids (env2 e c) \<subseteq> sids c)"

lemma uplink_data_inv:
  assumes "relay_inv allowed c" "env_ok allowed e"
  shows "relay_inv allowed (snd (uplink_data allowed flt e s tgt dg c))"
proof (cases "if flt \<and> target_port tgt = Some 53 then aaaa_query_question_end dg else None")
  case (Some q)
  then show ?thesis using assms(1) by (simp add: uplink_data_def split: sum.split)
next
  case None
  show ?thesis
  proof (cases "map_option h_target (table_get s (tab c)) = Some tgt")
    case True
    then show ?thesis using deliver_inv [OF assms(1)] by (simp only: uplink_data_def None option.case) simp
  next
    case False
    obtain r c1 where ta: "target_addr allowed (now0 e) (answer e) (now1 e) (env1 e) s tgt c = (r, c1)" by fastforce
    have i1: "relay_inv allowed c1 \<and> (\<forall>a. r = Some a \<longrightarrow> permitted allowed a)"
      using target_addr_inv [OF assms(1) _ ta] assms(2) by (simp add: env_ok_def)
    show ?thesis
    proof (cases r)
      case rN: None
      then show ?thesis using i1 False by (simp only: uplink_data_def None option.case if_False ta) simp
    next
      case (Some addr)
      obtain b c2 where es: "establish (bind_ok e) (now2 e) (env2 e) s tgt addr c1 = (b, c2)" by fastforce
      have "relay_inv allowed c2"
        using establish_inv [of allowed c1 "env2 e" addr "bind_ok e" "now2 e" s tgt] i1 assms(2) Some es
        by (simp add: env_ok_def)
      then show ?thesis using False deliver_inv
        by (cases b) (simp_all only: uplink_data_def None option.case if_False ta Some prod.case es bool.case snd_conv)
    qed
  qed
qed

lemma close_relay_inv: "relay_inv allowed c \<Longrightarrow> relay_inv allowed (close_relay c)"
proof -
  assume i: "relay_inv allowed c"
  have eq: "map (\<lambda>(k, t). (k, shut t)) (tasks c) = map_task UNIV shut (tasks c)" by (simp add: map_task_def)
  have "linked [] (map_task UNIV shut (tasks c)) (next_tx c)"
    by (rule linkedI) (auto simp: mem_map_task)
  moreover have "\<forall>p\<in>set (map_task UNIV shut (tasks c)). task_ok allowed (next_tx c) p"
    using i by (auto simp: relay_inv_def mem_map_task)
  ultimately show ?thesis using i by (simp add: relay_inv_def close_relay_def eq)
qed

lemma serve_step_inv:
  assumes "relay_inv allowed c" "\<And>e. ev = EFrame e \<Longrightarrow> env_ok allowed e"
  shows "relay_inv allowed (serve_step allowed flt ev c)"
proof (cases ev)
  case EDead
  show ?thesis
  proof (cases "dead c")
    case (Cons s ds)
    obtain b c1 where d: "drop_session s (c \<lparr> dead := ds \<rparr>) = (b, c1)" by fastforce
    then have "relay_inv allowed c1" using drop_session_inv [of allowed "c \<lparr> dead := ds \<rparr>" s] assms(1) by simp
    then show ?thesis by (cases b) (simp_all add: EDead Cons d)
  qed (use assms(1) in \<open>simp add: EDead\<close>)
next
  case (EFrame e)
  show ?thesis
  proof (cases "read_udp_frame (up c)")
    case (Inl x)
    then show ?thesis using close_relay_inv [OF assms(1)] by (simp add: EFrame)
  next
    case (Inr fr)
    obtain f rest where fr: "fr = (f, rest)" by fastforce
    show ?thesis
    proof (cases f)
      case (Data s tgt dg)
      obtain b c1 where u: "uplink_data allowed flt e s tgt dg (c \<lparr> up := rest \<rparr>) = (b, c1)" by fastforce
      then have "relay_inv allowed c1"
        using uplink_data_inv [of allowed "c \<lparr> up := rest \<rparr>" e flt s tgt dg] assms(1) assms(2) [OF EFrame] by simp
      then show ?thesis by (cases b) (simp_all add: EFrame Inr fr Data u)
    next
      case (Close s)
      then show ?thesis using drop_session_inv [of allowed "c \<lparr> up := rest \<rparr>" s] assms(1)
        by (simp add: EFrame Inr fr)
    qed
  qed
next
  case ETimeout
  then show ?thesis using close_relay_inv [OF assms(1)] by simp
qed

section \<open>Runs\<close>

text \<open>
  One step of the connection: a step of a background task, a step of the loop (while it
  runs; the tasks that go on while a frame waits are given as lists of their steps), bytes
  arriving from the client, the outcomes of coming writes.
\<close>

datatype relay_op =
    Bg bg_op
  | TakeDead
  | TakeFrame nat lookup nat "bg_op list" bool nat "bg_op list"
  | IdleTimeout
  | Arrive "byte list"
  | Outcomes "(bool \<times> bool) list"

fun relay_step :: "bool \<Rightarrow> bool \<Rightarrow> nat \<Rightarrow> relay_op \<Rightarrow> relay \<Rightarrow> relay" where
  "relay_step allowed flt idle (Bg op) c = bg_step idle op c"
| "relay_step allowed flt idle TakeDead c = (if running c then serve_step allowed flt EDead c else c)"
| "relay_step allowed flt idle (TakeFrame t0 a t1 bg1 ok t2 bg2) c =
    (if running c
     then serve_step allowed flt (EFrame \<lparr> now0 = t0, answer = a, now1 = t1, env1 = fold (bg_step idle) bg1,
                                           bind_ok = ok, now2 = t2, env2 = fold (bg_step idle) bg2 \<rparr>) c
     else c)"
| "relay_step allowed flt idle IdleTimeout c = (if running c then serve_step allowed flt ETimeout c else c)"
| "relay_step allowed flt idle (Arrive bs) c = c \<lparr> up := up c @ bs \<rparr>"
| "relay_step allowed flt idle (Outcomes os) c = c \<lparr> io := os \<rparr>"

lemma relay_step_inv: "relay_inv allowed c \<Longrightarrow> relay_inv allowed (relay_step allowed flt idle op c)"
proof (cases op)
  case (TakeFrame t0 a t1 bg1 ok t2 bg2)
  assume i: "relay_inv allowed c"
  define e where "e = \<lparr> now0 = t0, answer = a, now1 = t1, env1 = fold (bg_step idle) bg1,
      bind_ok = ok, now2 = t2, env2 = fold (bg_step idle) bg2 \<rparr>"
  have "env_ok allowed e" by (simp add: e_def env_ok_def bg_steps_inv bg_steps_sids)
  then have "relay_inv allowed (serve_step allowed flt (EFrame e) c)"
    by (intro serve_step_inv [OF i]) simp
  then show ?thesis using i by (simp add: TakeFrame e_def [symmetric] del: serve_step.simps)
qed (use serve_step_inv [of allowed c EDead] serve_step_inv [of allowed c ETimeout]
      in \<open>simp_all del: serve_step.simps add: bg_step_inv\<close>)

interpretation relay: guarded_table "relay_start now incoming outcomes" "relay_step allowed flt idle"
  "relay_inv allowed"
proof
  show "relay_inv allowed (relay_start now incoming outcomes)"
    by (simp add: relay_inv_def relay_start_def table_new_def budget_new_def linked_def)
qed (rule relay_step_inv)

section \<open>Properties\<close>

text \<open>
  C5: whatever the client sends, whatever the resolver, the sockets and the writes do and
  however the tasks interleave, the connection has at most 256 sessions, one per identifier,
  each session's task is its own, a task without a session has its queue closed, and unless
  private targets are allowed no session is bound to, no cache entry holds and no datagram
  ever goes to an address the filter refuses.
\<close>

theorem relay_invariant:
  "let c = fold (relay_step allowed flt idle) ops (relay_start now incoming outcomes) in
     relay_inv allowed c \<and> length (sessions (tab c)) \<le> 256 \<and>
     list_all (\<lambda>(a, d). permitted allowed a) (sent c)"
proof -
  have "relay_inv allowed (fold (relay_step allowed flt idle) ops (relay_start now incoming outcomes))"
    by (rule relay.inv_run)
  then show ?thesis by (auto simp: Let_def relay_inv_def list_all_iff)
qed

text \<open>
  a datagram for the target its session is bound to resolves nothing and takes nothing
  from the budget; it goes to the end of the queue of the session's task, unless sixteen
  datagrams wait there already, and nothing is written to the client.
\<close>

theorem uplink_bound_session:
  assumes "table_get s (tab c) = Some h" "h_target h = tgt" "map_of (tasks c) (tx h) = Some t"
    and "\<not> (flt \<and> target_port tgt = Some 53)"
  shows "uplink_data allowed flt e s tgt dg c =
    (False, (if length (t_queue t) < 16
             then upd_task (tx h) (\<lambda>t. t \<lparr> t_queue := t_queue t @ [dg] \<rparr>) else id)
            (touch_tx (tx h) (now0 e) c))"
proof -
  have "(flt \<and> target_port tgt = Some 53) = False" using assms(4) by simp
  then show ?thesis
    unfolding uplink_data_def using assms(1-3)
    by (simp only: if_False option.case)
       (simp add: deliver_def Let_def touch_tx_def SESSION_QUEUE_DEPTH_def)
qed

theorem uplink_bound_session_witness:
  "let e = \<lparr> now0 = 9, answer = LookupFailed, now1 = 9, env1 = id, bind_ok = False, now2 = 9, env2 = id \<rparr>;
       h = \<lparr> tx = 0, last_active_ms = 5, h_target = ''192.0.2.1:9'' \<rparr>;
       t = \<lparr> t_sid = 7, t_target = ''192.0.2.1:9'', t_peer = SockV4 1 9, t_queue = [], t_open = True, t_buf = 8192 \<rparr>;
       c = (relay_start 0 [] []) \<lparr> tab := \<lparr> sessions = [(7, h)], overlimit_drops = 0 \<rparr>, tasks := [(0, t)] \<rparr> in
     map_option t_queue (map_of (tasks (snd (uplink_data False False e 7 ''192.0.2.1:9'' [1] c))) 0) = Some [[1]]"
proof -
  let ?e = "\<lparr> now0 = 9, answer = LookupFailed, now1 = 9, env1 = id, bind_ok = False, now2 = 9, env2 = id \<rparr>"
  let ?h = "\<lparr> tx = 0, last_active_ms = 5, h_target = ''192.0.2.1:9'' \<rparr>"
  let ?t = "\<lparr> t_sid = 7, t_target = ''192.0.2.1:9'', t_peer = SockV4 1 9, t_queue = [], t_open = True, t_buf = 8192 \<rparr>"
  let ?c = "(relay_start 0 [] []) \<lparr> tab := \<lparr> sessions = [(7, ?h)], overlimit_drops = 0 \<rparr>, tasks := [(0, ?t)] \<rparr>"
  have "table_get 7 (tab ?c) = Some ?h" "map_of (tasks ?c) (tx ?h) = Some ?t"
    by (simp_all add: table_get_def)
  from uplink_bound_session [OF this(1) _ this(2), of "''192.0.2.1:9''" False False ?e "[1]"]
  have "uplink_data False False ?e 7 ''192.0.2.1:9'' [1] ?c =
      (False, upd_task 0 (\<lambda>t. t \<lparr> t_queue := t_queue t @ [[1]] \<rparr>) (touch_tx 0 9 ?c))" by simp
  then show ?thesis by (simp add: Let_def touch_tx_def map_task_def)
qed

text \<open>
  with the filter on, an AAAA query to port 53 is answered with the NODATA message in a
  frame of its session and nothing else happens: no session, no resolution, no budget, no
  datagram leaves.
\<close>

theorem aaaa_answered_locally:
  assumes "target_port tgt = Some 53" "aaaa_query_question_end dg = Some q"
    and "encode_udp_data s tgt (synthesize_nodata dg q) = Inr frame" "io c = []"
  shows "uplink_data allowed True e s tgt dg c = (True, c \<lparr> down := down c @ frame \<rparr>)"
  using assms by (simp add: uplink_data_def down_write_def write_udp_frame_def)

lemma target_port_show: "target_port (h @ '':'' @ show_nat (unat p)) = Some p"
  using show_nat_notin [of "CHR '':''" "unat p"]
  by (simp add: target_port_def rsplit_once_append parse_u16_show)

theorem aaaa_answered_locally_witness:
  "let e = \<lparr> now0 = 9, answer = LookupFailed, now1 = 9, env1 = id, bind_ok = False, now2 = 9, env2 = id \<rparr>;
       tgt = ''9.9.9.9'' @ '':'' @ show_nat (unat (53 :: u16)) in
   \<exists>frame. uplink_data False True e 7 tgt
       [0xAB, 0xCD, 1, 0, 0, 1, 0, 0, 0, 0, 0, 0, 1, 97, 0, 0, 28, 0, 1] (relay_start 0 [] []) =
     (True, (relay_start 0 [] []) \<lparr> down := frame \<rparr>)"
proof -
  let ?q = "[0xAB, 0xCD, 1, 0, 0, 1, 0, 0, 0, 0, 0, 0, 1, 97, 0, 0, 28, 0, 1] :: byte list"
  let ?e = "\<lparr> now0 = 9, answer = LookupFailed, now1 = 9, env1 = id, bind_ok = False, now2 = 9, env2 = id \<rparr>"
  define tgt where "tgt = ''9.9.9.9'' @ '':'' @ show_nat (unat (53 :: u16))"
  have p: "target_port tgt = Some 53" unfolding tgt_def by (rule target_port_show)
  have q: "aaaa_query_question_end ?q = Some 19" by code_simp
  have "length (show_nat (unat (53 :: u16))) \<le> 3" by (rule show_nat_length_le) simp
  then have l: "tgt \<noteq> []" "length tgt \<le> 11" by (simp_all add: tgt_def)
  have "synthesize_nodata ?q 19 = [0xAB, 0xCD, 0x81, 0x80, 0, 1, 0, 0, 0, 0, 0, 0, 1, 97, 0, 0, 28, 0, 1]"
    by code_simp
  then obtain frame where f: "encode_udp_data 7 tgt (synthesize_nodata ?q 19) = Inr frame"
    using l by (simp add: encode_udp_data_Inr_iff)
  show ?thesis
    unfolding Let_def tgt_def [symmetric]
    using aaaa_answered_locally [OF p q f, of "relay_start 0 [] []" False ?e]
    by (auto simp: relay_start_def)
qed

text \<open>
  when every slot is taken, a datagram for a new session is counted as dropped and the
  session is closed towards the client, while every session there is stays as it was.
\<close>

theorem full_table_refuses:
  assumes "table_ok (sessions (tab c))" "length (sessions (tab c)) = 256" "table_get s (tab c) = None"
    and "io c = []"
  shows "establish ok t2 env s tgt addr c =
    (False, c \<lparr> tab := \<lparr> sessions = sessions (tab c), overlimit_drops = overlimit_drops (tab c) + 1 \<rparr>,
               down := down c @ encode_udp_close s \<rparr>)"
proof -
  have "AList.delete s (sessions (tab c)) = sessions (tab c)"
    using assms(3) by (simp add: table_get_def delete_not_in)
  then show ?thesis
    using assms by (simp add: establish_def drop_session_def table_remove_def table_get_def is_full_def
        relay_consts count_drop_def down_write_def write_udp_frame_def Let_def)
qed

text \<open>
  a datagram from the target reaches the client as it is only when it fits the buffer
  of the session task; a longer one is cut to the buffer and forwarded all the same. The
  buffer starts at 8192 bytes and only grows, after the cut datagram, to twice its size.
\<close>

theorem downlink_cut_to_buffer:
  assumes "map_of (tasks c) k = Some t" "io c = []"
    and "encode_udp_data (t_sid t) (t_target t) (take (t_buf t) d) = Inr frame"
  shows "down (task_recv k (Some d) now c) = down c @ frame \<and>
    map_option t_buf (map_of (tasks (task_recv k (Some d) now c)) k) =
      Some (if t_buf t \<le> length d \<and> t_buf t < 65507 then min (2 * t_buf t) 65507 else t_buf t)"
proof -
  have mo: "map_of (map_task {k} f T) k = map_option f (map_of T k)" for f T
    by (induction T) (auto simp: map_task_def)
  let ?c = "touch_tx k now c"
  have io: "io (touch_tx k now c) = []" "down (touch_tx k now c) = down c"
    "tasks (touch_tx k now c) = tasks c"
    using assms(2) by (simp_all add: touch_tx_def)
  have w: "down_write frame x = (True, x \<lparr> down := down x @ frame \<rparr>)" if "io x = []" for x
    using that by (simp add: down_write_def write_udp_frame_def)
  have iou: "io (upd_task k f x) = io x" for f x by (simp add: upd_task_def)
  show ?thesis
    using assms(1,3)
    by (simp add: task_recv_def Let_def w io iou mo udp_consts min_def mult.commute)
qed

theorem downlink_cut_to_buffer_witness:
  "let t = \<lparr> t_sid = 7, t_target = ''a'', t_peer = SockV4 1 9, t_queue = [], t_open = True, t_buf = 2 \<rparr>;
       c = (relay_start 0 [] []) \<lparr> tasks := [(0, t)] \<rparr> in
     map_option t_buf (map_of (tasks (task_recv 0 (Some [1, 2, 3]) 5 c)) 0) = Some 4"
proof -
  let ?t = "\<lparr> t_sid = 7, t_target = ''a'', t_peer = SockV4 1 9, t_queue = [], t_open = True, t_buf = 2 \<rparr>"
  let ?c = "(relay_start 0 [] []) \<lparr> tasks := [(0, ?t)] \<rparr>"
  have t: "map_of (tasks ?c) 0 = Some ?t" "io ?c = []" by (simp_all add: relay_start_def)
  obtain frame where "encode_udp_data (t_sid ?t) (t_target ?t) (take (t_buf ?t) [1, 2, 3]) = Inr frame"
    by (simp add: encode_udp_data_Inr_iff)
  from downlink_cut_to_buffer [OF t this, of 5] show ?thesis by (simp add: Let_def)
qed

text \<open>
  C27: a task whose session is gone sends what is queued, in order and to its own address,
  and ends: no socket outlives its session for longer than its queue lasts.
\<close>

theorem orphan_task_ends:
  assumes "table_ok (tasks c)" "map_of (tasks c) k = Some t" "\<not> t_open t"
  shows "let c' = (task_send k True ^^ Suc (length (t_queue t))) c in
    map_of (tasks c') k = None \<and> sent c' = sent c @ map (\<lambda>d. (t_peer t, d)) (t_queue t)"
  using assms
proof (induction "t_queue t" arbitrary: c t)
  case Nil
  then show ?case by (simp add: task_send_def end_task_def Nil(1) [symmetric] delete_conv')
next
  case (Cons d q)
  have mo: "map_of (map_task {k} f T) k = map_option f (map_of T k)" for f T
    by (induction T) (auto simp: map_task_def)
  let ?c = "upd_task k (\<lambda>t. t \<lparr> t_queue := q \<rparr>) (c \<lparr> sent := sent c @ [(t_peer t, d)] \<rparr>)"
  have step: "task_send k True c = ?c"
    by (simp add: task_send_def Cons.prems(2) Cons.hyps(2) [symmetric])
  have "let c' = (task_send k True ^^ Suc (length (t_queue (t \<lparr> t_queue := q \<rparr>)))) ?c in
    map_of (tasks c') k = None \<and> sent c' = sent ?c @ map (\<lambda>d. (t_peer (t \<lparr> t_queue := q \<rparr>), d)) (t_queue (t \<lparr> t_queue := q \<rparr>))"
    by (rule Cons.hyps(1)) (use Cons.prems in \<open>simp_all add: mo\<close>)
  then show ?case
    unfolding Cons.hyps(2) [symmetric] by (simp add: funpow_swap1 step Let_def)
qed

theorem orphan_task_ends_witness:
  "let t = \<lparr> t_sid = 7, t_target = ''a'', t_peer = SockV4 1 9, t_queue = [[1], [2]], t_open = False, t_buf = 2 \<rparr>;
       c = (relay_start 0 [] []) \<lparr> tasks := [(0, t)] \<rparr> in
     sent ((task_send 0 True ^^ 3) c) = [(SockV4 1 9, [1]), (SockV4 1 9, [2])]"
proof -
  let ?t = "\<lparr> t_sid = 7, t_target = ''a'', t_peer = SockV4 1 9, t_queue = [[1], [2]], t_open = False, t_buf = 2 \<rparr>"
  let ?c = "(relay_start 0 [] []) \<lparr> tasks := [(0, ?t)] \<rparr>"
  have t: "table_ok (tasks ?c)" "map_of (tasks ?c) 0 = Some ?t" "\<not> t_open ?t" by simp_all
  have "Suc (length (t_queue ?t)) = 3" "sent ?c = []" by (simp_all add: relay_start_def)
  with orphan_task_ends [OF t] show ?thesis by (simp add: Let_def eval_nat_numeral)
qed

text \<open>
  A notification names its session by the identifier alone: taken after the identifier was
  bound again, it closes the new session, whose task runs.
\<close>

lemma stale_notification_closes_new_session:
  assumes "dead c = s # ds" "table_get s (tab c) = Some h"
  shows "table_get s (tab (serve_step allowed flt EDead c)) = None"
proof -
  obtain b c1 where d: "drop_session s (c \<lparr> dead := ds \<rparr>) = (b, c1)" by fastforce
  have "map_of (sessions (tab c1)) s = None"
    using d assms(2) by (auto simp: drop_session_def table_remove_def table_get_def delete_conv')
  moreover have "tab (snd (down_write f c1)) = tab c1" for f by simp
  ultimately show ?thesis by (cases b) (simp_all add: assms(1) d table_get_def)
qed

end
