(* ===== verification/Connections.thy ===== *)
theory Connections
  imports Tables NetAddr
begin

text \<open>
  The registry of active connections, \<open>hydra-core/src/connections.rs\<close>.

  An entry is shared between the registry and the relay task that counts bytes on it
  (\<open>Arc<ConnEntry>\<close>), so the model keeps an explicit store: \<open>heap\<close> holds every entry ever
  registered and a handle is an index into it; \<open>entries\<close>, the table behind the lock, is a
  list of handles. Evicting an entry removes its handle from the table and leaves the entry
  in the store, where its task goes on counting. Times are milliseconds and arguments.
  \<open>ConnEntry::finish\<close> swaps the flag and then stamps the time under another lock; the two
  halves are operations of their own, so that other tasks can run in between.
\<close>

definition MAX_ENTRIES :: nat where "MAX_ENTRIES = 1024"

definition RETAIN_AFTER_CLOSE :: nat where "RETAIN_AFTER_CLOSE = 60 * 1000"

record conn_info =
  info_id :: u64
  info_target :: string
  info_node :: sock_addr
  info_started_at :: nat
  info_up :: u64
  info_down :: u64
  info_active :: bool
  info_closed_at :: "nat option"

record conn_entry =
  conn_id :: u64
  conn_target :: string
  conn_node :: sock_addr
  conn_started_at :: nat
  bytes_up :: u64
  bytes_down :: u64
  conn_active :: bool
  conn_closed_at :: "nat option"

definition add_up :: "u64 \<Rightarrow> conn_entry \<Rightarrow> conn_entry" where
  "add_up n e = (if n > 0 then e \<lparr> bytes_up := bytes_up e + n \<rparr> else e)"

definition add_down :: "u64 \<Rightarrow> conn_entry \<Rightarrow> conn_entry" where
  "add_down n e = (if n > 0 then e \<lparr> bytes_down := bytes_down e + n \<rparr> else e)"

definition add_bytes :: "u64 \<Rightarrow> u64 \<Rightarrow> conn_entry \<Rightarrow> conn_entry" where
  "add_bytes up down e = add_down down (add_up up e)"

text \<open>The first half of \<open>finish\<close> tells whether the second half is to run.\<close>

definition finish_swap :: "conn_entry \<Rightarrow> bool \<times> conn_entry" where
  "finish_swap e = (conn_active e, e \<lparr> conn_active := False \<rparr>)"

definition finish_stamp :: "nat \<Rightarrow> conn_entry \<Rightarrow> conn_entry" where
  "finish_stamp now e =
    (if conn_closed_at e = None then e \<lparr> conn_closed_at := Some now \<rparr> else e)"

definition finish :: "nat \<Rightarrow> conn_entry \<Rightarrow> conn_entry" where
  "finish now e = (case finish_swap e of (was, e') \<Rightarrow> if was then finish_stamp now e' else e')"

definition entry_snapshot :: "conn_entry \<Rightarrow> conn_info" where
  "entry_snapshot e = \<lparr> info_id = conn_id e, info_target = conn_target e, info_node = conn_node e,
     info_started_at = conn_started_at e, info_up = bytes_up e, info_down = bytes_down e,
     info_active = conn_active e, info_closed_at = conn_closed_at e \<rparr>"

section \<open>The registry\<close>

record registry =
  heap :: "conn_entry list"
  entries :: "nat list"
  next_id :: u64
  max_entries :: nat

definition with_limit :: "nat \<Rightarrow> registry" where
  "with_limit n = \<lparr> heap = [], entries = [], next_id = 1, max_entries = n \<rparr>"

definition registry_new :: registry where "registry_new = with_limit MAX_ENTRIES"


text \<open>\<open>Iterator::position\<close> and \<open>Vec::remove\<close>.\<close>

fun position :: "('a \<Rightarrow> bool) \<Rightarrow> 'a list \<Rightarrow> nat option" where
  "position P [] = None"
| "position P (x # xs) = (if P x then Some 0 else map_option Suc (position P xs))"

definition remove_at :: "nat \<Rightarrow> 'a list \<Rightarrow> 'a list" where
  "remove_at i xs = take i xs @ drop (Suc i) xs"

lemma position_None: "position P xs = None \<longleftrightarrow> (\<forall>x\<in>set xs. \<not> P x)"
  by (induction xs) auto

lemma position_less: "position P xs = Some i \<Longrightarrow> i < length xs \<and> P (xs ! i)"
  by (induction xs arbitrary: i) (auto split: if_splits)

lemma length_remove_at: "i < length xs \<Longrightarrow> length (remove_at i xs) = length xs - 1"
  by (simp add: remove_at_def)

lemma set_remove_at: "set (remove_at i xs) \<subseteq> set xs"
  unfolding remove_at_def using set_take_subset set_drop_subset by fastforce

lemma remove_at_Cons [simp]: "remove_at 0 (x # xs) = xs"
  "remove_at (Suc i) (x # xs) = x # remove_at i xs"
  by (simp_all add: remove_at_def)

text \<open>The eviction loop of \<open>prune_locked\<close> over any table: the oldest entry that satisfies
  \<open>closed\<close> goes, or else the oldest, until the table fits. It ends because each round
  removes one entry.\<close>

definition victim :: "('a \<Rightarrow> bool) \<Rightarrow> 'a list \<Rightarrow> nat" where
  "victim closed xs = (case position closed xs of Some i \<Rightarrow> i | None \<Rightarrow> 0)"

lemma victim_less: "xs \<noteq> [] \<Longrightarrow> victim closed xs < length xs"
  by (auto simp: victim_def position_less split: option.split)

function evict :: "('a \<Rightarrow> bool) \<Rightarrow> nat \<Rightarrow> 'a list \<Rightarrow> 'a list" where
  "evict closed n xs =
    (if length xs > n then evict closed n (remove_at (victim closed xs) xs) else xs)"
  by pat_completeness auto
termination
proof (relation "measure (\<lambda>(closed, n, xs). length xs)", goal_cases)
  case (2 closed n xs)
  then have "victim closed xs < length xs" by (intro victim_less) auto
  then show ?case by (simp add: length_remove_at)
qed simp

declare evict.simps [simp del]

definition expired :: "nat \<Rightarrow> nat option \<Rightarrow> bool" where
  "expired now closed_at = (case closed_at of Some c \<Rightarrow> \<not> now - c < RETAIN_AFTER_CLOSE | None \<Rightarrow> False)"

definition prune_locked :: "nat \<Rightarrow> registry \<Rightarrow> registry" where
  "prune_locked now r =
    (let live = filter (\<lambda>a. \<not> expired now (conn_closed_at (heap r ! a))) (entries r)
     in r \<lparr> entries := evict (\<lambda>a. \<not> conn_active (heap r ! a)) (max_entries r) live \<rparr>)"

text \<open>\<open>fetch_add\<close> of the counter wraps. The result is the handle of the new entry.\<close>

definition register :: "nat \<Rightarrow> string \<Rightarrow> sock_addr \<Rightarrow> registry \<Rightarrow> nat \<times> registry" where
  "register now target node r =
    (let e = \<lparr> conn_id = next_id r, conn_target = target, conn_node = node,
               conn_started_at = now, bytes_up = 0, bytes_down = 0, conn_active = True,
               conn_closed_at = None \<rparr>;
         a = length (heap r)
     in (a, prune_locked now
        (r \<lparr> next_id := next_id r + 1, heap := heap r @ [e], entries := entries r @ [a] \<rparr>)))"

definition with_entry :: "nat \<Rightarrow> (conn_entry \<Rightarrow> conn_entry) \<Rightarrow> registry \<Rightarrow> registry" where
  "with_entry a f r = r \<lparr> heap := (heap r)[a := f (heap r ! a)] \<rparr>"

definition find_entry :: "u64 \<Rightarrow> registry \<Rightarrow> nat option" where
  "find_entry i r = find (\<lambda>a. conn_id (heap r ! a) = i) (entries r)"

definition update_bytes :: "u64 \<Rightarrow> u64 \<Rightarrow> u64 \<Rightarrow> registry \<Rightarrow> registry" where
  "update_bytes i up down r =
    (case find_entry i r of Some a \<Rightarrow> with_entry a (add_bytes up down) r | None \<Rightarrow> r)"

definition finish_id :: "nat \<Rightarrow> u64 \<Rightarrow> registry \<Rightarrow> registry" where
  "finish_id now i r =
    (case find_entry i r of Some a \<Rightarrow> with_entry a (finish now) r | None \<Rightarrow> r)"

definition snapshot :: "nat \<Rightarrow> registry \<Rightarrow> conn_info list \<times> registry" where
  "snapshot now r =
    (let r' = prune_locked now r in (map (\<lambda>a. entry_snapshot (heap r' ! a)) (entries r'), r'))"

definition clear :: "registry \<Rightarrow> registry" where
  "clear r = r \<lparr> entries := [] \<rparr>"

text \<open>What the tasks of the proxy do with the registry and with the handles they hold.\<close>

datatype conn_op =
    Register nat string sock_addr
  | AddBytes nat u64 u64
  | Finish nat nat
  | FinishSwap nat
  | FinishStamp nat nat
  | UpdateBytes u64 u64 u64
  | FinishId nat u64
  | Snapshot nat
  | Clear

fun conn_step :: "conn_op \<Rightarrow> registry \<Rightarrow> registry" where
  "conn_step (Register now t n) r = snd (register now t n r)"
| "conn_step (AddBytes a up down) r = with_entry a (add_bytes up down) r"
| "conn_step (Finish now a) r = with_entry a (finish now) r"
| "conn_step (FinishSwap a) r = with_entry a (\<lambda>e. snd (finish_swap e)) r"
| "conn_step (FinishStamp now a) r =
    (if a < length (heap r) \<and> \<not> conn_active (heap r ! a) then with_entry a (finish_stamp now) r else r)"
| "conn_step (UpdateBytes i up down) r = update_bytes i up down r"
| "conn_step (FinishId now i) r = finish_id now i r"
| "conn_step (Snapshot now) r = snd (snapshot now r)"
| "conn_step Clear r = clear r"

section \<open>The eviction loop in closed form\<close>

text \<open>The reference: as many of the oldest closed entries as are too many, and if that does
  not do, as many of the oldest others.\<close>

fun drop_some :: "('a \<Rightarrow> bool) \<Rightarrow> nat \<Rightarrow> 'a list \<Rightarrow> 'a list" where
  "drop_some P k [] = []"
| "drop_some P k (x # xs) =
    (if P x \<and> k > 0 then drop_some P (k - 1) xs else x # drop_some P k xs)"

definition evict_ref :: "('a \<Rightarrow> bool) \<Rightarrow> nat \<Rightarrow> 'a list \<Rightarrow> 'a list" where
  "evict_ref closed n xs =
    (let k = length xs - n; c = length (filter closed xs)
     in drop (k - c) (drop_some closed k xs))"

lemma drop_some_0 [simp]: "drop_some P 0 xs = xs"
  by (induction xs) auto

lemma drop_some_none: "\<forall>x\<in>set xs. \<not> P x \<Longrightarrow> drop_some P k xs = xs"
  by (induction xs) auto

lemma drop_some_position:
  "position P xs = Some i \<Longrightarrow> drop_some P (Suc k) xs = drop_some P k (remove_at i xs) \<and>
    length (filter P xs) = Suc (length (filter P (remove_at i xs)))"
  by (induction xs arbitrary: i) (auto split: if_splits)

lemma evict_eq_ref: "evict closed n xs = evict_ref closed n xs"
proof (induction closed n xs rule: evict.induct)
  case (1 closed n xs)
  show ?case
  proof (cases "length xs > n")
    case True
    then obtain k where k: "length xs - n = Suc k" by (metis Suc_diff_Suc)
    have len: "length (remove_at (victim closed xs) xs) - n = k"
      using True k victim_less [of xs closed] by (cases "xs = []") (simp_all add: length_remove_at)
    have "evict closed n xs = evict_ref closed n (remove_at (victim closed xs) xs)"
      using 1 [OF True] True by (simp add: evict.simps [of closed n xs])
    also have "\<dots> = evict_ref closed n xs"
    proof (cases "position closed xs")
      case None
      then have none: "\<forall>x\<in>set xs. \<not> closed x" by (simp add: position_None)
      obtain y ys where xs: "xs = y # ys" using True by (cases xs) auto
      have "victim closed xs = 0" by (simp add: victim_def None)
      then have r: "remove_at (victim closed xs) xs = ys" by (simp only: xs remove_at_Cons)
      have "filter closed xs = []" "filter closed ys = []" using none xs by simp_all
      then show ?thesis using len none unfolding evict_ref_def Let_def k r
        by (simp add: xs drop_some_none)
    next
      case (Some i)
      then show ?thesis using len drop_some_position [OF Some, of k]
        unfolding evict_ref_def Let_def k by (simp add: victim_def)
    qed
    finally show ?thesis .
  next
    case False
    then show ?thesis by (simp add: evict.simps [of closed n xs] evict_ref_def)
  qed
qed


lemma evict_set: "set (evict closed n xs) \<subseteq> set xs"
proof (induction closed n xs rule: evict.induct)
  case (1 closed n xs)
  then show ?case
    using set_remove_at [of "victim closed xs" xs] by (subst evict.simps) auto
qed

lemma evict_length: "length (evict closed n xs) = min n (length xs)"
proof (induction closed n xs rule: evict.induct)
  case (1 closed n xs)
  then show ?case
    using victim_less [of xs closed]
    by (subst evict.simps) (cases "xs = []", auto simp: length_remove_at)
qed

lemma sorted_remove_at: "sorted_wrt P xs \<Longrightarrow> sorted_wrt P (remove_at i xs)"
proof (induction xs arbitrary: i)
  case (Cons x xs)
  then show ?case using set_remove_at by (cases i) fastforce+
qed (simp add: remove_at_def)

lemma evict_sorted: "sorted_wrt (<) xs \<Longrightarrow> sorted_wrt (<) (evict closed n xs)"
  for xs :: "nat list"
proof (induction closed n xs rule: evict.induct)
  case (1 closed n xs)
  then show ?case by (subst evict.simps) (simp add: sorted_remove_at)
qed

lemma drop_some_map: "drop_some P k (map f xs) = map f (drop_some (P \<circ> f) k xs)"
  by (induction xs arbitrary: k) auto

lemma evict_map: "map f (evict (\<lambda>a. P (f a)) n xs) = evict_ref P n (map f xs)"
  unfolding evict_eq_ref evict_ref_def Let_def
  by (simp add: drop_some_map drop_map filter_map comp_def)

section \<open>The invariant\<close>

definition conn_inv :: "registry \<Rightarrow> bool" where
  "conn_inv r \<longleftrightarrow> sorted_wrt (<) (entries r) \<and> (\<forall>a\<in>set (entries r). a < length (heap r)) \<and>
    length (entries r) \<le> max_entries r \<and>
    (\<forall>a<length (heap r). conn_id (heap r ! a) = of_nat (Suc a)) \<and>
    next_id r = of_nat (Suc (length (heap r))) \<and>
    (\<forall>a<length (heap r). conn_active (heap r ! a) \<longrightarrow> conn_closed_at (heap r ! a) = None)"

lemma entry_ops_keep [simp]:
  "conn_id (add_bytes up down e) = conn_id e"
  "conn_active (add_bytes up down e) = conn_active e"
  "conn_closed_at (add_bytes up down e) = conn_closed_at e"
  "conn_id (finish now e) = conn_id e"
  "\<not> conn_active (finish now e)"
  "conn_id (snd (finish_swap e)) = conn_id e"
  "\<not> conn_active (snd (finish_swap e))"
  "conn_id (finish_stamp now e) = conn_id e"
  "conn_active (finish_stamp now e) = conn_active e"
  by (simp_all add: add_bytes_def add_up_def add_down_def finish_def finish_swap_def finish_stamp_def)

lemma prune_locked_keeps [simp]:
  "heap (prune_locked now r) = heap r" "next_id (prune_locked now r) = next_id r"
  "max_entries (prune_locked now r) = max_entries r"
  by (simp_all add: prune_locked_def Let_def)

lemma prune_locked_inv:
  assumes "sorted_wrt (<) (entries r)" "\<forall>a\<in>set (entries r). a < length (heap r)"
    "\<forall>a<length (heap r). conn_id (heap r ! a) = of_nat (Suc a)"
    "next_id r = of_nat (Suc (length (heap r)))"
    "\<forall>a<length (heap r). conn_active (heap r ! a) \<longrightarrow> conn_closed_at (heap r ! a) = None"
  shows "conn_inv (prune_locked now r)"
proof -
  have "sorted_wrt (<) (entries (prune_locked now r))"
    using assms(1) by (simp add: prune_locked_def Let_def evict_sorted sorted_wrt_filter)
  moreover have "set (entries (prune_locked now r)) \<subseteq> set (entries r)"
    using evict_set by (fastforce simp: prune_locked_def Let_def)
  moreover have "length (entries (prune_locked now r)) \<le> max_entries r"
    by (simp add: prune_locked_def Let_def evict_length)
  ultimately show ?thesis using assms(2-5) unfolding conn_inv_def by auto
qed

lemma with_entry_inv:
  assumes "conn_inv r" "\<And>e. conn_id (f e) = conn_id e"
    "conn_active (heap r ! a) \<longrightarrow> conn_closed_at (heap r ! a) = None \<Longrightarrow>
      conn_active (f (heap r ! a)) \<longrightarrow> conn_closed_at (f (heap r ! a)) = None"
  shows "conn_inv (with_entry a f r)"
proof (cases "a < length (heap r)")
  case True
  then show ?thesis using assms unfolding conn_inv_def with_entry_def
    by (simp add: nth_list_update)
next
  case False
  then show ?thesis using assms(1) by (simp add: with_entry_def list_update_beyond)
qed

lemma register_inv: "conn_inv r \<Longrightarrow> conn_inv (snd (register now t n r))"
  unfolding register_def Let_def snd_conv
  by (rule prune_locked_inv) (auto simp: conn_inv_def sorted_wrt_append nth_append less_Suc_eq)

lemma conn_step_inv: "conn_inv r \<Longrightarrow> conn_inv (conn_step op r)"
proof (cases op)
  case (Snapshot now)
  assume "conn_inv r"
  then show ?thesis using prune_locked_inv [of r now]
    by (simp add: Snapshot snapshot_def Let_def conn_inv_def)
qed (auto simp: register_inv clear_def conn_inv_def [of "_ \<lparr> entries := [] \<rparr>"] update_bytes_def
    finish_id_def intro!: with_entry_inv split: option.split, auto simp: conn_inv_def)

interpretation conn: guarded_table "with_limit n" conn_step conn_inv for n
  by unfold_locales (simp_all add: conn_step_inv, simp add: conn_inv_def with_limit_def)


section \<open>The abstract registry\<close>

text \<open>What the connections page sees: a counter and a list of values, without a store,
  without handles and without a loop. The operations name a connection by its number.\<close>

type_synonym conn_view = "u64 \<times> conn_info list"

definition view :: "registry \<Rightarrow> conn_view" where
  "view r = (next_id r, map (\<lambda>a. entry_snapshot (heap r ! a)) (entries r))"

definition on_id :: "u64 \<Rightarrow> (conn_info \<Rightarrow> conn_info) \<Rightarrow> conn_info list \<Rightarrow> conn_info list" where
  "on_id i g = map (\<lambda>c. if info_id c = i then g c else c)"

definition count_bytes :: "u64 \<Rightarrow> u64 \<Rightarrow> conn_info \<Rightarrow> conn_info" where
  "count_bytes up down c = c \<lparr> info_up := info_up c + up, info_down := info_down c + down \<rparr>"

definition mark_closed :: "conn_info \<Rightarrow> conn_info" where
  "mark_closed c = c \<lparr> info_active := False \<rparr>"

definition stamp_closed :: "nat \<Rightarrow> conn_info \<Rightarrow> conn_info" where
  "stamp_closed now c = (if info_active c \<or> info_closed_at c \<noteq> None then c
     else c \<lparr> info_closed_at := Some now \<rparr>)"

definition close_conn :: "nat \<Rightarrow> conn_info \<Rightarrow> conn_info" where
  "close_conn now c = (if info_active c then stamp_closed now (mark_closed c) else c)"

definition spec_prune :: "nat \<Rightarrow> nat \<Rightarrow> conn_info list \<Rightarrow> conn_info list" where
  "spec_prune n now cs =
    evict_ref (\<lambda>c. \<not> info_active c) n (filter (\<lambda>c. \<not> expired now (info_closed_at c)) cs)"

text \<open>The connection a handle belongs to, when the handle has been given out.\<close>

definition on_handle :: "nat \<Rightarrow> (conn_info \<Rightarrow> conn_info) \<Rightarrow> conn_view \<Rightarrow> conn_view" where
  "on_handle a g v =
    (if Suc a < unat (fst v) then (fst v, on_id (of_nat (Suc a)) g (snd v)) else v)"

fun spec_step :: "nat \<Rightarrow> conn_op \<Rightarrow> conn_view \<Rightarrow> conn_view" where
  "spec_step n (Register now t node) v =
    (fst v + 1, spec_prune n now (snd v @ [\<lparr> info_id = fst v, info_target = t, info_node = node,
        info_started_at = now, info_up = 0, info_down = 0, info_active = True,
        info_closed_at = None \<rparr>]))"
| "spec_step n (AddBytes a up down) v = on_handle a (count_bytes up down) v"
| "spec_step n (Finish now a) v = on_handle a (close_conn now) v"
| "spec_step n (FinishSwap a) v = on_handle a mark_closed v"
| "spec_step n (FinishStamp now a) v = on_handle a (stamp_closed now) v"
| "spec_step n (UpdateBytes i up down) v = (fst v, on_id i (count_bytes up down) (snd v))"
| "spec_step n (FinishId now i) v = (fst v, on_id i (close_conn now) (snd v))"
| "spec_step n (Snapshot now) v = (fst v, spec_prune n now (snd v))"
| "spec_step n Clear v = (fst v, [])"

lemma u64_gt_zero: "(n :: u64) > 0 \<longleftrightarrow> n \<noteq> 0"
  by (simp add: word_gt_0)

lemma snapshot_ops:
  "entry_snapshot (add_bytes up down e) = count_bytes up down (entry_snapshot e)"
  "entry_snapshot (finish now e) = close_conn now (entry_snapshot e)"
  "entry_snapshot (snd (finish_swap e)) = mark_closed (entry_snapshot e)"
  "\<not> conn_active e \<Longrightarrow> entry_snapshot (finish_stamp now e) = stamp_closed now (entry_snapshot e)"
  by (simp_all add: entry_snapshot_def add_bytes_def add_up_def add_down_def count_bytes_def
      finish_def finish_swap_def finish_stamp_def close_conn_def stamp_closed_def mark_closed_def
      u64_gt_zero)

lemma snapshot_fields [simp]:
  "info_id (entry_snapshot e) = conn_id e" "info_active (entry_snapshot e) = conn_active e"
  "info_closed_at (entry_snapshot e) = conn_closed_at e"
  by (simp_all add: entry_snapshot_def)

lemma fst_view [simp]: "fst (view r) = next_id r"
  by (simp add: view_def)

lemma view_prune:
  "view (prune_locked now r) = (next_id r, spec_prune (max_entries r) now (snd (view r)))"
  using evict_map [of "\<lambda>a. entry_snapshot (heap r ! a)" "\<lambda>c. \<not> info_active c" "max_entries r"
      "filter (\<lambda>a. \<not> expired now (conn_closed_at (heap r ! a))) (entries r)"]
  by (simp add: view_def prune_locked_def Let_def spec_prune_def filter_map comp_def)

text \<open>Below \<open>2 ^ 64\<close> registrations the numbers are distinct.\<close>

lemma conn_id_eq:
  assumes "conn_inv r" "length (heap r) < 2 ^ 64 - 1" "a < length (heap r)"
  shows "conn_id (heap r ! a) = of_nat b \<longleftrightarrow> b mod 2 ^ 64 = Suc a"
proof -
  have "conn_id (heap r ! a) = of_nat (Suc a)" using assms by (simp add: conn_inv_def)
  moreover have "Suc a mod 2 ^ 64 = Suc a" using assms(2,3) by simp
  ultimately show ?thesis
    using word_unat_eq_iff [of "of_nat (Suc a) :: u64" "of_nat b"]
    by (auto simp: unat_of_nat simp del: of_nat_Suc)
qed

lemma view_with_entry:
  assumes inv: "conn_inv r" and room: "length (heap r) < 2 ^ 64 - 1" and a: "a < length (heap r)"
    and f: "entry_snapshot (f (heap r ! a)) = g (entry_snapshot (heap r ! a))"
  shows "view (with_entry a f r) = (next_id r, on_id (of_nat (Suc a)) g (snd (view r)))"
proof -
  have "entry_snapshot ((heap r)[a := f (heap r ! a)] ! b) =
      (if conn_id (heap r ! b) = of_nat (Suc a) then g (entry_snapshot (heap r ! b))
       else entry_snapshot (heap r ! b))" if "b \<in> set (entries r)" for b
  proof -
    have b: "b < length (heap r)" using that inv by (simp add: conn_inv_def)
    have "Suc a mod 2 ^ 64 = Suc a" using a room by simp
    with conn_id_eq [OF inv room b, of "Suc a"] show ?thesis
      using f a by (auto simp: nth_list_update)
  qed
  then show ?thesis by (simp add: view_def with_entry_def on_id_def)
qed

lemma given_out:
  assumes "conn_inv r" "length (heap r) < 2 ^ 64 - 1"
  shows "Suc a < unat (next_id r) \<longleftrightarrow> a < length (heap r)"
proof -
  have "unat (next_id r) = Suc (length (heap r))"
    using assms by (simp add: conn_inv_def unat_of_nat del: of_nat_Suc)
  then show ?thesis by simp
qed

lemma view_handle:
  assumes "conn_inv r" "length (heap r) < 2 ^ 64 - 1"
    "a < length (heap r) \<Longrightarrow> entry_snapshot (f (heap r ! a)) = g (entry_snapshot (heap r ! a))"
  shows "view (with_entry a f r) = on_handle a g (view r)"
  using view_with_entry [of r a f g] given_out [of r a] assms
  by (cases "a < length (heap r)") (auto simp: on_handle_def with_entry_def list_update_beyond)

lemma view_find:
  assumes inv: "conn_inv r" and room: "length (heap r) < 2 ^ 64 - 1"
    and f: "\<And>e. entry_snapshot (f e) = g (entry_snapshot e)"
  shows "view (case find_entry i r of Some a \<Rightarrow> with_entry a f r | None \<Rightarrow> r) =
    (next_id r, on_id i g (snd (view r)))"
proof (cases "find_entry i r")
  case None
  then have "\<forall>a\<in>set (entries r). conn_id (heap r ! a) \<noteq> i"
    by (simp add: find_entry_def find_None_iff)
  then have "on_id i g (snd (view r)) = snd (view r)"
    by (simp add: on_id_def view_def)
  with None show ?thesis by (simp add: view_def)
next
  case (Some a)
  then obtain k where k: "k < length (entries r)" "entries r ! k = a" "conn_id (heap r ! a) = i"
    by (auto simp: find_entry_def find_Some_iff)
  then have a: "a < length (heap r)" using inv by (auto simp: conn_inv_def)
  moreover have "i = of_nat (Suc a)" using k(3) a inv by (simp add: conn_inv_def)
  ultimately show ?thesis using view_with_entry [OF inv room a, of f g] f Some by simp
qed

lemma view_step:
  assumes inv: "conn_inv r" and room: "length (heap r) < 2 ^ 64 - 1"
  shows "view (conn_step op r) = spec_step (max_entries r) op (view r)"
proof (cases op)
  case (Register now t n)
  have eq: "map (\<lambda>a. entry_snapshot ((heap r @ [e]) ! a)) (entries r) =
      map (\<lambda>a. entry_snapshot (heap r ! a)) (entries r)" for e
    using inv by (simp add: conn_inv_def nth_append)
  show ?thesis
    by (simp add: Register register_def Let_def view_prune)
      (simp add: view_def eq del: map_eq_conv, simp add: entry_snapshot_def)
next
  case (FinishStamp now a)
  show ?thesis
  proof (cases "a < length (heap r) \<and> conn_active (heap r ! a)")
    case True
    have "view (with_entry a (\<lambda>e. e) r) = on_handle a (stamp_closed now) (view r)"
      using True by (intro view_handle [OF inv room]) (simp add: stamp_closed_def)
    then show ?thesis using True by (simp add: FinishStamp with_entry_def)
  next
    case False
    have "view (with_entry a (finish_stamp now) r) = on_handle a (stamp_closed now) (view r)"
      using False by (intro view_handle [OF inv room]) (simp add: snapshot_ops)
    then show ?thesis using False
      by (cases "a < length (heap r)") (auto simp: FinishStamp with_entry_def list_update_beyond)
  qed
qed (simp_all add: view_handle [OF inv room] view_find [OF inv room] snapshot_ops snapshot_def
    Let_def view_prune update_bytes_def finish_id_def, simp_all add: clear_def view_def)

lemma heap_step: "length (heap (conn_step op r)) \<le> Suc (length (heap r)) \<and>
    max_entries (conn_step op r) = max_entries r"
  by (cases op) (auto simp: register_def Let_def with_entry_def update_bytes_def finish_id_def
      snapshot_def clear_def split: option.split)

lemma heap_run: "length (heap (fold conn_step ops r)) \<le> length (heap r) + length ops \<and>
    max_entries (fold conn_step ops r) = max_entries r"
proof (induction ops arbitrary: r)
  case (Cons op ops)
  from Cons.IH [of "conn_step op r"] heap_step [of op r] show ?case by simp
qed simp


section \<open>Properties\<close>

text \<open>
  C10: the registry refines the abstract one: whatever the relay tasks, the page and a restart do
  through handles or numbers, and also between the two halves of \<open>finish\<close>, what the page
  shows is what the list of values under the abstract operations is. Counting on a connection
  that was evicted changes nothing that is shown.
\<close>

theorem registry_refines:
  assumes "length ops < 2 ^ 64 - 1"
  shows "view (fold conn_step ops (with_limit n)) = fold (spec_step n) ops (1, [])"
  using assms
proof (induction ops rule: rev_induct)
  case Nil
  show ?case by (simp add: view_def with_limit_def)
next
  case (snoc op ops)
  let ?r = "fold conn_step ops (with_limit n)"
  have "length (heap ?r) < 2 ^ 64 - 1" "max_entries ?r = n"
    using heap_run [of ops "with_limit n"] snoc.prems by (auto simp: with_limit_def)
  with snoc view_step [OF conn.inv_run [of ops n], of op] show ?case by simp
qed

theorem registry_refines_witness:
  "view (fold conn_step [Register 0 ''a'' (SockV4 1 1), AddBytes 0 5 7, Register 5 ''b'' (SockV4 2 2),
      AddBytes 0 1 1] (with_limit 1)) =
   fold (spec_step 1) [Register 0 ''a'' (SockV4 1 1), AddBytes 0 5 7, Register 5 ''b'' (SockV4 2 2),
      AddBytes 0 1 1] (1, [])"
  by (rule registry_refines) simp

text \<open>
  the table never holds more than its limit, each connection once and in the order of
  registration, and a connection that is still active has no closing time.
\<close>

theorem registry_invariant:
  "conn_inv (fold conn_step ops (with_limit n)) \<and>
   max_entries (fold conn_step ops (with_limit n)) = n"
  using conn.inv_run [of ops n] heap_run [of ops "with_limit n"] by (simp add: with_limit_def)

text \<open>
  C28: pruning ends, and leaves the entries whose closing is less than a minute old, less as many
  of the oldest closed ones as are too many, less as many of the oldest active ones as are
  still too many: an active entry goes only when no closed one is left.
\<close>

theorem prune_correct:
  "entries (prune_locked now r) =
     (let live = filter (\<lambda>a. \<not> expired now (conn_closed_at (heap r ! a))) (entries r);
          k = length live - max_entries r;
          c = length (filter (\<lambda>a. \<not> conn_active (heap r ! a)) live)
      in drop (k - c) (drop_some (\<lambda>a. \<not> conn_active (heap r ! a)) k live)) \<and>
   length (entries (prune_locked now r)) = min (max_entries r)
     (length (filter (\<lambda>a. \<not> expired now (conn_closed_at (heap r ! a))) (entries r)))"
  by (simp add: prune_locked_def Let_def evict_length) (simp add: evict_eq_ref evict_ref_def Let_def)

end
