(* ===== verification/Socks5.thy ===== *)
theory Socks5
  imports ProxyInput
begin

text \<open>
  The SOCKS5 side of the proxy, \<open>ProxyServer::handle_socks5\<close> of
  \<open>hydra-core/src/proxy.rs\<close>: method negotiation, the request, the reply, and the early data
  of the application that the relay is started with. How the target is reached is the
  argument \<open>dial\<close> of \<open>handle_socks5\<close>; the theory of the proxy server instantiates it.
\<close>

abbreviation general_failure :: "byte list" where
  "general_failure \<equiv> [0x05, 0x01, 0x00, 0x01, 0, 0, 0, 0, 0, 0]"

text \<open>A read whose failure is answered and ends the request.\<close>

definition socks_read :: "nat \<Rightarrow> byte list \<Rightarrow> hydra_error \<Rightarrow> client \<Rightarrow> byte list res \<times> client" where
  "socks_read n reply e c =
    (case read_exact_socks n c of
       (Got b, c') \<Rightarrow> (Inr b, c')
     | (_, c') \<Rightarrow> refuse reply e c')"

definition socks_greeting :: "client \<Rightarrow> unit res \<times> client" where
  "socks_greeting =
    and_then (socks_read 2 [0x05, 0xFF] (ProtocolError ''greeting'')) (\<lambda>g.
      if g ! 0 \<noteq> 0x05 then refuse [0x05, 0xFF] (ProtocolError ''greeting'')
      else if g ! 1 = 0 then refuse [0x05, 0xFF] (ProtocolError ''greeting'')
      else and_then (socks_read (unat (g ! 1)) [0x05, 0xFF] (ProtocolError ''greeting'')) (\<lambda>methods.
        if 0x00 \<notin> set methods then refuse [0x05, 0xFF] (ProtocolError ''no acceptable method'')
        else send_client [0x05, 0x00]))"

definition socks_ipv4 :: "client \<Rightarrow> string res \<times> client" where
  "socks_ipv4 =
    and_then (socks_read 6 general_failure (ProtocolError ''IPv4 address'')) (\<lambda>b.
      give (Inr (show_ipv4 (v4_of_octets (take 4 b)) @ '':'' @ show_nat (unat (be_u16 (drop 4 b))))))"

definition socks_domain :: "client \<Rightarrow> string res \<times> client" where
  "socks_domain =
    and_then (socks_read 1 general_failure (ProtocolError ''domain name'')) (\<lambda>l.
      let n = unat (l ! 0) in
      if n = 0 then refuse general_failure (ProtocolError ''domain name length'')
      else and_then (socks_read (n + 2) general_failure (ProtocolError ''domain name length'')) (\<lambda>b.
        give (Inr (from_utf8_lossy (take n b) @ '':'' @ show_nat (unat (be_u16 (drop n b)))))))"

definition socks_ipv6 :: "client \<Rightarrow> string res \<times> client" where
  "socks_ipv6 =
    and_then (socks_read 18 general_failure (ProtocolError ''IPv6 address length'')) (\<lambda>b.
      give (Inr (''['' @ show_ipv6 (v6_of_octets (take 16 b)) @ '']:'' @
        show_nat (unat (be_u16 (drop 16 b))))))"

definition socks_request :: "client \<Rightarrow> string res \<times> client" where
  "socks_request =
    and_then (socks_read 4 general_failure (ProtocolError ''request'')) (\<lambda>h.
      if h ! 0 \<noteq> 0x05 then refuse general_failure (ProtocolError ''request'')
      else if h ! 1 \<noteq> 0x01 then
        and_then (send_client [0x05, 0x07, 0x00, 0x01, 0, 0, 0, 0, 0, 0])
          (\<lambda>_. give (Inl (ProtocolError ''command'')))
      else if h ! 3 = 0x01 then socks_ipv4
      else if h ! 3 = 0x03 then socks_domain
      else if h ! 3 = 0x04 then socks_ipv6
      else and_then (send_client [0x05, 0x08, 0x00, 0x01, 0, 0, 0, 0, 0, 0])
             (\<lambda>_. give (Inl (ProtocolError ''address type''))))"

definition socks_negotiate :: "client \<Rightarrow> string res \<times> client" where
  "socks_negotiate = and_then socks_greeting (\<lambda>_. socks_request)"

text \<open>The whole handler up to the relay, which gets the link, the target and the early data.
  \<open>st\<close> is the state of the rest of the client.\<close>

definition handle_socks5 ::
  "(string \<Rightarrow> 's \<Rightarrow> 'l res \<times> 's) \<Rightarrow> client \<Rightarrow> 's \<Rightarrow> ('l \<times> string \<times> byte list) res \<times> client \<times> 's" where
  "handle_socks5 dial c st =
    (case socks_negotiate c of
       (Inl e, c') \<Rightarrow> (Inl e, c', st)
     | (Inr target, c') \<Rightarrow>
         (case dial target st of
            (Inl e, st') \<Rightarrow>
              (case send_client general_failure c' of
                 (Inl w, c'') \<Rightarrow> (Inl w, c'', st')
               | (Inr _, c'') \<Rightarrow> (Inl e, c'', st'))
          | (Inr link, st') \<Rightarrow>
              (case send_client [0x05, 0x00, 0x00, 0x01, 0, 0, 0, 0, 0, 0] c' of
                 (Inl w, c'') \<Rightarrow> (Inl w, c'', st')
               | (Inr _, c'') \<Rightarrow> (Inr (link, target, pending c''), c'', st'))))"

section \<open>The wire format\<close>

text \<open>What a client sends that asks for a connection, and the target string it stands for.\<close>

datatype socks_addr = AddrV4 u32 | AddrDomain "byte list" | AddrV6 u128

fun socks_wire_addr :: "socks_addr \<Rightarrow> byte list" where
  "socks_wire_addr (AddrV4 a) = 0x01 # v4_octets a"
| "socks_wire_addr (AddrDomain d) = 0x03 # of_nat (length d) # d"
| "socks_wire_addr (AddrV6 a) = 0x04 # v6_octets a"

definition socks_wire :: "byte list \<Rightarrow> byte \<Rightarrow> socks_addr \<Rightarrow> u16 \<Rightarrow> byte list" where
  "socks_wire methods rsv a port = 0x05 # of_nat (length methods) # methods @
     0x05 # 0x01 # rsv # socks_wire_addr a @ u16_be port"

fun socks_host :: "socks_addr \<Rightarrow> string" where
  "socks_host (AddrV4 a) = show_ipv4 a"
| "socks_host (AddrDomain d) = from_utf8_lossy d"
| "socks_host (AddrV6 a) = ''['' @ show_ipv6 a @ '']''"

definition socks_target :: "socks_addr \<Rightarrow> u16 \<Rightarrow> string" where
  "socks_target a port = socks_host a @ '':'' @ show_nat (unat port)"

definition socks_wf :: "byte list \<Rightarrow> socks_addr \<Rightarrow> bool" where
  "socks_wf methods a \<longleftrightarrow> length methods < 256 \<and> 0 \<in> set methods \<and>
    (case a of AddrDomain d \<Rightarrow> d \<noteq> [] \<and> length d < 256 | _ \<Rightarrow> True)"

section \<open>Reading with refusal\<close>

lemma send_client_Inr [simp]:
  "send_client bs c = (Inr u, c') \<longleftrightarrow> writable c \<and> c' = c \<lparr> outbox := outbox c @ bs \<rparr>"
  by (auto simp: send_client_def)

lemma socks_read_Inr:
  "socks_read n reply e c = (Inr b, c') \<Longrightarrow> unread c = b @ unread c' \<and> length b = n \<and>
    outbox c' = outbox c \<and> writable c' = writable c"
  by (auto simp: socks_read_def split: prod.splits timed.splits
      dest: read_exact_socks_unread read_exact_socks_keeps)

lemma socks_read_timely:
  assumes "timely c" "unread c = b @ r" "length b = n"
  shows "\<exists>c'. socks_read n reply e c = (Inr b, c') \<and> timely c' \<and> unread c' = r \<and>
    writable c' = writable c \<and> outbox c' = outbox c"
  using read_exact_socks_timely [of c n] assms by (auto simp: socks_read_def)

lemma unread_outbox [simp]: "unread (c \<lparr> outbox := x \<rparr>) = unread c" "timely (c \<lparr> outbox := x \<rparr>) = timely c"
  by (simp_all add: unread_def timely_def)

lemma list_of_2: "length b = 2 \<Longrightarrow> b = [b ! 0, b ! 1]"
  by (auto simp: length_Suc_conv numeral_2_eq_2)

lemma list_of_4: "length b = 4 \<Longrightarrow> b = [b ! 0, b ! 1, b ! 2, b ! 3]"
  by (auto simp: length_Suc_conv eval_nat_numeral)

lemma socks_greeting_sound:
  assumes "socks_greeting c = (Inr u, c')"
  shows "\<exists>ms. length ms < 256 \<and> 0 \<in> set ms \<and> unread c = 0x05 # of_nat (length ms) # ms @ unread c' \<and>
    writable c' \<and> outbox c' = outbox c @ [0x05, 0x00]"
proof -
  from assms obtain g c1 ms c2 where g: "socks_read 2 [0x05, 0xFF] (ProtocolError ''greeting'') c = (Inr g, c1)"
    "g ! 0 = 0x05" "socks_read (unat (g ! 1)) [0x05, 0xFF] (ProtocolError ''greeting'') c1 = (Inr ms, c2)"
    "0x00 \<in> set ms" "writable c2" "c' = c2 \<lparr> outbox := outbox c2 @ [0x05, 0x00] \<rparr>"
    by (auto simp: socks_greeting_def and_then_Inr split: if_splits)
  note r1 = socks_read_Inr [OF g(1)] and r2 = socks_read_Inr [OF g(3)]
  have "g = [0x05, of_nat (length ms)]"
    using list_of_2 [of g] r1 r2 g(2) by simp
  moreover have "length ms < 256" using r2 by simp
  ultimately show ?thesis using r1 r2 g(4,5,6) by (intro exI [of _ ms]) simp
qed

lemma socks_ipv4_sound:
  assumes "socks_ipv4 c = (Inr t, c')"
  shows "\<exists>a port. unread c = v4_octets a @ u16_be port @ unread c' \<and>
    t = socks_target (AddrV4 a) port \<and> outbox c' = outbox c \<and> writable c' = writable c"
proof -
  from assms obtain b where b: "socks_read 6 general_failure (ProtocolError ''IPv4 address'') c = (Inr b, c')"
    "t = show_ipv4 (v4_of_octets (take 4 b)) @ '':'' @ show_nat (unat (be_u16 (drop 4 b)))"
    by (auto simp: socks_ipv4_def and_then_Inr)
  note r = socks_read_Inr [OF b(1)]
  have "v4_octets (v4_of_octets (take 4 b)) @ u16_be (be_u16 (drop 4 b)) = b"
    using r by (simp add: v4_octets_of_octets u16_be_be_u16)
  then show ?thesis using r b(2)
    by (intro exI [of _ "v4_of_octets (take 4 b)"] exI [of _ "be_u16 (drop 4 b)"])
      (simp add: socks_target_def flip: append_assoc)
qed

lemma socks_ipv6_sound:
  assumes "socks_ipv6 c = (Inr t, c')"
  shows "\<exists>a port. unread c = v6_octets a @ u16_be port @ unread c' \<and>
    t = socks_target (AddrV6 a) port \<and> outbox c' = outbox c \<and> writable c' = writable c"
proof -
  from assms obtain b where b: "socks_read 18 general_failure (ProtocolError ''IPv6 address length'') c = (Inr b, c')"
    "t = ''['' @ show_ipv6 (v6_of_octets (take 16 b)) @ '']:'' @ show_nat (unat (be_u16 (drop 16 b)))"
    by (auto simp: socks_ipv6_def and_then_Inr)
  note r = socks_read_Inr [OF b(1)]
  have "v6_octets (v6_of_octets (take 16 b)) @ u16_be (be_u16 (drop 16 b)) = b"
    using r by (simp add: v6_octets_of_octets u16_be_be_u16)
  then show ?thesis using r b(2)
    by (intro exI [of _ "v6_of_octets (take 16 b)"] exI [of _ "be_u16 (drop 16 b)"])
      (simp add: socks_target_def flip: append_assoc)
qed

lemma socks_domain_sound:
  assumes "socks_domain c = (Inr t, c')"
  shows "\<exists>d port. d \<noteq> [] \<and> length d < 256 \<and> unread c = of_nat (length d) # d @ u16_be port @ unread c' \<and>
    t = socks_target (AddrDomain d) port \<and> outbox c' = outbox c \<and> writable c' = writable c"
proof -
  from assms obtain l c1 b where b:
    "socks_read 1 general_failure (ProtocolError ''domain name'') c = (Inr l, c1)" "unat (l ! 0) \<noteq> 0"
    "socks_read (unat (l ! 0) + 2) general_failure (ProtocolError ''domain name length'') c1 = (Inr b, c')"
    "t = from_utf8_lossy (take (unat (l ! 0)) b) @ '':'' @ show_nat (unat (be_u16 (drop (unat (l ! 0)) b)))"
    by (auto simp: socks_domain_def and_then_Inr Let_def split: if_splits)
  note r1 = socks_read_Inr [OF b(1)] and r2 = socks_read_Inr [OF b(3)]
  let ?d = "take (unat (l ! 0)) b" and ?p = "be_u16 (drop (unat (l ! 0)) b)"
  have d: "length ?d = unat (l ! 0)" using r2 by simp
  then have "l = [of_nat (length ?d)]" using r1 by (auto simp: length_Suc_conv)
  moreover have "?d @ u16_be ?p = b" using r2 by (simp add: u16_be_be_u16)
  moreover have "?d \<noteq> []" "length ?d < 256" using d b(2) by auto
  ultimately show ?thesis using r1 r2 b(4)
    by (intro exI [of _ ?d] exI [of _ ?p]) (simp add: socks_target_def flip: append_assoc)
qed

lemma socks_request_sound:
  assumes "socks_request c = (Inr t, c')"
  shows "\<exists>rsv a port. socks_wf [0] a \<and> t = socks_target a port \<and> outbox c' = outbox c \<and>
    unread c = 0x05 # 0x01 # rsv # socks_wire_addr a @ u16_be port @ unread c'"
proof -
  from assms obtain h c1 where h: "socks_read 4 general_failure (ProtocolError ''request'') c = (Inr h, c1)"
    "h ! 0 = 0x05" "h ! 1 = 0x01"
    and k: "h ! 3 = 0x01 \<and> socks_ipv4 c1 = (Inr t, c') \<or> h ! 3 = 0x03 \<and> socks_domain c1 = (Inr t, c') \<or>
      h ! 3 = 0x04 \<and> socks_ipv6 c1 = (Inr t, c')"
    by (auto simp: socks_request_def and_then_Inr split: if_splits)
  note r = socks_read_Inr [OF h(1)]
  have hs: "h = [0x05, 0x01, h ! 2, h ! 3]" using list_of_4 [of h] r h by simp
  then have u: "unread c = 0x05 # 0x01 # h ! 2 # h ! 3 # unread c1" using r by (metis append_Cons append_Nil)
  from k show ?thesis
  proof (elim disjE conjE)
    assume a: "h ! 3 = 0x01" "socks_ipv4 c1 = (Inr t, c')"
    from socks_ipv4_sound [OF a(2)] obtain x port where "unread c1 = v4_octets x @ u16_be port @ unread c'"
      "t = socks_target (AddrV4 x) port" "outbox c' = outbox c1" by blast
    then show ?thesis using u r a(1)
      by (intro exI [of _ "h ! 2"] exI [of _ "AddrV4 x"] exI [of _ port]) (simp add: socks_wf_def)
  next
    assume a: "h ! 3 = 0x03" "socks_domain c1 = (Inr t, c')"
    from socks_domain_sound [OF a(2)] obtain d port where "d \<noteq> []" "length d < 256"
      "unread c1 = of_nat (length d) # d @ u16_be port @ unread c'"
      "t = socks_target (AddrDomain d) port" "outbox c' = outbox c1" by blast
    then show ?thesis using u r a(1)
      by (intro exI [of _ "h ! 2"] exI [of _ "AddrDomain d"] exI [of _ port]) (simp add: socks_wf_def)
  next
    assume a: "h ! 3 = 0x04" "socks_ipv6 c1 = (Inr t, c')"
    from socks_ipv6_sound [OF a(2)] obtain x port where "unread c1 = v6_octets x @ u16_be port @ unread c'"
      "t = socks_target (AddrV6 x) port" "outbox c' = outbox c1" by blast
    then show ?thesis using u r a(1)
      by (intro exI [of _ "h ! 2"] exI [of _ "AddrV6 x"] exI [of _ port]) (simp add: socks_wf_def)
  qed
qed

lemma socks_greeting_complete:
  assumes "timely c" "writable c" "unread c = 0x05 # of_nat (length ms) # ms @ r"
    "length ms < 256" "0 \<in> set ms"
  shows "\<exists>c'. socks_greeting c = (Inr (), c') \<and> timely c' \<and> unread c' = r \<and> writable c' \<and>
    outbox c' = outbox c @ [0x05, 0x00]"
proof -
  obtain c1 where c1: "socks_read 2 [0x05, 0xFF] (ProtocolError ''greeting'') c =
      (Inr [0x05, of_nat (length ms)], c1)" "timely c1" "unread c1 = ms @ r" "writable c1" "outbox c1 = outbox c"
    using socks_read_timely [of c "[0x05, of_nat (length ms)]" "ms @ r" 2 "[0x05, 0xFF]"
        "ProtocolError ''greeting''"] assms by auto
  have n: "unat (of_nat (length ms) :: byte) = length ms" using assms(4) by (simp add: unat_of_nat)
  moreover have "length ms \<noteq> 0" using assms(5) by auto
  ultimately have nz: "(of_nat (length ms) :: byte) \<noteq> 0" by (metis unat_0)
  obtain c2 where c2: "socks_read (length ms) [0x05, 0xFF] (ProtocolError ''greeting'') c1 = (Inr ms, c2)"
    "timely c2" "unread c2 = r" "writable c2" "outbox c2 = outbox c1"
    using socks_read_timely [of c1 ms r "length ms" "[0x05, 0xFF]" "ProtocolError ''greeting''"] c1 by auto
  show ?thesis using c1 c2 n nz assms(5)
    by (simp add: socks_greeting_def and_then_def send_client_def)
qed

lemma socks_addr_complete:
  assumes "timely c" "socks_wf [0] a" "unread c = tl (socks_wire_addr a) @ u16_be port @ r"
  shows "\<exists>c'. (case a of AddrV4 _ \<Rightarrow> socks_ipv4 | AddrDomain _ \<Rightarrow> socks_domain | AddrV6 _ \<Rightarrow> socks_ipv6) c =
    (Inr (socks_target a port), c') \<and> timely c' \<and> unread c' = r \<and> writable c' = writable c \<and>
    outbox c' = outbox c"
proof (cases a)
  case (AddrV4 x)
  then obtain c1 where "socks_read 6 general_failure (ProtocolError ''IPv4 address'') c =
      (Inr (v4_octets x @ u16_be port), c1)" "timely c1" "unread c1 = r" "writable c1 = writable c"
    "outbox c1 = outbox c"
    using socks_read_timely [of c "v4_octets x @ u16_be port" r 6 general_failure
        "ProtocolError ''IPv4 address''"] assms by auto
  then show ?thesis
    by (simp add: AddrV4 socks_ipv4_def and_then_def give_def socks_target_def)
next
  case (AddrV6 x)
  then obtain c1 where "socks_read 18 general_failure (ProtocolError ''IPv6 address length'') c =
      (Inr (v6_octets x @ u16_be port), c1)" "timely c1" "unread c1 = r" "writable c1 = writable c"
    "outbox c1 = outbox c"
    using socks_read_timely [of c "v6_octets x @ u16_be port" r 18 general_failure
        "ProtocolError ''IPv6 address length''"] assms by auto
  then show ?thesis
    by (simp add: AddrV6 socks_ipv6_def and_then_def give_def socks_target_def)
next
  case (AddrDomain d)
  then have d: "d \<noteq> []" "length d < 256" using assms(2) by (simp_all add: socks_wf_def)
  have n: "unat (of_nat (length d) :: byte) = length d" using d(2) by (simp add: unat_of_nat)
  obtain c1 where c1: "socks_read 1 general_failure (ProtocolError ''domain name'') c =
      (Inr [of_nat (length d)], c1)" "timely c1" "unread c1 = d @ u16_be port @ r"
      "writable c1 = writable c" "outbox c1 = outbox c"
    using socks_read_timely [of c "[of_nat (length d)]" "d @ u16_be port @ r" 1 general_failure
        "ProtocolError ''domain name''"] assms AddrDomain by auto
  obtain c2 where c2: "socks_read (length d + 2) general_failure (ProtocolError ''domain name length'') c1 =
      (Inr (d @ u16_be port), c2)" "timely c2" "unread c2 = r" "writable c2 = writable c1"
    "outbox c2 = outbox c1"
    using socks_read_timely [of c1 "d @ u16_be port" r "length d + 2" general_failure
        "ProtocolError ''domain name length''"] c1 by auto
  have "socks_domain c = (Inr (socks_target a port), c2)"
    using c1(1) c2(1) d(1) n
    by (simp add: AddrDomain socks_domain_def and_then_def give_def socks_target_def Let_def)
  with c1 c2 show ?thesis by (simp add: AddrDomain)
qed

lemma socks_request_complete:
  assumes "timely c" "socks_wf [0] a"
    "unread c = 0x05 # 0x01 # rsv # socks_wire_addr a @ u16_be port @ r"
  shows "\<exists>c'. socks_request c = (Inr (socks_target a port), c') \<and> unread c' = r \<and> outbox c' = outbox c"
proof -
  let ?t = "hd (socks_wire_addr a)"
  have w: "socks_wire_addr a = ?t # tl (socks_wire_addr a)" by (cases a) auto
  then have u: "unread c = [0x05, 0x01, rsv, ?t] @ (tl (socks_wire_addr a) @ u16_be port @ r)"
    using assms(3) by (metis append_Cons append_Nil)
  obtain c1 where c1: "socks_read 4 general_failure (ProtocolError ''request'') c =
      (Inr [0x05, 0x01, rsv, ?t], c1)" "timely c1" "unread c1 = tl (socks_wire_addr a) @ u16_be port @ r"
    "outbox c1 = outbox c"
    using socks_read_timely [OF assms(1) u, of 4 general_failure "ProtocolError ''request''"] by auto
  from socks_addr_complete [OF c1(2) assms(2) c1(3)] c1(1,4) show ?thesis
    by (cases a) (auto simp: socks_request_def and_then_def)
qed

text \<open>How long a step takes, in read timeouts, and what it writes: one of the replies \<open>rs\<close>
  when it fails, \<open>ok\<close> when it succeeds.\<close>

definition adds :: "nat \<Rightarrow> byte list list \<Rightarrow> byte list \<Rightarrow> ('a res \<times> client) \<Rightarrow> client \<Rightarrow> bool" where
  "adds d rs ok p c \<longleftrightarrow> clock c \<le> clock (snd p) \<and> clock (snd p) \<le> clock c + d * INITIAL_READ_TIMEOUT \<and>
    writable (snd p) = writable c \<and>
    (if writable c then
       (case fst p of Inl _ \<Rightarrow> \<exists>r\<in>set rs. outbox (snd p) = outbox c @ r
        | Inr _ \<Rightarrow> outbox (snd p) = outbox c @ ok)
     else outbox (snd p) = outbox c)"

lemma adds_refuse_later:
  assumes "outbox c' = outbox c" "writable c' = writable c" "clock c \<le> clock c'"
    "clock c' \<le> clock c + d * INITIAL_READ_TIMEOUT" "reply \<in> set rs"
  shows "adds d rs ok (refuse reply e c') c"
  using assms by (auto simp: adds_def refuse_def send_client_def)

lemma adds_read:
  assumes "reply \<in> set rs" shows "adds (Suc 0) rs [] (socks_read n reply e c) c"
proof -
  obtain x c' where r: "read_exact_socks n c = (x, c')" by fastforce
  note k = read_exact_socks_keeps [OF r]
  show ?thesis
  proof (cases x)
    case (Got b)
    then show ?thesis using k r by (simp add: adds_def socks_read_def)
  qed (use k r assms in \<open>simp_all add: socks_read_def adds_refuse_later\<close>)
qed

lemma adds_refuse: "reply \<in> set rs \<Longrightarrow> adds d rs ok (refuse reply e c) c"
  by (rule adds_refuse_later) simp_all

lemma adds_give: "adds d rs [] (give (Inr x) c) c"
  by (simp add: adds_def give_def)

lemma adds_send: "adds d rs bs (send_client bs c) c"
  by (simp add: adds_def send_client_def)

lemma adds_send_fail: "bs \<in> set rs \<Longrightarrow> adds d rs ok (and_then (send_client bs) (\<lambda>_. give (Inl e)) c) c"
  by (auto simp: adds_def send_client_def and_then_def give_def)

lemma adds_then:
  assumes m: "adds d rs ok (m c) c" and f: "\<And>x c'. adds d' rs' ok' (f x c') c'"
    and rs: "set rs \<subseteq> set rs''" "(@) ok ` set rs' \<subseteq> set rs''" and dd: "d'' = d + d'" and ok: "ok'' = ok @ ok'"
  shows "adds d'' rs'' ok'' (and_then m f c) c"
proof -
  obtain r c' where p: "m c = (r, c')" by fastforce
  show ?thesis
  proof (cases r)
    case (Inl e)
    have "outbox c' = outbox c @ r \<Longrightarrow> r \<in> set rs \<Longrightarrow> \<exists>r\<in>set rs''. outbox c' = outbox c @ r" for r
      using rs(1) by blast
    with m p Inl show ?thesis
      by (auto simp: adds_def and_then_def add_mult_distrib dd split: if_splits)
  next
    case (Inr x)
    from m p Inr have 1: "clock c \<le> clock c'" "clock c' \<le> clock c + d * INITIAL_READ_TIMEOUT"
      "writable c' = writable c" "outbox c' = (if writable c then outbox c @ ok else outbox c)"
      by (simp_all add: adds_def split: if_splits)
    obtain y e where y: "f x c' = (y, e)" by fastforce
    from f [of x c'] y have 2: "clock c' \<le> clock e" "clock e \<le> clock c' + d' * INITIAL_READ_TIMEOUT"
      "writable e = writable c'"
      "if writable c' then (case y of Inl _ \<Rightarrow> \<exists>r\<in>set rs'. outbox e = outbox c' @ r
        | Inr _ \<Rightarrow> outbox e = outbox c' @ ok') else outbox e = outbox c'"
      unfolding adds_def by (simp_all split: sum.splits if_splits)
    have "\<exists>r\<in>set rs''. outbox e = outbox c @ r"
      if "outbox c' = outbox c @ ok" "\<exists>r\<in>set rs'. outbox e = outbox c' @ r"
      using that rs(2) by (auto simp: image_subset_iff)
    with 1 2 show ?thesis using p Inr y
      by (auto simp: adds_def and_then_def add_mult_distrib dd ok split: sum.splits)
  qed
qed

lemma adds_greeting: "adds 2 [[0x05, 0xFF]] [0x05, 0x00] (socks_greeting c) c"
  unfolding socks_greeting_def
  by (rule adds_then [where d = "Suc 0" and d' = "Suc 0" and ok = "[]" and rs = "[[0x05, 0xFF]]" and rs' = "[[0x05, 0xFF]]"])
    (auto simp: adds_read adds_refuse adds_send
      intro!: adds_then [where d = "Suc 0" and d' = 0 and ok = "[]" and rs = "[[0x05, 0xFF]]" and rs' = "[[0x05, 0xFF]]"])

definition request_replies :: "byte list list" where
  "request_replies = [general_failure, [0x05, 0x07, 0x00, 0x01, 0, 0, 0, 0, 0, 0],
     [0x05, 0x08, 0x00, 0x01, 0, 0, 0, 0, 0, 0]]"

lemma request_replies_mem [simp]: "general_failure \<in> set request_replies"
  "[0x05, 0x07, 0x00, 0x01, 0, 0, 0, 0, 0, 0] \<in> set request_replies"
  "[0x05, 0x08, 0x00, 0x01, 0, 0, 0, 0, 0, 0] \<in> set request_replies"
  by (simp_all add: request_replies_def)

lemma adds_body:
  "adds 2 request_replies [] (socks_ipv4 c) c"
  "adds 2 request_replies [] (socks_ipv6 c) c"
  "adds 2 request_replies [] (socks_domain c) c"
proof -
  note then0 = adds_then [where ok = "[]" and ok' = "[]" and ok'' = "[]" and rs = request_replies
      and rs' = request_replies and rs'' = request_replies]
  show "adds 2 request_replies [] (socks_ipv4 c) c"
    unfolding socks_ipv4_def by (rule then0 [where d = "Suc 0" and d' = "Suc 0"]) (auto simp: adds_read adds_give)
  show "adds 2 request_replies [] (socks_ipv6 c) c"
    unfolding socks_ipv6_def by (rule then0 [where d = "Suc 0" and d' = "Suc 0"]) (auto simp: adds_read adds_give)
  have "adds (Suc 0) request_replies [] (and_then (socks_read n general_failure e) (\<lambda>b. give (Inr (g b))) c) c"
    for n e c and g :: "byte list \<Rightarrow> string"
    by (rule then0 [where d = "Suc 0" and d' = 0]) (auto simp: adds_read adds_give)
  then show "adds 2 request_replies [] (socks_domain c) c"
    unfolding socks_domain_def Let_def
    by (intro then0 [where d = "Suc 0" and d' = "Suc 0"]) (auto simp: adds_read adds_refuse)
qed

lemma adds_request: "adds 3 request_replies [] (socks_request c) c"
  unfolding socks_request_def
  by (rule adds_then [where d = "Suc 0" and d' = 2 and ok = "[]" and ok' = "[]" and rs = request_replies and rs' = request_replies])
    (auto simp: adds_read adds_refuse adds_body request_replies_mem intro!: adds_send_fail)

lemma adds_negotiate:
  "adds 5 ([0x05, 0xFF] # map ((@) [0x05, 0x00]) request_replies) [0x05, 0x00] (socks_negotiate c) c"
  unfolding socks_negotiate_def
  by (rule adds_then [OF adds_greeting adds_request]) auto

lemma handle_socks5_link:
  assumes "socks_negotiate c = (Inr t, c1)" "f t st = (d, st1)"
  shows "\<exists>r c'. handle_socks5 f c st = (r, c', st1) \<and>
    (\<forall>l t' e. r = Inr (l, t', e) \<longrightarrow> d = Inr l \<and> t' = t)"
  using assms by (cases d; cases "writable c1") (simp_all add: handle_socks5_def send_client_def)

lemma u16_be_443: "u16_be 443 = [0x01, 0xBB]"
  by code_simp

section \<open>Properties\<close>

text \<open>
  C17: when the application keeps to the time limit, it is accepted exactly when what it sends
  starts with a well-formed greeting that offers the method without authentication and a
  well-formed CONNECT request, however the bytes are cut into segments; the target is the
  one named, and every byte after the request is still there for the relay.
\<close>

theorem socks5_accepts_iff:
  assumes "timely c" "writable c"
  shows "(\<exists>c'. socks_negotiate c = (Inr t, c') \<and> unread c' = rest) \<longleftrightarrow>
    (\<exists>ms rsv a port. socks_wf ms a \<and> unread c = socks_wire ms rsv a port @ rest \<and>
      t = socks_target a port)"
proof
  assume "\<exists>c'. socks_negotiate c = (Inr t, c') \<and> unread c' = rest"
  then obtain c' u c1 where n: "socks_greeting c = (Inr u, c1)" "socks_request c1 = (Inr t, c')" "unread c' = rest"
    by (auto simp: socks_negotiate_def and_then_Inr)
  from socks_greeting_sound [OF n(1)] obtain ms where ms: "length ms < 256" "0 \<in> set ms"
    "unread c = 0x05 # of_nat (length ms) # ms @ unread c1" by blast
  from socks_request_sound [OF n(2)] obtain rsv a port where a: "socks_wf [0] a" "t = socks_target a port"
    "unread c1 = 0x05 # 0x01 # rsv # socks_wire_addr a @ u16_be port @ unread c'" by blast
  show "\<exists>ms rsv a port. socks_wf ms a \<and> unread c = socks_wire ms rsv a port @ rest \<and> t = socks_target a port"
    using ms a n(3) by (intro exI [of _ ms] exI [of _ rsv] exI [of _ a] exI [of _ port])
      (auto simp: socks_wire_def socks_wf_def)
next
  assume "\<exists>ms rsv a port. socks_wf ms a \<and> unread c = socks_wire ms rsv a port @ rest \<and> t = socks_target a port"
  then obtain ms rsv a port where a: "socks_wf ms a" "unread c = socks_wire ms rsv a port @ rest"
    "t = socks_target a port" by blast
  have u: "unread c = 0x05 # of_nat (length ms) # ms @
      (0x05 # 0x01 # rsv # socks_wire_addr a @ u16_be port @ rest)"
    using a(2) by (simp add: socks_wire_def)
  obtain c1 where c1: "socks_greeting c = (Inr (), c1)" "timely c1"
    "unread c1 = 0x05 # 0x01 # rsv # socks_wire_addr a @ u16_be port @ rest"
    using socks_greeting_complete [OF assms u] a(1) by (auto simp: socks_wf_def)
  have "socks_wf [0] a" using a(1) by (simp add: socks_wf_def)
  from socks_request_complete [OF c1(2) this c1(3)] c1(1) a(3)
  show "\<exists>c'. socks_negotiate c = (Inr t, c') \<and> unread c' = rest"
    by (auto simp: socks_negotiate_def and_then_def)
qed

theorem socks5_accepts_iff_witness:
  "let c = \<lparr> clock = 0, inbox = [(3, [0x00, 0x05, 0x01]), (9, [0x00, 0x03, 0x01]), (20, [0x61, 0x01, 0xBB, 0x16])],
         tail = None, writable = True, outbox = [], pending = [0x05, 0x01] \<rparr>
   in \<exists>c'. socks_negotiate c = (Inr (socks_target (AddrDomain [0x61]) 443), c') \<and> unread c' = [0x16]"
  unfolding Let_def
  by (rule socks5_accepts_iff [THEN iffD2])
    (simp add: timely_def INITIAL_READ_TIMEOUT_def, simp,
     rule exI [of _ "[0]"], rule exI [of _ 0], rule exI [of _ "AddrDomain [0x61]"], rule exI [of _ 443],
     simp add: socks_wf_def unread_def socks_wire_def u16_be_443)

text \<open>
  the application always gets an answer: a greeting is refused with FF, a request with one
  failure reply after the method was accepted, a target that cannot be reached with a
  general failure, and a reached target is announced once; the target is dialled only after
  a complete request, and the negotiation ends within five read timeouts.
\<close>

theorem socks5_replies:
  assumes "writable c"
  shows "case handle_socks5 dial c st of (r, c', st') \<Rightarrow>
    clock c' \<le> clock c + 5 * INITIAL_READ_TIMEOUT \<and>
    (case fst (socks_negotiate c) of
       Inl e \<Rightarrow> r = Inl e \<and> st' = st \<and>
         (\<exists>w\<in>set ([0x05, 0xFF] # map ((@) [0x05, 0x00]) request_replies). outbox c' = outbox c @ w)
     | Inr t \<Rightarrow> st' = snd (dial t st) \<and> is_ok r = is_ok (fst (dial t st)) \<and>
         outbox c' = outbox c @ [0x05, 0x00] @
           (if is_ok r then [0x05, 0x00, 0x00, 0x01, 0, 0, 0, 0, 0, 0] else general_failure))"
proof -
  obtain x c1 where n: "socks_negotiate c = (x, c1)" by fastforce
  have a: "clock c1 \<le> clock c + 5 * INITIAL_READ_TIMEOUT" "writable c1"
    "case x of Inl _ \<Rightarrow> \<exists>r\<in>set ([0x05, 0xFF] # map ((@) [0x05, 0x00]) request_replies). outbox c1 = outbox c @ r
     | Inr _ \<Rightarrow> outbox c1 = outbox c @ [0x05, 0x00]"
    using adds_negotiate [of c] assms n unfolding adds_def by (simp_all split: sum.splits)
  show ?thesis
  proof (cases x)
    case (Inl e)
    with a n show ?thesis by (simp add: handle_socks5_def)
  next
    case (Inr t)
    then show ?thesis using a n
      by (cases "dial t st"; cases "fst (dial t st)") (simp_all add: handle_socks5_def send_client_def)
  qed
qed

theorem socks5_replies_witness:
  "case handle_socks5 (\<lambda>t s. (Inr (), s)) \<lparr> clock = 0, inbox = [], tail = Some (5, Eof), writable = True,
      outbox = [], pending = [0x05, 0x01, 0x02] \<rparr> (0 :: nat) of (r, c', st') \<Rightarrow> clock c' \<le> 150000"
  using socks5_replies [where dial = "\<lambda>t s. (Inr (), s)" and st = "0 :: nat" and c = "\<lparr> clock = 0, inbox = [], tail = Some (5, Eof), writable = True,
      outbox = [], pending = [0x05, 0x01, 0x02] \<rparr>"]
  by (simp add: case_prod_unfold INITIAL_READ_TIMEOUT_def)

end
