(* ===== verification/Upstream.thy ===== *)
theory Upstream
  imports Pool Scheduler RoutingRules Socks5
begin

text \<open>
  How the client reaches a target, \<open>hydra-core/src/proxy.rs\<close>: the table of unreachable
  targets, the loop over the candidate nodes (\<open>open_target\<close>), the background refill of the
  warm pool, the decision for a direct connection and the direct connection itself
  (\<open>try_direct\<close>, with \<open>connect_tcp_protected\<close> of \<open>socket_protect.rs\<close>), and the two in
  the order every handler uses them. What the network answers and what other tasks do at
  an \<open>await\<close> (\<open>env\<close>) are arguments. Besides the result and the state, the functions
  return the steps they took.
\<close>

section \<open>Unreachable targets\<close>

definition TARGET_UNREACH_FAILOVER_THRESHOLD :: nat where "TARGET_UNREACH_FAILOVER_THRESHOLD = 3"
definition TARGET_UNREACH_TTL :: nat where "TARGET_UNREACH_TTL = 60 * 1000"
definition TARGET_UNREACH_MAX_ENTRIES :: nat where "TARGET_UNREACH_MAX_ENTRIES = 100000"

type_synonym unreach = "(string \<times> nat \<times> nat) list"

text \<open>The counter is a \<open>u32\<close> that saturates.\<close>

definition record_target_unreachable :: "nat \<Rightarrow> string \<Rightarrow> unreach \<Rightarrow> nat \<times> unreach" where
  "record_target_unreachable now target m =
    (let m = (if length m \<ge> TARGET_UNREACH_MAX_ENTRIES then
                (let m' = filter (\<lambda>(k, n, t). now - t < TARGET_UNREACH_TTL) m
                 in if length m' \<ge> TARGET_UNREACH_MAX_ENTRIES then [] else m')
              else m);
         (n, t) = (case map_of m target of Some e \<Rightarrow> e | None \<Rightarrow> (0, now));
         n = (if now - t \<ge> TARGET_UNREACH_TTL then 0 else n);
         n = min (n + 1) (2 ^ 32 - 1)
     in (n, AList.update target (n, now) m))"

definition clear_target_unreachable :: "string \<Rightarrow> unreach \<Rightarrow> unreach" where
  "clear_target_unreachable target m = AList.delete target m"

definition record_and_should_failover :: "nat \<Rightarrow> string \<Rightarrow> unreach \<Rightarrow> bool \<times> unreach" where
  "record_and_should_failover now target m =
    (case record_target_unreachable now target m of (n, m) \<Rightarrow>
       if n \<ge> TARGET_UNREACH_FAILOVER_THRESHOLD then (True, clear_target_unreachable target m)
       else (False, m))"

section \<open>The candidate loop\<close>

text \<open>What the connections of the process share, the credentials, and what the network
  does: \<open>ask\<close> is \<open>request_target_with_timeout\<close> on a warm connection, \<open>connect\<close> is
  \<open>connect_target\<close>, both at a time.\<close>

record 'w core =
  time :: nat
  sched :: scheduler
  warm :: "'w pool"
  unreach :: unreach
  routes :: route_cache

record creds =
  auth_key :: "byte list"
  node_keys :: "(sock_addr \<times> byte list) list"

record ('w, 'l) net =
  ask :: "nat \<Rightarrow> 'w \<Rightarrow> string \<Rightarrow> 'l res"
  connect :: "nat \<Rightarrow> sock_addr \<Rightarrow> byte list \<Rightarrow> string \<Rightarrow> 'l res"
  connect_channel :: "nat \<Rightarrow> sock_addr \<Rightarrow> byte list \<Rightarrow> 'w res"

datatype event =
    Warm sock_addr bool
  | Fresh sock_addr "byte list" "hydra_error option"
  | MarkOffline sock_addr
  | Refill sock_addr
  | DialDirect sock_addr bool

definition key_for :: "creds \<Rightarrow> sock_addr \<Rightarrow> byte list" where
  "key_for cr node = (case map_of (node_keys cr) node of Some k \<Rightarrow> k | None \<Rightarrow> auth_key cr)"

definition IDLE_CAP_PER_NODE :: nat where "IDLE_CAP_PER_NODE = IDLE_CAP_BASE"

definition replenish :: "sock_addr \<Rightarrow> 'w core \<Rightarrow> event list" where
  "replenish node s = (if idle_len node (warm s) \<ge> IDLE_CAP_PER_NODE then [] else [Refill node])"

text \<open>The task \<open>replenish\<close> spawns.\<close>

definition refill_task ::
  "('w, 'l) net \<Rightarrow> ('w core \<Rightarrow> 'w core) \<Rightarrow> creds \<Rightarrow> sock_addr \<Rightarrow> 'w core \<Rightarrow> 'w core" where
  "refill_task net env cr node s =
    (if idle_len node (warm s) \<ge> IDLE_CAP_PER_NODE then s
     else (let s1 = env s in
           case connect_channel net (time s1) node (key_for cr node) of
             Inl _ \<Rightarrow> s1
           | Inr ch \<Rightarrow> s1 \<lparr> warm := checkin (time s1) node ch (warm s1) \<rparr>))"

definition MAX_NODE_ATTEMPTS :: nat where "MAX_NODE_ATTEMPTS = 3"

definition forget_target :: "string \<Rightarrow> 'w core \<Rightarrow> 'w core" where
  "forget_target target s = s \<lparr> unreach := clear_target_unreachable target (unreach s) \<rparr>"

text \<open>The warm connection of a node, if there is one.\<close>

definition try_warm ::
  "('w, 'l) net \<Rightarrow> ('w core \<Rightarrow> 'w core) \<Rightarrow> string \<Rightarrow> sock_addr \<Rightarrow> 'w core \<Rightarrow> 'l option \<times> event list \<times> 'w core" where
  "try_warm net env target node s =
    (case checkout (time s) node (warm s) of
       (None, p) \<Rightarrow> (None, [], s \<lparr> warm := p \<rparr>)
     | (Some w, p) \<Rightarrow>
         (let s1 = env (s \<lparr> warm := p \<rparr>) in
          case ask net (time s1) w target of
            Inr l \<Rightarrow> (let s2 = forget_target target s1
                     in (Some l, Warm node True # replenish node s2, s2))
          | Inl _ \<Rightarrow> (None, [Warm node False], s1)))"

fun is_unreachable :: "hydra_error \<Rightarrow> bool" where
  "is_unreachable (TargetUnreachable _) = True"
| "is_unreachable _ = False"

fun is_protocol :: "hydra_error \<Rightarrow> bool" where
  "is_protocol (ProtocolError _) = True"
| "is_protocol _ = False"

fun try_nodes ::
  "('w, 'l) net \<Rightarrow> ('w core \<Rightarrow> 'w core) \<Rightarrow> creds \<Rightarrow> string \<Rightarrow> sock_addr list \<Rightarrow> hydra_error option \<Rightarrow> 'w core \<Rightarrow>
    ('l \<times> sock_addr) res \<times> event list \<times> 'w core" where
  "try_nodes net env cr target [] last_err s =
    (Inl (case last_err of Some e \<Rightarrow> e | None \<Rightarrow> ConnectionError ''All nodes failed''), [], s)"
| "try_nodes net env cr target (node # nodes) last_err s =
    (case try_warm net env target node s of
       (Some l, ev, s1) \<Rightarrow> (Inr (l, node), ev, s1)
     | (None, ev, s1) \<Rightarrow>
         (let s2 = env s1; key = key_for cr node in
          case connect net (time s2) node key target of
            Inr l \<Rightarrow>
              (let s3 = forget_target target s2
               in (Inr (l, node), ev @ Fresh node key None # replenish node s3, s3))
          | Inl e \<Rightarrow>
              (if is_unreachable e then
                 (case record_and_should_failover (time s2) target (unreach s2) of (again, m) \<Rightarrow>
                    let s3 = s2 \<lparr> unreach := m \<rparr> in
                    if again then
                      (case try_nodes net env cr target nodes (Some e) s3 of
                         (r, ev', s4) \<Rightarrow> (r, ev @ Fresh node key (Some e) # ev', s4))
                    else (Inl e, ev @ [Fresh node key (Some e)], s3))
               else if is_protocol e then (Inl e, ev @ [Fresh node key (Some e)], s2)
               else
                 (case try_nodes net env cr target nodes (Some e)
                         (s2 \<lparr> sched := mark_node_offline node (sched s2) \<rparr>) of
                    (r, ev', s4) \<Rightarrow> (r, ev @ Fresh node key (Some e) # MarkOffline node # ev', s4)))))"

definition open_target ::
  "('w, 'l) net \<Rightarrow> ('w core \<Rightarrow> 'w core) \<Rightarrow> creds \<Rightarrow> string \<Rightarrow> 'w core \<Rightarrow>
    ('l \<times> sock_addr) res \<times> event list \<times> 'w core" where
  "open_target net env cr target s =
    (let candidates = map address (get_nodes_by_priority (sched s)) in
     if candidates = [] then (Inl (ConnectionError ''No available nodes''), [], s)
     else try_nodes net env cr target (take MAX_NODE_ATTEMPTS candidates) None s)"

section \<open>Direct connections\<close>

definition DIRECT_CONNECT_TIMEOUT :: nat where "DIRECT_CONNECT_TIMEOUT = 3 * 1000"

definition engine_wants_direct :: "geo_tables \<Rightarrow> string list \<Rightarrow> rule_engine \<Rightarrow> string \<Rightarrow> bool" where
  "engine_wants_direct geo cn eng target =
    (case rsplit_once (CHR '':'') target of
       None \<Rightarrow> False
     | Some (h, p) \<Rightarrow>
         if h = [] then False
         else (case parse_u16 p of
                 None \<Rightarrow> False
               | Some port \<Rightarrow>
                   let host = trim_end_char (CHR '']'') (trim_start_char (CHR ''['') h) in
                   (case parse_ip host of
                      Some ip \<Rightarrow> decide geo eng (mk_sock ip port)
                    | None \<Rightarrow> decide_domain cn eng host port) = Direct))"

text \<open>The engine, when one is mounted, with its two tables; the environment variable and the
  file of \<open>routing.rs\<close> otherwise.\<close>

record config =
  engine :: "(geo_tables \<times> string list \<times> rule_engine) option"
  split_env :: "string option"
  domain_file :: "string option option"

definition should_direct :: "config \<Rightarrow> string \<Rightarrow> route_cache \<Rightarrow> bool \<times> route_cache" where
  "should_direct cfg target c =
    (case engine cfg of
       Some (geo, cn, eng) \<Rightarrow> (engine_wants_direct geo cn eng target, c)
     | None \<Rightarrow> is_direct_target (split_env cfg) (domain_file cfg) target c)"

text \<open>The system resolver and TCP, with the time each call takes, and the protection hook of
  Android, which is asked about every new socket.\<close>

record 'd local_net =
  lookup :: "string \<Rightarrow> nat \<times> sock_addr list option"
  dial :: "sock_addr \<Rightarrow> nat \<times> 'd res"
  hook :: "(sock_addr \<Rightarrow> bool) option"

definition protect_outbound_fd :: "'d local_net \<Rightarrow> sock_addr \<Rightarrow> bool" where
  "protect_outbound_fd loc a = (case hook loc of Some h \<Rightarrow> h a | None \<Rightarrow> True)"

definition connect_tcp_protected :: "'d local_net \<Rightarrow> sock_addr \<Rightarrow> nat \<times> 'd res" where
  "connect_tcp_protected loc a =
    (if protect_outbound_fd loc a then dial loc a else (0, Inl (IoError ''protect'')))"

text \<open>One address after the other until the time limit cuts the future off; \<open>TimedOut\<close> when
  it does.\<close>

fun dial_each ::
  "'d local_net \<Rightarrow> nat \<Rightarrow> sock_addr list \<Rightarrow> nat \<Rightarrow> 'd timed \<times> event list" where
  "dial_each loc limit [] t = (Failed, [])"
| "dial_each loc limit (a # as) t =
    (case connect_tcp_protected loc a of (d, r) \<Rightarrow>
       let ev = (if protect_outbound_fd loc a then [DialDirect a (is_ok r \<and> t + d \<le> limit)] else []) in
       if t + d > limit then (TimedOut, ev)
       else (case r of
               Inr tcp \<Rightarrow> (Got tcp, ev)
             | Inl _ \<Rightarrow> (case dial_each loc limit as (t + d) of (x, ev') \<Rightarrow> (x, ev @ ev'))))"

definition direct_connect_resolved :: "'d local_net \<Rightarrow> nat \<Rightarrow> string \<Rightarrow> 'd timed \<times> event list" where
  "direct_connect_resolved loc limit target =
    (case lookup loc target of (t, res) \<Rightarrow>
       if t > limit then (TimedOut, [])
       else (case res of
               None \<Rightarrow> (Failed, [])
             | Some addrs \<Rightarrow> if addrs = [] then (Failed, []) else dial_each loc limit addrs t))"

definition try_direct ::
  "config \<Rightarrow> 'd local_net \<Rightarrow> string \<Rightarrow> route_cache \<Rightarrow> 'd option \<times> event list \<times> route_cache" where
  "try_direct cfg loc target c =
    (case should_direct cfg target c of (should, c') \<Rightarrow>
       if \<not> should then (None, [], c')
       else (case direct_connect_resolved loc DIRECT_CONNECT_TIMEOUT target of
               (Got tcp, ev) \<Rightarrow> (Some tcp, ev, c')
             | (_, ev) \<Rightarrow> (None, ev, c')))"

text \<open>What a handler does for a target: \<open>RemoteLink::Direct\<close> or \<open>RemoteLink::Node\<close>.\<close>

datatype ('l, 'd) remote = NodeLink 'l sock_addr | DirectLink 'd

definition reach_target ::
  "config \<Rightarrow> 'd local_net \<Rightarrow> ('w, 'l) net \<Rightarrow> ('w core \<Rightarrow> 'w core) \<Rightarrow> creds \<Rightarrow> string \<Rightarrow> 'w core \<Rightarrow>
    ('l, 'd) remote res \<times> event list \<times> 'w core" where
  "reach_target cfg loc net env cr target s =
    (case try_direct cfg loc target (routes s) of
       (Some tcp, ev, c) \<Rightarrow> (Inr (DirectLink tcp), ev, env (s \<lparr> routes := c \<rparr>))
     | (None, ev, c) \<Rightarrow>
         (case open_target net env cr target (env (s \<lparr> routes := c \<rparr>)) of
            (Inl e, ev', s') \<Rightarrow> (Inl e, ev @ ev', s')
          | (Inr (l, n), ev', s') \<Rightarrow> (Inr (NodeLink l n), ev @ ev', s')))"

text \<open>The SOCKS5 handler on top of it, with the steps taken collected beside the state.\<close>

definition dial_target ::
  "config \<Rightarrow> 'd local_net \<Rightarrow> ('w, 'l) net \<Rightarrow> ('w core \<Rightarrow> 'w core) \<Rightarrow> creds \<Rightarrow> string \<Rightarrow>
    event list \<times> 'w core \<Rightarrow> ('l, 'd) remote res \<times> event list \<times> 'w core" where
  "dial_target cfg loc net env cr target st =
    (case reach_target cfg loc net env cr target (snd st) of (r, ev, s) \<Rightarrow> (r, fst st @ ev, s))"

section \<open>TUN: the rule-based opener\<close>

definition v6_unique_local :: "u128 \<Rightarrow> bool" where
  "v6_unique_local a \<longleftrightarrow> (v6_segments a ! 0) AND 0xfe00 = 0xfc00"

definition v6_unicast_link_local :: "u128 \<Rightarrow> bool" where
  "v6_unicast_link_local a \<longleftrightarrow> (v6_segments a ! 0) AND 0xffc0 = 0xfe80"

definition is_local :: "ip_addr \<Rightarrow> bool" where
  "is_local ip =
    (case ip of
       IpV4 v4 \<Rightarrow> v4_is_loopback v4 \<or> v4_is_private v4 \<or> v4_is_link_local v4
     | IpV6 v6 \<Rightarrow> v6_is_loopback v6 \<or> v6_unique_local v6 \<or> v6_unicast_link_local v6)"

text \<open>\<open>tun_direct_connect\<close>: the protection hook, the binding when the families match, and
  the connection; \<open>bind\<close> tells whether the system can bind to the address.\<close>

definition tun_direct_connect ::
  "'d local_net \<Rightarrow> (ip_addr \<Rightarrow> bool) \<Rightarrow> sock_addr \<Rightarrow> ip_addr option \<Rightarrow> nat \<times> 'd res" where
  "tun_direct_connect loc can_bind addr bind =
    (if \<not> protect_outbound_fd loc addr then (0, Inl (IoError ''protect''))
     else (case bind of
             Some b \<Rightarrow>
               if is_ipv4 b = sock_is_ipv4 addr \<and> \<not> can_bind b then (0, Inl (IoError ''bind''))
               else dial loc addr
           | None \<Rightarrow> dial loc addr))"

definition rule_open ::
  "bool \<Rightarrow> geo_tables \<Rightarrow> rule_engine \<Rightarrow> ip_addr option \<Rightarrow> ip_addr option \<Rightarrow> 'd local_net \<Rightarrow> (ip_addr \<Rightarrow> bool) \<Rightarrow>
    sock_addr \<Rightarrow> 'd option" where
  "rule_open windows geo eng bind_ipv4 bind_ipv6 loc can_bind addr =
    (if decide geo eng addr = Direct then
       (if \<not> windows \<and> \<not> ip_is_loopback (sock_ip addr) \<and> hook loc = None then None
        else
          (let bind = (if sock_is_ipv4 addr then bind_ipv4 else bind_ipv6) in
           if bind = None \<and> \<not> is_local (sock_ip addr) \<and> hook loc = None then None
           else (case tun_direct_connect loc can_bind addr bind of
                   (d, Inr tcp) \<Rightarrow> if d \<le> DIRECT_CONNECT_TIMEOUT then Some tcp else None
                 | (d, Inl _) \<Rightarrow> None)))
     else None)"

text \<open>\<open>tun_rule_opener\<close>: \<open>None\<close> of the above is the way through the node.\<close>

definition tun_rule_opener ::
  "bool \<Rightarrow> geo_tables \<Rightarrow> rule_engine \<Rightarrow> ip_addr option \<Rightarrow> ip_addr option \<Rightarrow> 'd local_net \<Rightarrow> (ip_addr \<Rightarrow> bool) \<Rightarrow>
    (string \<Rightarrow> 's \<Rightarrow> 'd res \<times> 's) \<Rightarrow> string \<Rightarrow> 's \<Rightarrow> 'd res \<times> 's" where
  "tun_rule_opener windows geo eng bind_ipv4 bind_ipv6 loc can_bind proxy_opener target s =
    (case parse_sock_addr target of
       None \<Rightarrow> proxy_opener target s
     | Some addr \<Rightarrow>
         (case rule_open windows geo eng bind_ipv4 bind_ipv6 loc can_bind addr of
            Some tcp \<Rightarrow> (Inr tcp, s)
          | None \<Rightarrow> proxy_opener target s))"

section \<open>Starting the proxy\<close>

text \<open>\<open>auth_keys_ready\<close> and the checks of \<open>start\<close>; \<open>register_nodes\<close> with the scores of the
  nodes in the order they were configured.\<close>

definition auth_keys_ready :: "creds \<Rightarrow> sock_addr list \<Rightarrow> bool" where
  "auth_keys_ready cr nodes \<longleftrightarrow>
    auth_key cr \<noteq> [] \<or> list_all (\<lambda>n. map_of (node_keys cr) n \<noteq> None) nodes"

definition start_checks :: "creds \<Rightarrow> sock_addr list \<Rightarrow> byte list list \<Rightarrow> bool \<Rightarrow> unit res" where
  "start_checks cr nodes certs has_trust =
    (if \<not> auth_keys_ready cr nodes then Inl (ConnectionError ''no authentication key'')
     else if certs = [] \<and> \<not> has_trust then Inl (ConnectionError ''no node certificate'')
     else Inr ())"

definition register_node :: "nat \<times> sock_addr \<Rightarrow> scheduler \<Rightarrow> scheduler" where
  "register_node = (\<lambda>(idx, addr) s.
    if list_ex (\<lambda>n. address n = addr) (get_nodes_by_priority s) then s
    else add_node \<lparr> address = addr, bandwidth = max (100 - real idx * 10) 10, latency = 10,
                    loss_rate = 1/100, load = 1/2, status = Online \<rparr> s)"

definition register_nodes :: "sock_addr list \<Rightarrow> scheduler \<Rightarrow> scheduler" where
  "register_nodes nodes s = fold register_node (enumerate 0 nodes) s"

section \<open>What the candidate loop does\<close>

definition attempted :: "event list \<Rightarrow> sock_addr list" where
  "attempted ev = concat (map (\<lambda>e. case e of Fresh n _ _ \<Rightarrow> [n] | _ \<Rightarrow> []) ev)"

definition failures :: "event list \<Rightarrow> (sock_addr \<times> hydra_error) list" where
  "failures ev = concat (map (\<lambda>e. case e of Fresh n _ (Some x) \<Rightarrow> [(n, x)] | _ \<Rightarrow> []) ev)"

definition blamed :: "event list \<Rightarrow> sock_addr list" where
  "blamed ev = concat (map (\<lambda>e. case e of MarkOffline n \<Rightarrow> [n] | _ \<Rightarrow> []) ev)"

definition node_fault :: "hydra_error \<Rightarrow> bool" where
  "node_fault e \<longleftrightarrow> \<not> is_unreachable e \<and> \<not> is_protocol e"

lemma trace_simps [simp]:
  "attempted [] = []" "failures [] = []" "blamed [] = []"
  "attempted (a @ b) = attempted a @ attempted b" "failures (a @ b) = failures a @ failures b"
  "blamed (a @ b) = blamed a @ blamed b"
  "attempted (Fresh n k o' # ev) = n # attempted ev"
  "attempted (Warm n w # ev) = attempted ev" "attempted (MarkOffline n # ev) = attempted ev"
  "attempted (Refill n # ev) = attempted ev" "attempted (DialDirect n w # ev) = attempted ev"
  "failures (Fresh n k None # ev) = failures ev" "failures (Fresh n k (Some x) # ev) = (n, x) # failures ev"
  "failures (Warm n w # ev) = failures ev" "failures (MarkOffline n # ev) = failures ev"
  "failures (Refill n # ev) = failures ev" "failures (DialDirect n w # ev) = failures ev"
  "blamed (Fresh n k o' # ev) = blamed ev" "blamed (Warm n w # ev) = blamed ev"
  "blamed (MarkOffline n # ev) = n # blamed ev" "blamed (Refill n # ev) = blamed ev"
  "blamed (DialDirect n w # ev) = blamed ev"
  by (simp_all add: attempted_def failures_def blamed_def)

lemma trace_replenish [simp]:
  "attempted (replenish n s) = []" "failures (replenish n s) = []" "blamed (replenish n s) = []"
  by (simp_all add: replenish_def)

lemma trace_try_warm:
  "try_warm net env target n s = (o', ev, s') \<Longrightarrow> attempted ev = [] \<and> failures ev = [] \<and> blamed ev = [] \<and>
    (\<forall>e\<in>set ev. e \<in> {Warm n True, Warm n False, Refill n}) \<and> (o' \<noteq> None \<longrightarrow> Warm n True \<in> set ev)"
  by (cases "checkout (time s) n (warm s)")
    (auto simp: try_warm_def Let_def replenish_def split: option.splits sum.splits if_splits)

text \<open>One run of the loop, described by its trace: the nodes tried are a prefix of the
  candidates, each with its own key; exactly the nodes at fault are marked; the error
  reported is that of the last attempt, and the link of a success comes from the node named.\<close>

definition loop_ok ::
  "creds \<Rightarrow> sock_addr list \<Rightarrow> hydra_error option \<Rightarrow> ('l \<times> sock_addr) res \<Rightarrow> event list \<Rightarrow> bool" where
  "loop_ok cr nodes last_err r ev \<longleftrightarrow>
    prefix (attempted ev) nodes \<and>
    (\<forall>n k x. Fresh n k x \<in> set ev \<longrightarrow> k = key_for cr n) \<and>
    blamed ev = map fst (filter (node_fault \<circ> snd) (failures ev)) \<and>
    (case r of
       Inl e \<Rightarrow> e = (if failures ev = [] then (case last_err of Some x \<Rightarrow> x | None \<Rightarrow> ConnectionError ''All nodes failed'')
                   else snd (last (failures ev))) \<and> length (failures ev) = length (attempted ev) \<and>
              (failures ev = [] \<longrightarrow> nodes = []) \<and>
              (node_fault e \<longrightarrow> attempted ev = nodes)
     | Inr (l, n) \<Rightarrow> n \<in> set nodes \<and> (Warm n True \<in> set ev \<or> Fresh n (key_for cr n) None \<in> set ev))"

lemma try_nodes_ok:
  assumes "try_nodes net env cr target nodes last_err s = (r, ev, s')"
  shows "loop_ok cr nodes last_err r ev"
  using assms
proof (induction nodes arbitrary: last_err s r ev s')
  case Nil
  then show ?case by (auto simp: loop_ok_def)
next
  case (Cons node nodes)
  obtain w ev0 s1 where w: "try_warm net env target node s = (w, ev0, s1)" by (metis prod_cases3)
  note tw = trace_try_warm [OF w]
  have nofresh: "Fresh n k x \<notin> set ev0" for n k x using tw by fastforce
  show ?case
  proof (cases w)
    case (Some l)
    then show ?thesis using Cons.prems w tw nofresh by (auto simp: loop_ok_def)
  next
    case None
    let ?k = "key_for cr node" and ?s = "env s1"
    show ?thesis
    proof (cases "connect net (time ?s) node ?k target")
      case (Inr l)
      then show ?thesis using Cons.prems w None tw nofresh
        by (auto simp: loop_ok_def Let_def replenish_def split: if_splits)
    next
      case (Inl e)
      have step: "loop_ok cr (node # nodes) last_err r (ev0 @ Fresh node ?k (Some e) # ev1 @ ev2)"
        if "loop_ok cr nodes (Some e) r ev2" "ev1 = (if node_fault e then [MarkOffline node] else [])"
        for ev1 ev2
        using that tw nofresh unfolding loop_ok_def
        by (cases r) (auto split: if_splits option.splits)
      have stop: "loop_ok cr (node # nodes) last_err (Inl e) (ev0 @ [Fresh node ?k (Some e)])"
        if "\<not> node_fault e"
        using that tw nofresh unfolding loop_ok_def by auto
      obtain again m where rec: "record_and_should_failover (time ?s) target (unreach ?s) = (again, m)"
        by fastforce
      show ?thesis
      proof (cases "is_unreachable e")
        case True
        then have nf: "\<not> node_fault e" by (simp add: node_fault_def)
        show ?thesis
        proof (cases again)
          case True
          obtain r2 ev2 s4 where t: "try_nodes net env cr target nodes (Some e) (?s \<lparr> unreach := m \<rparr>) = (r2, ev2, s4)"
            by (metis prod_cases3)
          then have "r = r2" "ev = ev0 @ Fresh node ?k (Some e) # ev2"
            using Cons.prems w None Inl rec True \<open>is_unreachable e\<close> by (simp_all add: Let_def)
          then show ?thesis using step [of ev2 "[]"] Cons.IH [OF t] nf by simp
        next
          case False
          then have "r = Inl e" "ev = ev0 @ [Fresh node ?k (Some e)]"
            using Cons.prems w None Inl rec \<open>is_unreachable e\<close> by (simp_all add: Let_def)
          then show ?thesis using stop [OF nf] by simp
        qed
      next
        case nu: False
        show ?thesis
        proof (cases "is_protocol e")
          case True
          then have "r = Inl e" "ev = ev0 @ [Fresh node ?k (Some e)]"
            using Cons.prems w None Inl nu by (simp_all add: Let_def)
          then show ?thesis using stop True by (simp add: node_fault_def)
        next
          case False
          obtain r2 ev2 s4 where t: "try_nodes net env cr target nodes (Some e)
              (?s \<lparr> sched := mark_node_offline node (sched ?s) \<rparr>) = (r2, ev2, s4)"
            by (metis prod_cases3)
          then have "r = r2" "ev = ev0 @ Fresh node ?k (Some e) # [MarkOffline node] @ ev2"
            using Cons.prems w None Inl nu False by (simp_all add: Let_def)
          then show ?thesis using step [of ev2 "[MarkOffline node]"] Cons.IH [OF t] nu False
            by (simp add: node_fault_def)
        qed
      qed
    qed
  qed
qed

lemma sched_try_warm:
  assumes "\<And>s. sched (env s) = sched s" "try_warm net env target n s = (w, ev, s')"
  shows "sched s' = sched s"
  using assms(2) by (auto simp: try_warm_def Let_def forget_target_def assms(1)
      split: prod.splits option.splits sum.splits)

lemma sched_try_nodes:
  assumes env: "\<And>s. sched (env s) = sched s"
    and "try_nodes net env cr target nodes last_err s = (r, ev, s')"
  shows "sched s' = fold mark_node_offline (blamed ev) (sched s)"
  using assms(2)
proof (induction nodes arbitrary: last_err s r ev s')
  case (Cons node nodes)
  obtain w ev0 s1 where w: "try_warm net env target node s = (w, ev0, s1)" by (metis prod_cases3)
  have s1: "sched s1 = sched s" by (rule sched_try_warm [OF env w])
  have b: "blamed ev0 = []" using trace_try_warm [OF w] by simp
  show ?case
    using Cons.prems w s1 b
    by (cases w) (auto simp: Let_def env forget_target_def split: prod.splits sum.splits if_splits
        dest!: Cons.IH)
qed simp

section \<open>The table of unreachable targets\<close>

definition unreach_inv :: "unreach \<Rightarrow> bool" where
  "unreach_inv m \<longleftrightarrow> table_ok m \<and> length m \<le> TARGET_UNREACH_MAX_ENTRIES"

datatype unreach_op = CountTarget nat string | ForgetTarget string

fun unreach_step :: "unreach_op \<Rightarrow> unreach \<Rightarrow> unreach" where
  "unreach_step (CountTarget now t) m = snd (record_and_should_failover now t m)"
| "unreach_step (ForgetTarget t) m = clear_target_unreachable t m"

lemma unreach_delete: "unreach_inv m \<Longrightarrow> unreach_inv (clear_target_unreachable t m)"
  using length_delete_le [of t m]
  by (simp add: unreach_inv_def clear_target_unreachable_def table_ok_delete)

lemma unreach_record: "unreach_inv m \<Longrightarrow> unreach_inv (snd (record_target_unreachable now t m))"
proof -
  assume m: "unreach_inv m"
  define m' where "m' = (if length m \<ge> TARGET_UNREACH_MAX_ENTRIES then
      (let m' = filter (\<lambda>(k, n, t). now - t < TARGET_UNREACH_TTL) m
       in if length m' \<ge> TARGET_UNREACH_MAX_ENTRIES then [] else m') else m)"
  have "table_ok m'" "length m' < TARGET_UNREACH_MAX_ENTRIES"
    using m by (auto simp: m'_def unreach_inv_def Let_def distinct_map_filter TARGET_UNREACH_MAX_ENTRIES_def)
  moreover have "length (AList.update k v m') \<le> Suc (length m')" for k v
    by (induction m') auto
  moreover have "\<exists>v. snd (record_target_unreachable now t m) = AList.update t v m'"
    by (auto simp: record_target_unreachable_def m'_def [symmetric] Let_def split: prod.splits)
  ultimately show ?thesis
    by (metis distinct_update le_trans less_eq_Suc_le unreach_inv_def)
qed

lemma unreach_step_inv: "unreach_inv m \<Longrightarrow> unreach_inv (unreach_step op m)"
proof (cases op)
  case (CountTarget now t)
  assume "unreach_inv m"
  then have "unreach_inv (snd (record_target_unreachable now t m))" by (rule unreach_record)
  then show ?thesis
    by (auto simp: CountTarget record_and_should_failover_def unreach_delete split: prod.split)
qed (simp add: unreach_delete)

interpretation unreach: guarded_table "[]" unreach_step unreach_inv
  by unfold_locales (simp_all add: unreach_step_inv, simp add: unreach_inv_def)

text \<open>The answers to one failure after another of the same target.\<close>

fun failover_run :: "string \<Rightarrow> nat list \<Rightarrow> unreach \<Rightarrow> bool list" where
  "failover_run target [] m = []"
| "failover_run target (t # ts) m =
    (case record_and_should_failover t target m of (again, m') \<Rightarrow> again # failover_run target ts m')"

lemma record_lookup:
  assumes "length m < TARGET_UNREACH_MAX_ENTRIES"
  shows "record_target_unreachable now target m =
    (case map_of m target of
       Some (n, t) \<Rightarrow> (let n' = min ((if now - t \<ge> TARGET_UNREACH_TTL then 0 else n) + 1) (2 ^ 32 - 1)
                       in (n', AList.update target (n', now) m))
     | None \<Rightarrow> (1, AList.update target (1, now) m))"
  using assms by (simp add: record_target_unreachable_def Let_def split: option.split)

text \<open>Room for one more target, so that recording this one never clears the table.\<close>

definition has_room :: "string \<Rightarrow> unreach \<Rightarrow> bool" where
  "has_room target m \<longleftrightarrow> length m < TARGET_UNREACH_MAX_ENTRIES \<and>
    (map_of m target = None \<longrightarrow> length m + 1 < TARGET_UNREACH_MAX_ENTRIES)"

lemma length_update: "length (AList.update k v m) = (if map_of m k = None then Suc (length m) else length m)"
  by (induction m) auto

lemma length_delete_mem: "map_of m k \<noteq> None \<Longrightarrow> length (AList.delete k m) < length m"
proof (induction m)
  case (Cons a m)
  then show ?case using length_delete_le [of k m] by (cases "fst a = k") auto
qed simp

lemma has_room_update: "has_room target m \<Longrightarrow> has_room target (AList.update target v m)"
  by (auto simp: has_room_def length_update update_conv')

lemma has_room_delete:
  "has_room target m \<Longrightarrow> has_room target (clear_target_unreachable target m)"
  using length_delete_mem [of m target] length_delete_le [of target m]
  by (cases "map_of m target") (auto simp: has_room_def clear_target_unreachable_def)

lemma has_room_forget:
  "has_room target m \<Longrightarrow> has_room target (clear_target_unreachable target (AList.update target v m))"
  by (intro has_room_delete has_room_update)

definition close_times :: "nat list \<Rightarrow> bool" where
  "close_times ts \<longleftrightarrow> successively (\<lambda>a b. b - a < TARGET_UNREACH_TTL) ts"

lemma failover_run_from:
  assumes "has_room target m" "k < 3" "map_of m target = (if k = 0 then None else Some (k, last_t))"
    and "if k = 0 then close_times ts else close_times (last_t # ts)"
  shows "failover_run target ts m = map (\<lambda>i. (k + i) mod 3 = 2) [0..<length ts]"
  using assms
proof (induction ts arbitrary: m k last_t)
  case (Cons t ts)
  have room: "length m < TARGET_UNREACH_MAX_ENTRIES" using Cons.prems(1) by (simp add: has_room_def)
  have close: "k \<noteq> 0 \<Longrightarrow> t - last_t < TARGET_UNREACH_TTL" "close_times (t # ts)" "close_times ts"
    using Cons.prems(4) by (auto simp: close_times_def successively_Cons split: if_splits)
  have rec: "record_target_unreachable t target m = (Suc k, AList.update target (Suc k, t) m)"
    using Cons.prems(2,3) close(1)
    by (cases "k = 0") (simp_all add: record_lookup [OF room] Let_def)
  have map_Suc: "map f [0..<length (t # ts)] = f 0 # map (\<lambda>i. f (Suc i)) [0..<length ts]"
    for f :: "nat \<Rightarrow> bool"
    by (simp add: upt_conv_Cons flip: map_Suc_upt del: upt_Suc)
  show ?case
  proof (cases "k = 2")
    case True
    let ?m = "clear_target_unreachable target (AList.update target (Suc k, t) m)"
    have "failover_run target ts ?m = map (\<lambda>i. (0 + i) mod 3 = 2) [0..<length ts]"
      using Cons.IH [of ?m 0] has_room_forget [OF Cons.prems(1)] close(3)
      by (simp add: clear_target_unreachable_def delete_conv')
    moreover have "record_and_should_failover t target m = (True, ?m)"
      using True by (simp add: record_and_should_failover_def rec TARGET_UNREACH_FAILOVER_THRESHOLD_def)
    moreover have "(3 + i) mod 3 = i mod 3" for i :: nat by simp
    ultimately show ?thesis using True unfolding map_Suc by simp
  next
    case False
    let ?m = "AList.update target (Suc k, t) m"
    have "failover_run target ts ?m = map (\<lambda>i. (Suc k + i) mod 3 = 2) [0..<length ts]"
      using Cons.IH [of ?m "Suc k" t] has_room_update [OF Cons.prems(1)] close(2) False Cons.prems(2)
      by (simp add: update_conv')
    moreover have "record_and_should_failover t target m = (False, ?m)"
      using False Cons.prems(2) by (simp add: record_and_should_failover_def rec TARGET_UNREACH_FAILOVER_THRESHOLD_def)
    ultimately show ?thesis using False Cons.prems(2) unfolding map_Suc by simp
  qed
qed simp

section \<open>Direct links\<close>

lemma dial_each_Got:
  "dial_each loc limit as t = (Got tcp, ev) \<Longrightarrow> \<exists>a\<in>set as. \<exists>d. dial loc a = (d, Inr tcp) \<and>
    protect_outbound_fd loc a \<and> d \<le> limit \<and> DialDirect a True \<in> set ev"
proof (induction as arbitrary: t ev)
  case (Cons a as)
  obtain d r where c: "connect_tcp_protected loc a = (d, r)" by fastforce
  show ?case
  proof (cases r)
    case (Inl e)
    then show ?thesis using Cons c by (auto simp: Let_def split: if_splits prod.splits)
  next
    case (Inr x)
    then have "dial loc a = (d, Inr x)" "protect_outbound_fd loc a"
      using c by (auto simp: connect_tcp_protected_def split: if_splits)
    then show ?thesis using Cons.prems c Inr by (auto simp: Let_def split: if_splits)
  qed
qed simp

lemma dial_each_set:
  "dial_each loc limit as t = (x, ev) \<Longrightarrow> DialDirect a b \<in> set ev \<Longrightarrow> a \<in> set as \<and> protect_outbound_fd loc a"
proof (induction as arbitrary: t x ev)
  case (Cons a' as)
  obtain d r where c: "connect_tcp_protected loc a' = (d, r)" by fastforce
  obtain x1 ev1 where r: "dial_each loc limit as (t + d) = (x1, ev1)" by fastforce
  show ?case using Cons.prems Cons.IH [OF r] c r
    by (cases r) (auto simp: Let_def split: if_splits)
qed simp

lemma try_warm_no_direct: "try_warm net env target n s = (w, ev, s') \<Longrightarrow> DialDirect a b \<notin> set ev"
  using trace_try_warm by fastforce

lemma replenish_no_direct: "DialDirect a b \<notin> set (replenish n s)"
  by (simp add: replenish_def)

lemma try_nodes_no_direct:
  "try_nodes net env cr target nodes last_err s = (r, ev, s') \<Longrightarrow> DialDirect a b \<notin> set ev"
proof (induction nodes arbitrary: last_err s r ev s')
  case (Cons node nodes)
  obtain w ev0 s1 where w: "try_warm net env target node s = (w, ev0, s1)" by (metis prod_cases3)
  note nd = try_warm_no_direct [OF w, of a b]
  show ?case
  proof (cases w)
    case (Some l)
    then show ?thesis using Cons.prems w nd by simp
  next
    case None
    then show ?thesis using Cons.prems w nd
      by (auto simp: Let_def replenish_no_direct split: sum.splits if_splits prod.splits dest: Cons.IH)
  qed
qed simp

lemma open_target_no_direct:
  "open_target net env cr target s = (r, ev, s') \<Longrightarrow> DialDirect a b \<notin> set ev"
  by (auto simp: open_target_def Let_def split: if_splits dest: try_nodes_no_direct)

section \<open>Properties\<close>

text \<open>
  C7: whatever the network answers and whatever other tasks do at every \<open>await\<close>, a request
  tries a prefix of the three best nodes in order, uses each node's own key, marks offline
  exactly the nodes whose failure is theirs (never for an unreachable target or a local
  protocol error), reports the error of the last attempt, gives up with a node's failure
  only after all candidates failed, and hands out only a link a candidate answered on.
\<close>

theorem open_target_correct:
  "case open_target net env cr target s of (r, ev, s') \<Rightarrow>
    let nodes = take MAX_NODE_ATTEMPTS (map address (get_nodes_by_priority (sched s))) in
    prefix (attempted ev) nodes \<and>
    (\<forall>n k x. Fresh n k x \<in> set ev \<longrightarrow> k = key_for cr n) \<and>
    blamed ev = map fst (filter (node_fault \<circ> snd) (failures ev)) \<and>
    (case r of
       Inl e \<Rightarrow> (if nodes = [] then e = ConnectionError ''No available nodes'' \<and> ev = []
                 else failures ev \<noteq> [] \<and> e = snd (last (failures ev)) \<and>
                      (node_fault e \<longrightarrow> attempted ev = nodes))
     | Inr (l, n) \<Rightarrow> n \<in> set nodes \<and> (Warm n True \<in> set ev \<or> Fresh n (key_for cr n) None \<in> set ev))"
proof -
  let ?nodes = "take MAX_NODE_ATTEMPTS (map address (get_nodes_by_priority (sched s)))"
  obtain r ev s' where o: "open_target net env cr target s = (r, ev, s')" by (metis prod_cases3)
  show ?thesis
  proof (cases "map address (get_nodes_by_priority (sched s)) = []")
    case True
    then show ?thesis by (simp add: open_target_def)
  next
    case False
    then have "try_nodes net env cr target ?nodes None s = (r, ev, s')" "?nodes \<noteq> []"
      using o by (simp_all add: open_target_def Let_def MAX_NODE_ATTEMPTS_def)
    with try_nodes_ok [of net env cr target ?nodes None s r ev s'] have ok:
      "loop_ok cr ?nodes None r ev" and ne: "?nodes \<noteq> []" by auto
    show ?thesis
      unfolding o prod.case Let_def using ok ne unfolding loop_ok_def
      by (cases r) (auto split: if_splits)
  qed
qed

theorem open_target_correct_witness:
  "case open_target \<lparr> ask = \<lambda>t w x. Inl (IoError ''stale''), connect = \<lambda>t a k x. Inl (TargetUnreachable x),
        connect_channel = \<lambda>t a k. Inl (IoError ''refused'') \<rparr> (\<lambda>s. s) \<lparr> auth_key = [1], node_keys = [] \<rparr> ''a:1''
      \<lparr> time = 0, sched = [], warm = (pool_new :: nat pool), unreach = [],
        routes = \<lparr> split_state = None, suffix_cache = None \<rparr> \<rparr> of (r, ev, s') \<Rightarrow>
     r = (Inl (ConnectionError ''No available nodes'') :: (nat \<times> sock_addr) res) \<and> blamed ev = []"
  using open_target_correct [where net = "\<lparr> ask = \<lambda>t w x. Inl (IoError ''stale''),
        connect = \<lambda>t a k x. Inl (TargetUnreachable x), connect_channel = \<lambda>t a k. Inl (IoError ''refused'') \<rparr>"
      and env = "\<lambda>s. s" and cr = "\<lparr> auth_key = [1], node_keys = [] \<rparr>" and target = "''a:1''"
      and s = "\<lparr> time = 0, sched = [], warm = (pool_new :: nat pool), unreach = [],
        routes = \<lparr> split_state = None, suffix_cache = None \<rparr> \<rparr>" and ?'b = nat]
  by (auto simp: case_prod_unfold Let_def get_nodes_by_priority_def node_values_def sort_by_def split: sum.splits)

text \<open>
  the scheduler loses to this request nothing but the nodes it marks: when no other task
  touches it, afterwards it is what it was with the blamed nodes offline.
\<close>

theorem open_target_blames:
  assumes "\<And>s. sched (env s) = sched s"
  shows "case open_target net env cr target s of (r, ev, s') \<Rightarrow>
    sched s' = fold mark_node_offline (blamed ev) (sched s)"
  using sched_try_nodes [OF assms]
  by (auto simp: open_target_def Let_def split: prod.split)

text \<open>
  the failover for unreachable targets: of the failures of one target that follow each other
  within a minute, exactly every third allows one more node, and counting starts anew.
\<close>

theorem failover_every_third:
  assumes "has_room target m" "map_of m target = None" "close_times ts"
  shows "failover_run target ts m = map (\<lambda>i. i mod 3 = 2) [0..<length ts]"
  using failover_run_from [of target m 0] assms by simp

theorem failover_every_third_witness:
  "failover_run ''a:1'' [0, 59999, 119998, 120000] [(''b:2'', 2, 7)] = [False, False, True, False]"
  using failover_every_third [of "''a:1''" "[(''b:2'', 2, 7)]" "[0, 59999, 119998, 120000]"]
  by (simp add: has_room_def close_times_def TARGET_UNREACH_TTL_def TARGET_UNREACH_MAX_ENTRIES_def
      upt_conv_Cons)

text \<open>
  the table of unreachable targets never exceeds a hundred thousand entries and has one entry
  per target, whatever targets are reported.
\<close>

theorem unreach_table_bounded:
  "unreach_inv (fold unreach_step ops [])"
  by (rule unreach.inv_run)

text \<open>
  C9: traffic leaves the machine outside the encrypted path only by decision: an application
  behind SOCKS5 is given a direct connection, or one is only attempted, when the mounted rule
  engine, or without one the switch and the domain table, said so for its target; the address
  is then one the resolver gave, and the protection hook agreed to the socket.
\<close>

theorem direct_only_by_decision:
  "case handle_socks5 (dial_target cfg loc net env cr) c ([], s) of (r, c', ev, s') \<Rightarrow>
    (\<forall>a b. DialDirect a b \<in> set ev \<longrightarrow>
      (\<exists>t. fst (socks_negotiate c) = Inr t \<and> fst (should_direct cfg t (routes s)) \<and>
        protect_outbound_fd loc a \<and> (\<exists>as. snd (lookup loc t) = Some as \<and> a \<in> set as))) \<and>
    (\<forall>tcp t early. r = Inr (DirectLink tcp, t, early) \<longrightarrow>
      fst (should_direct cfg t (routes s)) \<and> (\<exists>a d. DialDirect a True \<in> set ev \<and> dial loc a = (d, Inr tcp)))"
proof -
  obtain x c1 where n: "socks_negotiate c = (x, c1)" by fastforce
  show ?thesis
  proof (cases x)
    case (Inl e)
    then show ?thesis using n by (simp add: handle_socks5_def)
  next
    case (Inr t)
    obtain d ev0 c2 where td: "try_direct cfg loc t (routes s) = (d, ev0, c2)" by (metis prod_cases3)
    have ev0: "fst (should_direct cfg t (routes s)) \<and> protect_outbound_fd loc a \<and>
        (\<exists>as. snd (lookup loc t) = Some as \<and> a \<in> set as)" if "DialDirect a b \<in> set ev0" for a b
      using td that
      by (cases "lookup loc t") (auto simp: try_direct_def direct_connect_resolved_def
          split: prod.splits if_splits option.splits timed.splits dest: dial_each_set)
    have d: "fst (should_direct cfg t (routes s)) \<and> (\<exists>a d. DialDirect a True \<in> set ev0 \<and> dial loc a = (d, Inr tcp))"
      if "d = Some tcp" for tcp
      using td that
      by (cases "lookup loc t") (auto simp: try_direct_def direct_connect_resolved_def
          split: prod.splits if_splits option.splits timed.splits dest!: dial_each_Got)
    obtain r2 ev2 s2 where ot: "open_target net env cr t (env (s \<lparr> routes := c2 \<rparr>)) = (r2, ev2, s2)"
      by (metis prod_cases3)
    note ev2 = open_target_no_direct [OF ot]
    obtain r3 ev3 s3 where rt: "reach_target cfg loc net env cr t s = (r3, ev3, s3)" by (metis prod_cases3)
    have r3: "(\<forall>tcp. r3 = Inr (DirectLink tcp) \<longrightarrow> d = Some tcp \<and> ev3 = ev0) \<and>
        (\<forall>a b. DialDirect a b \<in> set ev3 \<longrightarrow> DialDirect a b \<in> set ev0)"
      using rt td ot ev2 by (cases d; cases r2) (auto simp: reach_target_def)
    have dt: "dial_target cfg loc net env cr t ([], s) = (r3, ev3, s3)" by (simp add: dial_target_def rt)
    obtain r c' where h: "handle_socks5 (dial_target cfg loc net env cr) c ([], s) = (r, c', ev3, s3)"
      "\<forall>l t' e. r = Inr (l, t', e) \<longrightarrow> r3 = Inr l \<and> t' = t"
      using handle_socks5_link [where f = "dial_target cfg loc net env cr", OF n [unfolded Inr] dt] by blast
    have "fst (socks_negotiate c) = Inr t" by (simp add: n Inr)
    then show ?thesis unfolding h(1) prod.case using h(2) r3 ev0 d by metis
  qed
qed

theorem direct_only_by_decision_witness:
  "\<forall>loc net env cr c. case handle_socks5 (dial_target \<lparr> engine = None, split_env = None, domain_file = None \<rparr>
        (loc :: nat local_net) (net :: (nat, nat) net) env cr) c
      ([], \<lparr> time = 0, sched = [], warm = pool_new, unreach = [],
        routes = \<lparr> split_state = None, suffix_cache = None \<rparr> \<rparr>) of (r, c', ev, s') \<Rightarrow>
     \<not> (\<exists>a b. DialDirect a b \<in> set ev)"
proof (intro allI)
  fix loc :: "nat local_net" and net :: "(nat, nat) net" and env cr c
  have no: "\<not> fst (should_direct \<lparr> engine = None, split_env = None, domain_file = None \<rparr> t
      \<lparr> split_state = None, suffix_cache = None \<rparr>)" for t
    by (simp add: should_direct_def is_direct_target_def split_enabled_def split_flag_from_env_def)
  show "case handle_socks5 (dial_target \<lparr> engine = None, split_env = None, domain_file = None \<rparr>
        loc net env cr) c ([], \<lparr> time = 0, sched = [], warm = pool_new, unreach = [],
        routes = \<lparr> split_state = None, suffix_cache = None \<rparr> \<rparr>) of (r, c', ev, s') \<Rightarrow>
     \<not> (\<exists>a b. DialDirect a b \<in> set ev)"
    using direct_only_by_decision [where cfg = "\<lparr> engine = None, split_env = None, domain_file = None \<rparr>"
        and loc = loc and net = net and env = env and cr = cr and c = c and s = "\<lparr> time = 0, sched = [],
        warm = pool_new, unreach = [], routes = \<lparr> split_state = None, suffix_cache = None \<rparr> \<rparr>"]
    by (simp add: case_prod_unfold no)
qed

end
