(* ===== verification/HttpProxy.thy ===== *)
theory HttpProxy
  imports Socks5
begin

text \<open>
  The HTTP side of the proxy, \<open>handle_http\<close> and \<open>handle_http_connect\<close> of
  \<open>hydra-core/src/proxy.rs\<close>: collecting the head under one time limit, the request line, the
  authority of a plain request, and what the remote side is sent before the relay starts.
  As for SOCKS5, how a target is reached is an argument; so is whether the remote side takes
  the request (\<open>push\<close>).
\<close>

definition MAX_HTTP_HEAD :: nat where "MAX_HTTP_HEAD = 64 * 1024"
definition HTTP_HEAD_TOTAL_TIMEOUT :: nat where "HTTP_HEAD_TOTAL_TIMEOUT = 30 * 1000"

text \<open>The bytes of a literal of the source; \<open>\r\n\r\n\<close>.\<close>

definition CRLF2 :: "byte list" where "CRLF2 = [13, 10, 13, 10]"

definition bad_request :: "byte list" where
  "bad_request = as_bytes ''HTTP/1.1 400 Bad Request'' @ CRLF2"

definition bad_gateway :: "byte list" where
  "bad_gateway = as_bytes ''HTTP/1.1 502 Bad Gateway'' @ CRLF2"

definition established :: "byte list" where
  "established = as_bytes ''HTTP/1.1 200 Connection Established'' @ CRLF2"

text \<open>\<open>raw.windows(4).position(..)\<close>.\<close>

fun find_header_end :: "byte list \<Rightarrow> nat option" where
  "find_header_end [] = None"
| "find_header_end (b # r) =
    (if take 4 (b # r) = CRLF2 then Some 0 else map_option Suc (find_header_end r))"

section \<open>The head\<close>

text \<open>The loop that reads until the head is complete. It ends: every round but the last adds
  bytes, and it gives up beyond the limit.\<close>

function read_head :: "nat \<Rightarrow> byte list \<Rightarrow> client \<Rightarrow> byte list res \<times> client" where
  "read_head deadline raw c =
    (if find_header_end raw \<noteq> None then (Inr raw, c)
     else if length raw > MAX_HTTP_HEAD then refuse bad_request (ProtocolError ''head too large'') c
     else
       (let t = min (deadline - clock c) INITIAL_READ_TIMEOUT;
            p = read_by (clock c + t) 4096 c
        in case fst p of
             Failed \<Rightarrow> (Inl (IoError ''read''), snd p)
           | TimedOut \<Rightarrow> (Inl (ConnectionError ''header read timeout''), snd p)
           | Got b \<Rightarrow> if b = [] then (Inr raw, snd p) else read_head deadline (raw @ b) (snd p)))"
  by pat_completeness auto
termination
  by (relation "measure (\<lambda>(deadline, raw, c). Suc MAX_HTTP_HEAD - length raw)")
    (auto simp: neq_Nil_conv)

declare read_head.simps [simp del]

section \<open>The request\<close>

definition head_of :: "byte list \<Rightarrow> string" where
  "head_of raw =
    from_utf8_lossy (take (case find_header_end raw of Some n \<Rightarrow> n | None \<Rightarrow> length raw) raw)"

definition first_line :: "string \<Rightarrow> string" where
  "first_line head = (case str_lines head of [] \<Rightarrow> [] | l # _ \<Rightarrow> l)"

text \<open>A line is a Host field when its first five bytes are \<open>host:\<close> in any case; the only
  characters whose Unicode lower case is one of these letters are the ASCII ones.\<close>

definition host_line :: "string \<Rightarrow> bool" where
  "host_line l \<longleftrightarrow> \<not> starts_with l '' '' \<and> \<not> starts_with l [CHR 0x09] \<and>
     starts_with (to_ascii_lowercase l) ''host:''"

definition host_header :: "string \<Rightarrow> string" where
  "host_header head =
    (case find host_line (str_lines head) of
       Some l \<Rightarrow> trim (drop 5 l)
     | None \<Rightarrow> ''unknown'')"

definition authority_of :: "string \<Rightarrow> string \<Rightarrow> string" where
  "authority_of url head =
    (let a = (case strip_prefix ''http://'' url of
                Some rest \<Rightarrow> (case split_once (CHR ''/'') rest of Some (h, _) \<Rightarrow> h | None \<Rightarrow> rest)
              | None \<Rightarrow> host_header head)
     in case rsplit_once (CHR ''@'') a of Some (_, h) \<Rightarrow> h | None \<Rightarrow> a)"

definition authority_target :: "string \<Rightarrow> (string \<times> u16) res" where
  "authority_target a =
    (case parse_sock_addr a of
       Some addr \<Rightarrow> Inr (show_ip (sock_ip addr), sock_port addr)
     | None \<Rightarrow>
         if starts_with a ''['' then
           (case rsplit_once (CHR '']'') a of
              Some (inner, rest) \<Rightarrow>
                (let host = (case strip_prefix ''['' inner of Some h \<Rightarrow> h | None \<Rightarrow> inner) in
                 case strip_prefix '':'' rest of
                   Some p \<Rightarrow>
                     (case parse_u16 p of
                        Some port \<Rightarrow> Inr (host, port)
                      | None \<Rightarrow> Inl (ProtocolError ''authority port''))
                 | None \<Rightarrow> Inr (host, 80))
            | None \<Rightarrow> Inr (a, 80))
         else
           (case rsplit_once (CHR '':'') a of
              Some (h, p) \<Rightarrow>
                (case parse_u16 p of
                   Some port \<Rightarrow> if h \<noteq> [] then Inr (h, port) else Inl (ProtocolError ''authority host/port'')
                 | None \<Rightarrow> Inl (ProtocolError ''authority host/port''))
            | None \<Rightarrow> Inr (a, 80)))"

text \<open>What a request line asks for.\<close>

datatype http_request = Connect string | Plain string

definition parse_request :: "byte list \<Rightarrow> http_request res" where
  "parse_request raw =
    (let head = head_of raw in
     case split_whitespace (first_line head) of
       method # url # _ # _ \<Rightarrow>
         if method = ''CONNECT'' then Inr (Connect url)
         else bind_res (authority_target (authority_of url head))
                (\<lambda>(host, port). Inr (Plain (host @ '':'' @ show_nat (unat port))))
     | _ \<Rightarrow> Inl (ProtocolError ''HTTP request''))"

section \<open>The handlers\<close>

text \<open>What the relay is started with: the link, what the remote side was sent already, and
  the early data of the application.\<close>

record 'l relay_start =
  link :: 'l
  sent_up :: "byte list"
  early :: "byte list"

definition handle_http_connect ::
  "(string \<Rightarrow> 's \<Rightarrow> 'l res \<times> 's) \<Rightarrow> string \<Rightarrow> client \<Rightarrow> 's \<Rightarrow> 'l relay_start res \<times> client \<times> 's" where
  "handle_http_connect reach target c st =
    (case reach target st of
       (Inl e, st') \<Rightarrow> (case refuse bad_gateway e c of (r, c') \<Rightarrow> (r, c', st'))
     | (Inr l, st') \<Rightarrow>
         (case send_client established c of
            (Inl w, c') \<Rightarrow> (Inl w, c', st')
          | (Inr _, c') \<Rightarrow> (Inr \<lparr> link = l, sent_up = [], early = [] \<rparr>, c', st')))"

definition handle_http ::
  "(string \<Rightarrow> 's \<Rightarrow> 'l res \<times> 's) \<Rightarrow> ('l \<Rightarrow> bool) \<Rightarrow> byte list \<Rightarrow> client \<Rightarrow> 's \<Rightarrow>
    'l relay_start res \<times> client \<times> 's" where
  "handle_http reach push initial c st =
    (case read_head (clock c + HTTP_HEAD_TOTAL_TIMEOUT) initial c of
       (Inl e, c') \<Rightarrow> (Inl e, c', st)
     | (Inr raw, c') \<Rightarrow>
         (case parse_request raw of
            Inl e \<Rightarrow> (case refuse bad_request e c' of (r, c'') \<Rightarrow> (r, c'', st))
          | Inr (Connect target) \<Rightarrow> handle_http_connect reach target c' st
          | Inr (Plain target) \<Rightarrow>
              (case reach target st of
                 (Inl e, st') \<Rightarrow> (case refuse bad_gateway e c' of (r, c'') \<Rightarrow> (r, c'', st'))
               | (Inr l, st') \<Rightarrow>
                   if push l then (Inr \<lparr> link = l, sent_up = raw, early = [] \<rparr>, c', st')
                   else (case refuse bad_gateway (ProtocolError ''write'') c' of (r, c'') \<Rightarrow> (r, c'', st')))))"

text \<open>\<open>handle_connection\<close>: the first read tells the protocol. The SOCKS5 handler gets what was
  read as \<open>pending\<close>, the HTTP handler as the beginning of the head.\<close>

definition handle_connection ::
  "(string \<Rightarrow> 's \<Rightarrow> 'l res \<times> 's) \<Rightarrow> ('l \<Rightarrow> bool) \<Rightarrow> client \<Rightarrow> 's \<Rightarrow> 'l relay_start res \<times> client \<times> 's" where
  "handle_connection reach push c st =
    (case read_by (clock c + INITIAL_READ_TIMEOUT) 4096 c of
       (Failed, c') \<Rightarrow> (Inl (IoError ''read''), c', st)
     | (TimedOut, c') \<Rightarrow> (Inl (ConnectionError ''initial read timeout''), c', st)
     | (Got b, c') \<Rightarrow>
         if b = [] then (Inl (ProtocolError ''empty request''), c', st)
         else if hd b = 0x05 then
           (case handle_socks5 reach (c' \<lparr> pending := b \<rparr>) st of
              (Inl e, c'', st') \<Rightarrow> (Inl e, c'', st')
            | (Inr (l, target, early_data), c'', st') \<Rightarrow>
                (Inr \<lparr> link = l, sent_up = [], early = early_data \<rparr>, c'', st'))
         else if 65 \<le> hd b \<and> hd b \<le> 90 then handle_http reach push b c' st
         else (case refuse bad_request (ProtocolError ''unknown protocol'') c' of (r, c'') \<Rightarrow> (r, c'', st)))"

section \<open>What the handlers consume\<close>

abbreviation arriving :: "client \<Rightarrow> byte list" where
  "arriving c \<equiv> concat (map snd (inbox c))"

lemma refuse_keeps [simp]:
  "clock (snd (refuse reply e c)) = clock c" "inbox (snd (refuse reply e c)) = inbox c"
  "fst (refuse reply e c) = Inl e"
  by (simp_all add: refuse_def send_client_def)

lemma read_head_Inr:
  "read_head dl raw c = (Inr raw', c') \<Longrightarrow> raw @ arriving c = raw' @ arriving c'"
proof (induction dl raw c arbitrary: raw' c' rule: read_head.induct)
  case (1 dl raw c)
  let ?p = "read_by (clock c + min (dl - clock c) INITIAL_READ_TIMEOUT) 4096 c"
  obtain x d where p: "?p = (x, d)" by fastforce
  show ?case
  proof (cases "find_header_end raw = None \<and> \<not> length raw > MAX_HTTP_HEAD")
    case True
    then have "\<exists>b. x = Got b \<and> (if b = [] then raw' = raw \<and> c' = d
        else read_head dl (raw @ b) d = (Inr raw', c'))"
      using 1(2) p by (subst (asm) read_head.simps) (auto simp: Let_def split: timed.splits if_splits)
    then obtain b where b: "x = Got b" "b = [] \<Longrightarrow> raw' = raw \<and> c' = d"
      "b \<noteq> [] \<Longrightarrow> read_head dl (raw @ b) d = (Inr raw', c')" by (auto split: if_splits)
    have "arriving c = b @ arriving d" using read_by_unread p b(1) by blast
    then show ?thesis
    proof (cases "b = []")
      case False
      then have "(raw @ b) @ arriving d = raw' @ arriving c'"
        using 1(1) [of "min (dl - clock c) INITIAL_READ_TIMEOUT" ?p b] True p b by auto
      with \<open>arriving c = b @ arriving d\<close> show ?thesis by simp
    qed (use b in simp)
  next
    case False
    then show ?thesis using 1(2) by (subst (asm) read_head.simps) (auto split: if_splits)
  qed
qed

lemma read_head_time:
  "read_head dl raw c = (r, c') \<Longrightarrow> clock c \<le> clock c' \<and> clock c' \<le> max (clock c) dl \<and>
    pending c' = pending c"
proof (induction dl raw c arbitrary: r c' rule: read_head.induct)
  case (1 dl raw c)
  let ?t = "min (dl - clock c) INITIAL_READ_TIMEOUT"
  obtain x d where p: "read_by (clock c + ?t) 4096 c = (x, d)" by fastforce
  note k = read_by_keeps [OF p]
  have t: "max (clock c) (clock c + ?t) \<le> max (clock c) dl" by auto
  show ?case
  proof (cases "find_header_end raw = None \<and> \<not> length raw > MAX_HTTP_HEAD \<and> (\<exists>b. x = Got b \<and> b \<noteq> [])")
    case True
    then obtain b where b: "x = Got b" "b \<noteq> []" by blast
    then have "read_head dl (raw @ b) d = (r, c')"
      using 1(2) True p by (subst (asm) read_head.simps) (auto simp: Let_def)
    then have "clock d \<le> clock c' \<and> clock c' \<le> max (clock d) dl \<and> pending c' = pending d"
      using 1(1) [of ?t "(x, d)" b r c'] True p b by auto
    then show ?thesis using k t by auto
  next
    case False
    then have "c' = c \<or> c' = d \<or> c' = snd (send_client bad_request c)"
      using 1(2) p by (subst (asm) read_head.simps)
        (auto simp: Let_def refuse_def split: if_splits timed.splits)
    then show ?thesis using k t by (auto simp: send_client_def)
  qed
qed

lemma read_head_length:
  "read_head dl raw c = (Inr raw', c') \<Longrightarrow> length raw \<le> MAX_HTTP_HEAD + 4096 \<Longrightarrow>
    length raw' \<le> MAX_HTTP_HEAD + 4096"
proof (induction dl raw c arbitrary: raw' c' rule: read_head.induct)
  case (1 dl raw c)
  let ?t = "min (dl - clock c) INITIAL_READ_TIMEOUT"
  obtain x d where p: "read_by (clock c + ?t) 4096 c = (x, d)" by fastforce
  show ?case
  proof (cases "find_header_end raw = None \<and> \<not> length raw > MAX_HTTP_HEAD \<and> (\<exists>b. x = Got b \<and> b \<noteq> [])")
    case True
    then obtain b where b: "x = Got b" "b \<noteq> []" by blast
    have "length b \<le> 4096" using read_by_Got [OF p [unfolded b]] b by auto
    moreover have "read_head dl (raw @ b) d = (Inr raw', c')"
      using 1(2) True p b by (subst (asm) read_head.simps) (auto simp: Let_def)
    ultimately show ?thesis using 1(1) [of ?t "(x, d)" b raw' c'] True p b by auto
  next
    case False
    then have "raw' = raw"
      using 1(2) p by (subst (asm) read_head.simps) (auto simp: Let_def split: if_splits timed.splits)
    then show ?thesis using 1(3) by simp
  qed
qed

text \<open>The head is complete only with the last read: what a CONNECT request loses is inside it.\<close>

lemma read_head_last:
  "read_head dl raw c = (Inr raw', c') \<Longrightarrow>
    raw' = raw \<or> (\<exists>before b. raw' = before @ b \<and> find_header_end before = None \<and> length b \<le> 4096)"
proof (induction dl raw c arbitrary: raw' c' rule: read_head.induct)
  case (1 dl raw c)
  let ?t = "min (dl - clock c) INITIAL_READ_TIMEOUT"
  obtain x d where p: "read_by (clock c + ?t) 4096 c = (x, d)" by fastforce
  show ?case
  proof (cases "find_header_end raw = None \<and> \<not> length raw > MAX_HTTP_HEAD \<and> (\<exists>b. x = Got b \<and> b \<noteq> [])")
    case True
    then obtain b where b: "x = Got b" "b \<noteq> []" by blast
    have l: "length b \<le> 4096" using read_by_Got [OF p [unfolded b]] b by auto
    have "read_head dl (raw @ b) d = (Inr raw', c')"
      using 1(2) True p b by (subst (asm) read_head.simps) (auto simp: Let_def)
    then have "raw' = raw @ b \<or> (\<exists>before b. raw' = before @ b \<and> find_header_end before = None \<and> length b \<le> 4096)"
      using 1(1) [of ?t "(x, d)" b raw' c'] True p b by auto
    then show ?thesis using True l by blast
  next
    case False
    then show ?thesis
      using 1(2) p by (subst (asm) read_head.simps) (auto simp: Let_def split: if_splits timed.splits)
  qed
qed

lemma negotiate_sound:
  assumes "socks_negotiate c = (Inr t, c')"
  shows "\<exists>ms rsv a port. socks_wf ms a \<and> unread c = socks_wire ms rsv a port @ unread c' \<and>
    t = socks_target a port"
proof -
  from assms obtain u c1 where n: "socks_greeting c = (Inr u, c1)" "socks_request c1 = (Inr t, c')"
    by (auto simp: socks_negotiate_def and_then_Inr)
  from socks_greeting_sound [OF n(1)] obtain ms where ms: "length ms < 256" "0 \<in> set ms"
    "unread c = 0x05 # of_nat (length ms) # ms @ unread c1" by blast
  from socks_request_sound [OF n(2)] obtain rsv a port where a: "socks_wf [0] a" "t = socks_target a port"
    "unread c1 = 0x05 # 0x01 # rsv # socks_wire_addr a @ u16_be port @ unread c'" by blast
  then show ?thesis using ms
    by (intro exI [of _ ms] exI [of _ rsv] exI [of _ a] exI [of _ port])
      (auto simp: socks_wire_def socks_wf_def)
qed

lemma handle_socks5_Inr:
  assumes "handle_socks5 reach c st = (Inr (l, t, early_data), c', st')"
  shows "\<exists>ms rsv a port. socks_wf ms a \<and> unread c = socks_wire ms rsv a port @ early_data @ arriving c'"
proof -
  obtain x c1 where n: "socks_negotiate c = (x, c1)" by fastforce
  have "x = Inr t \<and> early_data = pending c1 \<and> inbox c' = inbox c1"
    using assms n by (auto simp: handle_socks5_def send_client_def split: sum.splits prod.splits if_splits)
  with n negotiate_sound [of c t c1] show ?thesis by (auto simp: unread_def)
qed

lemma handle_socks5_clock:
  "clock (fst (snd (handle_socks5 reach c st))) \<le> clock c + 5 * INITIAL_READ_TIMEOUT"
proof -
  obtain x c1 where n: "socks_negotiate c = (x, c1)" by fastforce
  have "clock c1 \<le> clock c + 5 * INITIAL_READ_TIMEOUT"
    using adds_negotiate [of c] n by (simp add: adds_def)
  then show ?thesis using n
    by (auto simp: handle_socks5_def send_client_def split: sum.splits prod.splits)
qed

lemma handle_http_Inr:
  assumes "handle_http reach push initial c st = (Inr r, c', st')" "length initial \<le> 4096"
  shows "\<exists>raw. initial @ arriving c = raw @ arriving c' \<and> early r = [] \<and>
    (\<exists>before b. raw = before @ b \<and> find_header_end before = None \<and> length b \<le> 4096) \<and>
    (case parse_request raw of Inr (Connect _) \<Rightarrow> sent_up r = [] | Inr (Plain _) \<Rightarrow> sent_up r = raw | Inl _ \<Rightarrow> False)"
proof -
  obtain h c1 where h: "read_head (clock c + HTTP_HEAD_TOTAL_TIMEOUT) initial c = (h, c1)" by fastforce
  then obtain raw where raw: "h = Inr raw"
    using assms by (cases h) (auto simp: handle_http_def)
  note bytes = read_head_Inr [OF h [unfolded raw]]
  have last_read: "\<exists>before b. raw = before @ b \<and> find_header_end before = None \<and> length b \<le> 4096"
    using read_head_last [OF h [unfolded raw]] assms(2) find_header_end.simps(1) append_Nil by metis
  obtain q where q: "parse_request raw = Inr q"
    using assms(1) h raw by (cases "parse_request raw") (auto simp: handle_http_def split: prod.splits)
  show ?thesis
  proof (cases q)
    case (Connect t)
    then have "inbox c' = inbox c1 \<and> r = \<lparr> link = relay_start.link r, sent_up = [], early = [] \<rparr>"
      using assms(1) h raw q
      by (auto simp: handle_http_def handle_http_connect_def send_client_def split: sum.splits prod.splits if_splits)
    then have "inbox c' = inbox c1" "sent_up r = []" "early r = []" by (auto, metis relay_start.select_convs)+
    then show ?thesis using bytes last_read q Connect by (intro exI [of _ raw]) simp
  next
    case (Plain t)
    then have "inbox c' = inbox c1 \<and> sent_up r = raw \<and> early r = []"
      using assms(1) h raw q
      by (auto simp: handle_http_def split: sum.splits prod.splits if_splits)
    then show ?thesis using bytes last_read q Plain by (intro exI [of _ raw]) simp
  qed
qed

lemma handle_http_clock:
  "clock (fst (snd (handle_http reach push initial c st))) \<le> clock c + HTTP_HEAD_TOTAL_TIMEOUT"
proof -
  obtain h c1 where h: "read_head (clock c + HTTP_HEAD_TOTAL_TIMEOUT) initial c = (h, c1)" by fastforce
  have "clock c1 \<le> clock c + HTTP_HEAD_TOTAL_TIMEOUT" using read_head_time [OF h] by simp
  moreover have "clock (fst (snd (handle_http reach push initial c st))) = clock c1"
    using h by (auto simp: handle_http_def handle_http_connect_def send_client_def refuse_def
        split: sum.splits prod.splits http_request.splits if_splits)
  ultimately show ?thesis by simp
qed

section \<open>Properties\<close>

text \<open>
  what the remote side gets of the application's bytes: for a plain HTTP request all of them,
  byte for byte; behind SOCKS5 all after the request, which is the only thing taken away;
  behind CONNECT all but what was read up to the end of the head \<open>and\<close> whatever arrived in the
  same reads behind it.
\<close>

theorem front_end_bytes:
  assumes "pending c = []" "handle_connection reach push c st = (Inr r, c', st')"
  shows "\<exists>consumed. arriving c = consumed @ sent_up r @ early r @ arriving c' \<and>
    (consumed = [] \<or> (\<exists>ms rsv a port. socks_wf ms a \<and> consumed = socks_wire ms rsv a port) \<or>
     (\<exists>t before b. parse_request consumed = Inr (Connect t) \<and> consumed = before @ b \<and>
        find_header_end before = None \<and> length b \<le> 4096))"
proof -
  obtain x d where p: "read_by (clock c + INITIAL_READ_TIMEOUT) 4096 c = (x, d)" by fastforce
  then obtain b where b: "x = Got b" "b \<noteq> []"
    using assms(2) by (cases x) (auto simp: handle_connection_def split: if_splits)
  have lb: "length b \<le> 4096" using read_by_Got [OF p [unfolded b(1)]] b(2) by auto
  have arr: "arriving c = b @ arriving d" using read_by_unread p b(1) by blast
  show ?thesis
  proof (cases "hd b = 0x05")
    case True
    then obtain l t e c1 where h: "handle_socks5 reach (d \<lparr> pending := b \<rparr>) st = (Inr (l, t, e), c1, st')"
      "r = \<lparr> link = l, sent_up = [], early = e \<rparr>" "c' = c1"
      using assms(2) p b by (auto simp: handle_connection_def split: prod.splits sum.splits)
    from handle_socks5_Inr [OF h(1)] obtain ms rsv a port where w: "socks_wf ms a"
      "b @ arriving d = socks_wire ms rsv a port @ e @ arriving c1" by (auto simp: unread_def)
    then show ?thesis using arr h(2,3)
      by (intro exI [of _ "socks_wire ms rsv a port"]) (simp, blast)
  next
    case False
    then have "handle_http reach push b d st = (Inr r, c', st')"
      using assms(2) p b by (auto simp: handle_connection_def refuse_def split: if_splits)
    from handle_http_Inr [OF this lb] obtain raw where raw: "b @ arriving d = raw @ arriving c'" "early r = []"
      "case parse_request raw of Inr (Connect _) \<Rightarrow> sent_up r = [] | Inr (Plain _) \<Rightarrow> sent_up r = raw | Inl _ \<Rightarrow> False"
      and last_read: "\<exists>before b. raw = before @ b \<and> find_header_end before = None \<and> length b \<le> 4096"
      by blast
    show ?thesis
    proof (cases "sent_up r = raw")
      case True
      then show ?thesis using raw arr by simp
    next
      case False
      then obtain t where "parse_request raw = Inr (Connect t)" "sent_up r = []"
        using raw(3) by (auto split: sum.splits http_request.splits)
      then show ?thesis using raw(1,2) arr last_read by (intro exI [of _ raw] conjI disjI2) (simp, blast)
    qed
  qed
qed

text \<open>
  however slowly an application feeds its bytes, the time until its target is dialled is
  bounded: thirty seconds for the first bytes, and after them thirty for an HTTP head or
  five times thirty for a SOCKS5 negotiation; a head never holds more than 68 KiB.
\<close>

theorem front_end_bounded:
  "clock (fst (snd (handle_connection reach push c st))) \<le> clock c + 6 * INITIAL_READ_TIMEOUT \<and>
   (case read_head dl b c of (Inr raw, _) \<Rightarrow> length b > 4096 \<or> length raw \<le> MAX_HTTP_HEAD + 4096 | _ \<Rightarrow> True)"
proof
  obtain x d where p: "read_by (clock c + INITIAL_READ_TIMEOUT) 4096 c = (x, d)" by fastforce
  have d: "clock d \<le> clock c + INITIAL_READ_TIMEOUT" using read_by_keeps [OF p] by simp
  have h: "HTTP_HEAD_TOTAL_TIMEOUT \<le> 5 * INITIAL_READ_TIMEOUT"
    by (simp add: HTTP_HEAD_TOTAL_TIMEOUT_def INITIAL_READ_TIMEOUT_def)
  show "clock (fst (snd (handle_connection reach push c st))) \<le> clock c + 6 * INITIAL_READ_TIMEOUT"
  proof (cases x)
    case (Got b)
    consider "b = []" | "b \<noteq> []" "hd b = 0x05" | "b \<noteq> []" "hd b \<noteq> 0x05" "65 \<le> hd b \<and> hd b \<le> 90"
      | "b \<noteq> []" "hd b \<noteq> 0x05" "\<not> (65 \<le> hd b \<and> hd b \<le> 90)" by blast
    then show ?thesis
    proof cases
      case 2
      then show ?thesis using p d Got handle_socks5_clock [of reach "d \<lparr> pending := b \<rparr>" st]
        by (auto simp: handle_connection_def split: prod.splits sum.splits)
    next
      case 3
      then show ?thesis using p d h Got handle_http_clock [of reach push b d st]
        by (simp add: handle_connection_def)
    qed (use p d Got in \<open>auto simp: handle_connection_def refuse_def send_client_def split: prod.splits\<close>)
  qed (use p d in \<open>auto simp: handle_connection_def\<close>)
  show "case read_head dl b c of (Inr raw, _) \<Rightarrow> length b > 4096 \<or> length raw \<le> MAX_HTTP_HEAD + 4096 | _ \<Rightarrow> True"
    using read_head_length [of dl b c]
    by (cases "length b \<le> 4096") (auto split: prod.splits sum.splits)
qed

section \<open>The CONNECT request\<close>

lemma find_header_end_line:
  "13 \<notin> set l \<Longrightarrow> find_header_end (l @ CRLF2 @ x) = Some (length l)"
proof (induction l)
  case Nil
  then show ?case by (simp add: CRLF2_def)
next
  case (Cons b l)
  then have "take 4 (b # l @ CRLF2 @ x) \<noteq> CRLF2" by (auto simp: CRLF2_def)
  then show ?case using Cons by simp
qed

lemma str_lines_single: "CHR 0x0A \<notin> set l \<Longrightarrow> l \<noteq> [] \<Longrightarrow> str_lines l = [l]"
  by (simp add: str_lines_def split_on_none)

text \<open>Printable ASCII, the space included.\<close>

definition printable :: "char \<Rightarrow> bool" where
  "printable c \<longleftrightarrow> 32 \<le> (of_char c :: nat) \<and> of_char c \<le> (126 :: nat)"

lemma printable_as_bytes:
  assumes "\<forall>c\<in>set l. printable c" shows "13 \<notin> set (as_bytes l)"
proof
  assume "13 \<in> set (as_bytes l)"
  then obtain c where c: "c \<in> set l" "of_nat (of_char c) = (13 :: byte)" by (auto simp: as_bytes_def)
  then have "unat (of_nat (of_char c) :: byte) = 13" by simp
  then have "of_char c = (13 :: nat)" by (simp add: unat_byte_of_nat)
  with assms c(1) show False by (auto simp: printable_def)
qed

lemma printable_newline: "\<forall>c\<in>set l. printable c \<Longrightarrow> CHR 0x0A \<notin> set l"
  by (auto simp: printable_def)

lemma printable_is_str: "\<forall>c\<in>set l. printable c \<Longrightarrow> utf8_valid (as_bytes l)"
  using is_ascii_is_str [of l] by (fastforce simp: is_str_def is_ascii_def printable_def)

lemma head_of_line:
  assumes "\<forall>c\<in>set l. printable c"
  shows "head_of (as_bytes l @ CRLF2 @ x) = l"
proof -
  have "find_header_end (as_bytes l @ CRLF2 @ x) = Some (length l)"
    using find_header_end_line [OF printable_as_bytes [OF assms], of x] by simp
  then show ?thesis
    by (simp add: head_of_def from_utf8_lossy_valid [OF printable_is_str [OF assms]])
qed

lemma split_words: "\<forall>c\<in>set w. graphic c \<Longrightarrow> w \<noteq> [] \<Longrightarrow>
    split_ws [] (w @ CHR '' '' # s) = w # split_ws [] s"
  by (simp add: split_ws_graphic split_ws_space del: split_ws.simps)

lemma split_last_word: "\<forall>c\<in>set w. graphic c \<Longrightarrow> w \<noteq> [] \<Longrightarrow> split_ws [] w = [w]"
  using split_ws_graphic [of w "[]" "[]"] by simp

definition connect_line :: "string \<Rightarrow> string" where
  "connect_line t = ''CONNECT'' @ CHR '' '' # t @ CHR '' '' # ''HTTP/1.1''"

lemma parse_connect:
  assumes "\<forall>c\<in>set t. graphic c" "t \<noteq> []"
  shows "parse_request (as_bytes (connect_line t) @ CRLF2 @ x) = Inr (Connect t)"
proof -
  have g: "\<forall>c\<in>set ''CONNECT''. graphic c" "\<forall>c\<in>set ''HTTP/1.1''. graphic c"
    by (simp_all add: graphic_def)
  have "\<forall>c\<in>set (connect_line t). printable c"
    using assms(1) by (auto simp: connect_line_def printable_def graphic_def)
  then have "head_of (as_bytes (connect_line t) @ CRLF2 @ x) = connect_line t"
    and nl: "CHR 0x0A \<notin> set (connect_line t)"
    by (simp_all add: head_of_line printable_newline)
  moreover have "first_line (connect_line t) = connect_line t"
    using str_lines_single [OF nl] by (simp add: first_line_def connect_line_def)
  moreover have "split_whitespace (connect_line t) = [''CONNECT'', t, ''HTTP/1.1'']"
    unfolding split_whitespace_def connect_line_def
    using split_words [OF g(1), of "t @ CHR '' '' # ''HTTP/1.1''"] split_words [OF assms(1,2), of "''HTTP/1.1''"]
      split_last_word [OF g(2)] by simp
  ultimately show ?thesis by (simp add: parse_request_def Let_def)
qed

text \<open>
  what an application sends together with its CONNECT request is lost: whatever follows the
  head in the same read, no byte of it reaches the remote side, neither before the relay nor
  through it.
\<close>

theorem connect_drops_early_data:
  assumes "inbox c = [(when_at, as_bytes (connect_line t) @ CRLF2 @ x)]" "when_at \<le> clock c + INITIAL_READ_TIMEOUT"
    "length (as_bytes (connect_line t) @ CRLF2 @ x) \<le> 4096" "\<forall>ch\<in>set t. graphic ch" "t \<noteq> []"
    "writable c" "reach t st = (Inr l, st')"
  shows "\<exists>c'. handle_connection reach push c st = (Inr \<lparr> link = l, sent_up = [], early = [] \<rparr>, c', st') \<and>
    arriving c' = []"
proof -
  let ?b = "as_bytes (connect_line t) @ CRLF2 @ x"
  define d where "d = c \<lparr> clock := max (clock c) when_at, inbox := [] \<rparr>"
  have r: "read_by (clock c + INITIAL_READ_TIMEOUT) 4096 c = (Got ?b, d)"
    using assms(1-3) by (simp add: read_by_def d_def)
  have hd: "?b \<noteq> []" "hd ?b = 67" by (simp_all add: connect_line_def as_bytes_def)
  have "\<forall>ch\<in>set (connect_line t). printable ch"
    using assms(4) by (auto simp: connect_line_def printable_def graphic_def)
  then have "find_header_end ?b \<noteq> None"
    using find_header_end_line [OF printable_as_bytes] by blast
  then have "read_head dl ?b d = (Inr ?b, d)" for dl
    by (subst read_head.simps) simp
  then have "handle_http reach push ?b d st = handle_http_connect reach t d st"
    by (simp add: handle_http_def parse_connect [OF assms(4,5)] del: append_assoc)
  moreover have "handle_connection reach push c st = handle_http reach push ?b d st"
    using r hd by (simp add: handle_connection_def del: append_is_Nil_conv)
  ultimately show ?thesis
    using assms(6,7) by (simp add: handle_http_connect_def send_client_def d_def)
qed

theorem connect_drops_early_data_witness:
  "let c = \<lparr> clock = 0, inbox = [(5, as_bytes (connect_line ''a:1'') @ CRLF2 @ [0x16, 0x03])], tail = None,
       writable = True, outbox = [], pending = [] \<rparr>
   in \<exists>c'. handle_connection (\<lambda>t s. (Inr t, s)) (\<lambda>l. True) c () =
       (Inr \<lparr> link = ''a:1'', sent_up = [], early = [] \<rparr>, c', ()) \<and> arriving c' = []"
  unfolding Let_def
  by (rule connect_drops_early_data [where when_at = 5 and t = "''a:1''" and x = "[0x16, 0x03]"])
    (simp_all add: INITIAL_READ_TIMEOUT_def connect_line_def CRLF2_def graphic_def)

end
