(* ===== verification/Relay.thy ===== *)
theory Relay
  imports HttpProxy
begin

text \<open>
  The two-way copy between an application and the remote side, \<open>relay_bidirectional\<close> of
  \<open>hydra-core/src/proxy.rs\<close>. Each direction is a task that copies what it reads; which of
  its writes succeed is an argument. The parent waits for the first task to end and gives the
  other a limited time or aborts it.
\<close>

definition RELAY_BUF :: nat where "RELAY_BUF = 16 * 1024"
definition RELAY_DRAIN_TIMEOUT :: nat where "RELAY_DRAIN_TIMEOUT = 30 * 1000"
definition RELAY_DOWN_FIN_DRAIN :: nat where "RELAY_DOWN_FIN_DRAIN = 5 * 1000"

datatype relay_error = Transport | LocalIo

text \<open>How a task ends: with the number of bytes copied, with an error, or in a panic.\<close>

datatype task_end = Copied nat | Fault relay_error | Panicked

fun join_relay_result :: "task_end \<Rightarrow> relay_error option" where
  "join_relay_result (Copied _) = None"
| "join_relay_result (Fault e) = Some e"
| "join_relay_result Panicked = Some Transport"

section \<open>One direction\<close>

text \<open>What a write does: it takes some time and succeeds or fails, or it never returns
  (\<open>None\<close>), as when the peer stops reading.\<close>

type_synonym write_result = "(nat \<times> bool) option"

text \<open>A write of a task: when it started, when and how it ended, and its bytes.\<close>

type_synonym write_event = "nat \<times> (nat \<times> bool) option \<times> byte list"

text \<open>What a direction does: its writes, the increments it reports to the registry, whether it
  closes the writing side, and when and how it ends (\<open>None\<close> when it never would).\<close>

record pump =
  wrote :: "write_event list"
  counted :: "nat list"
  shut :: bool
  ending :: "(nat \<times> task_end) option"

text \<open>The pieces a buffer of 16 KiB reads from the segments that arrive.\<close>

function pieces :: "byte list \<Rightarrow> byte list list" where
  "pieces b = (if b = [] then [] else take RELAY_BUF b # pieces (drop RELAY_BUF b))"
  by pat_completeness auto
termination
  by (relation "measure length") (auto simp: RELAY_BUF_def)

declare pieces.simps [simp del]

definition reads :: "(nat \<times> byte list) list \<Rightarrow> (nat \<times> byte list) list" where
  "reads segs = concat (map (\<lambda>(at, b). map (Pair at) (pieces b)) segs)"

text \<open>The loop of a task that is ready to read at \<open>now\<close>: a piece that has not arrived is waited
  for, then written before the next one is read. At the end of the data the upward task shuts
  its writing side down, which may take its time too.\<close>

fun copy_loop ::
  "(nat \<Rightarrow> write_result) \<Rightarrow> relay_error \<Rightarrow> relay_error \<Rightarrow> bool \<Rightarrow> (nat \<times> stream_end) option \<Rightarrow>
    nat \<Rightarrow> nat \<Rightarrow> nat \<Rightarrow> (nat \<times> byte list) list \<Rightarrow> pump" where
  "copy_loop wr rd_err wr_err closes fin now i tot [] =
    (case fin of
       None \<Rightarrow> \<lparr> wrote = [], counted = [], shut = False, ending = None \<rparr>
     | Some (at, Eof) \<Rightarrow>
         \<lparr> wrote = [], counted = [], shut = closes,
           ending = (if closes then map_option (\<lambda>(d, ok). (max now at + d, Copied tot)) (wr i)
                     else Some (max now at, Copied tot)) \<rparr>
     | Some (at, Reset) \<Rightarrow>
         \<lparr> wrote = [], counted = [], shut = False, ending = Some (max now at, Fault rd_err) \<rparr>)"
| "copy_loop wr rd_err wr_err closes fin now i tot ((at, p) # ps) =
    (let s = max now at in
     case wr i of
       None \<Rightarrow> \<lparr> wrote = [(s, None, p)], counted = [length p], shut = False, ending = None \<rparr>
     | Some (d, True) \<Rightarrow>
         (let q = copy_loop wr rd_err wr_err closes fin (s + d) (Suc i) (tot + length p) ps
          in q \<lparr> wrote := (s, Some (s + d, True), p) # wrote q, counted := length p # counted q \<rparr>)
     | Some (d, False) \<Rightarrow>
         \<lparr> wrote = [(s, Some (s + d, False), p)], counted = [length p], shut = False,
           ending = Some (s + d, Fault wr_err) \<rparr>)"

text \<open>The upward task writes the early data first; an error of the remote side is \<open>LocalIo\<close>
  on a direct link, \<open>Transport\<close> on a node link, and every error of the application is
  \<open>Transport\<close>.\<close>

definition up_task ::
  "bool \<Rightarrow> (nat \<Rightarrow> write_result) \<Rightarrow> nat \<Rightarrow> byte list \<Rightarrow> (nat \<times> byte list) list \<Rightarrow>
    (nat \<times> stream_end) option \<Rightarrow> pump" where
  "up_task direct wr start pre segs fin =
    (let wr_err = (if direct then LocalIo else Transport) in
     if pre = [] then copy_loop wr Transport wr_err True fin start 0 0 (reads segs)
     else
       (case wr 0 of
          None \<Rightarrow> \<lparr> wrote = [(start, None, pre)], counted = [], shut = False, ending = None \<rparr>
        | Some (d, True) \<Rightarrow>
            (let q = copy_loop wr Transport wr_err True fin (start + d) 1 (length pre) (reads segs)
             in q \<lparr> wrote := (start, Some (start + d, True), pre) # wrote q, counted := length pre # counted q \<rparr>)
        | Some (d, False) \<Rightarrow>
            \<lparr> wrote = [(start, Some (start + d, False), pre)], counted = [], shut = False,
              ending = Some (start + d, Fault wr_err) \<rparr>))"

definition down_task ::
  "bool \<Rightarrow> (nat \<Rightarrow> write_result) \<Rightarrow> nat \<Rightarrow> (nat \<times> byte list) list \<Rightarrow> (nat \<times> stream_end) option \<Rightarrow> pump" where
  "down_task direct wr start segs fin =
    copy_loop wr (if direct then LocalIo else Transport) Transport False fin start 0 0 (reads segs)"

text \<open>The bytes a task has handed over when it is looked at, or aborted, at time \<open>T\<close>: those of
  the writes that had returned, and of a write that was under way or failed some number \<open>k\<close>.\<close>

fun bytes_by :: "nat \<Rightarrow> nat \<Rightarrow> write_event \<Rightarrow> byte list" where
  "bytes_by T k (s, res, b) =
    (if T < s then []
     else case res of
       Some (f, True) \<Rightarrow> if f \<le> T then b else take k b
     | _ \<Rightarrow> take k b)"

definition sent_by :: "nat \<Rightarrow> nat \<Rightarrow> pump \<Rightarrow> byte list" where
  "sent_by T k q = concat (map (bytes_by T k) (wrote q))"

section \<open>The parent\<close>

text \<open>A task that ends by itself does so at a time; \<open>None\<close> is one that never would.\<close>

type_synonym running = "(nat \<times> task_end) option"

datatype fate = Joined | Aborted

record relay_end =
  ended_at :: nat
  outcome :: "unit res"
  up_fate :: fate
  down_fate :: fate

fun relay_error_of :: "relay_error \<Rightarrow> hydra_error" where
  "relay_error_of Transport = ConnectionError ''relay transport failure''"
| "relay_error_of LocalIo = ConnectionError ''direct target IO failure''"

text \<open>\<open>tokio::time::timeout(d, task)\<close> entered at time \<open>t\<close>.\<close>

definition wait_task :: "nat \<Rightarrow> nat \<Rightarrow> running \<Rightarrow> (nat \<times> task_end) option" where
  "wait_task t d task =
    (case task of Some (at, e) \<Rightarrow> if at \<le> t + d then Some (max t at, e) else None | None \<Rightarrow> None)"

definition after_up :: "nat \<Rightarrow> task_end \<Rightarrow> running \<Rightarrow> relay_end" where
  "after_up t e down =
    (case join_relay_result e of
       None \<Rightarrow>
         (case wait_task t RELAY_DRAIN_TIMEOUT down of
            Some (t', Copied _) \<Rightarrow> \<lparr> ended_at = t', outcome = Inr (), up_fate = Joined, down_fate = Joined \<rparr>
          | Some (t', Fault x) \<Rightarrow>
              \<lparr> ended_at = t', outcome = Inl (relay_error_of x), up_fate = Joined, down_fate = Joined \<rparr>
          | Some (t', Panicked) \<Rightarrow>
              \<lparr> ended_at = t', outcome = Inl (ConnectionError ''relay task panicked''),
                up_fate = Joined, down_fate = Joined \<rparr>
          | None \<Rightarrow>
              \<lparr> ended_at = t + RELAY_DRAIN_TIMEOUT, outcome = Inl (ConnectionError ''relay drain timeout''),
                up_fate = Joined, down_fate = Aborted \<rparr>)
     | Some x \<Rightarrow>
         \<lparr> ended_at = t, outcome = Inl (relay_error_of x), up_fate = Joined, down_fate = Aborted \<rparr>)"

definition after_down :: "nat \<Rightarrow> task_end \<Rightarrow> running \<Rightarrow> relay_end" where
  "after_down t e up =
    (case join_relay_result e of
       None \<Rightarrow>
         (case wait_task t RELAY_DOWN_FIN_DRAIN up of
            Some (t', e') \<Rightarrow>
              \<lparr> ended_at = t', outcome = (case join_relay_result e' of Some x \<Rightarrow> Inl (relay_error_of x) | None \<Rightarrow> Inr ()),
                up_fate = Joined, down_fate = Joined \<rparr>
          | None \<Rightarrow>
              \<lparr> ended_at = t + RELAY_DOWN_FIN_DRAIN, outcome = Inr (), up_fate = Aborted, down_fate = Joined \<rparr>)
     | Some x \<Rightarrow>
         \<lparr> ended_at = t, outcome = Inl (relay_error_of x), up_fate = Aborted, down_fate = Joined \<rparr>)"

text \<open>\<open>select!\<close> takes the task that ends first; \<open>up_wins\<close> decides when both are ready.\<close>

definition relay_bidirectional :: "bool \<Rightarrow> running \<Rightarrow> running \<Rightarrow> relay_end option" where
  "relay_bidirectional up_wins up down =
    (case (up, down) of
       (None, None) \<Rightarrow> None
     | (Some (t, e), None) \<Rightarrow> Some (after_up t e down)
     | (None, Some (t, e)) \<Rightarrow> Some (after_down t e up)
     | (Some (tu, eu), Some (td, ed)) \<Rightarrow>
         if tu < td \<or> (tu = td \<and> up_wins) then Some (after_up tu eu down)
         else Some (after_down td ed up))"

text \<open>The whole function: both tasks start at \<open>start\<close>, with the early data for the upward one.\<close>

definition relay ::
  "bool \<Rightarrow> bool \<Rightarrow> (nat \<Rightarrow> write_result) \<Rightarrow> (nat \<Rightarrow> write_result) \<Rightarrow> nat \<Rightarrow> byte list \<Rightarrow>
    (nat \<times> byte list) list \<times> (nat \<times> stream_end) option \<Rightarrow>
    (nat \<times> byte list) list \<times> (nat \<times> stream_end) option \<Rightarrow> pump \<times> pump \<times> relay_end option" where
  "relay up_wins direct wu wd start pre app remote =
    (let up = up_task direct wu start pre (fst app) (snd app);
         down = down_task direct wd start (fst remote) (snd remote)
     in (up, down, relay_bidirectional up_wins (ending up) (ending down)))"

section \<open>What a direction copies\<close>

lemma concat_pieces [simp]: "concat (pieces b) = b"
proof (induction b rule: pieces.induct)
  case (1 b)
  then show ?case by (subst pieces.simps) simp
qed

lemma concat_reads [simp]: "concat (map snd (reads segs)) = concat (map snd segs)"
  by (induction segs) (auto simp: reads_def comp_def)

lemma sent_by_simps [simp]:
  "sent_by T k (q \<lparr> wrote := ws, counted := cs \<rparr>) = concat (map (bytes_by T k) ws)"
  by (simp add: sent_by_def)

lemma copy_loop_starts:
  "(s, res, b) \<in> set (wrote (copy_loop wr re we cl fin now i tot ps)) \<Longrightarrow> now \<le> s"
proof (induction ps arbitrary: now i tot)
  case Nil
  then show ?case by (auto split: option.splits stream_end.splits prod.splits)
next
  case (Cons p ps)
  obtain at b' where p: "p = (at, b')" by fastforce
  show ?case
  proof (cases "\<exists>d. wr i = Some (d, True)")
    case True
    then obtain d where "wr i = Some (d, True)" by blast
    then show ?thesis using Cons.prems Cons.IH [of "max now at + d" "Suc i" "tot + length b'"]
      by (auto simp: p Let_def)
  next
    case False
    then show ?thesis using Cons.prems by (auto simp: p Let_def split: option.splits prod.splits bool.splits)
  qed
qed

lemma not_started:
  assumes "T < now" shows "sent_by T k (copy_loop wr re we cl fin now i tot ps) = []"
  using assms copy_loop_starts [of _ _ _ wr re we cl fin now i tot ps]
  by (fastforce simp: sent_by_def)

lemma prefix_takes: "prefix (take k p) (p @ x)"
  by (metis prefix_def append_assoc append_take_drop_id)

lemma copy_loop_sends:
  "prefix (sent_by T k (copy_loop wr re we cl fin now i tot ps)) (concat (map snd ps))"
proof (induction ps arbitrary: now i tot)
  case Nil
  then show ?case by (auto simp: sent_by_def split: option.splits stream_end.splits)
next
  case (Cons p ps)
  obtain at b where p: "p = (at, b)" by fastforce
  show ?case
  proof (cases "\<exists>d. wr i = Some (d, True)")
    case True
    then obtain d where d: "wr i = Some (d, True)" by blast
    let ?q = "copy_loop wr re we cl fin (max now at + d) (Suc i) (tot + length b) ps"
    have "sent_by T k (copy_loop wr re we cl fin now i tot (p # ps)) =
        bytes_by T k (max now at, Some (max now at + d, True), b) @ sent_by T k ?q"
      by (simp add: p d Let_def) (simp add: sent_by_def)
    then show ?thesis
      using Cons [of "max now at + d" "Suc i" "tot + length b"] not_started [of T "max now at + d" k]
      by (auto simp: p prefix_takes)
  next
    case False
    then show ?thesis
      by (auto simp: p Let_def sent_by_def prefix_takes split: option.splits prod.splits bool.splits)
  qed
qed

lemma copy_loop_copied:
  assumes "ending (copy_loop wr re we cl fin now i tot ps) = Some (f, Copied n)" "f \<le> T"
  shows "now \<le> f \<and> sent_by T k (copy_loop wr re we cl fin now i tot ps) = concat (map snd ps) \<and>
    n = tot + length (concat (map snd ps)) \<and>
    sum_list (counted (copy_loop wr re we cl fin now i tot ps)) = length (concat (map snd ps)) \<and>
    shut (copy_loop wr re we cl fin now i tot ps) = cl \<and> (\<exists>at. fin = Some (at, Eof))"
  using assms
proof (induction ps arbitrary: now i tot)
  case Nil
  then show ?case by (auto simp: sent_by_def split: option.splits stream_end.splits prod.splits if_splits)
next
  case (Cons p ps)
  obtain at b where p: "p = (at, b)" by fastforce
  obtain d where d: "wr i = Some (d, True)"
    using Cons.prems(1) by (auto simp: p Let_def split: option.splits prod.splits bool.splits)
  let ?q = "copy_loop wr re we cl fin (max now at + d) (Suc i) (tot + length b) ps"
  have q: "ending ?q = Some (f, Copied n)" using Cons.prems(1) by (simp add: p d Let_def)
  have "sent_by T k (copy_loop wr re we cl fin now i tot (p # ps)) =
      bytes_by T k (max now at, Some (max now at + d, True), b) @ sent_by T k ?q"
    by (simp add: p d Let_def) (simp add: sent_by_def)
  then show ?case using Cons.IH [OF q Cons.prems(2)] Cons.prems(2) by (auto simp: p d Let_def)
qed

lemma copy_loop_ends:
  assumes "\<And>j. \<exists>d. wr j = Some (d, True)" "fin = Some (at, Eof)"
  shows "\<exists>f n. ending (copy_loop wr re we cl fin now i tot ps) = Some (f, Copied n)"
proof (induction ps arbitrary: now i tot)
  case Nil
  from assms(1) [of i] obtain d where "wr i = Some (d, True)" by blast
  then show ?case using assms(2) by simp
next
  case (Cons p ps)
  from assms(1) [of i] obtain d where d: "wr i = Some (d, True)" by blast
  obtain t b where p: "p = (t, b)" by fastforce
  show ?case using Cons [of "max now t + d" "Suc i" "tot + length b"] by (simp add: p d Let_def)
qed

lemma up_task_sends:
  "prefix (sent_by T k (up_task direct wr start pre segs fin)) (pre @ concat (map snd segs))"
proof (cases "pre = [] \<or> (\<forall>d. wr 0 \<noteq> Some (d, True))")
  case True
  then show ?thesis
    using copy_loop_sends [of T k wr Transport "if direct then LocalIo else Transport" True fin start 0 0 "reads segs"]
    by (cases "pre = []") (auto simp: up_task_def Let_def sent_by_def prefix_takes split: option.splits bool.splits)
next
  case False
  then obtain d where d: "wr 0 = Some (d, True)" "pre \<noteq> []" by blast
  let ?q = "copy_loop wr Transport (if direct then LocalIo else Transport) True fin (start + d) 1 (length pre) (reads segs)"
  have "sent_by T k (up_task direct wr start pre segs fin) =
      bytes_by T k (start, Some (start + d, True), pre) @ sent_by T k ?q"
    by (simp add: up_task_def d Let_def) (simp add: sent_by_def)
  moreover have "prefix (sent_by T k ?q) (concat (map snd segs))"
    using copy_loop_sends [of T k wr Transport "if direct then LocalIo else Transport" True fin "start + d" 1
      "length pre" "reads segs"] by simp
  ultimately show ?thesis
    using not_started [of T "start + d" k] by (auto simp: prefix_takes)
qed

lemma up_task_copied:
  assumes "ending (up_task direct wr start pre segs fin) = Some (f, Copied n)" "f \<le> T"
  shows "sent_by T k (up_task direct wr start pre segs fin) = pre @ concat (map snd segs) \<and>
    n = length (pre @ concat (map snd segs)) \<and> sum_list (counted (up_task direct wr start pre segs fin)) = n \<and>
    shut (up_task direct wr start pre segs fin) \<and> (\<exists>at. fin = Some (at, Eof))"
proof (cases "pre = []")
  case True
  then show ?thesis using assms
      copy_loop_copied [of wr Transport "if direct then LocalIo else Transport" True fin start 0 0 "reads segs" f n T k]
    by (simp add: up_task_def)
next
  case False
  then obtain d where d: "wr 0 = Some (d, True)"
    using assms(1) by (auto simp: up_task_def Let_def split: option.splits prod.splits bool.splits)
  let ?q = "copy_loop wr Transport (if direct then LocalIo else Transport) True fin (start + d) 1 (length pre) (reads segs)"
  have q: "ending ?q = Some (f, Copied n)" using assms(1) False by (simp add: up_task_def d Let_def)
  have "sent_by T k (up_task direct wr start pre segs fin) =
      bytes_by T k (start, Some (start + d, True), pre) @ sent_by T k ?q"
    using False by (simp add: up_task_def d Let_def) (simp add: sent_by_def)
  then show ?thesis using copy_loop_copied [OF q assms(2), of k] False assms(2)
    by (auto simp: up_task_def d Let_def)
qed

lemma up_task_ends:
  assumes "\<And>j. \<exists>d. wr j = Some (d, True)" "fin = Some (at, Eof)"
  shows "\<exists>f n. ending (up_task direct wr start pre segs fin) = Some (f, Copied n)"
proof -
  from assms(1) [of 0] obtain d where "wr 0 = Some (d, True)" by blast
  then show ?thesis
    using copy_loop_ends [of wr fin at Transport "if direct then LocalIo else Transport" True, OF assms]
    by (simp add: up_task_def Let_def)
qed

section \<open>How the parent ends\<close>

text \<open>The direction that ended first ended at \<open>t\<close> as \<open>x\<close>; the other one is given \<open>limit\<close>.\<close>

definition settles :: "running \<Rightarrow> fate \<Rightarrow> nat \<Rightarrow> nat \<Rightarrow> task_end \<Rightarrow> nat \<Rightarrow> bool" where
  "settles other f limit t x T \<longleftrightarrow>
     (\<forall>t' y. other = Some (t', y) \<longrightarrow> t \<le> t') \<and> t \<le> T \<and> T \<le> t + limit \<and>
     (f = Joined \<longleftrightarrow> (\<exists>n. x = Copied n) \<and> (\<exists>t' y. other = Some (t', y) \<and> t' \<le> t + limit)) \<and>
     (f = Joined \<longrightarrow> (\<exists>y. other = Some (T, y))) \<and>
     (f = Aborted \<longrightarrow> T = (if \<exists>n. x = Copied n then t + limit else t))"

definition ends_ok :: "running \<Rightarrow> running \<Rightarrow> relay_end \<Rightarrow> bool" where
  "ends_ok up down e \<longleftrightarrow>
     (is_ok (outcome e) \<longleftrightarrow>
        (up_fate e = Joined \<longrightarrow> (\<exists>t n. up = Some (t, Copied n))) \<and> down_fate e = Joined \<and>
        (\<exists>t n. down = Some (t, Copied n)))"

lemma after_up_settles:
  assumes "up = Some (t, x)" "\<And>t' y. down = Some (t', y) \<Longrightarrow> t \<le> t'"
  shows "up_fate (after_up t x down) = Joined \<and>
    settles down (down_fate (after_up t x down)) 30000 t x (ended_at (after_up t x down)) \<and>
    ends_ok up down (after_up t x down)"
proof (cases x)
  case (Copied n)
  show ?thesis
  proof (cases "wait_task t RELAY_DRAIN_TIMEOUT down")
    case None
    then have "\<nexists>t' y. down = Some (t', y) \<and> t' \<le> t + 30000"
      by (auto simp: wait_task_def RELAY_DRAIN_TIMEOUT_def)
    then show ?thesis using None assms
      by (auto simp: settles_def ends_ok_def after_up_def Copied RELAY_DRAIN_TIMEOUT_def)
  next
    case (Some q)
    then obtain at y where "down = Some (at, y)" "q = (max t at, y)" "at \<le> t + 30000"
      by (auto simp: wait_task_def RELAY_DRAIN_TIMEOUT_def split: option.splits if_splits)
    then show ?thesis using assms Some
      by (cases y) (auto simp: settles_def ends_ok_def after_up_def Copied max_def)
  qed
qed (use assms in \<open>auto simp: settles_def ends_ok_def after_up_def\<close>)

lemma after_down_settles:
  assumes "down = Some (t, x)" "\<And>t' y. up = Some (t', y) \<Longrightarrow> t \<le> t'"
  shows "down_fate (after_down t x up) = Joined \<and>
    settles up (up_fate (after_down t x up)) 5000 t x (ended_at (after_down t x up)) \<and>
    ends_ok up down (after_down t x up)"
proof (cases x)
  case (Copied n)
  show ?thesis
  proof (cases "wait_task t RELAY_DOWN_FIN_DRAIN up")
    case None
    then have "\<nexists>t' y. up = Some (t', y) \<and> t' \<le> t + 5000"
      by (auto simp: wait_task_def RELAY_DOWN_FIN_DRAIN_def)
    then show ?thesis using None assms
      by (auto simp: settles_def ends_ok_def after_down_def Copied RELAY_DOWN_FIN_DRAIN_def)
  next
    case (Some q)
    then obtain at y where "up = Some (at, y)" "q = (max t at, y)" "at \<le> t + 5000"
      by (auto simp: wait_task_def RELAY_DOWN_FIN_DRAIN_def split: option.splits if_splits)
    then show ?thesis using assms Some
      by (cases y) (auto simp: settles_def ends_ok_def after_down_def Copied max_def)
  qed
qed (use assms in \<open>auto simp: settles_def ends_ok_def after_down_def\<close>)

lemma relay_settles:
  assumes "relay_bidirectional up_wins up down = Some e"
  shows "ends_ok up down e \<and> (\<exists>t x.
    (up = Some (t, x) \<and> up_fate e = Joined \<and> settles down (down_fate e) 30000 t x (ended_at e)) \<or>
    (down = Some (t, x) \<and> down_fate e = Joined \<and> settles up (up_fate e) 5000 t x (ended_at e)))"
proof -
  have "\<exists>t x.
    up = Some (t, x) \<and> e = after_up t x down \<and> (\<forall>t' y. down = Some (t', y) \<longrightarrow> t \<le> t') \<or>
    down = Some (t, x) \<and> e = after_down t x up \<and> (\<forall>t' y. up = Some (t', y) \<longrightarrow> t \<le> t')"
  proof (cases up)
    case None
    then show ?thesis using assms by (auto simp: relay_bidirectional_def split: option.splits prod.splits)
  next
    case u: (Some a)
    show ?thesis
    proof (cases "\<exists>d. down = Some d \<and> (fst d < fst a \<or> (fst d = fst a \<and> \<not> up_wins))")
      case True
      then obtain d where d: "down = Some d" "fst d < fst a \<or> (fst d = fst a \<and> \<not> up_wins)" by blast
      then have "e = after_down (fst d) (snd d) up"
        using u assms by (auto simp: relay_bidirectional_def split: prod.splits)
      then show ?thesis using d u by (intro exI [of _ "fst d"] exI [of _ "snd d"]) auto
    next
      case False
      then have "e = after_up (fst a) (snd a) down"
        using u assms by (auto simp: relay_bidirectional_def split: option.splits prod.splits if_splits)
      then show ?thesis using False u
        by (intro exI [of _ "fst a"] exI [of _ "snd a"]) (auto simp: linorder_not_less)
    qed
  qed
  then obtain t x where
    "up = Some (t, x) \<and> e = after_up t x down \<and> (\<forall>t' y. down = Some (t', y) \<longrightarrow> t \<le> t') \<or>
     down = Some (t, x) \<and> e = after_down t x up \<and> (\<forall>t' y. up = Some (t', y) \<longrightarrow> t \<le> t')" by blast
  then show ?thesis
    using after_up_settles [of up t x down] after_down_settles [of down t x up] by blast
qed

text \<open>When the parent waited for the upward task, that task had ended by then.\<close>

lemma joined_up_ended:
  assumes "relay_bidirectional up_wins up down = Some e" "up_fate e = Joined"
  shows "\<exists>f y. up = Some (f, y) \<and> f \<le> ended_at e"
  using relay_settles [OF assms(1)] assms(2) unfolding settles_def by blast

section \<open>Properties\<close>

text \<open>
  C6: end to end, from the first byte of an application to the remote side. What the front end
  takes away is nothing for plain HTTP, exactly the request for SOCKS5, and for CONNECT its head
  with whatever arrived behind it in the one read that completed it; this read, of 4 KiB at most,
  is the only loss. At every moment of the relay, also when it is aborted in the middle of a
  write, what the remote side was sent is a prefix of what the application sent behind that:
  nothing is altered, reordered or duplicated. When the relay ends well and did not cut the
  upward direction off, it is all of it and the writing side was shut down; and when the application ends
  its data and every write returns, the upward direction ends cleanly and is cut off only if
  the remote side failed, or ended its own data more than five seconds before.
\<close>

theorem application_bytes_reach_target:
  assumes "pending c = []" "handle_connection reach push c st = (Inr r, c', st')"
    "relay up_wins direct wu wd (clock c') (early r) (inbox c', tail c') remote = (up, down, fin)"
  shows "\<exists>taken.
    (taken = [] \<or> (\<exists>ms rsv a port. socks_wf ms a \<and> taken = socks_wire ms rsv a port) \<or>
     (\<exists>t before b. parse_request taken = Inr (Connect t) \<and> taken = before @ b \<and>
        find_header_end before = None \<and> length b \<le> 4096)) \<and>
    (\<forall>T k. prefix (taken @ sent_up r @ sent_by T k up) (arriving c)) \<and>
    (\<forall>e k. fin = Some e \<and> is_ok (outcome e) \<and> up_fate e = Joined \<longrightarrow>
       taken @ sent_up r @ sent_by (ended_at e) k up = arriving c \<and> shut up) \<and>
    ((\<forall>j. \<exists>d. wu j = Some (d, True)) \<and> (\<exists>at. tail c' = Some (at, Eof)) \<longrightarrow>
       (\<exists>f n. ending up = Some (f, Copied n) \<and>
          (\<forall>e. fin = Some e \<and> up_fate e = Aborted \<longrightarrow>
             (\<exists>t x. ending down = Some (t, x) \<and> ((\<forall>m. x \<noteq> Copied m) \<or> t + 5000 < f)))))"
proof -
  obtain taken where t: "arriving c = taken @ sent_up r @ early r @ arriving c'"
    and tk: "taken = [] \<or> (\<exists>ms rsv a port. socks_wf ms a \<and> taken = socks_wire ms rsv a port) \<or>
     (\<exists>t before b. parse_request taken = Inr (Connect t) \<and> taken = before @ b \<and>
        find_header_end before = None \<and> length b \<le> 4096)"
    using front_end_bytes [OF assms(1,2)] by blast
  have up: "up = up_task direct wu (clock c') (early r) (inbox c') (tail c')"
    and fin: "fin = relay_bidirectional up_wins (ending up) (ending down)"
    using assms(3) by (auto simp: relay_def Let_def)
  have sends: "prefix (taken @ sent_up r @ sent_by T k up) (arriving c)" for T k
    using up_task_sends [of T k direct wu "clock c'" "early r" "inbox c'" "tail c'"] unfolding up t by simp
  have all: "taken @ sent_up r @ sent_by (ended_at e) k up = arriving c \<and> shut up"
    if e: "fin = Some e" "is_ok (outcome e)" "up_fate e = Joined" for e k
  proof -
    obtain f y where f: "ending up = Some (f, y)" "f \<le> ended_at e"
      using joined_up_ended e(1,3) unfolding fin by blast
    moreover have "ends_ok (ending up) (ending down) e" using relay_settles e(1) unfolding fin by blast
    ultimately obtain n where "ending up = Some (f, Copied n)" using e(2,3) by (auto simp: ends_ok_def)
    from up_task_copied [OF this [unfolded up] f(2), of k] show ?thesis unfolding up t by simp
  qed
  have cut: "\<exists>f n. ending up = Some (f, Copied n) \<and> (\<forall>e. fin = Some e \<and> up_fate e = Aborted \<longrightarrow>
      (\<exists>t x. ending down = Some (t, x) \<and> ((\<forall>m. x \<noteq> Copied m) \<or> t + 5000 < f)))"
    if w: "\<And>j. \<exists>d. wu j = Some (d, True)" and eof: "tail c' = Some (at, Eof)" for at
  proof -
    obtain f n where f: "ending up = Some (f, Copied n)" using up_task_ends [of wu, OF w eof] unfolding up by blast
    have "\<exists>t x. ending down = Some (t, x) \<and> ((\<forall>m. x \<noteq> Copied m) \<or> t + 5000 < f)"
      if e: "fin = Some e" "up_fate e = Aborted" for e
    proof -
      obtain t x where "ending down = Some (t, x)" "settles (ending up) (up_fate e) 5000 t x (ended_at e)"
        using relay_settles [OF e(1) [unfolded fin]] e(2) by auto
      then show ?thesis using e(2) f unfolding settles_def by (metis fate.distinct(1) linorder_not_le)
    qed
    with f show ?thesis by blast
  qed
  show ?thesis by (rule exI [of _ taken]) (use tk sends all cut in blast)
qed

text \<open>
  C29: the relay always ends, and leaves no task behind. Let \<open>t\<close> be when the first direction
  ended. If it failed, the relay ends at once and the other task is aborted. If it was clean,
  the other is waited for, thirty seconds when it is the downward and five when it is the
  upward one: the relay ends exactly when it does, or at that limit, and then, and only then,
  aborts it. It reports success only when the downward direction, and the upward one unless it
  was cut off, ended cleanly.
\<close>

theorem relay_converges:
  "case relay_bidirectional up_wins up down of
     None \<Rightarrow> up = None \<and> down = None
   | Some e \<Rightarrow>
       (\<exists>t x other f limit.
         ((up = Some (t, x) \<and> other = down \<and> up_fate e = Joined \<and> f = down_fate e \<and> limit = 30000) \<or>
          (down = Some (t, x) \<and> other = up \<and> down_fate e = Joined \<and> f = up_fate e \<and> limit = 5000)) \<and>
         (\<forall>t' y. other = Some (t', y) \<longrightarrow> t \<le> t') \<and> t \<le> ended_at e \<and> ended_at e \<le> t + limit \<and>
         (f = Joined \<longleftrightarrow> (\<exists>n. x = Copied n) \<and> (\<exists>t' y. other = Some (t', y) \<and> t' \<le> t + limit)) \<and>
         (f = Joined \<longrightarrow> (\<exists>y. other = Some (ended_at e, y))) \<and>
         (f = Aborted \<longrightarrow> ended_at e = (if \<exists>n. x = Copied n then t + limit else t))) \<and>
       (is_ok (outcome e) \<longleftrightarrow>
          (up_fate e = Joined \<longrightarrow> (\<exists>t n. up = Some (t, Copied n))) \<and> down_fate e = Joined \<and>
          (\<exists>t n. down = Some (t, Copied n)))"
proof (cases "relay_bidirectional up_wins up down")
  case None
  then show ?thesis by (auto simp: relay_bidirectional_def split: option.splits prod.splits if_splits)
next
  case (Some e)
  have "\<exists>t x other f limit.
         ((up = Some (t, x) \<and> other = down \<and> up_fate e = Joined \<and> f = down_fate e \<and> limit = 30000) \<or>
          (down = Some (t, x) \<and> other = up \<and> down_fate e = Joined \<and> f = up_fate e \<and> limit = 5000)) \<and>
         settles other f limit t x (ended_at e)" "ends_ok up down e"
    using relay_settles [OF Some] by blast+
  then show ?thesis unfolding Some option.case settles_def ends_ok_def by blast
qed

theorem relay_converges_witness:
  "case relay_bidirectional True (Some (10, Copied 3)) (Some (20000, Copied 5)) of
     None \<Rightarrow> False | Some e \<Rightarrow> ended_at e = 20000 \<and> is_ok (outcome e)"
  using relay_converges [where up_wins = True and up = "Some (10, Copied 3)" and down = "Some (20000, Copied 5)"]
  by (simp add: relay_bidirectional_def after_up_def wait_task_def RELAY_DRAIN_TIMEOUT_def)

text \<open>An application that sends its CONNECT head, waits, and sends two bytes before it closes.\<close>

definition demo_app :: client where
  "demo_app = \<lparr> clock = 0, inbox = [(5, as_bytes (connect_line ''a:1'') @ CRLF2), (9, [1, 2])], tail = Some (50, Eof),
     writable = True, outbox = [], pending = [] \<rparr>"

lemma demo_app_connects:
  "\<exists>c'. handle_connection (\<lambda>t s. (Inr t, s)) (\<lambda>l. True) demo_app () =
     (Inr \<lparr> link = ''a:1'', sent_up = [], early = [] \<rparr>, c', ()) \<and> clock c' = 5 \<and>
     inbox c' = [(9, [1, 2])] \<and> tail c' = Some (50, Eof)"
proof -
  let ?b = "as_bytes (connect_line ''a:1'') @ CRLF2"
  define d where "d = demo_app \<lparr> clock := 5, inbox := [(9, [1, 2])] \<rparr>"
  have r: "read_by (clock demo_app + INITIAL_READ_TIMEOUT) 4096 demo_app = (Got ?b, d)"
    by (simp add: read_by_def d_def demo_app_def INITIAL_READ_TIMEOUT_def connect_line_def CRLF2_def)
  have h: "?b \<noteq> []" "hd ?b = 67" by (simp_all add: connect_line_def as_bytes_def)
  have g: "\<forall>ch\<in>set ''a:1''. graphic ch" by (simp add: graphic_def)
  then have "\<forall>ch\<in>set (connect_line ''a:1''). printable ch"
    by (auto simp: connect_line_def printable_def graphic_def)
  then have "find_header_end ?b \<noteq> None"
    using find_header_end_line [OF printable_as_bytes, of "connect_line ''a:1''" "[]"] by simp
  then have "read_head dl ?b d = (Inr ?b, d)" for dl by (subst read_head.simps) simp
  then have "handle_http (\<lambda>t s. (Inr t, s)) (\<lambda>l. True) ?b d () = handle_http_connect (\<lambda>t s. (Inr t, s)) ''a:1'' d ()"
    using parse_connect [OF g, of "[]"] by (simp add: handle_http_def)
  moreover have "handle_connection (\<lambda>t s. (Inr t, s)) (\<lambda>l. True) demo_app () =
      handle_http (\<lambda>t s. (Inr t, s)) (\<lambda>l. True) ?b d ()"
    using r h by (simp add: handle_connection_def del: append_is_Nil_conv)
  ultimately show ?thesis
    by (simp add: handle_http_connect_def send_client_def d_def demo_app_def)
qed

theorem application_bytes_reach_target_witness:
  "\<exists>c' up down e. handle_connection (\<lambda>t s. (Inr t, s)) (\<lambda>l. True) demo_app () =
       (Inr \<lparr> link = ''a:1'', sent_up = [], early = [] \<rparr>, c', ()) \<and>
     relay True False (\<lambda>i. Some (1, True)) (\<lambda>i. Some (1, True)) (clock c') [] (inbox c', tail c') ([(20, [7])], Some (60, Eof)) =
       (up, down, Some e) \<and> is_ok (outcome e) \<and> ended_at e = 60 \<and>
     (\<exists>taken. taken @ sent_by 60 0 up = arriving demo_app)"
proof -
  obtain c' where c': "handle_connection (\<lambda>t s. (Inr t, s)) (\<lambda>l. True) demo_app () =
       (Inr \<lparr> link = ''a:1'', sent_up = [], early = [] \<rparr>, c', ())"
    and k: "clock c' = 5" "inbox c' = [(9, [1, 2])]" "tail c' = Some (50, Eof)"
    using demo_app_connects by blast
  have p: "pieces [x] = [[x]]" "pieces [x, y] = [[x, y]]" "pieces [] = []" for x y
    by (subst pieces.simps, simp add: RELAY_BUF_def pieces.simps)+
  obtain up down e where r: "relay True False (\<lambda>i. Some (1, True)) (\<lambda>i. Some (1, True)) (clock c') []
      (inbox c', tail c') ([(20, [7])], Some (60, Eof)) = (up, down, Some e)"
    and e: "is_ok (outcome e)" "ended_at e = 60" "up_fate e = Joined"
    by (simp add: relay_def up_task_def down_task_def reads_def p k Let_def relay_bidirectional_def after_up_def
        wait_task_def RELAY_DRAIN_TIMEOUT_def)
  have "\<exists>taken. taken @ sent_by 60 0 up = arriving demo_app"
    using application_bytes_reach_target [OF _ c', of True False "\<lambda>i. Some (1, True)" "\<lambda>i. Some (1, True)"
      "([(20, [7])], Some (60, Eof))" up down "Some e"] r e by (auto simp: demo_app_def)
  then show ?thesis using c' r e by blast
qed

end
