(* ===== verification/Spec2Isabelle.thy ===== *)
theory Spec2Isabelle
  imports FetchRun NodeConfig NodeCert Subscription Traffic ClientNode TcpServer TcpFrame Handshake Stun Scheduler RoutingRules UdpChannel Pool UdpRelayNode Connections Upstream Relay
begin

text \<open>
  A model of the Hydra multipath proxy (the Rust workspace under \<open>src/\<close>) with the theorems
  that make its core correct. A local application speaks SOCKS5 or HTTP to the client; the
  client decides whether the target is reached directly or through one of several nodes, keeps
  pre-warmed connections to the nodes, authenticates to them with a Noise pre-shared key inside
  TLS, and relays TCP streams and UDP datagrams; the node resolves and filters the target and
  relays to it.

  \<^bold>\<open>Conventions.\<close> Bytes are \<open>8 word\<close>, machine integers words of their width, a Rust string the
  characters of its UTF-8 bytes (\<open>is_str\<close>), a \<open>HashMap\<close> an association list with distinct keys
  (\<open>table_ok\<close>), time a number of milliseconds handed to the function that reads the clock.
  Errors are the values of \<open>hydra_error\<close>, their texts short tags. An \<open>await\<close> is a point where
  an argument (\<open>env\<close>, \<open>others\<close>, an outcome function) decides what the rest of the world does.
  Crates outside the repository (snow, ring, rustls, tokio's sockets, the resolver) are
  arguments, with what the code relies on as named hypotheses.

  \<^bold>\<open>Foundations.\<close>
  \<^item> \<open>HydraPrelude\<close>: \<open>hydra-protocol/src/error.rs\<close>, big-endian integers, hint collections.
  \<^item> \<open>RustStr\<close>: the string functions of the standard library the sources call.
  \<^item> \<open>NetAddr\<close>: addresses, their classification, parsing and printing (\<open>std::net\<close>).
  \<^item> \<open>Tables\<close>: association lists, sorting, and the interface \<open>guarded_table\<close>: an initial state,
    operations, an invariant. It is interpreted for the scheduler, the pool, the UDP channel, the
    DNS cache, the UDP relay, the connection registry, the table of unreachable targets, the
    signalling registry and the node's listener, and gives each of them its invariant over
    every run.
  \<^item> \<open>StreamCodec\<close>: the interface \<open>stream_codec\<close> between an encoder and the reader of the other
    side, interpreted for address frames and for UDP session frames: sequences of frames read
    back as written, and only canonical bytes are read.

  \<^bold>\<open>Protocol crate\<close> (\<open>hydra-protocol/src\<close>).
  \<^item> \<open>TcpFrame\<close> (\<open>tcp_frame.rs\<close>), \<open>UdpFrame\<close> (\<open>udp_frame.rs\<close>): encoders, decoders, stream readers;
    round trips, strictness, every error.
  \<^item> \<open>Auth\<close> (\<open>auth.rs\<close>), \<open>Handshake\<close> (\<open>handshake.rs\<close>): both sides of the handshake as functions of
    the bytes received; two honest ends finish, and the server accepts only the confirmation of
    its own handshake.
  \<^item> \<open>Stun\<close> (\<open>stun.rs\<close>): requests, responses with every attribute, fingerprint, NAT classification.

  \<^bold>\<open>Client\<close> (\<open>hydra-core/src\<close>).
  \<^item> \<open>Scheduler\<close> (\<open>scheduler.rs\<close>, \<open>session.rs\<close>): node table and ranking over exact reals.
  \<^item> \<open>Routing\<close> (\<open>routing.rs\<close>), \<open>RoutingRules\<close> (\<open>routing_rules.rs\<close>): the switch and the domain
    table; rule files, CIDR index, GeoIP table, decisions. The index is proved equal to a
    linear scan of the rules in sorted order, which is not always the order of the file. An
    overflowing shift has the value of a release build.
  \<^item> \<open>Pool\<close> (\<open>pool.rs\<close>): warm connections per node.
  \<^item> \<open>Connections\<close> (\<open>connections.rs\<close>): the registry as an explicit store of shared entries, refined
    to a list of values (\<open>registry_refines\<close>); taking an identifier and adding its entry are one step.
  \<^item> \<open>UdpChannel\<close> (\<open>udp_relay.rs\<close>): local sessions multiplexed over one channel.
  \<^item> \<open>ProxyInput\<close>, \<open>Socks5\<close>, \<open>HttpProxy\<close>, \<open>Upstream\<close>, \<open>Relay\<close> (\<open>proxy.rs\<close>, \<open>socket_protect.rs\<close>):
    an application's connection as segments with arrival times; the SOCKS5 and HTTP front ends;
    the candidate loop over the nodes with pool, failover and scheduler; direct connections;
    the two-way relay, whose tasks read and write at given times and may be aborted in the
    middle of a write, and its supervision. \<open>application_bytes_reach_target\<close> follows the bytes from
    the first segment to the remote side and says which may be lost.

  \<^item> \<open>TcpTransport\<close> (\<open>tcp_transport.rs\<close>, \<open>transport.rs\<close>): trust, the cache of TLS connectors, the TLS
    and Noise connection and the request of a target, on \<open>TimedReader\<close>, readers of a timed
    stream under a time limit. \<open>ClientNode\<close> joins it to the node's listener: what the one sends
    the other accepts.
  \<^item> \<open>ShareLink\<close> (\<open>share_link.rs\<close>), \<open>Subscription\<close> (\<open>subscription.rs\<close>): links of nodes as text, typed
    imports, round trips; every line of a subscription accounted for. \<open>Traffic\<close> (\<open>traffic.rs\<close>): the counters, and
    the gauge against the connections that are really open.

  \<^bold>\<open>Node\<close> (\<open>hydra-node/src\<close>).
  \<^item> \<open>Ssrf\<close> (\<open>handler.rs\<close>): the target filter and, from the end of the lookup on, the race over
    the permitted addresses.
  \<^item> \<open>DnsCache\<close> (\<open>dns_cache.rs\<close>), \<open>DnsAaaa\<close> (\<open>dns_aaaa.rs\<close>): cached resolution; local AAAA answers.
  \<^item> \<open>UdpNodeTable\<close>, \<open>UdpRelayNode\<close> (\<open>udp_relay.rs\<close>): the session table; tasks, reaper and serving
    loop with an invariant over every interleaving.

  \<^item> \<open>TcpServer\<close> (\<open>tcp_server.rs\<close>): the limits of the listener, the steps of a connection from TLS to
    the confirmed handshake and its service, the two pumps of a relay. \<open>Signal\<close> (\<open>signal.rs\<close>): the
    registry of peers, invitations and their rate.
  \<^item> \<open>NodeMetrics\<close> (\<open>metrics.rs\<close>), \<open>NodeHttp\<close> (\<open>health.rs\<close>, \<open>fallback.rs\<close>): counters, histogram, the
    health endpoint and the page for probers, with its date.
  \<^item> \<open>NodeConfig\<close> (\<open>config.rs\<close>, \<open>server.rs\<close>, \<open>main.rs\<close>): the layers of the configuration and the start.
    \<open>NodeCert\<close> (\<open>cert.rs\<close>): the two files of the node's identity over any starts and faults.

  \<^bold>\<open>Downloader\<close> (\<open>hydra-fetch/src\<close>).
  \<^item> \<open>FetchHttp\<close> (\<open>http.rs\<close>): requests, response heads and the three framings of a body; a chunked
    body is read back exactly.
  \<^item> \<open>FetchState\<close> (\<open>state.rs\<close>), \<open>FetchEngine\<close> (\<open>engine.rs\<close>, \<open>probe.rs\<close>): blocks and the state of a
    resumable download; tunnels, the probe with its redirects, one block into the file.
  \<^item> \<open>FetchRun\<close> (\<open>download.rs\<close>): workers over the shared queue, rounds, resumption, the single
    stream and the placing of the file. \<open>download_correct\<close> follows the bytes from the answers of
    the target to the output. A write may be reported by a later call only, or never; the ghost
    fields \<open>lost\<close> and \<open>d_lost\<close>, which nothing reads, record that one was never reported. The
    program sets no time limits, so every attempt may wait forever: its worker is then \<open>Stuck\<close>,
    and the result of the download \<open>None\<close>. \<open>round_ends\<close> bounds the steps of a round, so the
    fuel of \<open>run_round\<close> suffices.

  \<^bold>\<open>Loops and bounds.\<close> Loops are structural recursion or \<open>function\<close>s with a measure (the length
  of what is left to read or to evict); \<open>trim_fuel\<close> gets the length of the string, and each of
  its rounds removes a character. No theorem depends on fuel that might run out.

  \<^bold>\<open>Not modelled.\<close> Floating point is exact real arithmetic, so ties caused by rounding are not
  seen. Log lines and socket options are left out. Not modelled as components: NAT traversal
  (\<open>nat.rs\<close>), speed tests and their history, the TUN device (\<open>tun.rs\<close>), the command lines of the
  client and the downloader, the Android bindings and the graphical client. The first three
  talk to sockets and devices throughout and their timing is their content; the rest is glue
  around the components above or user interface.
\<close>

end
